(* ===== verification/Prelude.thy ===== *)
theory Prelude
  imports Complex_Main "HOL-Library.Sublist"
begin

text \<open>
  Shared vocabulary of the development: Python's exceptions as values, state-passing
  actions that may raise, and Python's insertion-ordered \<open>dict\<close> as an association list.
  Every raise of the source is \<open>Inl\<close> of a \<open>pyexc\<close>, every return is \<open>Inr\<close>.
  The collections \<open>dict_simps\<close> and \<open>exec_simps\<close> carry the component proofs.
\<close>

named_theorems dict_simps \<open>facts on insertion-ordered dictionaries\<close>
named_theorems exec_simps \<open>equations that run the state-passing models\<close>

section \<open>Exceptions and actions\<close>

text \<open>
  A Python exception as the code reads it: its \<open>sqlstate\<close> attribute (\<open>getattr(exc,
  "sqlstate", None)\<close>), the class names of its MRO (most derived first), \<open>str(exc)\<close> and the
  driver's \<open>diag.constraint_name\<close>.
\<close>

record pyexc =
  sqlstate :: "string option"
  mro :: "string list"
  message :: string
  diag_constraint :: "string option"

definition is_exception :: "pyexc \<Rightarrow> bool" where
  "is_exception e = (''Exception'' \<in> set (mro e))"

type_synonym ('s, 'a) action = "'s \<Rightarrow> (pyexc + 'a) \<times> 's"

definition raise_named :: "string \<Rightarrow> string \<Rightarrow> pyexc" where
  "raise_named cls msg = \<lparr>sqlstate = None, mro = [cls, ''Exception'', ''BaseException''], message = msg,
     diag_constraint = None\<rparr>"

lemma raise_named_simps [simp]:
  "sqlstate (raise_named c m) = None"
  "mro (raise_named c m) = [c, ''Exception'', ''BaseException'']"
  "message (raise_named c m) = m"
  "diag_constraint (raise_named c m) = None"
  "is_exception (raise_named c m)"
  by (simp_all add: raise_named_def is_exception_def)

definition is_ok :: "pyexc + 'a \<Rightarrow> bool" where
  "is_ok r = (case r of Inl _ \<Rightarrow> False | Inr _ \<Rightarrow> True)"

lemma is_ok_simps [simp]: "is_ok (Inl e) = False" "is_ok (Inr a) = True"
  by (simp_all add: is_ok_def)

lemma is_ok_iff: "is_ok r \<longleftrightarrow> (\<exists>a. r = Inr a)"
  by (cases r) auto

section \<open>Insertion-ordered dictionaries\<close>

type_synonym ('k, 'v) pydict = "('k \<times> 'v) list"

abbreviation dict_ok :: "('k, 'v) pydict \<Rightarrow> bool" where
  "dict_ok d \<equiv> distinct (map fst d)"

text \<open>\<open>d[k] = v\<close>: an existing key keeps its position, a new one goes last.\<close>

fun dict_set :: "'k \<Rightarrow> 'v \<Rightarrow> ('k, 'v) pydict \<Rightarrow> ('k, 'v) pydict" where
  "dict_set k v [] = [(k, v)]"
| "dict_set k v ((a, b) # d) = (if a = k then (k, v) # d else (a, b) # dict_set k v d)"

text \<open>\<open>d.pop(k, None)\<close>.\<close>

definition dict_pop :: "'k \<Rightarrow> ('k, 'v) pydict \<Rightarrow> ('k, 'v) pydict" where
  "dict_pop k d = filter (\<lambda>(a, b). a \<noteq> k) d"

lemma map_of_dict_set [dict_simps, simp]: "map_of (dict_set k v d) = (map_of d)(k \<mapsto> v)"
  by (induction d) auto

lemma set_fst_dict_set [dict_simps, simp]: "fst ` set (dict_set k v d) = insert k (fst ` set d)"
  by (induction k v d rule: dict_set.induct) auto

lemma dict_ok_dict_set [dict_simps, simp]: "dict_ok d \<Longrightarrow> dict_ok (dict_set k v d)"
  by (induction k v d rule: dict_set.induct) auto

lemma set_dict_set: "dict_ok d \<Longrightarrow> set (dict_set k v d) = {p \<in> set d. fst p \<noteq> k} \<union> {(k, v)}"
proof (induction k v d rule: dict_set.induct)
  case (2 k v a b d)
  then show ?case by (cases "a = k") (auto simp: image_iff)
qed simp

lemma map_of_dict_pop [dict_simps, simp]: "map_of (dict_pop k d) = (map_of d)(k := None)"
  by (induction d) (auto simp: dict_pop_def fun_eq_iff)

lemma dict_pop_Nil [simp]: "dict_pop k [] = []"
  by (simp add: dict_pop_def)

lemma dict_pop_Cons [simp]:
  "dict_pop k ((a, b) # d) = (if a = k then dict_pop k d else (a, b) # dict_pop k d)"
  by (simp add: dict_pop_def)

lemma set_dict_pop: "set (dict_pop k d) = {p \<in> set d. fst p \<noteq> k}"
  by (auto simp: dict_pop_def)

lemma dict_ok_dict_pop [dict_simps, simp]: "dict_ok d \<Longrightarrow> dict_ok (dict_pop k d)"
  by (induction d) (auto simp: dict_pop_def image_iff)

lemma dict_pop_absent: "k \<notin> fst ` set d \<Longrightarrow> dict_pop k d = d"
  by (induction d) auto

lemma dict_set_absent: "k \<notin> fst ` set d \<Longrightarrow> dict_set k v d = d @ [(k, v)]"
  by (induction d) auto

lemma dict_ok_snoc: "dict_ok (dict_pop k d @ [(k, v)]) \<longleftrightarrow> dict_ok (dict_pop k d)"
  by (auto simp: dict_pop_def)

lemma map_of_eq_Some_iff_mem: "dict_ok d \<Longrightarrow> map_of d k = Some v \<longleftrightarrow> (k, v) \<in> set d"
  by simp

lemma map_snd_eq_dom: "x \<in> snd ` set d \<Longrightarrow> \<exists>k. (k, x) \<in> set d"
  by force

section \<open>Lists\<close>

lemma sum_list_le_const:
  "(\<And>x. x \<in> set xs \<Longrightarrow> x \<le> (c :: real)) \<Longrightarrow> sum_list xs \<le> real (length xs) * c"
proof (induction xs)
  case Nil
  then show ?case by simp
next
  case (Cons x xs)
  then have "x \<le> c" and "sum_list xs \<le> real (length xs) * c" by auto
  then show ?case by (simp add: algebra_simps)
qed

lemma concat_snoc [simp]: "concat (xss @ [xs]) = concat xss @ xs"
  by simp

lemma sorted_dropWhile_filter:
  "sorted (map f xs) \<Longrightarrow> dropWhile (\<lambda>x. f x \<le> (k :: 'b :: linorder)) xs = filter (\<lambda>x. k < f x) xs"
proof (induction xs)
  case Nil
  then show ?case by simp
next
  case (Cons x xs)
  show ?case
  proof (cases "f x \<le> k")
    case True
    with Cons show ?thesis by auto
  next
    case False
    with Cons.prems have "\<forall>y \<in> set xs. k < f y" by fastforce
    with False show ?thesis by (auto simp: filter_id_conv not_le)
  qed
qed

end
