(* ===== verification/Batching.thy ===== *)
theory Batching
  imports Prelude
begin

text \<open>
  The pure core of \<^verbatim>\<open>core/batched_import.py\<close>: how a row stream is cut into batches
  (\<open>_iter_batches\<close>, \<open>_estimate_row_bytes\<close>, \<open>_effective_batch_size\<close>), how batches are named and
  numbered on a fresh or resumed load (\<open>batch_chunk_id\<close>, \<open>_iter_work\<close>, \<open>_iter_work_pages\<close>), the
  fold of outcomes (\<open>_RunAggregate\<close>) and the resume high-water (\<open>_BatchResumeTracker\<close>). A lazy
  row source is a list of items and the exception that ended it, if one did.
\<close>

section \<open>Rows and streams\<close>

text \<open>
  Python values as the loader looks at them. A \<open>str\<close> is its code points; a \<open>Decimal\<close> carries its
  text and, when it is finite and whole, its integer value, a time with a zone its UTC instant,
  its offset and its text; \<open>POther\<close> is a value that only its
  \<open>str()\<close> text matters of (a float, an aware datetime); a naive datetime also carries whether
  its microsecond is non-zero.
\<close>

datatype pyval = PNone | PBool bool | PInt int | PStr "nat list" | PBytes "nat list"
  | PDate string | PDatetime string bool | PDecimal string "int option" | PUuid string | PTimeTz int int string | POther string

type_synonym pyrow = "(string \<times> pyval) list"

text \<open>\<open>row.get(name)\<close>.\<close>

definition row_get :: "pyrow \<Rightarrow> string \<Rightarrow> pyval" where
  "row_get row name = (case map_of row name of Some v \<Rightarrow> v | None \<Rightarrow> PNone)"

text \<open>
  Python's equality of the values (\<open>Decimal("5") == 5\<close>, \<open>True == 1\<close>, two times with a zone at
  one instant) is equality of their canonical form.
\<close>

definition py_canon :: "pyval \<Rightarrow> pyval" where
  "py_canon v = (case v of
      PDecimal _ (Some i) \<Rightarrow> PInt i
    | PBool b \<Rightarrow> PInt (if b then 1 else 0)
    | PTimeTz utc _ _ \<Rightarrow> PTimeTz utc 0 ''''
    | _ \<Rightarrow> v)"

type_synonym 'a stream = "'a list \<times> pyexc option"

section \<open>Decimal numerals\<close>

definition digit_char :: "nat \<Rightarrow> char" where
  "digit_char d = char_of (48 + d)"

fun nat_str :: "nat \<Rightarrow> string" where
  "nat_str n = (if n < 10 then [digit_char n] else nat_str (n div 10) @ [digit_char (n mod 10)])"

declare nat_str.simps [simp del]

definition int_str :: "int \<Rightarrow> string" where
  "int_str i = (if i < 0 then CHR ''-'' # nat_str (nat (- i)) else nat_str (nat i))"

definition zero_pad :: "nat \<Rightarrow> string \<Rightarrow> string" where
  "zero_pad w s = replicate (w - length s) (CHR ''0'') @ s"

definition str_value :: "string \<Rightarrow> nat" where
  "str_value s = foldl (\<lambda>n c. 10 * n + (of_char c - 48)) 0 s"

lemma of_char_digit_char [simp]: "d < 10 \<Longrightarrow> of_char (digit_char d) = 48 + d"
  by (simp add: digit_char_def)

lemma str_value_snoc [simp]: "str_value (s @ [c]) = 10 * str_value s + (of_char c - 48)"
  by (simp add: str_value_def)

lemma str_value_nat_str [simp]: "str_value (nat_str n) = n"
proof (induction n rule: nat_str.induct)
  case (1 n)
  show ?case
  proof (cases "n < 10")
    case True
    then have "str_value ([] @ [digit_char n]) = n" by (subst str_value_snoc) (simp add: str_value_def)
    with True show ?thesis by (simp add: nat_str.simps [of n])
  next
    case False
    with 1 have "str_value (nat_str (n div 10)) = n div 10" by simp
    then show ?thesis using False by (simp add: nat_str.simps [of n])
  qed
qed

lemma str_value_zero_pad [simp]: "str_value (zero_pad w s) = str_value s"
proof -
  have "foldl (\<lambda>n c. 10 * n + (of_char c - 48)) 0 (replicate k (CHR ''0'')) = (0 :: nat)" for k
    by (induction k) simp_all
  then show ?thesis by (simp add: str_value_def zero_pad_def)
qed

lemma nat_str_inject [simp]: "nat_str a = nat_str b \<longleftrightarrow> a = b"
  by (metis str_value_nat_str)

lemma zero_pad_nat_str_inject [simp]:
  "zero_pad w (nat_str a) = zero_pad w (nat_str b) \<longleftrightarrow> a = b"
  by (metis str_value_nat_str str_value_zero_pad)

definition is_digit :: "char \<Rightarrow> bool" where
  "is_digit c = (48 \<le> (of_char c :: nat) \<and> (of_char c :: nat) \<le> 57)"

lemma is_digit_digit_char [simp]: "d < 10 \<Longrightarrow> is_digit (digit_char d)"
  by (simp add: is_digit_def)

lemma nat_str_digits: "\<forall>c \<in> set (nat_str n). is_digit c"
proof (induction n rule: nat_str.induct)
  case (1 n)
  then show ?case by (cases "n < 10") (auto simp: nat_str.simps [of n])
qed

lemma nat_str_nonempty [simp]: "nat_str n \<noteq> []"
  by (subst nat_str.simps) simp

lemma zero_pad_digits: "\<forall>c \<in> set s. is_digit c \<Longrightarrow> \<forall>c \<in> set (zero_pad w s). is_digit c"
  by (auto simp: zero_pad_def is_digit_def)

section \<open>Sizes\<close>

definition utf8_size :: "nat \<Rightarrow> nat" where
  "utf8_size cp = (if cp < 128 then 1 else if cp < 2048 then 2 else if cp < 65536 then 3 else 4)"

definition value_bytes :: "pyval \<Rightarrow> nat" where
  "value_bytes v = (case v of
      PStr cps \<Rightarrow> (if list_all (\<lambda>c. c < 128) cps then length cps else sum_list (map utf8_size cps))
    | PInt i \<Rightarrow> length (int_str i)
    | PNone \<Rightarrow> 1
    | PBytes bs \<Rightarrow> length bs
    | PDatetime _ micro \<Rightarrow> (if micro then 26 else 19)
    | PDate _ \<Rightarrow> 10
    | PBool b \<Rightarrow> (if b then 4 else 5)
    | PDecimal s _ \<Rightarrow> length s
    | PUuid s \<Rightarrow> length s
    | PTimeTz _ _ s \<Rightarrow> length s
    | POther s \<Rightarrow> length s)"

definition estimate_row_bytes :: "pyrow \<Rightarrow> nat" where
  "estimate_row_bytes row = sum_list (map (\<lambda>(name, v). value_bytes v) row)"

text \<open>The ASCII fast path of the estimate is the exact encoded size.\<close>

lemma value_bytes_str: "value_bytes (PStr cps) = sum_list (map utf8_size cps)"
proof -
  have "list_all (\<lambda>c. c < 128) cps \<Longrightarrow> length cps = sum_list (map utf8_size cps)"
    by (induction cps) (auto simp: utf8_size_def)
  then show ?thesis by (simp add: value_bytes_def)
qed

definition MAX_STATEMENT_PARAMETERS :: int where "MAX_STATEMENT_PARAMETERS = 65535"
definition MAX_BATCH_ROWS :: int where "MAX_BATCH_ROWS = 3000"
definition MAX_BATCH_BYTES :: nat where "MAX_BATCH_BYTES = 8 * 1024 * 1024"

definition effective_batch_size :: "int \<Rightarrow> int \<Rightarrow> int" where
  "effective_batch_size batch_size column_count =
     (if column_count \<le> 0 then batch_size
      else max 1 (min batch_size (MAX_STATEMENT_PARAMETERS div column_count)))"

section \<open>Cutting rows into batches\<close>

text \<open>
  \<open>_iter_batches\<close> after its \<open>batch\<close> and \<open>batch_bytes\<close>: a source that raised drops the batch
  being filled (the generator is left), one that ended flushes it.
\<close>

fun batches_from :: "nat \<Rightarrow> nat option \<Rightarrow> bool \<Rightarrow> pyrow list \<Rightarrow> nat \<Rightarrow> pyrow list \<Rightarrow> pyrow list list" where
  "batches_from bsize cap ended batch bytes [] = (if ended \<and> batch \<noteq> [] then [batch] else [])"
| "batches_from bsize cap ended batch bytes (row # rows) =
     (let (flushed, batch1, bytes1) =
            (case cap of
               None \<Rightarrow> ([], batch, bytes)
             | Some limit \<Rightarrow>
                 let row_bytes = estimate_row_bytes row
                 in if batch \<noteq> [] \<and> limit < bytes + row_bytes then ([batch], [], row_bytes)
                    else ([], batch, bytes + row_bytes));
          batch2 = batch1 @ [row]
      in flushed @
         (if bsize \<le> length batch2 then batch2 # batches_from bsize cap ended [] 0 rows
          else batches_from bsize cap ended batch2 bytes1 rows))"

definition iter_batches :: "pyrow stream \<Rightarrow> nat \<Rightarrow> nat option \<Rightarrow> pyrow list stream" where
  "iter_batches rows bsize cap =
     (batches_from bsize cap (snd rows = None) [] 0 (fst rows), snd rows)"

definition batch_bytes :: "pyrow list \<Rightarrow> nat" where
  "batch_bytes b = sum_list (map estimate_row_bytes b)"

lemma batch_bytes_simps [simp]:
  "batch_bytes [] = 0" "batch_bytes (xs @ ys) = batch_bytes xs + batch_bytes ys"
  "batch_bytes [r] = estimate_row_bytes r"
  by (simp_all add: batch_bytes_def)

lemma concat_batches_from:
  "concat (batches_from bsize cap True batch bytes rows) = batch @ rows"
  by (induction rows arbitrary: batch bytes) (auto simp: Let_def split: option.splits)

lemma prefix_batches_from:
  "prefix (concat (batches_from bsize cap ended batch bytes rows)) (batch @ rows)"
proof (induction rows arbitrary: batch bytes)
  case Nil
  then show ?case by simp
next
  case (Cons row rows)
  have "prefix (concat (batches_from bsize cap ended b n rows)) (b @ rows)" for b n
    by (rule Cons.IH)
  from this [of "[]" 0] this [of "batch @ [row]"] this [of "[row]"]
  show ?case by (auto simp: Let_def split: option.splits)
qed

text \<open>The limits of one batch: never empty, at most \<open>bsize\<close> rows, and over the byte budget only alone.\<close>

definition batch_within :: "nat \<Rightarrow> nat option \<Rightarrow> pyrow list \<Rightarrow> bool" where
  "batch_within bsize cap b =
     (b \<noteq> [] \<and> length b \<le> bsize
      \<and> (case cap of None \<Rightarrow> True | Some limit \<Rightarrow> batch_bytes b \<le> limit \<or> length b = 1))"

lemma batches_from_within:
  assumes "0 < bsize"
    and "batch = [] \<or> batch_within bsize cap batch" and "length batch < bsize"
    and "cap \<noteq> None \<Longrightarrow> bytes = batch_bytes batch"
    and "b \<in> set (batches_from bsize cap ended batch bytes rows)"
  shows "batch_within bsize cap b"
  using assms(2-)
proof (induction rows arbitrary: batch bytes)
  case Nil
  then show ?case by (auto split: if_splits)
next
  case (Cons row rows)
  show ?case
  proof (cases "\<exists>limit. cap = Some limit \<and> batch \<noteq> [] \<and> limit < bytes + estimate_row_bytes row")
    case True
    then obtain limit where l: "cap = Some limit" "batch \<noteq> []" "limit < bytes + estimate_row_bytes row"
      by blast
    have row: "batch_within bsize cap [row]" using \<open>0 < bsize\<close> by (simp add: batch_within_def split: option.split)
    from Cons.prems(4) l have
      "b = batch \<or> b = [row] \<or> b \<in> set (batches_from bsize cap ended [] 0 rows)
       \<or> (1 < bsize \<and> b \<in> set (batches_from bsize cap ended [row] (estimate_row_bytes row) rows))"
      by (auto simp: Let_def split: if_splits)
    then show ?thesis
      using Cons.IH [of "[]" 0] Cons.IH [of "[row]" "estimate_row_bytes row"] Cons.prems(1) l row \<open>0 < bsize\<close>
      by auto
  next
    case False
    let ?b2 = "batch @ [row]"
    let ?n2 = "case cap of None \<Rightarrow> bytes | Some _ \<Rightarrow> bytes + estimate_row_bytes row"
    have b2: "batch_within bsize cap ?b2"
      using False Cons.prems(1,2,3) \<open>0 < bsize\<close>
      by (cases cap) (auto simp: batch_within_def Suc_le_eq not_less)
    from Cons.prems(4) False have
      "b = ?b2 \<or> b \<in> set (batches_from bsize cap ended [] 0 rows)
       \<or> (length ?b2 < bsize \<and> b \<in> set (batches_from bsize cap ended ?b2 ?n2 rows))"
      by (cases cap) (auto simp: Let_def split: if_splits)
    then show ?thesis
      using Cons.IH [of "[]" 0] Cons.IH [of ?b2 ?n2] Cons.prems(3) b2 \<open>0 < bsize\<close>
      by (auto split: option.splits)
  qed
qed

lemma iter_batches_within:
  "0 < bsize \<Longrightarrow> b \<in> set (fst (iter_batches rows bsize cap)) \<Longrightarrow> batch_within bsize cap b"
  using batches_from_within [of bsize "[]" cap 0] by (simp add: iter_batches_def)

lemma concat_iter_batches:
  "concat (fst (iter_batches (rows, None) bsize cap)) = rows"
  by (simp add: iter_batches_def concat_batches_from)

lemma prefix_iter_batches: "prefix (concat (fst (iter_batches (rows, err) bsize cap))) rows"
  using prefix_batches_from [of bsize cap "err = None" "[]" 0 rows] by (simp add: iter_batches_def)

section \<open>Work items\<close>

definition batch_chunk_id :: "string \<Rightarrow> nat \<Rightarrow> nat option \<Rightarrow> string" where
  "batch_chunk_id table_name index shard_id =
     (case shard_id of
        None \<Rightarrow> table_name @ ''#batch-'' @ zero_pad 6 (nat_str index)
      | Some s \<Rightarrow> table_name @ ''#s'' @ zero_pad 2 (nat_str s) @ ''-batch-'' @ zero_pad 6 (nat_str index))"

text \<open>The JSON object key of a shard reader: \<open>""\<close> for the single unsharded one.\<close>

definition shard_key :: "nat option \<Rightarrow> string" where
  "shard_key shard_id = (case shard_id of None \<Rightarrow> '''' | Some s \<Rightarrow> nat_str s)"

lemma nat_str_not_Nil [simp]: "[] \<noteq> nat_str n"
  using nat_str_nonempty [of n] by metis

lemma shard_key_inject [simp]: "shard_key a = shard_key b \<longleftrightarrow> a = b"
  by (auto simp: shard_key_def split: option.splits)

lemma takeWhile_digits:
  "\<forall>c \<in> set ds. is_digit c \<Longrightarrow> \<not> is_digit d \<Longrightarrow> takeWhile is_digit (ds @ d # rest) = ds"
  by (induction ds) auto

lemma batch_chunk_id_inject:
  "batch_chunk_id t i a = batch_chunk_id t j b \<longleftrightarrow> i = j \<and> a = b"
proof -
  have dash: "\<not> is_digit (CHR ''-'')" by (simp add: is_digit_def)
  have digits: "\<forall>c \<in> set (zero_pad w (nat_str n)). is_digit c" for w n
    by (intro zero_pad_digits nat_str_digits)
  have shards: "i = j \<and> s = r" if
    "zero_pad 2 (nat_str s) @ ''-batch-'' @ zero_pad 6 (nat_str i)
       = zero_pad 2 (nat_str r) @ ''-batch-'' @ zero_pad 6 (nat_str j)" for s r
  proof -
    from that have "takeWhile is_digit (zero_pad 2 (nat_str s) @ CHR ''-'' # ''batch-'' @ zero_pad 6 (nat_str i))
        = takeWhile is_digit (zero_pad 2 (nat_str r) @ CHR ''-'' # ''batch-'' @ zero_pad 6 (nat_str j))"
      by simp
    then have "zero_pad 2 (nat_str s) = zero_pad 2 (nat_str r)"
      by (simp only: takeWhile_digits [OF digits dash])
    with that show ?thesis by simp
  qed
  show ?thesis
  proof (cases a)
    case None
    then show ?thesis by (cases b) (simp_all add: batch_chunk_id_def)
  next
    case (Some s)
    show ?thesis
    proof (cases b)
      case None
      with Some show ?thesis by (simp add: batch_chunk_id_def)
    next
      case b: (Some r)
      have "batch_chunk_id t i a = batch_chunk_id t j b \<longleftrightarrow>
          zero_pad 2 (nat_str s) @ ''-batch-'' @ zero_pad 6 (nat_str i)
            = zero_pad 2 (nat_str r) @ ''-batch-'' @ zero_pad 6 (nat_str j)"
        unfolding Some b batch_chunk_id_def option.case
        by (simp only: same_append_eq)
      with shards [of s r] Some b show ?thesis by auto
    qed
  qed
qed

datatype on_conflict_mode = DO_NOTHING | DO_UPDATE | NONE | SKIP_EXISTING

record batch_work =
  w_chunk :: string
  w_table :: string
  w_columns :: "string list"
  w_keys :: "string list"
  w_mode :: on_conflict_mode
  w_rows :: "pyrow list"
  w_shard :: "nat option"
  w_index :: nat

text \<open>
  What every work item of one \<open>import_rows\<close> call shares; \<open>make_work\<close> is the \<open>_BatchWork\<close>
  constructor call of both work iterators.
\<close>

record work_spec =
  ws_table :: string
  ws_columns :: "string list"
  ws_keys :: "string list"
  ws_mode :: on_conflict_mode
  ws_batch_size :: int

definition make_work :: "work_spec \<Rightarrow> nat option \<Rightarrow> nat \<Rightarrow> pyrow list \<Rightarrow> batch_work" where
  "make_work spec shard index batch =
     \<lparr>w_chunk = batch_chunk_id (ws_table spec) index shard, w_table = ws_table spec,
      w_columns = ws_columns spec, w_keys = ws_keys spec, w_mode = ws_mode spec,
      w_rows = batch, w_shard = shard, w_index = index\<rparr>"

lemma make_work_simps [simp]:
  "w_rows (make_work spec sh i b) = b" "w_shard (make_work spec sh i b) = sh"
  "w_index (make_work spec sh i b) = i" "w_table (make_work spec sh i b) = ws_table spec"
  "w_keys (make_work spec sh i b) = ws_keys spec" "w_mode (make_work spec sh i b) = ws_mode spec"
  "w_columns (make_work spec sh i b) = ws_columns spec"
  by (simp_all add: make_work_def)

text \<open>
  The numbering loop of both iterators: batches at or below the shard's high-water are
  counted and dropped, the others become work items under their own index.
\<close>

fun number_batches :: "work_spec \<Rightarrow> nat option \<Rightarrow> int \<Rightarrow> nat \<Rightarrow> pyrow list list \<Rightarrow> batch_work list \<times> nat" where
  "number_batches spec shard high_water index [] = ([], 0)"
| "number_batches spec shard high_water index (batch # bs) =
     (let (works, skipped) = number_batches spec shard high_water (Suc index) bs
      in if int index \<le> high_water then (works, Suc skipped)
         else (make_work spec shard index batch # works, skipped))"

definition high_water_of :: "(string, int) pydict \<Rightarrow> nat option \<Rightarrow> int" where
  "high_water_of watermark shard = (case map_of watermark (shard_key shard) of Some w \<Rightarrow> w | None \<Rightarrow> -1)"

definition spec_size :: "work_spec \<Rightarrow> nat" where
  "spec_size spec = nat (effective_batch_size (ws_batch_size spec) (int (length (ws_columns spec))))"

definition iter_work ::
  "work_spec \<Rightarrow> (string, int) pydict \<Rightarrow> nat option \<Rightarrow> pyrow stream \<Rightarrow> batch_work stream \<times> nat" where
  "iter_work spec watermark shard row_source =
     (let (batches, err) = iter_batches row_source (spec_size spec) (Some MAX_BATCH_BYTES);
          (works, skipped) = number_batches spec shard (high_water_of watermark shard) 0 batches
      in ((works, err), skipped))"

text \<open>
  \<open>_iter_work_pages\<close>: one reader's pages of several key ranges; \<open>next_index\<close> holds each
  range's next batch ordinal. A page that raises ends the iteration after its own batches.
\<close>

fun work_pages :: "work_spec \<Rightarrow> (string, int) pydict \<Rightarrow> (nat, nat) pydict \<Rightarrow>
    (nat \<times> pyrow stream) list \<Rightarrow> pyexc option \<Rightarrow> batch_work stream \<times> nat" where
  "work_pages spec watermark next_index [] err = (([], err), 0)"
| "work_pages spec watermark next_index ((shard, page) # pages) err =
     (let index = (case map_of next_index shard of Some i \<Rightarrow> i | None \<Rightarrow> 0);
          (batches, page_err) = iter_batches page (spec_size spec) (Some MAX_BATCH_BYTES);
          (works, skipped) =
            number_batches spec (Some shard) (high_water_of watermark (Some shard)) index batches
      in case page_err of
           Some e \<Rightarrow> ((works, Some e), skipped)
         | None \<Rightarrow>
             (let ((more, more_err), more_skipped) =
                work_pages spec watermark
                  (dict_set shard (index + length batches) next_index) pages err
              in ((works @ more, more_err), skipped + more_skipped)))"

definition iter_work_pages ::
  "work_spec \<Rightarrow> (string, int) pydict \<Rightarrow> (nat \<times> pyrow stream) stream \<Rightarrow> batch_work stream \<times> nat" where
  "iter_work_pages spec watermark range_pages =
     work_pages spec watermark [] (fst range_pages) (snd range_pages)"

lemma number_batches_works:
  "fst (number_batches spec shard hw index bs)
     = map (\<lambda>(i, b). make_work spec shard i b)
         (filter (\<lambda>p. hw < int (fst p)) (enumerate index bs))"
proof (induction bs arbitrary: index)
  case (Cons b bs)
  from Cons.IH [of "Suc index"] show ?case by (auto simp: Let_def not_le split: prod.splits)
qed simp

lemma number_batches_skipped:
  "snd (number_batches spec shard hw index bs) + length (fst (number_batches spec shard hw index bs))
     = length bs"
proof (induction bs arbitrary: index)
  case Nil
  then show ?case by simp
next
  case (Cons b bs)
  from Cons.IH [of "Suc index"] show ?case by (auto simp: Let_def split: prod.splits)
qed

lemma spec_size_pos: "1 \<le> ws_batch_size spec \<Longrightarrow> 0 < spec_size spec"
  by (auto simp: spec_size_def effective_batch_size_def)

section \<open>The fold of outcomes\<close>

datatype outcome_status = Done | Failed

record batch_outcome =
  oc_chunk_id :: string
  oc_status :: outcome_status
  oc_rows_loaded :: int
  oc_conflicts :: int
  oc_error :: "string option"

record run_aggregate =
  rows_loaded :: int
  conflicts :: int
  batches_completed :: nat
  failures :: nat
  first_error :: "string option"

definition empty_aggregate :: run_aggregate where
  "empty_aggregate = \<lparr>rows_loaded = 0, conflicts = 0, batches_completed = 0, failures = 0, first_error = None\<rparr>"

text \<open>An error text counts as present only when it is a non-empty string (\<open>outcome.error\<close> truthy).\<close>

definition fold_outcome :: "run_aggregate \<Rightarrow> batch_outcome \<Rightarrow> run_aggregate" where
  "fold_outcome agg oc =
     (case oc_status oc of
        Done \<Rightarrow> agg\<lparr>batches_completed := batches_completed agg + 1,
                    rows_loaded := rows_loaded agg + oc_rows_loaded oc,
                    conflicts := conflicts agg + oc_conflicts oc\<rparr>
      | Failed \<Rightarrow>
          (let agg' = agg\<lparr>failures := failures agg + 1\<rparr>
           in if first_error agg = None \<and> oc_error oc \<noteq> None \<and> oc_error oc \<noteq> Some ''''
              then agg'\<lparr>first_error := oc_error oc\<rparr> else agg'))"

section \<open>The resume high-water\<close>

record resume_tracker =
  frontier :: "(string, int) pydict"
  ahead :: "(string, int list) pydict"
  sealed :: "string list"

definition new_tracker :: "(string, int) pydict \<Rightarrow> resume_tracker" where
  "new_tracker initial = \<lparr>frontier = initial, ahead = [], sealed = []\<rparr>"

text \<open>The \<open>while (frontier + 1) in ahead\<close> loop; the \<open>ahead\<close> set is a duplicate-free list.\<close>

function absorb :: "int \<Rightarrow> int list \<Rightarrow> int \<times> int list" where
  "absorb f ah = (if f + 1 \<in> set ah then absorb (f + 1) (removeAll (f + 1) ah) else (f, ah))"
  by pat_completeness auto
termination
  by (relation "measure (\<lambda>(f, ah). length ah)") (auto intro: length_removeAll_less)

declare absorb.simps [simp del]

definition frontier_at :: "resume_tracker \<Rightarrow> string \<Rightarrow> int" where
  "frontier_at tr key = (case map_of (frontier tr) key of Some f \<Rightarrow> f | None \<Rightarrow> -1)"

definition ahead_at :: "resume_tracker \<Rightarrow> string \<Rightarrow> int list" where
  "ahead_at tr key = (case map_of (ahead tr) key of Some a \<Rightarrow> a | None \<Rightarrow> [])"

definition record_done :: "nat option \<Rightarrow> nat \<Rightarrow> resume_tracker \<Rightarrow> resume_tracker" where
  "record_done shard index tr =
     (let key = shard_key shard
      in if key \<in> set (sealed tr) then tr
         else if int index \<le> frontier_at tr key then tr
         else (let (f, ah) = absorb (frontier_at tr key) (List.insert (int index) (ahead_at tr key))
               in tr\<lparr>ahead := dict_set key ah (ahead tr), frontier := dict_set key f (frontier tr)\<rparr>))"

definition record_failed :: "nat option \<Rightarrow> resume_tracker \<Rightarrow> resume_tracker" where
  "record_failed shard tr =
     (let key = shard_key shard
      in tr\<lparr>sealed := List.insert key (sealed tr), ahead := dict_pop key (ahead tr)\<rparr>)"

definition tracker_watermark :: "resume_tracker \<Rightarrow> (string, int) pydict" where
  "tracker_watermark tr = frontier tr"

lemma absorb_spec:
  "absorb f ah = (f', ah') \<Longrightarrow>
     f \<le> f' \<and> {f<..f'} \<subseteq> set ah \<and> f' + 1 \<notin> set ah' \<and> set ah' = set ah - {f<..f'}"
proof (induction f ah arbitrary: f' ah' rule: absorb.induct)
  case (1 f ah)
  show ?case
  proof (cases "f + 1 \<in> set ah")
    case True
    with "1.prems" have "absorb (f + 1) (removeAll (f + 1) ah) = (f', ah')" by (subst (asm) absorb.simps) simp
    with "1.IH" [OF True] have IH: "f + 1 \<le> f'" "{f + 1<..f'} \<subseteq> set ah - {f + 1}"
      "f' + 1 \<notin> set ah'" "set ah' = set ah - {f + 1} - {f + 1<..f'}" by auto
    have "{f<..f'} = insert (f + 1) {f + 1<..f'}" using IH(1) by auto
    with IH True show ?thesis by auto
  next
    case False
    with "1.prems" have "f' = f" "ah' = ah" by (subst (asm) absorb.simps, simp)+
    with False show ?thesis by simp
  qed
qed

end
