(* ===== verification/PyString.thy ===== *)
theory PyString
  imports Batching
begin

text \<open>
  The part of Python's \<open>str\<close> the modelled code uses. A \<open>string\<close> here is a sequence of code
  points below 256 (Latin-1), so the classes below are those of \<open>str.isspace\<close>, \<open>str.isdigit\<close>,
  \<open>str.splitlines\<close> and \<open>int()\<close> on that range: \<open>isdigit\<close> also holds of the three superscripts,
  which \<open>int()\<close> refuses. Wider code points are outside the model.
\<close>

definition code :: "char \<Rightarrow> nat" where
  "code c = of_char c"

definition py_space :: "char \<Rightarrow> bool" where
  "py_space c = (code c \<in> {9, 10, 11, 12, 13, 28, 29, 30, 31, 32, 133, 160})"

definition py_strip :: "string \<Rightarrow> string" where
  "py_strip s = rev (dropWhile py_space (rev (dropWhile py_space s)))"

definition py_line_break :: "char \<Rightarrow> bool" where
  "py_line_break c = (code c \<in> {10, 11, 12, 13, 28, 29, 30, 133})"

text \<open>\<open>s.splitlines()[0]\<close>, for a non-empty \<open>s\<close>.\<close>

definition py_first_line :: "string \<Rightarrow> string" where
  "py_first_line s = takeWhile (\<lambda>c. \<not> py_line_break c) s"

definition py_isdigit_char :: "char \<Rightarrow> bool" where
  "py_isdigit_char c = (is_digit c \<or> code c \<in> {178, 179, 185})"

definition py_isdigit :: "string \<Rightarrow> bool" where
  "py_isdigit s = (s \<noteq> [] \<and> list_all py_isdigit_char s)"

text \<open>\<open>s.split(sep)\<close> for a one-character separator.\<close>

fun py_split :: "char \<Rightarrow> string \<Rightarrow> string list" where
  "py_split sep [] = [[]]"
| "py_split sep (c # cs) =
     (if c = sep then [] # py_split sep cs
      else (case py_split sep cs of [] \<Rightarrow> [[c]] | p # ps \<Rightarrow> (c # p) # ps))"

text \<open>\<open>s.rpartition(sep)\<close>: what precedes and follows the last separator.\<close>

definition py_rpartition :: "char \<Rightarrow> string \<Rightarrow> (string \<times> string) option" where
  "py_rpartition sep s =
     (if sep \<in> set s
      then (let tail = takeWhile (\<lambda>c. c \<noteq> sep) (rev s)
            in Some (take (length s - length tail - 1) s, rev tail))
      else None)"

text \<open>
  \<open>int(s)\<close>: optional sign, decimal digits, single underscores between digits, surrounding
  whitespace ignored; \<open>None\<close> is the \<open>ValueError\<close>.
\<close>

fun digits_ok :: "string \<Rightarrow> bool" where
  "digits_ok [] = False"
| "digits_ok [c] = is_digit c"
| "digits_ok (c # d # cs) =
     (is_digit c \<and> (if d = CHR ''_'' then digits_ok cs else digits_ok (d # cs)))"

definition digits_value :: "string \<Rightarrow> nat" where
  "digits_value s = str_value (filter (\<lambda>c. c \<noteq> CHR ''_'') s)"

definition py_int :: "string \<Rightarrow> int option" where
  "py_int s =
     (let t = py_strip s
      in case t of
           [] \<Rightarrow> None
         | c # cs \<Rightarrow>
             if c = CHR ''-'' then (if digits_ok cs then Some (- int (digits_value cs)) else None)
             else if c = CHR ''+'' then (if digits_ok cs then Some (int (digits_value cs)) else None)
             else if digits_ok t then Some (int (digits_value t)) else None)"

text \<open>What follows the first occurrence of \<open>pat\<close> in \<open>s\<close>.\<close>

fun py_find_after :: "string \<Rightarrow> string \<Rightarrow> string option" where
  "py_find_after pat [] = (if pat = [] then Some [] else None)"
| "py_find_after pat (c # cs) =
     (if prefix pat (c # cs) then Some (drop (length pat) (c # cs)) else py_find_after pat cs)"

text \<open>\<open>sep.join(xs)\<close>.\<close>

fun join_with :: "string \<Rightarrow> string list \<Rightarrow> string" where
  "join_with sep [] = []"
| "join_with sep [x] = x"
| "join_with sep (x # y # xs) = x @ sep @ join_with sep (y # xs)"

section \<open>Laws\<close>

lemma py_strip_id: "s = [] \<or> (\<not> py_space (hd s) \<and> \<not> py_space (last s)) \<Longrightarrow> py_strip s = s"
proof (cases s rule: rev_cases)
  case (snoc t d)
  assume "s = [] \<or> (\<not> py_space (hd s) \<and> \<not> py_space (last s))"
  with snoc have "\<not> py_space (hd s)" "\<not> py_space d" by auto
  then have "dropWhile py_space s = s" by (cases s) auto
  with snoc \<open>\<not> py_space d\<close> show ?thesis by (simp add: py_strip_def)
qed (simp add: py_strip_def)

lemma digit_not_space: "is_digit c \<Longrightarrow> \<not> py_space c"
  by (auto simp: is_digit_def py_space_def code_def)

lemma digits_not_special: "is_digit c \<Longrightarrow> c \<noteq> CHR ''_'' \<and> c \<noteq> CHR ''-'' \<and> c \<noteq> CHR ''+'' \<and> c \<noteq> CHR '':'' \<and> c \<noteq> CHR '',''"
  by (auto simp: is_digit_def)

lemma digits_ok_digits: "s \<noteq> [] \<Longrightarrow> \<forall>c \<in> set s. is_digit c \<Longrightarrow> digits_ok s"
proof (induction s rule: digits_ok.induct)
  case (3 c d cs)
  then show ?case using digits_not_special [of d] by auto
qed auto

lemma digits_value_digits: "\<forall>c \<in> set s. is_digit c \<Longrightarrow> digits_value s = str_value s"
proof -
  assume "\<forall>c \<in> set s. is_digit c"
  then have "filter (\<lambda>c. c \<noteq> CHR ''_'') s = s"
    by (auto simp: filter_id_conv dest: digits_not_special)
  then show ?thesis by (simp add: digits_value_def)
qed

lemma py_int_digits:
  assumes "s \<noteq> []" "\<forall>c \<in> set s. is_digit c"
  shows "py_int s = Some (int (str_value s))"
proof -
  from assms have "py_strip s = s" by (intro py_strip_id) (auto dest: digit_not_space)
  moreover obtain c cs where "s = c # cs" "is_digit c" using assms by (cases s) auto
  ultimately show ?thesis
    using assms digits_ok_digits [of s] digits_value_digits [of s] digits_not_special [of c]
    by (simp add: py_int_def Let_def)
qed

lemma py_int_nat_str [simp]: "py_int (nat_str n) = Some (int n)"
  using py_int_digits [of "nat_str n"] nat_str_digits by simp

lemma py_int_int_str [simp]: "py_int (int_str i) = Some i"
proof (cases "i < 0")
  case True
  let ?n = "nat_str (nat (- i))"
  have "py_strip (CHR ''-'' # ?n) = CHR ''-'' # ?n"
  proof (rule py_strip_id)
    have "is_digit (last ?n)" using nat_str_digits [of "nat (- i)"] last_in_set [of ?n] nat_str_nonempty by blast
    moreover have "\<not> py_space (CHR ''-'')" by (simp add: py_space_def code_def)
    ultimately show "CHR ''-'' # ?n = [] \<or> \<not> py_space (hd (CHR ''-'' # ?n)) \<and> \<not> py_space (last (CHR ''-'' # ?n))"
      by (simp add: digit_not_space)
  qed
  with True show ?thesis
    using digits_ok_digits [of ?n] digits_value_digits [of ?n] nat_str_digits
    by (simp add: py_int_def int_str_def)
next
  case False
  then show ?thesis by (simp add: int_str_def)
qed

lemma py_split_nonempty [simp]: "py_split sep s \<noteq> []"
  by (induction s) (auto split: list.splits)

lemma py_split_absent: "sep \<notin> set s \<Longrightarrow> py_split sep s = [s]"
  by (induction s) auto

lemma py_split_append: "sep \<notin> set p \<Longrightarrow> py_split sep (p @ sep # s) = p # py_split sep s"
  by (induction p) auto

text \<open>\<open>sep.join(parts)\<close>.\<close>

fun py_join :: "string \<Rightarrow> string list \<Rightarrow> string" where
  "py_join sep [] = []"
| "py_join sep [p] = p"
| "py_join sep (p # ps) = p @ sep @ py_join sep ps"

lemma py_split_join:
  "ps \<noteq> [] \<Longrightarrow> \<forall>p \<in> set ps. sep \<notin> set p \<Longrightarrow> py_split sep (py_join [sep] ps) = ps"
  by (induction "[sep]" ps rule: py_join.induct) (auto simp: py_split_absent py_split_append)

lemma py_rpartition_append: "sep \<notin> set b \<Longrightarrow> py_rpartition sep (a @ sep # b) = Some (a, b)"
proof -
  assume "sep \<notin> set b"
  then have "takeWhile (\<lambda>c. c \<noteq> sep) (rev b @ sep # rev a) = rev b"
    by (subst takeWhile_append2) auto
  then show ?thesis by (simp add: py_rpartition_def Let_def)
qed

lemma py_rpartition_Some:
  "py_rpartition sep s = Some (a, b) \<Longrightarrow> s = a @ sep # b \<and> sep \<notin> set b"
proof -
  assume some: "py_rpartition sep s = Some (a, b)"
  then have "sep \<in> set s" by (simp add: py_rpartition_def split: if_splits)
  then obtain x y where "s = x @ sep # y" "sep \<notin> set y" by (meson split_list_last)
  with some py_rpartition_append [of sep y x] show ?thesis by simp
qed

section \<open>Value-free error text\<close>

text \<open>\<open>_safe_error\<close>: the exception's class and the first line of its message, at most 300 characters.\<close>

definition exc_name :: "pyexc \<Rightarrow> string" where
  "exc_name e = (case mro e of [] \<Rightarrow> '''' | n # _ \<Rightarrow> n)"

definition safe_error :: "pyexc \<Rightarrow> string" where
  "safe_error e =
     (let stripped = py_strip (message e);
          first_line = (if stripped \<noteq> [] then py_strip (py_first_line stripped) else []);
          shown = (if 300 < length first_line then take 297 first_line @ ''...'' else first_line);
          name = exc_name e
      in if shown \<noteq> [] then name @ '': '' @ shown else name)"

lemma takeWhile_no_break: "\<forall>c \<in> set (py_first_line s). \<not> py_line_break c"
  by (auto simp: py_first_line_def dest: set_takeWhileD)

lemma set_py_strip: "set (py_strip s) \<subseteq> set s"
  unfolding py_strip_def by (auto dest!: set_dropWhileD)

lemma py_strip_prefix_or: "c \<in> set (py_strip (py_first_line s)) \<Longrightarrow> \<not> py_line_break c"
  using set_py_strip takeWhile_no_break by blast

text \<open>
  \<open>violated_constraint_name\<close>: the driver's diagnostic, else the name the first line quotes
  (the regex \<open>violates unique constraint "(.+)"\<close>, whose group is greedy).
\<close>

definition quote_char :: char where
  "quote_char = CHR 0x22"

definition UNIQUE_CONSTRAINT_PREFIX :: string where
  "UNIQUE_CONSTRAINT_PREFIX = ''violates unique constraint '' @ [quote_char]"

definition violated_constraint_name :: "pyexc \<Rightarrow> string option" where
  "violated_constraint_name e =
     (case diag_constraint e of
        Some (c # cs) \<Rightarrow> Some (c # cs)
      | _ \<Rightarrow>
          (let stripped = py_strip (message e)
           in if stripped = [] then None
              else (case py_find_after UNIQUE_CONSTRAINT_PREFIX (py_first_line stripped) of
                      None \<Rightarrow> None
                    | Some rest \<Rightarrow>
                        (case py_rpartition quote_char rest of
                           Some (c # cs, _) \<Rightarrow> Some (c # cs)
                         | _ \<Rightarrow> None))))"

lemma violated_constraint_example:
  "violated_constraint_name ((raise_named ''UniqueViolation''
      (''duplicate key value violates unique constraint '' @ [quote_char] @ ''t_email_key'' @ [quote_char]
        @ [CHR 0x0A] @ ''DETAIL:  Key (email)=(x) already exists.''))) = Some ''t_email_key''"
  by code_simp

section \<open>Properties\<close>

lemma dropWhile_append_keep: "dropWhile P xs \<noteq> [] \<Longrightarrow> dropWhile P (xs @ ys) = dropWhile P xs @ ys"
  by (induction xs) auto

lemma py_strip_rstrip: "py_strip s = rev (dropWhile py_space (rev (dropWhile py_space s)))"
  by (simp add: py_strip_def)

lemma line_break_space: "py_line_break c \<Longrightarrow> py_space c"
  by (auto simp: py_line_break_def py_space_def)

lemma takeWhile_whole: "\<forall>c \<in> set s. \<not> P c \<Longrightarrow> takeWhile (\<lambda>c. \<not> P c) s = s"
  by (simp add: takeWhile_eq_all_conv)

lemma py_strip_empty: "py_strip s = [] \<longleftrightarrow> (\<forall>c \<in> set s. py_space c)"
proof
  assume "py_strip s = []"
  then have all: "\<forall>c \<in> set (dropWhile py_space s). py_space c" by (simp add: py_strip_def)
  show "\<forall>c \<in> set s. py_space c"
  proof (rule ccontr)
    assume "\<not> (\<forall>c \<in> set s. py_space c)"
    then have ne: "dropWhile py_space s \<noteq> []" by simp
    with all hd_dropWhile [OF ne] list.set_sel(1) [OF ne] show False by blast
  qed
next
  assume "\<forall>c \<in> set s. py_space c"
  then have "dropWhile py_space s = []" by simp
  then show "py_strip s = []" by (simp only: py_strip_def dropWhile.simps rev.simps)
qed

text \<open>The first line of a stripped message, stripped, is its first line alone stripped.\<close>

lemma py_strip_idem: "py_strip (py_strip s) = py_strip s"
proof (cases "py_strip s = []")
  case True
  have "py_strip [] = []" by (simp add: py_strip_def)
  with True show ?thesis by simp
next
  case False
  let ?d = "dropWhile py_space s"
  let ?r = "dropWhile py_space (rev ?d)"
  have r: "?r \<noteq> []" using False by (simp only: py_strip_def) simp
  have d: "?d \<noteq> []" using r by (metis dropWhile.simps(1) rev.simps(1))
  have "\<not> py_space (hd ?r)" by (rule hd_dropWhile [OF r])
  then have last: "\<not> py_space (last (rev ?r))" using r by (simp add: last_rev)
  have "suffix ?r (rev ?d)" by (simp add: suffix_dropWhile)
  then obtain zs where "rev ?d = zs @ ?r" by (auto simp: suffix_def)
  then have "?d = rev ?r @ rev zs" by (metis rev_append rev_rev_ident)
  then have "hd (rev ?r) = hd ?d" using r by (metis hd_append2 rev_is_Nil_conv)
  then have "\<not> py_space (hd (rev ?r))" using hd_dropWhile [OF d] by simp
  with last show ?thesis by (simp add: py_strip_id py_strip_rstrip [of s])
qed

lemma first_line_cases:
  assumes "\<forall>c \<in> set line. \<not> py_line_break c" "py_strip line \<noteq> []" "py_line_break nl"
  shows "py_first_line (py_strip (line @ nl # detail)) \<in> {dropWhile py_space line, py_strip line}"
proof -
  let ?d = "dropWhile py_space line"
  have d: "?d \<noteq> []" using assms(2) by (auto simp: py_strip_empty)
  have nb: "\<forall>c \<in> set ?d. \<not> py_line_break c" using assms(1) by (auto dest: set_dropWhileD)
  have sp: "py_space nl" by (rule line_break_space [OF assms(3)])
  have full: "dropWhile py_space (line @ nl # detail) = ?d @ nl # detail" by (rule dropWhile_append_keep [OF d])
  show ?thesis
  proof (cases "dropWhile py_space (rev detail)")
    case Nil
    then have "dropWhile py_space (rev detail @ nl # rev ?d) = dropWhile py_space (rev ?d)"
      using sp by (simp add: dropWhile_append)
    then have "py_strip (line @ nl # detail) = py_strip line" by (simp add: py_strip_def full)
    moreover have "py_first_line (py_strip line) = py_strip line"
      unfolding py_first_line_def by (rule takeWhile_whole) (use assms(1) set_py_strip in blast)
    ultimately show ?thesis by simp
  next
    case (Cons c cs)
    have "dropWhile py_space (rev detail @ nl # rev ?d) = (c # cs) @ nl # rev ?d"
      using dropWhile_append_keep [of py_space "rev detail" "nl # rev ?d"] Cons by simp
    then have "py_strip (line @ nl # detail) = ?d @ nl # rev (c # cs)" by (simp add: py_strip_def full)
    moreover have "takeWhile (\<lambda>c. \<not> py_line_break c) (?d @ nl # ys) = ?d" for ys
      using nb assms(3) by (simp add: takeWhile_append2)
    ultimately show ?thesis by (simp add: py_first_line_def)
  qed
qed

lemma strip_first_line:
  assumes "\<forall>c \<in> set line. \<not> py_line_break c" "py_strip line \<noteq> []" "py_line_break nl"
  shows "py_strip (py_first_line (py_strip (line @ nl # detail))) = py_strip line"
proof -
  have "dropWhile py_space (dropWhile py_space line) = dropWhile py_space line"
    by (rule dropWhile_idem)
  then have "py_strip (dropWhile py_space line) = py_strip line" by (simp add: py_strip_def)
  with first_line_cases [OF assms, of detail] py_strip_idem [of line] show ?thesis by auto
qed

text \<open>
  An error text carries no row values. Whatever lines follow the first one of the driver's
  message (\<open>DETAIL\<close>, the failing row), the rendered text is that of the first line alone, on one
  line, and at most 302 characters longer than the exception's class name.
\<close>

theorem safe_error_value_free:
  assumes "\<forall>c \<in> set line. \<not> py_line_break c" "py_strip line \<noteq> []" "py_line_break nl"
  shows "safe_error (e\<lparr>message := line @ nl # detail\<rparr>) = safe_error (e\<lparr>message := line\<rparr>)
    \<and> length (safe_error (e\<lparr>message := line\<rparr>)) \<le> length (exc_name e) + 302
    \<and> (\<forall>c \<in> set (drop (length (exc_name e)) (safe_error (e\<lparr>message := line\<rparr>))). \<not> py_line_break c)"
proof -
  have ne: "py_strip (line @ nl # detail) \<noteq> []" using assms(2) by (auto simp: py_strip_empty)
  have "py_first_line (py_strip line) = py_strip line"
    unfolding py_first_line_def by (rule takeWhile_whole) (use assms(1) set_py_strip in blast)
  then have one: "py_strip (py_first_line (py_strip line)) = py_strip line" by (simp add: py_strip_idem)
  have same: "safe_error (e\<lparr>message := line @ nl # detail\<rparr>) = safe_error (e\<lparr>message := line\<rparr>)"
    using ne assms(2) strip_first_line [OF assms, of detail] one by (simp add: safe_error_def Let_def exc_name_def)
  have nb: "\<forall>c \<in> set (py_strip line). \<not> py_line_break c" using assms(1) set_py_strip by blast
  have breaks: "\<not> py_line_break (CHR ''.'')" "\<not> py_line_break (CHR '':'')" "\<not> py_line_break (CHR '' '')"
    by (simp_all add: py_line_break_def code_def)
  have shown: "safe_error (e\<lparr>message := line\<rparr>) = exc_name e @ '': '' @
      (if 300 < length (py_strip line) then take 297 (py_strip line) @ ''...'' else py_strip line)"
    using assms(2) one by (simp add: safe_error_def Let_def exc_name_def)
  show ?thesis
    using same nb breaks by (auto simp: shown dest: in_set_takeD)
qed

theorem safe_error_value_free_witness:
  "safe_error (raise_named ''UniqueViolation'' (''duplicate key value'' @ CHR 0x0A # ''DETAIL:  Key (email)=(a@b.c) exists.''))
     = ''UniqueViolation: duplicate key value''"
proof -
  have "safe_error ((raise_named ''UniqueViolation'' '''')\<lparr>message := ''duplicate key value'' @ CHR 0x0A # ''DETAIL:  Key (email)=(a@b.c) exists.''\<rparr>)
      = safe_error ((raise_named ''UniqueViolation'' '''')\<lparr>message := ''duplicate key value''\<rparr>)"
    by (rule conjunct1 [OF safe_error_value_free])
      (simp_all add: py_line_break_def code_def py_strip_def py_space_def)
  also have "\<dots> = ''UniqueViolation: duplicate key value''" by code_simp
  finally show ?thesis by (simp add: raise_named_def)
qed

text \<open>
  The constraint a unique violation names is read back exactly, whatever characters its name
  has short of a line break, and whatever detail lines follow.
\<close>

theorem violated_constraint_roundtrip:
  assumes "name \<noteq> []" "\<forall>c \<in> set name. \<not> py_line_break c" "diag_constraint e = None"
    and "message e = ''duplicate key value violates unique constraint '' @ quote_char # name @ quote_char # nl # detail"
    and "py_line_break nl"
  shows "violated_constraint_name e = Some name"
proof -
  let ?line = "''duplicate key value violates unique constraint '' @ quote_char # name @ [quote_char]"
  have q: "\<not> py_line_break quote_char" "\<not> py_space quote_char"
    by (simp_all add: quote_char_def py_line_break_def py_space_def code_def)
  have nb: "\<forall>c \<in> set ?line. \<not> py_line_break c" using assms(2) q by (auto simp: py_line_break_def code_def)
  have msg: "message e = ?line @ nl # detail" using assms(4) by simp
  have "dropWhile py_space ?line = ?line" by (simp add: py_space_def code_def)
  moreover have "py_strip ?line = ?line"
    by (rule py_strip_id) (use q(2) in \<open>simp add: py_space_def code_def\<close>)
  ultimately have f: "py_first_line (py_strip (?line @ nl # detail)) = ?line"
    using first_line_cases [OF nb _ assms(5), of detail] by auto
  have ne: "py_strip (message e) \<noteq> []" using q(2) by (auto simp: msg py_strip_empty)
  have after: "py_find_after UNIQUE_CONSTRAINT_PREFIX ?line = Some (name @ [quote_char])"
    by (simp add: UNIQUE_CONSTRAINT_PREFIX_def quote_char_def)
  obtain c cs where "name = c # cs" using assms(1) by (cases name) auto
  with ne after f assms(3) py_rpartition_append [of quote_char "[]" name] show ?thesis
    by (simp add: violated_constraint_name_def msg Let_def)
qed

theorem violated_constraint_roundtrip_witness:
  "violated_constraint_name (raise_named ''UniqueViolation''
      (''duplicate key value violates unique constraint '' @ quote_char # ''t_email_key'' @ quote_char # CHR 0x0A # ''DETAIL:  Key (email)=(x) already exists.''))
     = Some ''t_email_key''"
  by (rule violated_constraint_roundtrip [where nl = "CHR 0x0A" and detail = "''DETAIL:  Key (email)=(x) already exists.''"])
    (simp_all add: py_line_break_def code_def)

end
