(* ===== verification/Pipeline.thy ===== *)
theory Pipeline
  imports PyString
begin

text \<open>
  \<^verbatim>\<open>core/batched_import.py\<close>, \<open>_run_data_batches\<close>: the submit-and-drain loop of one load over
  an abstract batch loader. The scheduler's choices (which in-flight batches a \<open>wait\<close> reports
  done, when a cooperative stop is seen) are arguments, so the theorems hold for every
  interleaving of completions; a batch takes effect when its future is drained. The locale
  \<open>batch_loader\<close> is what the loop needs of its loader and progress callback; the importer of
  theory \<open>Loader\<close> provides it.
\<close>

section \<open>The loop\<close>

record 'st pipeline =
  world :: 'st
  agg :: run_aggregate
  tracker :: resume_tracker
  in_flight :: "batch_work list"
  ticks :: nat

text \<open>
  \<open>load\<close> is \<open>_load_batch_timed\<close> on a pool, \<open>progress\<close> the caller's \<open>on_batch_loaded\<close> (\<open>None\<close> when
  not given). \<open>wait_done n xs\<close> is the futures among \<open>xs\<close> that the n-th wait reports done, in the
  order the loop visits them; \<open>cancelled n\<close> is the n-th answer of \<open>should_cancel\<close>.
\<close>

record 'st pipeline_env =
  load :: "batch_work \<Rightarrow> ('st, int \<times> int) action"
  progress :: "(int \<Rightarrow> int \<Rightarrow> ('st, unit) action) option"
  parallelism :: nat
  wait_done :: "nat \<Rightarrow> batch_work list \<Rightarrow> batch_work list"
  cancelled :: "nat \<Rightarrow> bool"

definition resolve_outcome :: "pyexc + int \<times> int \<Rightarrow> string \<Rightarrow> pyexc + batch_outcome" where
  "resolve_outcome result chunk =
     (case result of
        Inr (inserted, skipped) \<Rightarrow>
          Inr \<lparr>oc_chunk_id = chunk, oc_status = Done, oc_rows_loaded = inserted,
               oc_conflicts = skipped, oc_error = None\<rparr>
      | Inl e \<Rightarrow>
          if is_exception e
          then Inr \<lparr>oc_chunk_id = chunk, oc_status = Failed, oc_rows_loaded = 0,
                    oc_conflicts = 0, oc_error = Some (safe_error e)\<rparr>
          else Inl e)"

text \<open>One iteration of \<open>drain_one\<close>'s \<open>for future in done\<close>.\<close>

definition drain_future :: "'st pipeline_env \<Rightarrow> batch_work \<Rightarrow> 'st pipeline \<Rightarrow> (pyexc + unit) \<times> 'st pipeline" where
  "drain_future env w p =
     (let (result, world1) = load env w (world p);
          p1 = p\<lparr>world := world1, in_flight := remove1 w (in_flight p)\<rparr>
      in case resolve_outcome result (w_chunk w) of
           Inl e \<Rightarrow> (Inl e, p1)
         | Inr oc \<Rightarrow>
             (let p2 = p1\<lparr>agg := fold_outcome (agg p1) oc,
                          tracker := (if oc_status oc = Done
                                      then record_done (w_shard w) (w_index w) (tracker p1)
                                      else record_failed (w_shard w) (tracker p1))\<rparr>
              in case progress env of
                   Some report \<Rightarrow>
                     if oc_status oc = Done \<and> (oc_rows_loaded oc \<noteq> 0 \<or> oc_conflicts oc \<noteq> 0)
                     then (let (r, world2) = report (oc_rows_loaded oc) (oc_conflicts oc) (world p2)
                           in (r, p2\<lparr>world := world2\<rparr>))
                     else (Inr (), p2)
                 | None \<Rightarrow> (Inr (), p2)))"

fun drain_futures :: "'st pipeline_env \<Rightarrow> batch_work list \<Rightarrow> 'st pipeline \<Rightarrow> (pyexc + unit) \<times> 'st pipeline" where
  "drain_futures env [] p = (Inr (), p)"
| "drain_futures env (w # ws) p =
     (case drain_future env w p of
        (Inl e, p') \<Rightarrow> (Inl e, p')
      | (Inr _, p') \<Rightarrow> drain_futures env ws p')"

definition drain_one :: "'st pipeline_env \<Rightarrow> 'st pipeline \<Rightarrow> (pyexc + unit) \<times> 'st pipeline" where
  "drain_one env p =
     drain_futures env (wait_done env (ticks p) (in_flight p)) (p\<lparr>ticks := Suc (ticks p)\<rparr>)"

text \<open>\<open>for work in prefetched\<close>: \<open>Inr\<close> of whether the load stopped early.\<close>

fun submit_loop :: "'st pipeline_env \<Rightarrow> pyexc option \<Rightarrow> batch_work list \<Rightarrow> 'st pipeline \<Rightarrow>
    (pyexc + bool) \<times> 'st pipeline" where
  "submit_loop env src_err [] p =
     (case src_err of Some e \<Rightarrow> (Inl e, p) | None \<Rightarrow> (Inr False, p))"
| "submit_loop env src_err (w # ws) p =
     (if cancelled env (ticks p) then (Inr True, p)
      else (let p1 = p\<lparr>in_flight := in_flight p @ [w], ticks := Suc (ticks p)\<rparr>
            in if parallelism env \<le> length (in_flight p1)
               then (case drain_one env p1 of
                       (Inl e, p2) \<Rightarrow> (Inl e, p2)
                     | (Inr _, p2) \<Rightarrow> submit_loop env src_err ws p2)
               else submit_loop env src_err ws p1))"

text \<open>
  \<open>while in_flight: drain_one()\<close>. Every wait reports at least one future, so as many rounds
  as there are futures are enough (\<open>drain_all_empty\<close>).
\<close>

fun drain_rounds :: "nat \<Rightarrow> 'st pipeline_env \<Rightarrow> 'st pipeline \<Rightarrow> (pyexc + unit) \<times> 'st pipeline" where
  "drain_rounds 0 env p = (Inr (), p)"
| "drain_rounds (Suc n) env p =
     (if in_flight p = [] then (Inr (), p)
      else (case drain_one env p of
              (Inl e, p') \<Rightarrow> (Inl e, p')
            | (Inr _, p') \<Rightarrow> drain_rounds n env p'))"

definition drain_all :: "'st pipeline_env \<Rightarrow> 'st pipeline \<Rightarrow> (pyexc + unit) \<times> 'st pipeline" where
  "drain_all env p = drain_rounds (length (in_flight p)) env p"

text \<open>
  The whole loop: the tail drain after the submissions, and the best-effort drain of the
  \<open>finally\<close> when something raised (an \<open>Exception\<close> of that drain only ends it).
\<close>

definition run_data_batches :: "'st pipeline_env \<Rightarrow> batch_work stream \<Rightarrow> 'st pipeline \<Rightarrow>
    (pyexc + bool) \<times> 'st pipeline" where
  "run_data_batches env works p =
     (let (r, p1) = submit_loop env (snd works) (fst works) p;
          (r2, p2) = (case r of
                        Inl e \<Rightarrow> (Inl e, p1)
                      | Inr stopped \<Rightarrow>
                          (case drain_all env p1 of
                             (Inl e, q) \<Rightarrow> (Inl e, q)
                           | (Inr _, q) \<Rightarrow> (Inr stopped, q)))
      in case r2 of
           Inr stopped \<Rightarrow> (Inr stopped, p2)
         | Inl e \<Rightarrow>
             (case drain_all env p2 of
                (Inl e2, q) \<Rightarrow> (if is_exception e2 then (Inl e, q) else (Inl e2, q))
              | (Inr _, q) \<Rightarrow> (Inl e, q)))"

definition start_pipeline :: "'st \<Rightarrow> resume_tracker \<Rightarrow> 'st pipeline" where
  "start_pipeline st tr =
     \<lparr>world = st, agg = empty_aggregate, tracker = tr, in_flight = [], ticks = 0\<rparr>"

text \<open>What \<open>concurrent.futures.wait(..., FIRST_COMPLETED)\<close> answers: some of the futures given, at least one.\<close>

definition fair_wait :: "'st pipeline_env \<Rightarrow> bool" where
  "fair_wait env =
     (\<forall>n xs. xs \<noteq> [] \<longrightarrow> wait_done env n xs \<noteq> [] \<and> set (wait_done env n xs) \<subseteq> set xs
        \<and> distinct (wait_done env n xs))"

section \<open>The high-water is sound and exact\<close>

text \<open>
  \<open>P sh i\<close>: batch \<open>i\<close> of shard \<open>sh\<close> is done. Sound: everything between the initial high-water
  and the frontier, and everything held ahead, is done. Exact: on a shard without a failure the
  first batch past the frontier is not.
\<close>

definition tracker_sound :: "(string, int) pydict \<Rightarrow> (nat option \<Rightarrow> int \<Rightarrow> bool) \<Rightarrow> resume_tracker \<Rightarrow> bool" where
  "tracker_sound W P tr =
     (\<forall>sh. high_water_of W sh \<le> frontier_at tr (shard_key sh)
         \<and> (\<forall>i. high_water_of W sh < i \<and> i \<le> frontier_at tr (shard_key sh) \<longrightarrow> P sh i)
         \<and> (\<forall>i \<in> set (ahead_at tr (shard_key sh)). P sh i))"

definition tracker_exact :: "(nat option \<Rightarrow> int \<Rightarrow> bool) \<Rightarrow> resume_tracker \<Rightarrow> bool" where
  "tracker_exact P tr =
     (\<forall>sh. shard_key sh \<notin> set (sealed tr) \<longrightarrow>
         (\<forall>i. P sh i \<longrightarrow> i \<le> frontier_at tr (shard_key sh) \<or> i \<in> set (ahead_at tr (shard_key sh)))
         \<and> frontier_at tr (shard_key sh) + 1 \<notin> set (ahead_at tr (shard_key sh)))"

lemma frontier_at_simps [simp]:
  "frontier_at (tr\<lparr>frontier := dict_set k f d\<rparr>) k' = (if k' = k then f else frontier_at (tr\<lparr>frontier := d\<rparr>) k')"
  "frontier_at (tr\<lparr>ahead := a\<rparr>) k' = frontier_at tr k'"
  "frontier_at (tr\<lparr>sealed := s\<rparr>) k' = frontier_at tr k'"
  by (simp_all add: frontier_at_def)

lemma ahead_at_simps [simp]:
  "ahead_at (tr\<lparr>ahead := dict_set k a d\<rparr>) k' = (if k' = k then a else ahead_at (tr\<lparr>ahead := d\<rparr>) k')"
  "ahead_at (tr\<lparr>ahead := dict_pop k d\<rparr>) k' = (if k' = k then [] else ahead_at (tr\<lparr>ahead := d\<rparr>) k')"
  "ahead_at (tr\<lparr>frontier := f\<rparr>) k' = ahead_at tr k'"
  "ahead_at (tr\<lparr>sealed := s\<rparr>) k' = ahead_at tr k'"
  by (simp_all add: ahead_at_def)

lemma tracker_sound_new: "tracker_sound W P (new_tracker W)"
  by (auto simp: tracker_sound_def new_tracker_def frontier_at_def ahead_at_def high_water_of_def)

lemma tracker_sound_mono:
  "tracker_sound W P tr \<Longrightarrow> (\<And>sh i. P sh i \<Longrightarrow> Q sh i) \<Longrightarrow> tracker_sound W Q tr"
  unfolding tracker_sound_def by blast

text \<open>The four cases of \<open>record_done\<close> on the shard it names; other shards are untouched.\<close>

lemma record_done_cases:
  obtains (unchanged) "record_done sh n tr = tr"
      "shard_key sh \<in> set (sealed tr) \<or> int n \<le> frontier_at tr (shard_key sh)"
  | (moved) f ah where
      "absorb (frontier_at tr (shard_key sh)) (List.insert (int n) (ahead_at tr (shard_key sh))) = (f, ah)"
      "shard_key sh \<notin> set (sealed tr)" "frontier_at tr (shard_key sh) < int n"
      "sealed (record_done sh n tr) = sealed tr"
      "\<And>k. frontier_at (record_done sh n tr) k = (if k = shard_key sh then f else frontier_at tr k)"
      "\<And>k. ahead_at (record_done sh n tr) k = (if k = shard_key sh then ah else ahead_at tr k)"
proof (cases "shard_key sh \<in> set (sealed tr) \<or> int n \<le> frontier_at tr (shard_key sh)")
  case True
  then show ?thesis by (intro unchanged) (auto simp: record_done_def Let_def)
next
  case False
  obtain f ah where ab: "absorb (frontier_at tr (shard_key sh))
      (List.insert (int n) (ahead_at tr (shard_key sh))) = (f, ah)" by force
  with False have eq: "record_done sh n tr =
      tr\<lparr>ahead := dict_set (shard_key sh) ah (ahead tr), frontier := dict_set (shard_key sh) f (frontier tr)\<rparr>"
    by (simp add: record_done_def Let_def)
  show ?thesis by (rule moved [OF ab]) (use False in \<open>auto simp: eq\<close>)
qed

lemma record_done_sound:
  assumes "tracker_sound W P tr" and "P sh (int n)"
  shows "tracker_sound W P (record_done sh n tr)"
proof (cases rule: record_done_cases [of sh n tr])
  case unchanged
  with assms show ?thesis by simp
next
  case (moved f ah)
  from absorb_spec [OF moved(1)] have spec: "frontier_at tr (shard_key sh) \<le> f"
    "{frontier_at tr (shard_key sh)<..f} \<subseteq> insert (int n) (set (ahead_at tr (shard_key sh)))"
    "set ah \<subseteq> insert (int n) (set (ahead_at tr (shard_key sh)))"
    by auto
  show ?thesis
    unfolding tracker_sound_def
  proof (intro allI conjI)
    fix sh'
    from assms(1) have old: "high_water_of W sh' \<le> frontier_at tr (shard_key sh')"
      "\<forall>i. high_water_of W sh' < i \<and> i \<le> frontier_at tr (shard_key sh') \<longrightarrow> P sh' i"
      "\<forall>i \<in> set (ahead_at tr (shard_key sh')). P sh' i"
      unfolding tracker_sound_def by blast+
    show "high_water_of W sh' \<le> frontier_at (record_done sh n tr) (shard_key sh')"
      using old(1) spec(1) by (auto simp: moved(5))
    show "\<forall>i \<in> set (ahead_at (record_done sh n tr) (shard_key sh')). P sh' i"
      using old(3) spec(3) assms(2) by (auto simp: moved(6))
    fix i
    show "high_water_of W sh' < i \<and> i \<le> frontier_at (record_done sh n tr) (shard_key sh') \<longrightarrow> P sh' i"
    proof (cases "sh' = sh \<and> frontier_at tr (shard_key sh) < i \<and> i \<le> f")
      case True
      then have "i \<in> insert (int n) (set (ahead_at tr (shard_key sh)))" using spec(2) by auto
      with True old(3) assms(2) show ?thesis by auto
    next
      case False
      then show ?thesis using old(2) by (auto simp: moved(5))
    qed
  qed
qed

lemma record_failed_sound: "tracker_sound W P tr \<Longrightarrow> tracker_sound W P (record_failed sh tr)"
  by (auto simp: tracker_sound_def record_failed_def Let_def)

lemma record_done_exact:
  assumes "tracker_exact P tr"
  shows "tracker_exact (\<lambda>s i. P s i \<or> (s = sh \<and> i = int n)) (record_done sh n tr)"
proof (cases rule: record_done_cases [of sh n tr])
  case unchanged
  with assms show ?thesis unfolding tracker_exact_def by auto
next
  case (moved f ah)
  let ?f0 = "frontier_at tr (shard_key sh)" and ?a0 = "ahead_at tr (shard_key sh)"
  from absorb_spec [OF moved(1)] have spec: "?f0 \<le> f" "f + 1 \<notin> set ah"
    "set ah = insert (int n) (set ?a0) - {?f0<..f}" by auto
  from assms moved(2) have old: "\<forall>i. P sh i \<longrightarrow> i \<le> ?f0 \<or> i \<in> set ?a0"
    unfolding tracker_exact_def by blast
  show ?thesis
    unfolding tracker_exact_def
  proof (intro allI impI)
    fix s assume s: "shard_key s \<notin> set (sealed (record_done sh n tr))"
    show "(\<forall>i. P s i \<or> (s = sh \<and> i = int n) \<longrightarrow>
             i \<le> frontier_at (record_done sh n tr) (shard_key s) \<or> i \<in> set (ahead_at (record_done sh n tr) (shard_key s)))
        \<and> frontier_at (record_done sh n tr) (shard_key s) + 1 \<notin> set (ahead_at (record_done sh n tr) (shard_key s))"
    proof (cases "s = sh")
      case True
      with old spec show ?thesis by (force simp: moved(5,6))
    next
      case False
      with assms s show ?thesis unfolding tracker_exact_def by (simp add: moved(4-6))
    qed
  qed
qed

lemma record_failed_exact: "tracker_exact P tr \<Longrightarrow> tracker_exact P (record_failed sh tr)"
  by (auto simp: tracker_exact_def record_failed_def Let_def)

lemma sealed_record [simp]:
  "set (sealed (record_failed sh tr)) = insert (shard_key sh) (set (sealed tr))"
  "sealed (record_done sh n tr) = sealed tr"
  by (auto simp: record_failed_def record_done_def Let_def split: prod.splits)


section \<open>One drained future\<close>

lemma drain_future_elim:
  assumes "drain_future env w p = (r, p')"
  obtains (raised) result e world1 where
      "load env w (world p) = (result, world1)" "resolve_outcome result (w_chunk w) = Inl e" "r = Inl e"
      "world p' = world1" "in_flight p' = remove1 w (in_flight p)" "tracker p' = tracker p" "agg p' = agg p"
  | (folded) result oc world1 where
      "load env w (world p) = (result, world1)" "resolve_outcome result (w_chunk w) = Inr oc"
      "agg p' = fold_outcome (agg p) oc" "in_flight p' = remove1 w (in_flight p)"
      "tracker p' = (if oc_status oc = Done then record_done (w_shard w) (w_index w) (tracker p)
                     else record_failed (w_shard w) (tracker p))"
      "world p' = world1 \<or> (\<exists>report a b q. progress env = Some report \<and> report a b world1 = (q, world p'))"
proof -
  obtain result world1 where ld: "load env w (world p) = (result, world1)" by force
  show thesis
  proof (cases "resolve_outcome result (w_chunk w)")
    case (Inl e)
    show ?thesis by (rule raised [OF ld Inl]) (use assms ld Inl in \<open>auto simp: drain_future_def Let_def\<close>)
  next
    case (Inr oc)
    show ?thesis
    proof (cases "progress env")
      case None
      show ?thesis
        by (rule folded [OF ld Inr]) (use assms ld Inr None in \<open>auto simp: drain_future_def Let_def\<close>)
    next
      case (Some report)
      show ?thesis
        by (rule folded [OF ld Inr])
          (use assms ld Inr Some in \<open>auto simp: drain_future_def Let_def split: if_splits prod.splits\<close>)
    qed
  qed
qed

lemma fold_outcome_counts:
  "batches_completed (fold_outcome a oc) + failures (fold_outcome a oc) = Suc (batches_completed a + failures a)"
  "failures a \<le> failures (fold_outcome a oc)"
  "oc_status oc = Failed \<Longrightarrow> 0 < failures (fold_outcome a oc)"
  by (cases "oc_status oc"; simp add: fold_outcome_def Let_def)
    (cases "oc_status oc"; simp add: fold_outcome_def Let_def)+

lemma length_remove1_Suc: "w \<in> set xs \<Longrightarrow> Suc (length (remove1 w xs)) = length xs"
  by (induction xs) auto

lemma subset_remove1: "distinct (w # ws) \<Longrightarrow> set (w # ws) \<subseteq> set xs \<Longrightarrow> set ws \<subseteq> set (remove1 w xs)"
proof
  fix v assume "distinct (w # ws)" "set (w # ws) \<subseteq> set xs" "v \<in> set ws"
  then have "v \<noteq> w" "v \<in> set xs" by auto
  then show "v \<in> set (remove1 w xs)" by (simp add: in_set_remove1)
qed

lemma resolve_outcome_Done:
  "resolve_outcome result c = Inr oc \<Longrightarrow> oc_status oc = Done \<Longrightarrow> \<exists>counts. result = Inr counts"
  by (auto simp: resolve_outcome_def split: sum.splits if_splits)

section \<open>The contract of a batch loader\<close>

text \<open>
  \<open>committed st w\<close>: what a returned load of \<open>w\<close> promises of the target, and what no later
  load or progress report takes back. \<open>good\<close> is the world's own invariant.
\<close>

locale batch_loader =
  fixes env :: "'st pipeline_env"
    and good :: "'st \<Rightarrow> bool"
    and loadable :: "batch_work \<Rightarrow> bool"
    and committed :: "'st \<Rightarrow> batch_work \<Rightarrow> bool"
  assumes wait_fair: "fair_wait env"
    and load_good: "good st \<Longrightarrow> loadable w \<Longrightarrow> load env w st = (r, st') \<Longrightarrow> good st'"
    and load_commits: "good st \<Longrightarrow> loadable w \<Longrightarrow> load env w st = (Inr counts, st') \<Longrightarrow> committed st' w"
    and load_keeps: "good st \<Longrightarrow> loadable w \<Longrightarrow> committed st v \<Longrightarrow> load env w st = (r, st') \<Longrightarrow> committed st' v"
    and progress_good: "progress env = Some report \<Longrightarrow> good st \<Longrightarrow> report a b st = (q, st') \<Longrightarrow> good st'"
    and progress_keeps: "progress env = Some report \<Longrightarrow> good st \<Longrightarrow> committed st v \<Longrightarrow> report a b st = (q, st') \<Longrightarrow> committed st' v"
begin

definition done_batch :: "batch_work list \<Rightarrow> 'st \<Rightarrow> nat option \<Rightarrow> int \<Rightarrow> bool" where
  "done_batch works st sh i =
     (\<exists>w \<in> set works. w_shard w = sh \<and> int (w_index w) = i \<and> committed st w)"

definition pipe_inv :: "batch_work list \<Rightarrow> (string, int) pydict \<Rightarrow> 'st pipeline \<Rightarrow> bool" where
  "pipe_inv works W p =
     (good (world p) \<and> set (in_flight p) \<subseteq> set works
      \<and> tracker_sound W (done_batch works (world p)) (tracker p))"

text \<open>Every submitted batch is in flight, committed, or counted as a failure; nothing else is counted.\<close>

definition accounted :: "batch_work list \<Rightarrow> 'st pipeline \<Rightarrow> bool" where
  "accounted submitted p =
     ((\<forall>w \<in> set submitted. w \<in> set (in_flight p) \<or> committed (world p) w \<or> 0 < failures (agg p))
      \<and> batches_completed (agg p) + failures (agg p) + length (in_flight p) = length submitted)"

lemma wait_done_facts:
  "in_flight p \<noteq> [] \<Longrightarrow> wait_done env n (in_flight p) \<noteq> []
     \<and> set (wait_done env n (in_flight p)) \<subseteq> set (in_flight p) \<and> distinct (wait_done env n (in_flight p))"
  using wait_fair by (auto simp: fair_wait_def)

lemma committed_mono_load:
  "good st \<Longrightarrow> loadable w \<Longrightarrow> load env w st = (r, st') \<Longrightarrow> done_batch works st sh i \<Longrightarrow> done_batch works st' sh i"
  unfolding done_batch_def using load_keeps by blast

lemma drain_future_inv:
  assumes inv: "pipe_inv works W p" and w: "w \<in> set works" "loadable w" and eq: "drain_future env w p = (r, p')"
  shows "pipe_inv works W p' \<and> in_flight p' = remove1 w (in_flight p)"
proof -
  from inv have g: "good (world p)" and sub: "set (remove1 w (in_flight p)) \<subseteq> set works"
    and snd0: "tracker_sound W (done_batch works (world p)) (tracker p)"
    by (auto simp: pipe_inv_def dest: notin_set_remove1)
  have loaded: "good world1" "tracker_sound W (done_batch works world1) (tracker p)"
    if ld: "load env w (world p) = (result, world1)" for result world1
    using load_good [OF g w(2) ld] tracker_sound_mono [OF snd0 committed_mono_load [OF g w(2) ld]] by auto
  from eq show ?thesis
  proof (cases rule: drain_future_elim)
    case (raised result e world1)
    with loaded [OF raised(1)] sub show ?thesis by (simp add: pipe_inv_def)
  next
    case (folded result oc world1)
    have "oc_status oc = Done \<Longrightarrow> committed world1 w"
      using folded(1,2) resolve_outcome_Done load_commits [OF g w(2)] by blast
    then have s1: "tracker_sound W (done_batch works world1) (tracker p')"
      unfolding folded(5) using loaded(2) [OF folded(1)] w(1)
      by (auto intro!: record_done_sound record_failed_sound simp: done_batch_def)
    from folded(6) have "good (world p') \<and> tracker_sound W (done_batch works (world p')) (tracker p')"
    proof
      assume "world p' = world1"
      with s1 loaded(1) [OF folded(1)] show ?thesis by simp
    next
      assume "\<exists>report a b q. progress env = Some report \<and> report a b world1 = (q, world p')"
      then obtain report a b q where rep: "progress env = Some report" "report a b world1 = (q, world p')" by blast
      have "done_batch works world1 sh i \<Longrightarrow> done_batch works (world p') sh i" for sh i
        unfolding done_batch_def using progress_keeps [OF rep(1) loaded(1) [OF folded(1)] _ rep(2)] by blast
      with s1 progress_good [OF rep(1) loaded(1) [OF folded(1)] rep(2)] show ?thesis
        by (auto intro: tracker_sound_mono)
    qed
    with folded(4) sub show ?thesis by (simp add: pipe_inv_def)
  qed
qed

lemma drain_future_accounted:
  assumes good: "good (world p)" and acc: "accounted sub p" and w: "w \<in> set (in_flight p)" "loadable w"
    and eq: "drain_future env w p = (Inr u, p')"
  shows "accounted sub p'"
  using eq
proof (cases rule: drain_future_elim)
  case (folded result oc world1)
  have g1: "good world1" by (rule load_good [OF good w(2) folded(1)])
  have comm: "oc_status oc = Done \<Longrightarrow> committed world1 w"
    using folded(1,2) resolve_outcome_Done load_commits [OF good w(2)] by blast
  have keep: "committed world1 v \<Longrightarrow> committed (world p') v" for v
    using folded(6) progress_keeps g1 by metis
  note cnt = fold_outcome_counts [where a = "agg p" and oc = oc, folded folded(3)]
  have len: "Suc (length (in_flight p')) = length (in_flight p)"
    using length_remove1_Suc [OF w(1)] folded(4) by simp
  have "v \<in> set (in_flight p') \<or> committed (world p') v \<or> 0 < failures (agg p')" if "v \<in> set sub" for v
  proof (cases "v = w")
    case True
    then show ?thesis using comm keep cnt(3) by (cases "oc_status oc") auto
  next
    case False
    with acc that have "v \<in> set (in_flight p) \<or> committed (world p) v \<or> 0 < failures (agg p)"
      by (auto simp: accounted_def)
    then show ?thesis
    proof (elim disjE)
      assume "v \<in> set (in_flight p)"
      with False show ?thesis by (simp add: folded(4) in_set_remove1)
    next
      assume "committed (world p) v"
      with keep load_keeps [OF good w(2) _ folded(1)] show ?thesis by simp
    next
      assume "0 < failures (agg p)"
      with cnt(2) show ?thesis by simp
    qed
  qed
  with acc cnt(1) len show ?thesis by (simp add: accounted_def)
qed simp

lemma drain_futures_inv:
  "pipe_inv works W p \<Longrightarrow> \<forall>w \<in> set works. loadable w \<Longrightarrow> set ws \<subseteq> set works \<Longrightarrow>
   drain_futures env ws p = (r, p') \<Longrightarrow>
     pipe_inv works W p' \<and> length (in_flight p') \<le> length (in_flight p)"
proof (induction ws arbitrary: p)
  case Nil
  then show ?case by simp
next
  case (Cons w ws)
  obtain q p1 where d: "drain_future env w p = (q, p1)" by force
  from Cons.prems have w: "w \<in> set works" "loadable w" by auto
  have p1: "pipe_inv works W p1" "length (in_flight p1) \<le> length (in_flight p)"
    using drain_future_inv [OF Cons.prems(1) w d] by (auto simp: length_remove1)
  show ?case
  proof (cases q)
    case (Inl e)
    with d Cons.prems(4) p1 show ?thesis by simp
  next
    case (Inr u)
    with d Cons.prems(4) have "drain_futures env ws p1 = (r, p')" by simp
    with Cons.IH [OF p1(1) Cons.prems(2)] Cons.prems(3) p1(2) show ?thesis by simp
  qed
qed

lemma drain_futures_shrinks:
  "pipe_inv works W p \<Longrightarrow> \<forall>w \<in> set works. loadable w \<Longrightarrow> distinct ws \<Longrightarrow> set ws \<subseteq> set (in_flight p) \<Longrightarrow>
   drain_futures env ws p = (Inr u, p') \<Longrightarrow> length (in_flight p') + length ws = length (in_flight p)"
proof (induction ws arbitrary: p)
  case Nil
  then show ?case by simp
next
  case (Cons w ws)
  from Cons.prems(5) obtain u1 p1 where d: "drain_future env w p = (Inr u1, p1)"
    and rest: "drain_futures env ws p1 = (Inr u, p')" by (auto split: sum.splits prod.splits)
  have w: "w \<in> set (in_flight p)" "w \<in> set works" "loadable w"
    using Cons.prems by (auto simp: pipe_inv_def)
  from drain_future_inv [OF Cons.prems(1) w(2,3) d] have p1: "pipe_inv works W p1"
    and fl: "in_flight p1 = remove1 w (in_flight p)" by auto
  have "set ws \<subseteq> set (in_flight p1)" using subset_remove1 [OF Cons.prems(3,4)] by (simp add: fl)
  with Cons.IH [OF p1 Cons.prems(2) _ _ rest] Cons.prems(3) length_remove1_Suc [OF w(1)] fl
  show ?case by simp
qed

lemma drain_futures_ok:
  "pipe_inv works W p \<Longrightarrow> \<forall>w \<in> set works. loadable w \<Longrightarrow> accounted sub p \<Longrightarrow> distinct ws \<Longrightarrow>
   set ws \<subseteq> set (in_flight p) \<Longrightarrow> drain_futures env ws p = (Inr u, p') \<Longrightarrow> accounted sub p'"
proof (induction ws arbitrary: p)
  case Nil
  then show ?case by simp
next
  case (Cons w ws)
  from Cons.prems(6) obtain u1 p1 where d: "drain_future env w p = (Inr u1, p1)"
    and rest: "drain_futures env ws p1 = (Inr u, p')" by (auto split: sum.splits prod.splits)
  have w: "w \<in> set (in_flight p)" "w \<in> set works" "loadable w"
    using Cons.prems by (auto simp: pipe_inv_def)
  from drain_future_inv [OF Cons.prems(1) w(2,3) d] have p1: "pipe_inv works W p1"
    and fl: "in_flight p1 = remove1 w (in_flight p)" by auto
  have "accounted sub p1"
    using drain_future_accounted [OF _ Cons.prems(3) w(1,3) d] Cons.prems(1) by (simp add: pipe_inv_def)
  moreover have "set ws \<subseteq> set (in_flight p1)" using subset_remove1 [OF Cons.prems(4,5)] by (simp add: fl)
  ultimately show ?case using Cons.IH [OF p1 Cons.prems(2) _ _ _ rest] Cons.prems(4) by simp
qed

lemma drain_one_inv:
  assumes "pipe_inv works W p" "\<forall>w \<in> set works. loadable w" "in_flight p \<noteq> []" "drain_one env p = (r, p')"
  shows "pipe_inv works W p' \<and> length (in_flight p') \<le> length (in_flight p)"
proof -
  have "set (wait_done env (ticks p) (in_flight p)) \<subseteq> set works"
    using assms(1,3) wait_done_facts [of p "ticks p"] by (auto simp: pipe_inv_def)
  moreover have "pipe_inv works W (p\<lparr>ticks := Suc (ticks p)\<rparr>)" using assms(1) by (simp add: pipe_inv_def)
  ultimately show ?thesis using drain_futures_inv assms(2,4) unfolding drain_one_def by fastforce
qed

lemma drain_one_shrinks:
  assumes "pipe_inv works W p" "\<forall>w \<in> set works. loadable w" "in_flight p \<noteq> []"
    and "drain_one env p = (Inr u, p')"
  shows "length (in_flight p') < length (in_flight p)"
proof -
  let ?p = "p\<lparr>ticks := Suc (ticks p)\<rparr>" and ?d = "wait_done env (ticks p) (in_flight p)"
  have wd: "?d \<noteq> []" "set ?d \<subseteq> set (in_flight p)" "distinct ?d"
    using wait_done_facts [OF assms(3)] by auto
  have "pipe_inv works W ?p" using assms(1) by (simp add: pipe_inv_def)
  then have "length (in_flight p') + length ?d = length (in_flight ?p)"
    using wd assms(2,4) drain_futures_shrinks [of works W ?p ?d u p'] by (simp add: drain_one_def)
  with wd(1) show ?thesis by (cases ?d) auto
qed

lemma drain_one_ok:
  assumes "pipe_inv works W p" "\<forall>w \<in> set works. loadable w" "accounted sub p" "in_flight p \<noteq> []"
    and "drain_one env p = (Inr u, p')"
  shows "accounted sub p' \<and> length (in_flight p') < length (in_flight p)"
proof -
  let ?p = "p\<lparr>ticks := Suc (ticks p)\<rparr>" and ?d = "wait_done env (ticks p) (in_flight p)"
  have "pipe_inv works W ?p" "accounted sub ?p"
    using assms(1,3) by (simp_all add: pipe_inv_def accounted_def)
  then have "accounted sub p'"
    using wait_done_facts [OF assms(4)] assms(2,5) drain_futures_ok [of works W ?p sub ?d u p']
    by (simp add: drain_one_def)
  with drain_one_shrinks [OF assms(1,2,4,5)] show ?thesis by simp
qed

lemma drain_rounds_inv:
  "pipe_inv works W p \<Longrightarrow> \<forall>w \<in> set works. loadable w \<Longrightarrow> drain_rounds n env p = (r, p') \<Longrightarrow>
     pipe_inv works W p' \<and> length (in_flight p') \<le> length (in_flight p)"
proof (induction n arbitrary: p)
  case 0
  then show ?case by simp
next
  case (Suc n)
  show ?case
  proof (cases "in_flight p = []")
    case True
    with Suc.prems show ?thesis by simp
  next
    case False
    obtain q p1 where d: "drain_one env p = (q, p1)" by force
    note p1 = drain_one_inv [OF Suc.prems(1,2) False d]
    show ?thesis
    proof (cases q)
      case (Inl e)
      with d False Suc.prems(3) p1 show ?thesis by simp
    next
      case (Inr u)
      with d False Suc.prems(3) have "drain_rounds n env p1 = (r, p')" by simp
      with Suc.IH [of p1] p1 Suc.prems(2) show ?thesis by simp
    qed
  qed
qed

lemma drain_rounds_ok:
  "pipe_inv works W p \<Longrightarrow> \<forall>w \<in> set works. loadable w \<Longrightarrow> accounted sub p \<Longrightarrow> length (in_flight p) \<le> n \<Longrightarrow>
   drain_rounds n env p = (Inr u, p') \<Longrightarrow> accounted sub p' \<and> in_flight p' = []"
proof (induction n arbitrary: p)
  case 0
  then show ?case by simp
next
  case (Suc n)
  show ?case
  proof (cases "in_flight p = []")
    case True
    with Suc.prems show ?thesis by simp
  next
    case False
    with Suc.prems(5) obtain u1 p1 where d: "drain_one env p = (Inr u1, p1)"
      and rest: "drain_rounds n env p1 = (Inr u, p')" by (auto split: sum.splits prod.splits)
    have "pipe_inv works W p1" using drain_one_inv [OF Suc.prems(1,2) False d] by simp
    moreover have "accounted sub p1 \<and> length (in_flight p1) < length (in_flight p)"
      by (rule drain_one_ok [OF Suc.prems(1-3) False d])
    ultimately show ?thesis using Suc.IH [OF _ Suc.prems(2) _ _ rest] Suc.prems(4) by simp
  qed
qed

lemma submit_loop_inv:
  "pipe_inv works W p \<Longrightarrow> \<forall>w \<in> set works. loadable w \<Longrightarrow> set ws \<subseteq> set works \<Longrightarrow>
   length (in_flight p) < parallelism env \<Longrightarrow> submit_loop env err ws p = (r, p') \<Longrightarrow>
     pipe_inv works W p' \<and> length (in_flight p') \<le> parallelism env"
proof (induction ws arbitrary: p)
  case Nil
  then show ?case by (auto split: option.splits)
next
  case (Cons w ws)
  let ?p1 = "p\<lparr>in_flight := in_flight p @ [w], ticks := Suc (ticks p)\<rparr>"
  have p1: "pipe_inv works W ?p1" "in_flight ?p1 \<noteq> []" using Cons.prems(1,3) by (auto simp: pipe_inv_def)
  show ?case
  proof (cases "cancelled env (ticks p)")
    case True
    with Cons.prems show ?thesis by simp
  next
    case False
    show ?thesis
    proof (cases "parallelism env \<le> length (in_flight ?p1)")
      case True
      obtain q p2 where d: "drain_one env ?p1 = (q, p2)" by force
      note p2 = drain_one_inv [OF p1(1) Cons.prems(2) p1(2) d]
      show ?thesis
      proof (cases q)
        case (Inl e)
        with d True False Cons.prems(4,5) p2 show ?thesis by (simp add: Let_def)
      next
        case (Inr u)
        with d True False Cons.prems(5) have rest: "submit_loop env err ws p2 = (r, p')" by (simp add: Let_def)
        have "length (in_flight p2) < length (in_flight ?p1)"
          using drain_one_shrinks [OF p1(1) Cons.prems(2) p1(2)] d Inr by blast
        with Cons.prems(4) have "length (in_flight p2) < parallelism env" by simp
        with Cons.IH [OF _ Cons.prems(2) _ _ rest] p2 Cons.prems(3) show ?thesis by simp
      qed
    next
      case under: False
      with False Cons.prems(5) have "submit_loop env err ws ?p1 = (r, p')" by (simp add: Let_def)
      with Cons.IH [OF p1(1) Cons.prems(2)] Cons.prems(3) under show ?thesis by simp
    qed
  qed
qed

lemma submit_loop_ok:
  "pipe_inv works W p \<Longrightarrow> \<forall>w \<in> set works. loadable w \<Longrightarrow> set ws \<subseteq> set works \<Longrightarrow> accounted sub p \<Longrightarrow>
   submit_loop env err ws p = (Inr stopped, p') \<Longrightarrow>
     \<exists>taken. prefix taken ws \<and> accounted (sub @ taken) p' \<and> (\<not> stopped \<longrightarrow> taken = ws \<and> err = None)"
proof (induction ws arbitrary: p sub)
  case Nil
  then show ?case by (auto split: option.splits)
next
  case (Cons w ws)
  let ?p1 = "p\<lparr>in_flight := in_flight p @ [w], ticks := Suc (ticks p)\<rparr>"
  have p1: "pipe_inv works W ?p1" "in_flight ?p1 \<noteq> []" using Cons.prems(1,3) by (auto simp: pipe_inv_def)
  have acc1: "accounted (sub @ [w]) ?p1" using Cons.prems(4) by (auto simp: accounted_def)
  show ?case
  proof (cases "cancelled env (ticks p)")
    case True
    with Cons.prems show ?thesis by (auto intro: exI [of _ "[]"])
  next
    case False
    obtain p2 where rest: "submit_loop env err ws p2 = (Inr stopped, p')" "pipe_inv works W p2"
      "accounted (sub @ [w]) p2"
    proof (cases "parallelism env \<le> length (in_flight ?p1)")
      case True
      with False Cons.prems(5) obtain u p2 where d: "drain_one env ?p1 = (Inr u, p2)"
        and r: "submit_loop env err ws p2 = (Inr stopped, p')"
        by (auto simp: Let_def split: sum.splits prod.splits)
      from drain_one_inv [OF p1(1) Cons.prems(2) p1(2) d] drain_one_ok [OF p1(1) Cons.prems(2) acc1 p1(2) d] r
      show thesis by (intro that) auto
    next
      case under: False
      with False Cons.prems(5) p1(1) acc1 show thesis by (intro that [of ?p1]) (simp_all add: Let_def)
    qed
    from Cons.IH [OF rest(2) Cons.prems(2) _ rest(3) rest(1)] Cons.prems(3)
    obtain taken where "prefix taken ws" "accounted ((sub @ [w]) @ taken) p'"
      "\<not> stopped \<longrightarrow> taken = ws \<and> err = None" by auto
    then show ?thesis by (intro exI [of _ "w # taken"]) auto
  qed
qed

lemma run_sound:
  assumes "pipe_inv (fst works) W p" "\<forall>w \<in> set (fst works). loadable w"
    and "length (in_flight p) < parallelism env" "run_data_batches env works p = (r, p')"
  shows "pipe_inv (fst works) W p' \<and> length (in_flight p') \<le> parallelism env"
proof -
  obtain q p1 where s: "submit_loop env (snd works) (fst works) p = (q, p1)" by force
  note p1 = submit_loop_inv [OF assms(1,2) subset_refl assms(3) s]
  have all: "pipe_inv (fst works) W x' \<and> length (in_flight x') \<le> length (in_flight x)"
    if "pipe_inv (fst works) W x" "drain_all env x = (y, x')" for x y x'
    using drain_rounds_inv [OF that(1) assms(2)] that(2) by (simp add: drain_all_def)
  obtain y1 x1 where d1: "drain_all env p1 = (y1, x1)" by force
  obtain y2 x2 where d2: "drain_all env x1 = (y2, x2)" by force
  from all [OF _ d1] p1 all [OF _ d2] assms(4) s d1 d2 show ?thesis
    by (auto simp: run_data_batches_def Let_def split: sum.splits if_splits)
qed

lemma run_complete:
  assumes "pipe_inv (fst works) W p" "\<forall>w \<in> set (fst works). loadable w"
    and "accounted [] p" "length (in_flight p) < parallelism env"
    and "run_data_batches env works p = (Inr stopped, p')"
  shows "in_flight p' = [] \<and>
    (\<exists>taken. prefix taken (fst works) \<and> accounted taken p' \<and> (\<not> stopped \<longrightarrow> taken = fst works \<and> snd works = None))"
proof -
  obtain q p1 where s: "submit_loop env (snd works) (fst works) p = (q, p1)" by force
  obtain y1 x1 where d: "drain_all env p1 = (y1, x1)" by force
  from assms(5) s d have q: "q = Inr stopped" "is_ok y1" "p' = x1"
    by (auto simp: run_data_batches_def Let_def split: sum.splits prod.splits if_splits)
  then obtain u where u: "y1 = Inr u" by (auto simp: is_ok_iff)
  from submit_loop_ok [OF assms(1,2) subset_refl assms(3), of "snd works" stopped p1] s q obtain taken where t:
    "prefix taken (fst works)" "accounted taken p1" "\<not> stopped \<longrightarrow> taken = fst works \<and> snd works = None" by auto
  show ?thesis
    using drain_rounds_ok [OF _ assms(2) t(2) order_refl]
      submit_loop_inv [OF assms(1,2) subset_refl assms(4) s] d u q t
    by (auto simp: drain_all_def)
qed

end

section \<open>Properties\<close>

text \<open>What the drain tells the tracker of one batch: its shard, its index, and whether it was done.\<close>

fun tracker_event :: "nat option \<times> nat \<times> bool \<Rightarrow> resume_tracker \<Rightarrow> resume_tracker" where
  "tracker_event (sh, n, ok) tr = (if ok then record_done sh n tr else record_failed sh tr)"

lemma tracker_events_sound:
  "tracker_sound W P tr \<Longrightarrow> (\<And>s n. (s, n, True) \<in> set evs \<Longrightarrow> P s (int n)) \<Longrightarrow> tracker_sound W P (fold tracker_event evs tr)"
proof (induction evs arbitrary: tr)
  case (Cons ev evs)
  obtain s n ok where ev: "ev = (s, n, ok)" by (cases ev)
  with Cons.prems have "tracker_sound W P (tracker_event ev tr)"
    by (auto intro: record_done_sound record_failed_sound)
  with Cons show ?case by simp
qed simp

lemma tracker_events_exact:
  "tracker_exact P tr \<Longrightarrow> tracker_exact (\<lambda>s i. P s i \<or> (\<exists>n. (s, n, True) \<in> set evs \<and> i = int n)) (fold tracker_event evs tr)"
proof (induction evs arbitrary: tr P)
  case (Cons ev evs)
  obtain s n ok where ev: "ev = (s, n, ok)" by (cases ev)
  let ?P = "\<lambda>s' i. P s' i \<or> (ok \<and> s' = s \<and> i = int n)"
  have "tracker_exact ?P (tracker_event ev tr)"
    using record_done_exact [OF Cons.prems, of s n] record_failed_exact [OF Cons.prems, of s] by (cases ok) (simp_all add: ev)
  note IH = Cons.IH [OF this]
  have "(\<lambda>s' i. ?P s' i \<or> (\<exists>n. (s', n, True) \<in> set evs \<and> i = int n))
      = (\<lambda>s' i. P s' i \<or> (\<exists>n. (s', n, True) \<in> set (ev # evs) \<and> i = int n))"
    by (auto simp: ev fun_eq_iff)
  from IH [unfolded this] show ?case by simp
qed simp

lemma tracker_events_sealed:
  "set (sealed (fold tracker_event evs tr)) = set (sealed tr) \<union> {shard_key s | s. \<exists>n. (s, n, False) \<in> set evs}"
  by (induction evs arbitrary: tr) (auto split: if_splits)

text \<open>
  C21: the high-water is sound and exact. Whatever the order the batches end in, every batch
  above the starting point and at or below the high-water handed back was done; and on a shard
  without a failure the batch after it was not.
\<close>

theorem watermark_exact:
  "(\<forall>i. high_water_of W sh < i
      \<and> i \<le> high_water_of (tracker_watermark (fold tracker_event evs (new_tracker W))) sh
        \<longrightarrow> (\<exists>n. int n = i \<and> (sh, n, True) \<in> set evs))
   \<and> ((\<forall>n. (sh, n, False) \<notin> set evs) \<longrightarrow>
       (\<forall>n. (sh, n, True) \<in> set evs \<longrightarrow>
          int n \<noteq> high_water_of (tracker_watermark (fold tracker_event evs (new_tracker W))) sh + 1))"
proof -
  let ?tr = "fold tracker_event evs (new_tracker W)"
  let ?P = "\<lambda>s i. \<exists>n. (s, n, True) \<in> set evs \<and> i = int n"
  have hw: "high_water_of (tracker_watermark ?tr) sh = frontier_at ?tr (shard_key sh)"
    by (simp add: high_water_of_def tracker_watermark_def frontier_at_def)
  have s: "tracker_sound W ?P ?tr"
    by (rule tracker_events_sound [OF tracker_sound_new]) blast
  have "tracker_exact (\<lambda>_ _. False) (new_tracker W)"
    by (simp add: tracker_exact_def new_tracker_def ahead_at_def)
  from tracker_events_exact [OF this, of evs] have e: "tracker_exact ?P ?tr" by simp
  have seal: "set (sealed ?tr) = {shard_key s | s. \<exists>n. (s, n, False) \<in> set evs}"
    by (simp add: tracker_events_sealed new_tracker_def)
  show ?thesis
    unfolding hw
  proof (intro conjI allI impI)
    fix i assume "high_water_of W sh < i \<and> i \<le> frontier_at ?tr (shard_key sh)"
    with s show "\<exists>n. int n = i \<and> (sh, n, True) \<in> set evs" unfolding tracker_sound_def by blast
  next
    fix n assume "\<forall>n. (sh, n, False) \<notin> set evs" and n: "(sh, n, True) \<in> set evs"
    with seal have "shard_key sh \<notin> set (sealed ?tr)" by auto
    with e n show "int n \<noteq> frontier_at ?tr (shard_key sh) + 1"
      unfolding tracker_exact_def by force
  qed
qed

theorem watermark_exact_witness:
  "\<exists>n. int n = 1 \<and> (None, n, True) \<in> set [(None, 1, True), (None, 0, True), (None, 3, True)]"
proof -
  have "high_water_of (tracker_watermark (fold tracker_event
      [(None, 1, True), (None, 0, True), (None, 3, True)] (new_tracker []))) None = 1"
    by (simp add: record_done_def new_tracker_def shard_key_def frontier_at_def ahead_at_def absorb.simps
        high_water_of_def tracker_watermark_def Let_def)
  then show ?thesis
    using watermark_exact [of "[]" None "[(None, 1, True), (None, 0, True), (None, 3, True)]"]
    by (simp add: high_water_of_def)
qed

lemma any_loader: "fair_wait env \<Longrightarrow> batch_loader env (\<lambda>_. True) (\<lambda>_. True) (\<lambda>_ _. True)"
  by unfold_locales simp_all



end
