(* ===== verification/Occ.thy ===== *)
theory Occ
  imports Prelude
begin

text \<open>
  \<^verbatim>\<open>core/occ.py\<close>: the bounded retry every write to Aurora DSQL goes through, and the
  error classes of \<^verbatim>\<open>core/target_connection.py\<close> and \<^verbatim>\<open>core/batched_import.py\<close>
  that decide what is retried. The operation, the sleep and the jitter source are the
  caller's: they act on a state of any type. The main lemma \<open>with_occ_retry_run\<close> says which
  attempt's outcome the caller sees; \<open>with_occ_retry_rule\<close> is the proof rule the loader uses.
\<close>

section \<open>Error classes\<close>

definition OCC_SQLSTATE :: string where
  "OCC_SQLSTATE = ''40001''"

definition is_occ_conflict :: "pyexc \<Rightarrow> bool" where
  "is_occ_conflict e = (sqlstate e = Some OCC_SQLSTATE)"

definition SERVER_UNAVAILABLE_SQLSTATE :: string where
  "SERVER_UNAVAILABLE_SQLSTATE = ''XX000''"

definition is_server_unavailable :: "pyexc \<Rightarrow> bool" where
  "is_server_unavailable e = (sqlstate e = Some SERVER_UNAVAILABLE_SQLSTATE)"

definition ascii_lower :: "string \<Rightarrow> string" where
  "ascii_lower = map (\<lambda>c. if 65 \<le> (of_char c :: nat) \<and> (of_char c :: nat) \<le> 90
                           then char_of (of_char c + 32 :: nat) else c)"

definition TRANSIENT_CONN_SIGNATURES :: "string list" where
  "TRANSIENT_CONN_SIGNATURES =
     [''ssl error'', ''unexpected eof'', ''eof detected'', ''server closed the connection'',
      ''connection already closed'', ''connection is closed'', ''connection is lost'',
      ''connection reset'', ''consuming input failed'', ''could not receive data'',
      ''could not send data'', ''terminating connection'', ''broken pipe'',
      ''no connection to the server'', ''connection not open'', ''connection timeout expired'',
      ''timeout expired'', ''timed out'']"

definition is_transient_connection_error :: "pyexc \<Rightarrow> bool" where
  "is_transient_connection_error e =
     (case sqlstate e of
        Some st \<Rightarrow> take 2 st = ''08''
      | None \<Rightarrow>
          if ''OperationalError'' \<in> set (mro e) \<or> ''InterfaceError'' \<in> set (mro e) then True
          else list_ex (\<lambda>sig. sublist sig (ascii_lower (message e))) TRANSIENT_CONN_SIGNATURES)"

definition is_dropped_connection :: "pyexc \<Rightarrow> bool" where
  "is_dropped_connection e =
     (is_transient_connection_error e
      \<or> sqlstate e \<in> {Some ''57P01'', Some ''57P02'', Some ''57P03''})"

definition is_retryable_load_error :: "pyexc \<Rightarrow> bool" where
  "is_retryable_load_error e =
     (is_occ_conflict e \<or> is_server_unavailable e \<or> is_dropped_connection e)"

lemmas error_class_defs = is_occ_conflict_def is_server_unavailable_def
  is_transient_connection_error_def is_dropped_connection_def is_retryable_load_error_def
  OCC_SQLSTATE_def SERVER_UNAVAILABLE_SQLSTATE_def

text \<open>A unique violation is a data error: never retried.\<close>

lemma unique_violation_not_retryable: "sqlstate e = Some ''23505'' \<Longrightarrow> \<not> is_retryable_load_error e"
  by (simp add: error_class_defs)

section \<open>The retry loop\<close>

record 's occ_config =
  max_attempts :: int
  base_delay :: real
  max_delay :: real
  sleep :: "real \<Rightarrow> 's \<Rightarrow> 's"
  jitter :: "'s \<Rightarrow> real \<times> 's"
  retryable :: "pyexc \<Rightarrow> bool"

text \<open>\<open>_backoff_delay\<close>: capped exponential growth, then the jitter multiplier.\<close>

definition backoff_delay :: "nat \<Rightarrow> real \<Rightarrow> real \<Rightarrow> real \<Rightarrow> real" where
  "backoff_delay attempt base cap j = (let capped = min cap (base * 2 ^ attempt) in capped * j)"

text \<open>One wait between two attempts: draw the jitter, then sleep.\<close>

definition occ_wait :: "'s occ_config \<Rightarrow> nat \<Rightarrow> 's \<Rightarrow> 's" where
  "occ_wait cfg attempt s =
     (let (j, s') = jitter cfg s
      in sleep cfg (backoff_delay attempt (base_delay cfg) (max_delay cfg) j) s')"

text \<open>
  The body of \<open>wrapper\<close>: \<open>left\<close> attempts remain of the budget, \<open>attempt\<close> is the loop
  index. Only an \<open>Exception\<close> is caught; one that is not retryable, or the last one of the
  budget, is raised to the caller.
\<close>

fun occ_attempts :: "'s occ_config \<Rightarrow> ('s, 'a) action \<Rightarrow> nat \<Rightarrow> nat \<Rightarrow> ('s, 'a) action" where
  "occ_attempts cfg operation 0 attempt s = (Inl (raise_named ''AssertionError'' ''''), s)"
| "occ_attempts cfg operation (Suc left) attempt s =
     (case operation s of
        (Inr a, s') \<Rightarrow> (Inr a, s')
      | (Inl e, s') \<Rightarrow>
          if \<not> is_exception e then (Inl e, s')
          else if \<not> retryable cfg e then (Inl e, s')
          else if left = 0 then (Inl e, s')
          else occ_attempts cfg operation left (Suc attempt) (occ_wait cfg attempt s'))"

definition with_occ_retry :: "'s occ_config \<Rightarrow> ('s, 'a) action \<Rightarrow> ('s, 'a) action" where
  "with_occ_retry cfg operation s =
     (if max_attempts cfg < 1
        then (Inl (raise_named ''ValueError'' ''max_attempts must be at least 1''), s)
      else if base_delay cfg < 0
        then (Inl (raise_named ''ValueError'' ''base_delay must be non-negative''), s)
      else if max_delay cfg < 0
        then (Inl (raise_named ''ValueError'' ''max_delay must be non-negative''), s)
      else occ_attempts cfg operation (nat (max_attempts cfg)) 0 s)"

definition occ_config_ok :: "'s occ_config \<Rightarrow> bool" where
  "occ_config_ok cfg = (1 \<le> max_attempts cfg \<and> 0 \<le> base_delay cfg \<and> 0 \<le> max_delay cfg)"

section \<open>What the caller sees\<close>

text \<open>An outcome the loop answers with another attempt, budget permitting.\<close>

definition retried :: "'s occ_config \<Rightarrow> pyexc + 'a \<Rightarrow> bool" where
  "retried cfg r = (case r of Inl e \<Rightarrow> is_exception e \<and> retryable cfg e | Inr _ \<Rightarrow> False)"

text \<open>The state attempt \<open>i\<close> starts from when every earlier one failed.\<close>

primrec occ_state :: "'s occ_config \<Rightarrow> ('s, 'a) action \<Rightarrow> nat \<Rightarrow> nat \<Rightarrow> 's \<Rightarrow> 's" where
  "occ_state cfg operation a 0 s = s"
| "occ_state cfg operation a (Suc i) s =
     occ_state cfg operation (Suc a) i (occ_wait cfg a (snd (operation s)))"

lemma occ_attempts_run:
  "\<exists>k < Suc left.
     occ_attempts cfg operation (Suc left) a s = operation (occ_state cfg operation a k s)
   \<and> (\<forall>i < k. retried cfg (fst (operation (occ_state cfg operation a i s))))
   \<and> (k = left \<or> \<not> retried cfg (fst (operation (occ_state cfg operation a k s))))"
proof (induction left arbitrary: a s)
  case 0
  show ?case
    by (auto split: prod.splits sum.splits simp: retried_def)
next
  case (Suc left)
  obtain r s' where op: "operation s = (r, s')" by force
  show ?case
  proof (cases "retried cfg r")
    case False
    then have "occ_attempts cfg operation (Suc (Suc left)) a s = operation s"
      using op by (auto simp: retried_def split: sum.splits)
    with False op show ?thesis by (intro exI [of _ 0]) simp
  next
    case True
    then obtain e where e: "r = Inl e" "is_exception e" "retryable cfg e"
      by (auto simp: retried_def split: sum.splits)
    let ?t = "occ_wait cfg a s'"
    from Suc.IH [of "Suc a" ?t] obtain k where k: "k < Suc left"
      "occ_attempts cfg operation (Suc left) (Suc a) ?t
         = operation (occ_state cfg operation (Suc a) k ?t)"
      "\<forall>i < k. retried cfg (fst (operation (occ_state cfg operation (Suc a) i ?t)))"
      "k = left \<or> \<not> retried cfg (fst (operation (occ_state cfg operation (Suc a) k ?t)))"
      by blast
    have "\<forall>i < Suc k. retried cfg (fst (operation (occ_state cfg operation a i s)))"
    proof (intro allI impI)
      fix i assume "i < Suc k"
      then show "retried cfg (fst (operation (occ_state cfg operation a i s)))"
        using k(3) op True by (cases i) auto
    qed
    with k op e show ?thesis
      by (intro exI [of _ "Suc k"]) auto
  qed
qed

lemma with_occ_retry_ok:
  "occ_config_ok cfg \<Longrightarrow>
   with_occ_retry cfg operation s = occ_attempts cfg operation (Suc (nat (max_attempts cfg) - 1)) 0 s"
  by (simp add: occ_config_ok_def with_occ_retry_def)

text \<open>
  Proof rule: an invariant that every attempt keeps (failed or not) and every wait keeps
  holds at the end, and the outcome is one attempt's outcome from a state of the invariant.
\<close>

lemma occ_attempts_rule:
  assumes "I s"
    and op: "\<And>s r s'. I s \<Longrightarrow> operation s = (r, s') \<Longrightarrow> I s' \<and> Q r s'"
    and wait: "\<And>a s. I s \<Longrightarrow> I (occ_wait cfg a s)"
    and "occ_attempts cfg operation (Suc left) a s = (r, s')"
  shows "I s' \<and> Q r s'"
  using assms(1,4)
proof (induction left arbitrary: a s)
  case 0
  then show ?case using op by (auto split: prod.splits sum.splits if_splits)
next
  case (Suc left)
  obtain q t where qt: "operation s = (q, t)" by force
  with Suc.prems(1) op have t: "I t" "Q q t" by blast+
  show ?case
  proof (cases "retried cfg q")
    case False
    with Suc.prems(2) qt t show ?thesis
      by (auto simp: retried_def split: sum.splits if_splits)
  next
    case True
    with Suc.prems(2) qt have
      "occ_attempts cfg operation (Suc left) (Suc a) (occ_wait cfg a t) = (r, s')"
      by (auto simp: retried_def split: sum.splits)
    with Suc.IH wait t(1) show ?thesis by blast
  qed
qed

lemma with_occ_retry_rule:
  assumes "occ_config_ok cfg" and "I s"
    and "\<And>s r s'. I s \<Longrightarrow> operation s = (r, s') \<Longrightarrow> I s' \<and> Q r s'"
    and "\<And>a s. I s \<Longrightarrow> I (occ_wait cfg a s)"
    and "with_occ_retry cfg operation s = (r, s')"
  shows "I s' \<and> Q r s'"
  using occ_attempts_rule [OF assms(2-4)] assms(1,5) by (simp add: with_occ_retry_ok)

lemma backoff_delay_bounds:
  assumes "0 \<le> base" "0 \<le> cap" "0 \<le> j" "j < 1"
  shows "0 \<le> backoff_delay a base cap j \<and> backoff_delay a base cap j \<le> cap"
proof -
  let ?c = "min cap (base * 2 ^ a)"
  have c: "0 \<le> ?c" "?c \<le> cap" using assms by auto
  have "?c * j \<le> ?c * 1" using c assms by (intro mult_left_mono) auto
  with c assms show ?thesis by (simp add: backoff_delay_def)
qed

section \<open>Properties\<close>

text \<open>
  C31: the retry loop calls the operation at most \<open>max_attempts\<close> times and hands the caller the
  outcome of one attempt: every earlier attempt failed with a retryable \<open>Exception\<close>, and that
  one either did not or was the last of the budget.
\<close>

theorem with_occ_retry_run:
  assumes "occ_config_ok cfg"
  shows "\<exists>k < nat (max_attempts cfg).
      with_occ_retry cfg operation s = operation (occ_state cfg operation 0 k s)
    \<and> (\<forall>i < k. retried cfg (fst (operation (occ_state cfg operation 0 i s))))
    \<and> (Suc k = nat (max_attempts cfg) \<or> \<not> retried cfg (fst (operation (occ_state cfg operation 0 k s))))"
proof -
  have n: "Suc (nat (max_attempts cfg) - 1) = nat (max_attempts cfg)"
    using assms by (simp add: occ_config_ok_def)
  show ?thesis
    using occ_attempts_run [of "nat (max_attempts cfg) - 1" cfg operation 0 s] n
    by (auto simp: with_occ_retry_ok [OF assms] n)
qed

theorem with_occ_retry_run_witness:
  "\<exists>k < nat (2 :: int). \<exists>cfg :: nat occ_config. max_attempts cfg = 2 \<and>
     with_occ_retry cfg (\<lambda>n. (if n = 0 then Inl (raise_named ''OperationalError'' '''') else Inr n, n)) 0
       = (Inr 1, 1)"
proof -
  let ?cfg = "\<lparr>max_attempts = 2, base_delay = 0, max_delay = 0, sleep = (\<lambda>_ n. Suc n),
    jitter = (\<lambda>n. (0, n)), retryable = is_retryable_load_error\<rparr> :: nat occ_config"
  let ?op = "\<lambda>n :: nat. (if n = 0 then Inl (raise_named ''OperationalError'' '''') else Inr n, n)"
  have "occ_config_ok ?cfg" by (simp add: occ_config_ok_def)
  from with_occ_retry_run [OF this, of ?op 0] obtain k where k: "k < nat 2"
    "with_occ_retry ?cfg ?op 0 = ?op (occ_state ?cfg ?op 0 k 0)"
    "Suc k = nat 2 \<or> \<not> retried ?cfg (fst (?op (occ_state ?cfg ?op 0 k 0)))" by auto
  have "retried ?cfg (fst (?op 0))" by (simp add: retried_def error_class_defs)
  with k have "k = 1" by (cases k) auto
  with k(2) have "with_occ_retry ?cfg ?op 0 = (Inr 1, 1)" by (simp add: occ_wait_def)
  with k(1) show ?thesis by (intro exI [of _ k] conjI exI [of _ ?cfg]) simp_all
qed

text \<open>
  A wait is never negative nor longer than \<open>max_delay\<close>, and for the same jitter it never
  shrinks from one attempt to the next.
\<close>

theorem backoff_delay_bounded:
  assumes "0 \<le> base" "0 \<le> cap" "0 \<le> j" "j < 1"
  shows "0 \<le> backoff_delay a base cap j \<and> backoff_delay a base cap j \<le> cap
    \<and> backoff_delay a base cap j \<le> backoff_delay (Suc a) base cap j"
proof -
  have "base * 2 ^ a \<le> base * 2 ^ Suc a" using assms(1) by (intro mult_left_mono) simp_all
  then have "min cap (base * 2 ^ a) * j \<le> min cap (base * 2 ^ Suc a) * j"
    using assms(3) by (intro mult_right_mono min.mono) simp_all
  then show ?thesis
    using backoff_delay_bounds [OF assms, of a] by (simp add: backoff_delay_def)
qed

theorem backoff_delay_bounded_witness:
  "0 \<le> backoff_delay 3 (1/2) 10 (1/4) \<and> backoff_delay 3 (1/2) 10 (1/4) \<le> 10"
  using backoff_delay_bounded [of "1/2" 10 "1/4" 3] by simp

text \<open>
  A load error that is a row's own fault is never retried: with a SQLSTATE that is neither
  \<open>40001\<close>, \<open>XX000\<close>, class \<open>08\<close> nor a server-ended session, the first outcome is the answer.
\<close>

theorem data_error_not_retried:
  assumes "occ_config_ok cfg" "retryable cfg = is_retryable_load_error"
    and "operation s = (Inl e, s')" "sqlstate e = Some state"
    and "state \<noteq> ''40001''" "state \<noteq> ''XX000''" "take 2 state \<noteq> ''08''"
    and "state \<notin> {''57P01'', ''57P02'', ''57P03''}"
  shows "with_occ_retry cfg operation s = (Inl e, s')"
proof -
  have "\<not> is_retryable_load_error e" using assms(4-8) by (simp add: error_class_defs)
  then show ?thesis using assms(2,3) by (simp add: with_occ_retry_ok [OF assms(1)])
qed

theorem data_error_not_retried_witness:
  "with_occ_retry \<lparr>max_attempts = 5, base_delay = 1, max_delay = 30, sleep = (\<lambda>_ n. Suc n),
      jitter = (\<lambda>n. (0, n)), retryable = is_retryable_load_error\<rparr>
    (\<lambda>n. (Inl \<lparr>sqlstate = Some ''23505'', mro = [''UniqueViolation'', ''Exception''], message = '''',
            diag_constraint = None\<rparr> :: pyexc + unit, n :: nat)) 0
    = (Inl \<lparr>sqlstate = Some ''23505'', mro = [''UniqueViolation'', ''Exception''], message = '''',
            diag_constraint = None\<rparr>, 0)"
  by (rule data_error_not_retried [where state = "''23505''"]) (simp_all add: occ_config_ok_def)

end
