(* ===== verification/ConnPool.thy ===== *)
theory ConnPool
  imports Occ "HOL-Library.Multiset"
begin

text \<open>
  \<^verbatim>\<open>core/batched_import.py\<close>, \<open>_ConnectionPool\<close> and \<open>_session_survives\<close>: the bounded pool of
  lazily opened connections a load leases from. \<open>lease\<close> is the context manager around one
  use; \<open>pool_step\<close> interleaves its parts (take a slot, connect, use, return) over any number of
  workers. The target database and its driver are the argument \<open>target_ops\<close>.
\<close>

section \<open>State\<close>

text \<open>
  What the load asks of the database driver. \<open>connect\<close> is the connection factory (with
  prepared statements switched off on what it returns); the three predicates are psycopg's
  \<open>closed\<close>, \<open>broken\<close> and \<open>info.transaction_status == IDLE\<close>. A statement is what it was rendered
  from (\<open>statement\<close>), its parameters follow; \<open>run_insert\<close> answers the cursor's \<open>rowcount\<close>
  (\<open>None\<close> when it is not a non-negative int), \<open>run_select\<close> the fetched rows and the type codes
  of \<open>cursor.description\<close>.
\<close>

datatype 'c slot = Empty | Reconnect | Conn 'c

text \<open>The counters of \<open>LoadStats\<close>, as the sequence of what was counted.\<close>

datatype load_event = Connected bool | ConnectFailed | ConnectionKept
  | Retried "string option" bool | Statement nat | UniqueRecovery | BatchTimed bool
  | IndexRetried "string option"

record ('c, 't) pool_ops =
  connect :: "('t, 'c) action"
  conn_closed :: "'c \<Rightarrow> 't \<Rightarrow> bool"
  conn_broken :: "'c \<Rightarrow> 't \<Rightarrow> bool"
  conn_idle :: "'c \<Rightarrow> 't \<Rightarrow> bool"
  close_conn :: "'c \<Rightarrow> 't \<Rightarrow> 't"

record ('c, 't) pool_state =
  target :: 't
  slots :: "'c slot list"
  created :: "'c list"
  events :: "load_event list"

definition record_event :: "load_event \<Rightarrow> ('c, 't, 'm) pool_state_scheme \<Rightarrow> ('c, 't, 'm) pool_state_scheme" where
  "record_event ev s = s\<lparr>events := events s @ [ev]\<rparr>"

definition record_event_if :: "bool \<Rightarrow> load_event \<Rightarrow> ('c, 't, 'm) pool_state_scheme \<Rightarrow> ('c, 't, 'm) pool_state_scheme" where
  "record_event_if counted ev s = (if counted then record_event ev s else s)"

lemma record_event_simps [simp]:
  "target (record_event ev s) = target s" "slots (record_event ev s) = slots s"
  "created (record_event ev s) = created s" "events (record_event ev s) = events s @ [ev]"
  "pool_state.more (record_event ev s) = pool_state.more s"
  by (simp_all add: record_event_def)

lemma record_event_if_simps [simp]:
  "target (record_event_if b ev s) = target s" "slots (record_event_if b ev s) = slots s"
  "created (record_event_if b ev s) = created s"
  "pool_state.more (record_event_if b ev s) = pool_state.more s"
  by (simp_all add: record_event_if_def)

section \<open>Does the session survive?\<close>

definition ascii_upper :: "string \<Rightarrow> string" where
  "ascii_upper = map (\<lambda>c. if 97 \<le> (of_char c :: nat) \<and> (of_char c :: nat) \<le> 122
                           then char_of (of_char c - 32 :: nat) else c)"

definition SESSION_ENDING_CLASSES :: "string list" where
  "SESSION_ENDING_CLASSES = [''08'', ''53'', ''57'', ''58'', ''XX'']"

definition session_survives :: "('c, 't) pool_ops \<Rightarrow> pyexc \<Rightarrow> 'c \<Rightarrow> 't \<Rightarrow> bool" where
  "session_survives ops e c t =
     (if \<not> is_exception e then False
      else (case sqlstate e of
              None \<Rightarrow> False
            | Some state \<Rightarrow>
                if state = [] then False
                else (let code = ascii_upper state
                      in if take 2 code \<in> set SESSION_ENDING_CLASSES
                            \<or> (take 2 code = ''40'' \<and> code \<noteq> ''40001'')
                         then False
                         else \<not> conn_closed ops c t \<and> \<not> conn_broken ops c t \<and> conn_idle ops c t)))"

section \<open>Leasing\<close>

definition new_pool :: "nat \<Rightarrow> 'c slot list" where
  "new_pool n = replicate n Empty"

text \<open>An empty slot in hand: connect, or refill the slot and raise.\<close>

definition open_slot :: "('c, 't) pool_ops \<Rightarrow> bool \<Rightarrow> 'c slot \<Rightarrow>
    ('c, 't, 'm) pool_state_scheme \<Rightarrow> (pyexc + 'c) \<times> ('c, 't, 'm) pool_state_scheme" where
  "open_slot ops counted slot s =
     (case connect ops (target s) of
        (Inl e, t) \<Rightarrow>
          (let s1 = record_event_if counted ConnectFailed (s\<lparr>target := t\<rparr>)
           in (Inl e, s1\<lparr>slots := slots s1 @ [slot]\<rparr>))
      | (Inr c, t) \<Rightarrow>
          (let s1 = record_event_if counted (Connected (slot = Reconnect)) (s\<lparr>target := t\<rparr>)
           in (Inr c, s1\<lparr>created := created s1 @ [c]\<rparr>)))"

text \<open>The end of a use that raised \<open>e\<close>: keep the connection, or discard it and refill the slot empty.\<close>

definition release_failed :: "('c, 't) pool_ops \<Rightarrow> bool \<Rightarrow> 'c \<Rightarrow> pyexc \<Rightarrow>
    ('c, 't, 'm) pool_state_scheme \<Rightarrow> ('c, 't, 'm) pool_state_scheme" where
  "release_failed ops counted c e s =
     (if session_survives ops e c (target s)
      then record_event_if counted ConnectionKept (s\<lparr>slots := slots s @ [Conn c]\<rparr>)
      else s\<lparr>target := close_conn ops c (target s), created := remove1 c (created s),
             slots := slots s @ [Reconnect]\<rparr>)"

definition release_ok :: "'c \<Rightarrow> ('c, 't, 'm) pool_state_scheme \<Rightarrow> ('c, 't, 'm) pool_state_scheme" where
  "release_ok c s = s\<lparr>slots := slots s @ [Conn c]\<rparr>"

text \<open>
  \<open>with pool.lease() as connection: body\<close>. A \<open>get\<close> on an empty queue blocks; one load step at a
  time always finds a slot (\<open>lease_slots\<close>), so the first case is never reached.
\<close>

definition lease :: "('c, 't) pool_ops \<Rightarrow> bool \<Rightarrow> ('c \<Rightarrow> (('c, 't, 'm) pool_state_scheme, 'a) action) \<Rightarrow>
    (('c, 't, 'm) pool_state_scheme, 'a) action" where
  "lease ops counted body s =
     (case slots s of
        [] \<Rightarrow> (Inl (raise_named ''Blocked'' ''''), s)
      | slot # rest \<Rightarrow>
          (case (case slot of
                   Conn c \<Rightarrow> (Inr c, s\<lparr>slots := rest\<rparr>)
                 | _ \<Rightarrow> open_slot ops counted slot (s\<lparr>slots := rest\<rparr>)) of
             (Inl e, s1) \<Rightarrow> (Inl e, s1)
           | (Inr c, s1) \<Rightarrow>
               (case body c s1 of
                  (Inr a, s2) \<Rightarrow> (Inr a, release_ok c s2)
                | (Inl e, s2) \<Rightarrow> (Inl e, release_failed ops counted c e s2))))"

text \<open>\<open>close_all\<close>: every connection created and not discarded is closed.\<close>

definition close_all :: "('c, 't) pool_ops \<Rightarrow> ('c, 't, 'm) pool_state_scheme \<Rightarrow> ('c, 't, 'm) pool_state_scheme" where
  "close_all ops s = s\<lparr>target := fold (close_conn ops) (created s) (target s), created := []\<rparr>"

section \<open>One lease\<close>

text \<open>Proof rule of a lease: what connecting, the body, and closing keep, the lease keeps.\<close>

lemma lease_cases:
  assumes "lease ops counted body s = (r, s')" and "slots s \<noteq> []"
  obtains (no_connect) e t where "connect ops (target s) = (Inl e, t)" "r = Inl e" "target s' = t"
      "length (slots s') = length (slots s)" "pool_state.more s' = pool_state.more s"
  | (ran) c s1 q s2 where
      "body c s1 = (q, s2)" "r = q" "pool_state.more s1 = pool_state.more s"
      "pool_state.more s' = pool_state.more s2" "Suc (length (slots s1)) = length (slots s)"
      "length (slots s') = Suc (length (slots s2))"
      "target s1 = target s \<or> connect ops (target s) = (Inr c, target s1)"
      "target s' = target s2 \<or> target s' = close_conn ops c (target s2)"
proof -
  obtain slot rest where sl: "slots s = slot # rest" using assms(2) by (cases "slots s") auto
  define opened where "opened = (case slot of Conn c \<Rightarrow> (Inr c, s\<lparr>slots := rest\<rparr>)
                 | _ \<Rightarrow> open_slot ops counted slot (s\<lparr>slots := rest\<rparr>))"
  obtain o1 s1 where o: "opened = (o1, s1)" by force
  show thesis
  proof (cases o1)
    case (Inl e)
    then have "connect ops (target s) = (Inl e, target s1)" "length (slots s1) = length (slots s)"
      "pool_state.more s1 = pool_state.more s"
      using o sl by (auto simp: opened_def open_slot_def Let_def
          split: slot.splits prod.splits sum.splits)
    with Inl o assms(1) sl show thesis by (intro no_connect) (auto simp: lease_def opened_def [symmetric])
  next
    case (Inr c)
    obtain q s2 where b: "body c s1 = (q, s2)" by force
    have s1: "pool_state.more s1 = pool_state.more s" "Suc (length (slots s1)) = length (slots s)"
      "target s1 = target s \<or> connect ops (target s) = (Inr c, target s1)"
      using o Inr sl by (auto simp: opened_def open_slot_def Let_def
          split: slot.splits prod.splits sum.splits)
    have s': "r = q" "s' = (case q of Inr a \<Rightarrow> release_ok c s2 | Inl e \<Rightarrow> release_failed ops counted c e s2)"
      using assms(1) sl o Inr b by (auto simp: lease_def opened_def [symmetric] split: sum.splits)
    show thesis
      by (rule ran [OF b s'(1) s1(1) _ s1(2) _ s1(3)])
        (auto simp: s'(2) release_ok_def release_failed_def split: sum.splits)
  qed
qed

section \<open>Interleaved leases\<close>

text \<open>A worker holding a slot either connects or uses a connection.\<close>

datatype 'c holder = Opening "'c slot" | Using 'c

inductive pool_step :: "('c, 't) pool_ops \<Rightarrow> ('c, 't) pool_state \<times> 'c holder list \<Rightarrow>
    ('c, 't) pool_state \<times> 'c holder list \<Rightarrow> bool"
  for ops where
  take_conn: "slots s = Conn c # rest \<Longrightarrow>
     pool_step ops (s, hs) (s\<lparr>slots := rest\<rparr>, hs @ [Using c])"
| take_empty: "slots s = slot # rest \<Longrightarrow> slot = Empty \<or> slot = Reconnect \<Longrightarrow>
     pool_step ops (s, hs) (s\<lparr>slots := rest\<rparr>, hs @ [Opening slot])"
| opened: "Opening slot \<in> set hs \<Longrightarrow> open_slot ops counted slot s = (Inr c, s') \<Longrightarrow>
     pool_step ops (s, hs) (s', remove1 (Opening slot) hs @ [Using c])"
| open_failed: "Opening slot \<in> set hs \<Longrightarrow> open_slot ops counted slot s = (Inl e, s') \<Longrightarrow>
     pool_step ops (s, hs) (s', remove1 (Opening slot) hs)"
| used: "Using c \<in> set hs \<Longrightarrow> pool_step ops (s, hs) (s\<lparr>target := t\<rparr>, hs)"
| returned: "Using c \<in> set hs \<Longrightarrow> pool_step ops (s, hs) (release_ok c s, remove1 (Using c) hs)"
| raised: "Using c \<in> set hs \<Longrightarrow>
     pool_step ops (s, hs) (release_failed ops counted c e s, remove1 (Using c) hs)"

inductive_cases pool_stepE: "pool_step ops (s, hs) (s', hs')"

inductive pool_reachable :: "('c, 't) pool_ops \<Rightarrow> nat \<Rightarrow> ('c, 't) pool_state \<times> 'c holder list \<Rightarrow> bool"
  for ops n where
  start: "slots s = new_pool n \<Longrightarrow> created s = [] \<Longrightarrow> pool_reachable ops n (s, [])"
| step: "pool_reachable ops n x \<Longrightarrow> pool_step ops x y \<Longrightarrow> pool_reachable ops n y"

fun slot_conns :: "'c slot list \<Rightarrow> 'c multiset" where
  "slot_conns [] = {#}"
| "slot_conns (Conn c # ss) = add_mset c (slot_conns ss)"
| "slot_conns (Empty # ss) = slot_conns ss"
| "slot_conns (Reconnect # ss) = slot_conns ss"

fun held_conns :: "'c holder list \<Rightarrow> 'c multiset" where
  "held_conns [] = {#}"
| "held_conns (Using c # hs) = add_mset c (held_conns hs)"
| "held_conns (Opening slot # hs) = held_conns hs"

text \<open>No slot is lost, no connection is leaked, and what an opening worker took was an empty slot.\<close>

definition pool_inv :: "nat \<Rightarrow> ('c, 't) pool_state \<times> 'c holder list \<Rightarrow> bool" where
  "pool_inv n x =
     (length (slots (fst x)) + length (snd x) = n
      \<and> mset (created (fst x)) = slot_conns (slots (fst x)) + held_conns (snd x)
      \<and> (\<forall>slot. Opening slot \<in> set (snd x) \<longrightarrow> slot = Empty \<or> slot = Reconnect))"

lemma slot_conns_append [simp]: "slot_conns (xs @ ys) = slot_conns xs + slot_conns ys"
  by (induction xs rule: slot_conns.induct) auto

lemma held_conns_append [simp]: "held_conns (xs @ ys) = held_conns xs + held_conns ys"
  by (induction xs rule: held_conns.induct) auto

lemma slot_conns_new [simp]: "slot_conns (replicate n Empty) = {#}"
  by (induction n) auto

lemma held_conns_remove1 [simp]:
  "held_conns (remove1 (Opening slot) hs) = held_conns hs"
  "held_conns (remove1 (Using c) hs) = held_conns hs - (if Using c \<in> set hs then {#c#} else {#})"
  by (induction hs rule: held_conns.induct) (auto simp: add_mset_commute)

lemma held_conns_mem: "Using c \<in> set hs \<Longrightarrow> c \<in># held_conns hs"
  by (induction hs rule: held_conns.induct) auto

lemma length_remove1_holder: "h \<in> set hs \<Longrightarrow> Suc (length (remove1 h hs)) = length hs"
  by (induction hs) auto

lemma slot_conns_le: "size (slot_conns ss) \<le> length ss"
  by (induction ss rule: slot_conns.induct) auto

lemma held_conns_le: "size (held_conns hs) \<le> length hs"
  by (induction hs rule: held_conns.induct) auto

lemma pool_step_inv: "pool_step ops x y \<Longrightarrow> pool_inv n x \<Longrightarrow> pool_inv n y"
proof (induction rule: pool_step.induct)
  case (take_conn s c rest hs)
  then show ?case by (auto simp: pool_inv_def)
next
  case (take_empty s slot rest hs)
  then show ?case by (auto simp: pool_inv_def)
next
  case (opened slot hs counted s c s')
  then have "length (slots s') = length (slots s)" "slots s' = slots s" "created s' = created s @ [c]"
    by (auto simp: open_slot_def Let_def split: prod.splits sum.splits)
  with opened length_remove1_holder [OF opened(1)] show ?case
    by (auto simp: pool_inv_def dest: notin_set_remove1)
next
  case (open_failed slot hs counted s e s')
  then have sl: "slots s' = slots s @ [slot]" "created s' = created s"
    by (auto simp: open_slot_def Let_def split: prod.splits sum.splits)
  from open_failed have "slot = Empty \<or> slot = Reconnect" by (auto simp: pool_inv_def)
  then have "slot_conns (slots s') = slot_conns (slots s)" by (auto simp: sl)
  with open_failed sl length_remove1_holder [OF open_failed(1)] show ?case
    by (auto simp: pool_inv_def dest: notin_set_remove1)
next
  case (used c hs s t)
  then show ?case by (auto simp: pool_inv_def)
next
  case (returned c hs s)
  with length_remove1_holder [OF returned(1)] held_conns_mem [OF returned(1)] show ?case
    by (auto simp: pool_inv_def release_ok_def dest: notin_set_remove1)
next
  case (raised c hs s counted e)
  note len = length_remove1_holder [OF raised(1)] and mem = held_conns_mem [OF raised(1)]
  from raised mem have cr: "c \<in># mset (created s)" by (auto simp: pool_inv_def)
  show ?case
  proof (cases "session_survives ops e c (target s)")
    case True
    with raised len mem show ?thesis
      by (auto simp: pool_inv_def release_failed_def dest: notin_set_remove1)
  next
    case False
    with raised len mem cr show ?thesis
      by (auto simp: pool_inv_def release_failed_def dest: notin_set_remove1)
  qed
qed

lemma pool_reachable_inv: "pool_reachable ops n x \<Longrightarrow> pool_inv n x"
proof (induction rule: pool_reachable.induct)
  case (start s)
  then show ?case by (simp add: pool_inv_def new_pool_def)
next
  case (step x y)
  then show ?case by (auto intro: pool_step_inv)
qed

lemma pool_inv_created_le: "pool_inv n x \<Longrightarrow> length (created (fst x)) \<le> n"
proof -
  assume "pool_inv n x"
  then have "size (mset (created (fst x))) = size (slot_conns (slots (fst x))) + size (held_conns (snd x))"
    "length (slots (fst x)) + length (snd x) = n" by (simp_all add: pool_inv_def)
  with slot_conns_le [of "slots (fst x)"] held_conns_le [of "snd x"] show ?thesis by simp
qed

section \<open>Properties\<close>

text \<open>
  C30: however the leases of any number of workers interleave, no slot of the pool is lost, no
  connection leaks and none is duplicated: every connection created and not discarded is in one
  slot or in one worker's hands, and there are never more than the pool's size.
\<close>

theorem pool_never_leaks:
  assumes "pool_reachable ops n (s, hs)"
  shows "length (slots s) + length hs = n
    \<and> mset (created s) = slot_conns (slots s) + held_conns hs \<and> length (created s) \<le> n"
  using pool_reachable_inv [OF assms] pool_inv_created_le [OF pool_reachable_inv [OF assms]]
  by (simp add: pool_inv_def)

theorem pool_never_leaks_witness:
  "\<exists>s :: (nat, unit) pool_state. slots s = [Empty] \<and> created s = [7] \<and> length (slots s) + length [Using (7 :: nat)] = 2"
proof -
  let ?ops = "\<lparr>connect = (\<lambda>t. (Inr 7, t)), conn_closed = (\<lambda>_ _. False), conn_broken = (\<lambda>_ _. False),
    conn_idle = (\<lambda>_ _. True), close_conn = (\<lambda>_ t. t)\<rparr> :: (nat, unit) pool_ops"
  let ?s0 = "\<lparr>target = (), slots = [Empty, Empty], created = [], events = []\<rparr> :: (nat, unit) pool_state"
  let ?s2 = "\<lparr>target = (), slots = [Empty], created = [7], events = []\<rparr> :: (nat, unit) pool_state"
  have "pool_reachable ?ops 2 (?s0, [])"
    by (rule pool_reachable.start) (simp_all add: new_pool_def numeral_2_eq_2)
  moreover have "pool_step ?ops (?s0, []) (?s0\<lparr>slots := [Empty]\<rparr>, [] @ [Opening Empty])"
    by (rule pool_step.take_empty) simp_all
  moreover have "pool_step ?ops (?s0\<lparr>slots := [Empty]\<rparr>, [Opening Empty]) (?s2, remove1 (Opening Empty) [Opening Empty] @ [Using 7])"
    by (rule pool_step.opened [where counted = False]) (simp_all add: open_slot_def record_event_if_def)
  ultimately have "pool_reachable ?ops 2 (?s2, [Using 7])"
    by (auto intro: pool_reachable.step)
  from pool_never_leaks [OF this] show ?thesis by (intro exI [of _ ?s2]) simp
qed

text \<open>
  A session the server may have ended is never used again: a use that raised without a
  SQLSTATE, with anything but an \<open>Exception\<close>, or in a class that ends the session closes its
  connection, takes it out of the pool, and leaves an empty slot in its place.
\<close>

theorem dead_session_discarded:
  assumes "slots s = Conn c # rest" "Conn c \<notin> set rest" "body c (s\<lparr>slots := rest\<rparr>) = (Inl e, s2)"
    and "slots s2 = rest" "distinct (created s2)"
    and "\<not> is_exception e \<or> sqlstate e = None
      \<or> (\<exists>state. sqlstate e = Some state \<and> take 2 (ascii_upper state) \<in> set SESSION_ENDING_CLASSES)"
    and "lease ops counted body s = (r, s')"
  shows "r = Inl e \<and> Conn c \<notin> set (slots s') \<and> c \<notin> set (created s')
    \<and> length (slots s') = length (slots s) \<and> target s' = close_conn ops c (target s2)"
proof -
  have dead: "\<not> session_survives ops e c (target s2)"
    using assms(6) by (auto simp: session_survives_def Let_def split: option.split)
  from assms(1,3,7) have "r = Inl e" "s' = release_failed ops counted c e s2" by (simp_all add: lease_def)
  with dead assms(1,2,4,5) show ?thesis by (simp add: release_failed_def)
qed

theorem dead_session_discarded_witness:
  "Conn 7 \<notin> set (slots (snd (lease \<lparr>connect = (\<lambda>t. (Inr 8, t)), conn_closed = (\<lambda>_ _. False), conn_broken = (\<lambda>_ _. False),
      conn_idle = (\<lambda>_ _. True), close_conn = (\<lambda>c t. t @ [c])\<rparr> True
    (\<lambda>c. Pair (Inl (raise_named ''OperationalError'' '''') :: pyexc + unit))
    \<lparr>target = [], slots = [Conn (7 :: nat), Empty], created = [7], events = []\<rparr>)))"
proof -
  let ?ops = "\<lparr>connect = (\<lambda>t. (Inr 8, t)), conn_closed = (\<lambda>_ _. False), conn_broken = (\<lambda>_ _. False),
      conn_idle = (\<lambda>_ _. True), close_conn = (\<lambda>c t. t @ [c])\<rparr> :: (nat, nat list) pool_ops"
  let ?s = "\<lparr>target = [], slots = [Conn (7 :: nat), Empty], created = [7], events = []\<rparr> :: (nat, nat list) pool_state"
  let ?body = "\<lambda>c. Pair (Inl (raise_named ''OperationalError'' '''') :: pyexc + unit)"
  show ?thesis
    using dead_session_discarded [of ?s 7 "[Empty]" ?body "raise_named ''OperationalError'' ''''"
        "?s\<lparr>slots := [Empty]\<rparr>" ?ops True "fst (lease ?ops True ?body ?s)" "snd (lease ?ops True ?body ?s)"]
    by simp
qed

end
