(* ===== verification/Loader.thy ===== *)
theory Loader
  imports Pipeline ConnPool
begin

text \<open>
  \<^verbatim>\<open>core/batched_import.py\<close>, \<open>BatchedImporter\<close>: how one batch reaches the target. The plain
  insert of each mode with its retry, the select-filter recovery after a unique violation, and
  the binary split that isolates a poison row and quarantines it. The target is the argument
  \<open>load_ops\<close>; the locale \<open>target_db\<close> states what its operations promise.
\<close>

section \<open>State and the target's operations\<close>

record quarantine_record =
  qr_table :: string
  qr_primary_key :: string
  qr_error_code :: "string option"
  qr_message :: string

text \<open>\<open>attempts\<close> is the counter the two retried closures of \<open>_execute_for_mode\<close> share.\<close>

record ('c, 't) loader = "('c, 't) pool_state" +
  quarantine :: "quarantine_record list"
  quarantine_total :: nat
  quarantine_seen :: "(string \<times> string) list"
  pk_indexes :: "(string, string option) pydict"
  attempts :: nat

record insert_stmt =
  st_table :: string
  st_columns :: "string list"
  st_count :: nat
  st_mode :: on_conflict_mode
  st_keys :: "string list"

text \<open>
  \<open>run_insert\<close> answers the cursor's \<open>rowcount\<close> (\<open>None\<close>: not an int), \<open>run_select\<close> the fetched
  rows and the type codes of \<open>cursor.description\<close>; \<open>digest\<close> is the SHA-256 of the values'
  \<open>repr\<close>; \<open>occ\<close> the retry settings, whose sleep and jitter act on the target's world.
\<close>

record ('c, 't) load_ops = "('c, 't) pool_ops" +
  run_insert :: "'c \<Rightarrow> insert_stmt \<Rightarrow> pyval list \<Rightarrow> ('t, int option) action"
  run_select :: "'c \<Rightarrow> string \<Rightarrow> string list \<Rightarrow> nat \<Rightarrow> pyval list \<Rightarrow> ('t, pyval list list \<times> int option list) action"
  read_pk_index :: "'c \<Rightarrow> string \<Rightarrow> ('t, string option) action"
  digest :: "pyval list \<Rightarrow> string"
  occ :: "'t occ_config"
  max_quarantine :: nat

abbreviation pool_part :: "('c, 't) load_ops \<Rightarrow> ('c, 't) pool_ops" where
  "pool_part ops \<equiv> pool_ops.truncate ops"

text \<open>A call on the connection: it acts on the target only.\<close>

definition on_target :: "('t, 'a) action \<Rightarrow> (('c, 't) loader, 'a) action" where
  "on_target act s = (let (r, t) = act (target s) in (r, s\<lparr>target := t\<rparr>))"

definition lift_occ :: "'t occ_config \<Rightarrow> ('c, 't) loader occ_config" where
  "lift_occ cfg =
     \<lparr>max_attempts = max_attempts cfg, base_delay = base_delay cfg, max_delay = max_delay cfg,
      sleep = (\<lambda>d s. s\<lparr>target := sleep cfg d (target s)\<rparr>),
      jitter = (\<lambda>s. let (j, t) = jitter cfg (target s) in (j, s\<lparr>target := t\<rparr>)),
      retryable = is_retryable_load_error\<rparr>"

definition batched_import_error :: "string \<Rightarrow> pyexc" where
  "batched_import_error msg = raise_named ''BatchedImportError'' msg"

lemma batched_import_error_simps [simp]:
  "sqlstate (batched_import_error m) = None" "is_exception (batched_import_error m)"
  by (simp_all add: batched_import_error_def)

section \<open>Keys and identities\<close>

definition UNIQUE_VIOLATION :: string where "UNIQUE_VIOLATION = ''23505''"
definition BPCHAR_OID :: int where "BPCHAR_OID = 1042"

definition key_parameter :: "pyval \<Rightarrow> pyval" where
  "key_parameter v = (case v of PDecimal _ (Some i) \<Rightarrow> PInt i | _ \<Rightarrow> v)"

definition rstrip_spaces :: "nat list \<Rightarrow> nat list" where
  "rstrip_spaces cps = rev (dropWhile (\<lambda>c. c = 32) (rev cps))"

definition normalize_key :: "pyval list \<Rightarrow> int option list \<Rightarrow> pyval list" where
  "normalize_key values types =
     (if types = [] \<or> length types \<noteq> length values then values
      else map2 (\<lambda>v oid. case v of
                   PStr cps \<Rightarrow> (if oid = Some BPCHAR_OID then PStr (rstrip_spaces cps) else v)
                 | _ \<Rightarrow> v) values types)"

definition key_of :: "string list \<Rightarrow> pyrow \<Rightarrow> pyval list" where
  "key_of keys row = map (row_get row) keys"

text \<open>The names a row is identified by: the key columns, or all columns of a keyless table.\<close>

definition ident_names :: "batch_work \<Rightarrow> string list" where
  "ident_names w = (if w_keys w = [] then w_columns w else w_keys w)"

definition quarantined_row_identity :: "('c, 't) load_ops \<Rightarrow> batch_work \<Rightarrow> pyrow \<Rightarrow> string \<times> string" where
  "quarantined_row_identity ops w row =
     (w_table w, digest ops (map key_parameter (key_of (ident_names w) row)))"

definition flatten_params :: "pyrow list \<Rightarrow> string list \<Rightarrow> pyval list" where
  "flatten_params rows columns = concat (map (\<lambda>row. map (row_get row) columns) rows)"

definition insert_statement :: "batch_work \<Rightarrow> nat \<Rightarrow> on_conflict_mode \<Rightarrow> insert_stmt" where
  "insert_statement w n mode =
     \<lparr>st_table = w_table w, st_columns = w_columns w, st_count = n, st_mode = mode, st_keys = w_keys w\<rparr>"

definition safe_key_text :: "pyval \<Rightarrow> string" where
  "safe_key_text v = (case v of
      PBool b \<Rightarrow> (if b then ''True'' else ''False'')
    | PInt i \<Rightarrow> int_str i
    | PUuid u \<Rightarrow> u
    | PNone \<Rightarrow> ''None''
    | _ \<Rightarrow> ''<withheld>'')"

definition format_key_values :: "string list \<Rightarrow> pyrow \<Rightarrow> nat \<Rightarrow> string" where
  "format_key_values columns row limit =
     (let rendered = py_join '', '' (map (\<lambda>c. c @ ''='' @ safe_key_text (row_get row c)) columns)
      in if limit < length rendered then take (limit - 3) rendered @ ''...'' else rendered)"

section \<open>One statement\<close>

text \<open>The rows an INSERT stored: its \<open>rowcount\<close> when usable, else every row sent; never more.\<close>

definition inserted_rows :: "int option \<Rightarrow> nat \<Rightarrow> int" where
  "inserted_rows rowcount attempted =
     min (case rowcount of Some n \<Rightarrow> (if 0 \<le> n then n else int attempted) | None \<Rightarrow> int attempted) (int attempted)"

definition execute_insert :: "('c, 't) load_ops \<Rightarrow> insert_stmt \<Rightarrow> pyval list \<Rightarrow> nat \<Rightarrow> on_conflict_mode \<Rightarrow>
    (('c, 't) loader, int \<times> int) action" where
  "execute_insert ops stmt params attempted mode s =
     (case lease (pool_part ops) True (\<lambda>c. on_target (run_insert ops c stmt params)) s of
        (Inl e, s1) \<Rightarrow> (Inl e, s1)
      | (Inr rowcount, s1) \<Rightarrow>
          (let inserted = inserted_rows rowcount attempted
           in if mode = NONE \<and> inserted < int attempted
              then (Inl (batched_import_error (''plain INSERT stored '' @ int_str inserted @ '' of ''
                           @ nat_str attempted @ '' row(s) with no ON CONFLICT clause'')), s1)
              else (Inr (inserted, int attempted - inserted), s1)))"

text \<open>\<open>_primary_key_index\<close>: read once per table; a catalog that cannot be read is kept as unknown.\<close>

definition primary_key_index :: "('c, 't) load_ops \<Rightarrow> 'c \<Rightarrow> string \<Rightarrow> (('c, 't) loader, string option) action" where
  "primary_key_index ops c table s =
     (case map_of (pk_indexes s) table of
        Some name \<Rightarrow> (Inr name, s)
      | None \<Rightarrow>
          (case on_target (read_pk_index ops c table) s of
             (Inr name, s1) \<Rightarrow> (Inr name, s1\<lparr>pk_indexes := dict_set table name (pk_indexes s1)\<rparr>)
           | (Inl e, s1) \<Rightarrow>
               if is_exception e then (Inr None, s1\<lparr>pk_indexes := dict_set table None (pk_indexes s1)\<rparr>)
               else (Inl e, s1)))"

definition violates_secondary_unique :: "('c, 't) load_ops \<Rightarrow> 'c \<Rightarrow> batch_work \<Rightarrow> pyexc \<Rightarrow> (('c, 't) loader, bool) action" where
  "violates_secondary_unique ops c w e s =
     (case violated_constraint_name e of
        None \<Rightarrow> (Inr False, s)
      | Some name \<Rightarrow>
          (case primary_key_index ops c (w_table w) s of
             (Inl e2, s1) \<Rightarrow> (Inl e2, s1)
           | (Inr None, s1) \<Rightarrow> (Inr False, s1)
           | (Inr (Some primary), s1) \<Rightarrow> (Inr (name \<noteq> primary), s1)))"

section \<open>The select-filter recovery\<close>

text \<open>What one pass on a leased connection ends with: the counts, or a lost race.\<close>

datatype filter_pass = Landed int int | Raced pyexc

definition missing_rows :: "string list \<Rightarrow> pyval list list \<times> int option list \<Rightarrow> pyrow list \<Rightarrow> pyrow list" where
  "missing_rows keys answer rows =
     (let (fetched, types) = answer;
          existing = map (\<lambda>k. map py_canon (normalize_key k types)) fetched
      in filter (\<lambda>row. map py_canon (normalize_key (key_of keys row) types) \<notin> set existing) rows)"

definition filter_insert_once :: "('c, 't) load_ops \<Rightarrow> batch_work \<Rightarrow> 'c \<Rightarrow> (('c, 't) loader, filter_pass) action" where
  "filter_insert_once ops w c s =
     (let total = int (length (w_rows w));
          params = map key_parameter (concat (map (key_of (w_keys w)) (w_rows w)))
      in case on_target (run_select ops c (w_table w) (w_keys w) (length (w_rows w)) params) s of
           (Inl e, s1) \<Rightarrow> (Inl e, s1)
         | (Inr answer, s1) \<Rightarrow>
             (let missing = missing_rows (w_keys w) answer (w_rows w)
              in if missing = [] then (Inr (Landed 0 total), s1)
                 else (case on_target (run_insert ops c (insert_statement w (length missing) NONE)
                                         (flatten_params missing (w_columns w))) s1 of
                         (Inl e, s2) \<Rightarrow>
                           if is_exception e \<and> sqlstate e = Some UNIQUE_VIOLATION
                           then (case violates_secondary_unique ops c w e s2 of
                                   (Inl e2, s3) \<Rightarrow> (Inl e2, s3)
                                 | (Inr True, s3) \<Rightarrow> (Inl e, s3)
                                 | (Inr False, s3) \<Rightarrow> (Inr (Raced e), record_event UniqueRecovery s3))
                           else (Inl e, s2)
                       | (Inr rowcount, s2) \<Rightarrow>
                           (let inserted = inserted_rows rowcount (length missing)
                            in (Inr (Landed inserted (total - inserted)), s2)))))"

fun filter_insert_loop :: "('c, 't) load_ops \<Rightarrow> batch_work \<Rightarrow> nat \<Rightarrow> (('c, 't) loader, int \<times> int) action" where
  "filter_insert_loop ops w 0 s =
     (Inl (batched_import_error (''load for table '' @ w_table w @ '' exhausted ''
        @ int_str (max 1 (max_attempts (occ ops))) @ '' attempts due to concurrent unique violations'')), s)"
| "filter_insert_loop ops w (Suc n) s =
     (case lease (pool_part ops) True (filter_insert_once ops w) s of
        (Inl e, s1) \<Rightarrow> (Inl e, s1)
      | (Inr (Landed inserted skipped), s1) \<Rightarrow> (Inr (inserted, skipped), s1)
      | (Inr (Raced e), s1) \<Rightarrow> filter_insert_loop ops w n s1)"

text \<open>The first key column a row does not have (\<open>row[name]\<close> raises \<open>KeyError\<close>).\<close>

definition missing_key :: "string list \<Rightarrow> pyrow list \<Rightarrow> string option" where
  "missing_key keys rows =
     List.find (\<lambda>_. True) (concat (map (\<lambda>row. filter (\<lambda>k. map_of row k = None) keys) rows))"

definition select_filter_insert :: "('c, 't) load_ops \<Rightarrow> batch_work \<Rightarrow> (('c, 't) loader, int \<times> int) action" where
  "select_filter_insert ops w s =
     (case missing_key (w_keys w) (w_rows w) of
        Some name \<Rightarrow> (Inl (raise_named ''KeyError'' name), s)
      | None \<Rightarrow> filter_insert_loop ops w (nat (max 1 (max_attempts (occ ops)))) s)"

text \<open>The optimistic plain INSERT: a unique violation inside the lease is handled there.\<close>

definition execute_skip_existing :: "('c, 't) load_ops \<Rightarrow> batch_work \<Rightarrow> (('c, 't) loader, int \<times> int) action" where
  "execute_skip_existing ops w s =
     (let total = length (w_rows w)
      in if w_keys w = []
         then (Inl (batched_import_error (''on_conflict=SKIP_EXISTING requires a primary key (table ''
                 @ w_table w @ '' has none)'')), s)
         else if total = 0 then (Inr (0, 0), s)
         else (case lease (pool_part ops) True
                      (\<lambda>c s1. case on_target (run_insert ops c (insert_statement w total NONE)
                                                (flatten_params (w_rows w) (w_columns w))) s1 of
                                (Inr rowcount, s2) \<Rightarrow> (Inr (Some (inserted_rows rowcount total)), s2)
                              | (Inl e, s2) \<Rightarrow>
                                  if is_exception e \<and> sqlstate e = Some UNIQUE_VIOLATION
                                  then (Inr None, s2) else (Inl e, s2)) s of
                 (Inl e, s1) \<Rightarrow> (Inl e, s1)
               | (Inr (Some inserted), s1) \<Rightarrow> (Inr (inserted, int total - inserted), s1)
               | (Inr None, s1) \<Rightarrow> select_filter_insert ops w (record_event UniqueRecovery s1)))"

section \<open>One batch\<close>

text \<open>A retryable failure is counted; it is the budget's last one when no attempt is left.\<close>

definition count_failure :: "('c, 't) load_ops \<Rightarrow> pyexc \<Rightarrow> ('c, 't) loader \<Rightarrow> ('c, 't) loader" where
  "count_failure ops e s =
     (if is_exception e \<and> is_retryable_load_error e
      then record_event (Retried (sqlstate e) (max_attempts (occ ops) \<le> int (attempts s))) s
      else s)"

definition counted :: "('c, 't) load_ops \<Rightarrow> (('c, 't) loader, 'a) action \<Rightarrow> (('c, 't) loader, 'a) action" where
  "counted ops act s =
     (case act s of
        (Inr a, s1) \<Rightarrow> (Inr a, s1)
      | (Inl e, s1) \<Rightarrow> (Inl e, count_failure ops e s1))"

definition skip_attempt :: "('c, 't) load_ops \<Rightarrow> batch_work \<Rightarrow> (('c, 't) loader, int \<times> int) action" where
  "skip_attempt ops w s = counted ops (execute_skip_existing ops w) (s\<lparr>attempts := Suc (attempts s)\<rparr>)"

text \<open>
  A plain INSERT's unique violation is recovered by the select-filter; any other failure, and
  a failure of the recovery, is counted and raised.
\<close>

definition insert_attempt :: "('c, 't) load_ops \<Rightarrow> batch_work \<Rightarrow> (('c, 't) loader, int \<times> int) action" where
  "insert_attempt ops w s =
     (let total = length (w_rows w);
          params = flatten_params (w_rows w) (w_columns w)
      in case execute_insert ops (insert_statement w total (w_mode w)) params total (w_mode w)
                (s\<lparr>attempts := Suc (attempts s)\<rparr>) of
           (Inr counts, s1) \<Rightarrow> (Inr counts, s1)
         | (Inl e, s1) \<Rightarrow>
             if is_exception e \<and> w_mode w = NONE \<and> w_keys w \<noteq> [] \<and> sqlstate e = Some UNIQUE_VIOLATION
             then counted ops (select_filter_insert ops w) (record_event UniqueRecovery s1)
             else (Inl e, count_failure ops e s1))"

definition execute_for_mode :: "('c, 't) load_ops \<Rightarrow> batch_work \<Rightarrow> (('c, 't) loader, int \<times> int) action" where
  "execute_for_mode ops w s =
     (let attempt = (if w_mode w = SKIP_EXISTING then skip_attempt ops w else insert_attempt ops w);
          (r, s1) = with_occ_retry (lift_occ (occ ops)) attempt (s\<lparr>attempts := 0\<rparr>)
      in (r, record_event (Statement (attempts s1)) s1))"

definition poison_message :: "pyexc \<Rightarrow> string" where
  "poison_message e =
     (let message = safe_error e;
          constraint = (if sqlstate e = Some UNIQUE_VIOLATION then violated_constraint_name e else None)
      in case constraint of
           None \<Rightarrow> message
         | Some name \<Rightarrow>
             if sublist ([quote_char] @ name @ [quote_char]) message then message
             else message @ '' [unique index: '' @ name @ '']'')"

definition quarantine_one :: "('c, 't) load_ops \<Rightarrow> batch_work \<Rightarrow> pyexc \<Rightarrow> (('c, 't) loader, unit) action" where
  "quarantine_one ops w e s =
     (case w_rows w of
        [] \<Rightarrow> (Inl (raise_named ''IndexError'' ''tuple index out of range''), s)
      | row # _ \<Rightarrow>
          (let record =
                 \<lparr>qr_table = w_table w,
                  qr_primary_key = (if w_keys w \<noteq> [] then format_key_values (w_keys w) row 200
                                    else ''(no primary key)''),
                  qr_error_code = sqlstate e, qr_message = poison_message e\<rparr>;
               key = quarantined_row_identity ops w row
           in if key \<in> set (quarantine_seen s) then (Inr (), s)
              else (Inr (),
                    s\<lparr>quarantine_seen := quarantine_seen s @ [key],
                      quarantine_total := Suc (quarantine_total s),
                      quarantine := (if length (quarantine s) < max_quarantine ops
                                     then quarantine s @ [record] else quarantine s)\<rparr>)))"

text \<open>
  \<open>_load_batch\<close>: a permanent row-level error splits the batch in halves, down to one row,
  which is quarantined.
\<close>

function load_batch :: "('c, 't) load_ops \<Rightarrow> batch_work \<Rightarrow> (('c, 't) loader, int \<times> int) action" where
  "load_batch ops w s =
     (if max_quarantine ops \<le> quarantine_total s
      then (Inl (batched_import_error (''table '' @ w_table w @ '': quarantine cap ('' @ nat_str (max_quarantine ops)
                   @ '') reached'')), s)
      else (case execute_for_mode ops w s of
              (Inr counts, s1) \<Rightarrow> (Inr counts, s1)
            | (Inl e, s1) \<Rightarrow>
                if \<not> is_exception e \<or> is_retryable_load_error e \<or> sqlstate e = None then (Inl e, s1)
                else if length (w_rows w) \<le> 1
                     then (case quarantine_one ops w e s1 of
                             (Inl e2, s2) \<Rightarrow> (Inl e2, s2)
                           | (Inr _, s2) \<Rightarrow> (Inr (0, 0), s2))
                     else (let mid = length (w_rows w) div 2
                           in case load_batch ops (w\<lparr>w_rows := take mid (w_rows w)\<rparr>) s1 of
                                (Inl e2, s2) \<Rightarrow> (Inl e2, s2)
                              | (Inr (i1, c1), s2) \<Rightarrow>
                                  (case load_batch ops (w\<lparr>w_rows := drop mid (w_rows w)\<rparr>) s2 of
                                     (Inl e3, s3) \<Rightarrow> (Inl e3, s3)
                                   | (Inr (i2, c2), s3) \<Rightarrow> (Inr (i1 + i2, c1 + c2), s3)))))"
  by pat_completeness auto
termination
  by (relation "measure (\<lambda>(ops, w, s). length (w_rows w))") auto

declare load_batch.simps [simp del]

definition load_batch_timed :: "('c, 't) load_ops \<Rightarrow> batch_work \<Rightarrow> (('c, 't) loader, int \<times> int) action" where
  "load_batch_timed ops w s =
     (let (r, s1) = load_batch ops w s in (r, record_event (BatchTimed (\<not> is_ok r)) s1))"

section \<open>Frames\<close>

text \<open>The pool's own steps leave the importer's fields alone.\<close>

definition q_part :: "('c, 't) loader \<Rightarrow> quarantine_record list \<times> nat \<times> (string \<times> string) list" where
  "q_part s = (quarantine s, quarantine_total s, quarantine_seen s)"

lemma loader_more: "pool_state.more s = pool_state.more s' \<Longrightarrow> q_part s = q_part s'"
  by (cases s; cases s'; simp add: q_part_def)

lemma q_part_simps [simp]:
  "q_part (s\<lparr>target := t\<rparr>) = q_part s" "q_part (s\<lparr>pk_indexes := d\<rparr>) = q_part s"
  "q_part (s\<lparr>attempts := n\<rparr>) = q_part s" "q_part (record_event ev s) = q_part s"
  by (simp_all add: q_part_def record_event_def)

lemma record_event_loader [simp]:
  "quarantine_seen (record_event ev s) = quarantine_seen s"
  "quarantine_total (record_event ev s) = quarantine_total s"
  "quarantine (record_event ev s) = quarantine s"
  "attempts (record_event ev s) = attempts s"
  by (simp_all add: record_event_def)

lemma count_failure_q_part [simp]: "q_part (count_failure ops e s) = q_part s"
  by (simp add: count_failure_def)

lemma count_failure_simps [simp]:
  "target (count_failure ops e s) = target s" "slots (count_failure ops e s) = slots s"
  "quarantine_seen (count_failure ops e s) = quarantine_seen s"
  "quarantine_total (count_failure ops e s) = quarantine_total s"
  by (simp_all add: count_failure_def)

lemma pool_part_simps [simp]:
  "connect (pool_part ops) = connect ops" "close_conn (pool_part ops) = close_conn ops"
  by (simp_all add: pool_ops.truncate_def)

lemma on_target_result:
  "on_target act s = (r, s') \<Longrightarrow> act (target s) = (r, target s') \<and> s' = s\<lparr>target := target s'\<rparr>"
  by (auto simp: on_target_def split: prod.splits)

section \<open>What the target promises\<close>

text \<open>
  \<open>holds t table names values\<close>: the target's table holds a row whose \<open>names\<close> columns store
  \<open>values\<close>. No operation of the load removes a row; a plain INSERT that reports every row it was
  sent as stored has stored them, as has any INSERT of a mode in \<open>reliable\<close> that returns (with
  an \<open>ON CONFLICT\<close> clause the row was there already); a fetched key that equals a row's key
  under the load's own normalization is on the target.
\<close>

locale target_db =
  fixes ops :: "('c, 't) load_ops"
    and holds :: "'t \<Rightarrow> string \<Rightarrow> string list \<Rightarrow> pyval list \<Rightarrow> bool"
    and reliable :: "on_conflict_mode \<Rightarrow> bool"
  assumes connect_keeps: "connect ops t = (r1, t') \<Longrightarrow> holds t tab ns vs \<Longrightarrow> holds t' tab ns vs"
    and close_keeps: "holds t tab ns vs \<Longrightarrow> holds (close_conn ops c t) tab ns vs"
    and insert_keeps: "run_insert ops c stmt ps t = (r2, t') \<Longrightarrow> holds t tab ns vs \<Longrightarrow> holds t' tab ns vs"
    and select_keeps: "run_select ops c tb ks n ps t = (r3, t') \<Longrightarrow> holds t tab ns vs \<Longrightarrow> holds t' tab ns vs"
    and pk_index_keeps: "read_pk_index ops c tb t = (r4, t') \<Longrightarrow> holds t tab ns vs \<Longrightarrow> holds t' tab ns vs"
    and sleep_keeps: "holds t tab ns vs \<Longrightarrow> holds (sleep (occ ops) d t) tab ns vs"
    and jitter_keeps: "jitter (occ ops) t = (j, t') \<Longrightarrow> holds t tab ns vs \<Longrightarrow> holds t' tab ns vs"
    and insert_stores: "run_insert ops c (insert_statement w (length rows) mode)
          (flatten_params rows (w_columns w)) t = (Inr rowcount, t') \<Longrightarrow>
        set (w_keys w) \<subseteq> set (w_columns w) \<Longrightarrow>
        inserted_rows rowcount (length rows) = int (length rows) \<or> reliable mode \<Longrightarrow>
        row \<in> set rows \<Longrightarrow> holds t' (w_table w) (ident_names w) (key_of (ident_names w) row)"
    and select_sound: "run_select ops c (w_table w) (w_keys w) (length (w_rows w))
          (map key_parameter (concat (map (key_of (w_keys w)) (w_rows w)))) t = (Inr answer, t') \<Longrightarrow>
        w_keys w \<noteq> [] \<Longrightarrow> row \<in> set (w_rows w) \<Longrightarrow> row \<notin> set (missing_rows (w_keys w) answer (w_rows w)) \<Longrightarrow>
        holds t' (w_table w) (w_keys w) (key_of (w_keys w) row)"
begin

definition keeps :: "('c, 't) loader \<Rightarrow> ('c, 't) loader \<Rightarrow> bool" where
  "keeps s s' =
     ((\<forall>tab ns vs. holds (target s) tab ns vs \<longrightarrow> holds (target s') tab ns vs)
      \<and> q_part s' = q_part s)"

text \<open>An action that keeps rows, quarantine and slots, and whose answer satisfies \<open>Q\<close>.\<close>

definition safe :: "(('c, 't) loader, 'a) action \<Rightarrow> ('a \<Rightarrow> ('c, 't) loader \<Rightarrow> bool) \<Rightarrow> ('c, 't) loader \<Rightarrow> bool" where
  "safe act Q s =
     (\<forall>r s'. act s = (r, s') \<longrightarrow>
        keeps s s' \<and> length (slots s') = length (slots s) \<and> (\<forall>a. r = Inr a \<longrightarrow> Q a s'))"

lemma keeps_refl [simp]: "keeps s s"
  by (simp add: keeps_def)

lemma keeps_trans [trans]: "keeps s s1 \<Longrightarrow> keeps s1 s2 \<Longrightarrow> keeps s s2"
  by (simp add: keeps_def)

lemma keeps_same: "target s' = target s \<Longrightarrow> q_part s' = q_part s \<Longrightarrow> keeps s s'"
  by (simp add: keeps_def)

lemma safeI:
  "(\<And>r s'. act s = (r, s') \<Longrightarrow> keeps s s' \<and> length (slots s') = length (slots s) \<and> (\<forall>a. r = Inr a \<longrightarrow> Q a s'))
     \<Longrightarrow> safe act Q s"
  by (simp add: safe_def)

lemma safeD:
  "safe act Q s \<Longrightarrow> act s = (r, s') \<Longrightarrow> keeps s s'"
  "safe act Q s \<Longrightarrow> act s = (r, s') \<Longrightarrow> length (slots s') = length (slots s)"
  "safe act Q s \<Longrightarrow> act s = (Inr a, s') \<Longrightarrow> Q a s'"
  by (simp_all add: safe_def)

lemma on_target_keeps:
  assumes "on_target act s = (r, s')"
    and "\<And>t tab ns vs. act (target s) = (r, t) \<Longrightarrow> holds (target s) tab ns vs \<Longrightarrow> holds t tab ns vs"
  shows "keeps s s' \<and> slots s' = slots s"
proof -
  note res = on_target_result [OF assms(1)]
  then obtain t where s': "s' = s\<lparr>target := t\<rparr>" by blast
  with res have "act (target s) = (r, t)" by simp
  with assms(2) show ?thesis by (auto simp: keeps_def s')
qed

lemma lease_safe:
  assumes body: "\<And>c s1. keeps s s1 \<Longrightarrow> safe (body c) Q s1"
    and stable: "\<And>a s1 s2. Q a s1 \<Longrightarrow> keeps s1 s2 \<Longrightarrow> Q a s2"
    and "slots s \<noteq> []"
  shows "safe (lease (pool_part ops) b body) Q s"
proof (rule safeI)
  fix r s' assume run: "lease (pool_part ops) b body s = (r, s')"
  from run assms(3) show "keeps s s' \<and> length (slots s') = length (slots s) \<and> (\<forall>a. r = Inr a \<longrightarrow> Q a s')"
  proof (cases rule: lease_cases)
    case (no_connect e t)
    then show ?thesis using connect_keeps loader_more [OF no_connect(5)] by (auto simp: keeps_def)
  next
    case (ran c s1 q s2)
    have k1: "keeps s s1"
      using ran(7) connect_keeps loader_more [OF ran(3)] by (auto simp: keeps_def)
    have k3: "keeps s2 s'"
      using ran(8) close_keeps loader_more [OF ran(4)] by (auto simp: keeps_def)
    note k2 = safeD [OF body [OF k1]]
    from k1 k2(1) [OF ran(1)] k3 have "keeps s s'" by (blast intro: keeps_trans)
    moreover have "length (slots s') = length (slots s)" using ran(5,6) k2(2) [OF ran(1)] by simp
    moreover have "Q a s'" if "r = Inr a" for a
      using k2(3) ran(1,2) that stable [OF _ k3] by blast
    ultimately show ?thesis by blast
  qed
qed

definition stored :: "batch_work \<Rightarrow> pyrow \<Rightarrow> ('c, 't) loader \<Rightarrow> bool" where
  "stored w row s = holds (target s) (w_table w) (ident_names w) (key_of (ident_names w) row)"

lemma stored_stable: "stored w row s \<Longrightarrow> keeps s s' \<Longrightarrow> stored w row s'"
  by (simp add: stored_def keeps_def)

definition stored_all :: "batch_work \<Rightarrow> pyrow list \<Rightarrow> ('c, 't) loader \<Rightarrow> bool" where
  "stored_all w rows s = (\<forall>row \<in> set rows. stored w row s)"

lemma stored_all_stable: "stored_all w rows s \<Longrightarrow> keeps s s' \<Longrightarrow> stored_all w rows s'"
  unfolding stored_all_def using stored_stable by blast

lemma insert_on_target:
  assumes keyed: "set (w_keys w) \<subseteq> set (w_columns w)"
    and run1: "on_target (run_insert ops c (insert_statement w (length rows) mode) (flatten_params rows (w_columns w))) s = (r, s')"
  shows "keeps s s' \<and> slots s' = slots s
    \<and> (\<forall>rc. r = Inr rc \<longrightarrow> inserted_rows rc (length rows) = int (length rows) \<or> reliable mode \<longrightarrow> stored_all w rows s')"
proof -
  from on_target_result [OF run1] have run:
    "run_insert ops c (insert_statement w (length rows) mode) (flatten_params rows (w_columns w)) (target s) = (r, target s')"
    by simp
  have "keeps s s' \<and> slots s' = slots s" by (rule on_target_keeps [OF run1]) (rule insert_keeps)
  moreover have "stored_all w rows s'"
    if "r = Inr rc" "inserted_rows rc (length rows) = int (length rows) \<or> reliable mode" for rc
    unfolding stored_all_def stored_def using insert_stores [OF run [unfolded that(1)] keyed that(2)] by blast
  ultimately show ?thesis by blast
qed

lemma execute_insert_safe:
  assumes "slots s \<noteq> []" and keyed: "set (w_keys w) \<subseteq> set (w_columns w)"
  shows "safe (execute_insert ops (insert_statement w (length rows) mode) (flatten_params rows (w_columns w)) (length rows) mode)
    (\<lambda>_ s'. mode = NONE \<or> reliable mode \<longrightarrow> stored_all w rows s') s"
proof (rule safeI)
  fix r s'
  let ?Q = "\<lambda>rc s'. inserted_rows rc (length rows) = int (length rows) \<or> reliable mode \<longrightarrow> stored_all w rows s'"
  let ?body = "\<lambda>c. on_target (run_insert ops c (insert_statement w (length rows) mode) (flatten_params rows (w_columns w)))"
  assume run: "execute_insert ops (insert_statement w (length rows) mode) (flatten_params rows (w_columns w)) (length rows) mode s = (r, s')"
  obtain q s1 where l: "lease (pool_part ops) True ?body s = (q, s1)" by force
  have sf: "safe (lease (pool_part ops) True ?body) ?Q s"
  proof (rule lease_safe)
    show "safe (?body c) ?Q s2" for c s2
      by (rule safeI) (use insert_on_target [OF keyed] in fastforce)
  qed (use assms stored_all_stable in auto)
  note k = safeD(1,2) [OF sf l] and Q = safeD(3) [OF sf]
  have "\<not> inserted_rows rc (length rows) < int (length rows) \<Longrightarrow> inserted_rows rc (length rows) = int (length rows)" for rc
    by (simp add: inserted_rows_def)
  with run l k Q show "keeps s s' \<and> length (slots s') = length (slots s)
      \<and> (\<forall>a. r = Inr a \<longrightarrow> mode = NONE \<or> reliable mode \<longrightarrow> stored_all w rows s')"
    by (auto simp: execute_insert_def Let_def split: sum.splits if_splits)
qed

lemma pk_index_safe:
  "primary_key_index ops c table s = (r, s') \<Longrightarrow> keeps s s' \<and> slots s' = slots s"
proof -
  assume run: "primary_key_index ops c table s = (r, s')"
  show ?thesis
  proof (cases "map_of (pk_indexes s) table")
    case (Some name)
    with run show ?thesis by (simp add: primary_key_index_def)
  next
    case None
    obtain q s1 where t: "on_target (read_pk_index ops c table) s = (q, s1)" by force
    have "keeps s s1 \<and> slots s1 = slots s" by (rule on_target_keeps [OF t]) (rule pk_index_keeps)
    with run None t show ?thesis
      by (auto simp: primary_key_index_def keeps_def split: sum.splits if_splits)
  qed
qed

lemma violates_secondary_safe:
  "violates_secondary_unique ops c w e s = (r, s') \<Longrightarrow> keeps s s' \<and> slots s' = slots s"
  using pk_index_safe [of c "w_table w" s]
  by (auto simp: violates_secondary_unique_def split: option.splits sum.splits prod.splits)

lemma select_on_target:
  assumes "on_target (run_select ops c (w_table w) (w_keys w) (length (w_rows w))
      (map key_parameter (concat (map (key_of (w_keys w)) (w_rows w))))) s = (r, s')"
    and "w_keys w \<noteq> []"
  shows "keeps s s' \<and> slots s' = slots s
    \<and> (\<forall>answer row. r = Inr answer \<and> row \<in> set (w_rows w) \<and> row \<notin> set (missing_rows (w_keys w) answer (w_rows w))
         \<longrightarrow> stored w row s')"
proof -
  from on_target_result [OF assms(1)] have run: "run_select ops c (w_table w) (w_keys w) (length (w_rows w))
      (map key_parameter (concat (map (key_of (w_keys w)) (w_rows w)))) (target s) = (r, target s')"
    by simp
  have "keeps s s' \<and> slots s' = slots s" by (rule on_target_keeps [OF assms(1)]) (rule select_keeps)
  moreover have "stored w row s'"
    if "r = Inr answer" "row \<in> set (w_rows w)" "row \<notin> set (missing_rows (w_keys w) answer (w_rows w))" for answer row
    using select_sound [OF run [unfolded that(1)] assms(2) that(2,3)] assms(2) by (simp add: stored_def ident_names_def)
  ultimately show ?thesis by blast
qed

lemma filter_insert_once_safe:
  assumes "w_keys w \<noteq> []" and rel: "reliable NONE" and keyed: "set (w_keys w) \<subseteq> set (w_columns w)"
  shows "safe (filter_insert_once ops w c)
    (\<lambda>p s'. \<forall>i k. p = Landed i k \<longrightarrow> stored_all w (w_rows w) s') s"
proof (rule safeI)
  fix r s'
  assume run: "filter_insert_once ops w c s = (r, s')"
  let ?goal = "keeps s s' \<and> length (slots s') = length (slots s)
      \<and> (\<forall>p. r = Inr p \<longrightarrow> (\<forall>i k. p = Landed i k \<longrightarrow> stored_all w (w_rows w) s'))"
  let ?params = "map key_parameter (concat (map (key_of (w_keys w)) (w_rows w)))"
  obtain q s1 where sel: "on_target (run_select ops c (w_table w) (w_keys w) (length (w_rows w)) ?params) s = (q, s1)"
    by force
  note k1 = select_on_target [OF sel assms(1)]
  show ?goal
  proof (cases q)
    case (Inl e)
    with run sel k1 show ?thesis by (auto simp: filter_insert_once_def Let_def)
  next
    case (Inr answer)
    define missing where "missing = missing_rows (w_keys w) answer (w_rows w)"
    have present: "stored w row s1" if "row \<in> set (w_rows w)" "row \<notin> set missing" for row
      using k1 Inr that unfolding missing_def by blast
    show ?thesis
    proof (cases "missing = []")
      case True
      with run sel Inr k1 present show ?thesis
        by (auto simp: filter_insert_once_def Let_def missing_def [symmetric] stored_all_def)
    next
      case False
      obtain q2 s2 where ins: "on_target (run_insert ops c (insert_statement w (length missing) NONE)
          (flatten_params missing (w_columns w))) s1 = (q2, s2)" by force
      note k2 = insert_on_target [OF keyed ins]
      have k12: "keeps s s2" "length (slots s2) = length (slots s)" using k1 k2 by (auto intro: keeps_trans)
      show ?thesis
      proof (cases q2)
        case (Inr rc)
        then have "stored_all w missing s2" using k2 rel by blast
        then have "stored_all w (w_rows w) s2"
          unfolding stored_all_def using present stored_stable k2 by blast
        with run sel \<open>q = Inr answer\<close> ins Inr False k12 show ?thesis
          by (auto simp: filter_insert_once_def Let_def missing_def [symmetric])
      next
        case (Inl e)
        show ?thesis
        proof (cases "is_exception e \<and> sqlstate e = Some UNIQUE_VIOLATION")
          case False
          with run sel \<open>q = Inr answer\<close> ins Inl \<open>missing \<noteq> []\<close> k12 show ?thesis
            by (auto simp: filter_insert_once_def Let_def missing_def [symmetric])
        next
          case True
          obtain q3 s3 where v: "violates_secondary_unique ops c w e s2 = (q3, s3)" by force
          have k3: "keeps s s3" "length (slots s3) = length (slots s)"
            using violates_secondary_safe [OF v] k12 by (auto intro: keeps_trans)
          moreover have "keeps s (record_event UniqueRecovery s3)" using k3(1) by (simp add: keeps_def)
          ultimately show ?thesis
            using run sel \<open>q = Inr answer\<close> ins Inl \<open>missing \<noteq> []\<close> True v
            by (auto simp: filter_insert_once_def Let_def missing_def [symmetric] split: sum.splits bool.splits)
        qed
      qed
    qed
  qed
qed

lemma filter_insert_loop_safe:
  "w_keys w \<noteq> [] \<Longrightarrow> reliable NONE \<Longrightarrow> set (w_keys w) \<subseteq> set (w_columns w) \<Longrightarrow> slots s \<noteq> [] \<Longrightarrow>
   safe (filter_insert_loop ops w n) (\<lambda>_ s'. stored_all w (w_rows w) s') s"
proof (induction n arbitrary: s)
  case 0
  then show ?case by (auto intro!: safeI)
next
  case (Suc n)
  let ?Q = "\<lambda>p s'. \<forall>i k. p = Landed i k \<longrightarrow> stored_all w (w_rows w) s'"
  have sf: "safe (lease (pool_part ops) True (filter_insert_once ops w)) ?Q s"
    by (rule lease_safe) (use Suc.prems filter_insert_once_safe stored_all_stable in blast)+
  show ?case
  proof (rule safeI)
    fix r s' assume run: "filter_insert_loop ops w (Suc n) s = (r, s')"
    obtain q s1 where l: "lease (pool_part ops) True (filter_insert_once ops w) s = (q, s1)" by force
    note k = safeD(1,2) [OF sf l] and Q = safeD(3) [OF sf]
    show "keeps s s' \<and> length (slots s') = length (slots s) \<and> (\<forall>a. r = Inr a \<longrightarrow> stored_all w (w_rows w) s')"
    proof (cases "\<exists>e. q = Inr (Raced e)")
      case True
      then have rest: "filter_insert_loop ops w n s1 = (r, s')" using run l by auto
      have "slots s1 \<noteq> []" using k(2) Suc.prems(4) by (metis length_0_conv)
      from safeD [OF Suc.IH [OF Suc.prems(1-3) this] ] rest k show ?thesis
        by (metis keeps_trans)
    next
      case False
      with run l k Q show ?thesis by (auto split: sum.splits filter_pass.splits)
    qed
  qed
qed

lemma select_filter_insert_safe:
  "w_keys w \<noteq> [] \<Longrightarrow> reliable NONE \<Longrightarrow> set (w_keys w) \<subseteq> set (w_columns w) \<Longrightarrow> slots s \<noteq> [] \<Longrightarrow>
   safe (select_filter_insert ops w) (\<lambda>_ s'. stored_all w (w_rows w) s') s"
  using filter_insert_loop_safe [of w s "nat (max 1 (max_attempts (occ ops)))"]
  by (auto simp: safe_def select_filter_insert_def split: option.splits)

lemma keeps_event: "keeps s s' \<Longrightarrow> keeps s (record_event ev s')"
  by (simp add: keeps_def)

lemma execute_skip_existing_safe:
  assumes "reliable NONE" "slots s \<noteq> []" and keyed: "set (w_keys w) \<subseteq> set (w_columns w)"
  shows "safe (execute_skip_existing ops w) (\<lambda>_ s'. stored_all w (w_rows w) s') s"
proof (cases "w_keys w = [] \<or> w_rows w = []")
  case True
  then show ?thesis by (auto intro!: safeI simp: execute_skip_existing_def Let_def stored_all_def split: if_splits)
next
  case False
  let ?ins = "\<lambda>c. on_target (run_insert ops c (insert_statement w (length (w_rows w)) NONE)
                       (flatten_params (w_rows w) (w_columns w)))"
  define body :: "'c \<Rightarrow> (('c, 't) loader, int option) action" where "body = (\<lambda>c s1. case ?ins c s1 of
        (Inr rowcount, s2) \<Rightarrow> (Inr (Some (inserted_rows rowcount (length (w_rows w)))), s2)
      | (Inl e, s2) \<Rightarrow> if is_exception e \<and> sqlstate e = Some UNIQUE_VIOLATION then (Inr None, s2) else (Inl e, s2))"
  let ?Q = "\<lambda>p s'. p \<noteq> None \<longrightarrow> stored_all w (w_rows w) s'"
  have sf: "safe (lease (pool_part ops) True body) ?Q s"
  proof (rule lease_safe)
    fix c s1
    show "safe (body c) ?Q s1"
    proof (rule safeI)
      fix r s'
      obtain q s2 where i: "?ins c s1 = (q, s2)" by force
      note k = insert_on_target [OF keyed i]
      assume "body c s1 = (r, s')"
      with i k assms(1) show "keeps s1 s' \<and> length (slots s') = length (slots s1)
          \<and> (\<forall>a. r = Inr a \<longrightarrow> a \<noteq> None \<longrightarrow> stored_all w (w_rows w) s')"
        by (auto simp: body_def split: sum.splits if_splits)
    qed
  qed (use assms stored_all_stable in auto)
  show ?thesis
  proof (rule safeI)
    fix r s' assume run: "execute_skip_existing ops w s = (r, s')"
    obtain q s1 where l: "lease (pool_part ops) True body s = (q, s1)" by force
    note k = safeD(1,2) [OF sf l] and Q = safeD(3) [OF sf]
    show "keeps s s' \<and> length (slots s') = length (slots s) \<and> (\<forall>a. r = Inr a \<longrightarrow> stored_all w (w_rows w) s')"
    proof (cases "q = Inr None")
      case True
      then have rest: "select_filter_insert ops w (record_event UniqueRecovery s1) = (r, s')"
        using run l False by (simp add: execute_skip_existing_def body_def [symmetric])
      have "slots (record_event UniqueRecovery s1) \<noteq> []" using k(2) assms(2) by (metis length_0_conv record_event_simps(2))
      with False assms have sf2: "safe (select_filter_insert ops w) (\<lambda>_ s'. stored_all w (w_rows w) s') (record_event UniqueRecovery s1)"
        by (intro select_filter_insert_safe) auto
      from safeD(1,2) [OF sf2 rest] safeD(3) [OF sf2] rest k show ?thesis
        using keeps_trans keeps_event by fastforce
    next
      case other: False
      with run l k Q False show ?thesis
        by (auto simp: execute_skip_existing_def body_def [symmetric] split: sum.splits option.splits)
    qed
  qed
qed

text \<open>The modes whose success means every row is there.\<close>

definition trusted :: "batch_work \<Rightarrow> bool" where
  "trusted w =
     (set (w_keys w) \<subseteq> set (w_columns w)
      \<and> (case w_mode w of
            NONE \<Rightarrow> w_keys w = [] \<or> reliable NONE
          | SKIP_EXISTING \<Rightarrow> reliable NONE
          | mode \<Rightarrow> reliable mode))"

lemma safe_counted: "safe act Q s \<Longrightarrow> (\<And>a s1 s2. Q a s1 \<Longrightarrow> keeps s1 s2 \<Longrightarrow> Q a s2) \<Longrightarrow> safe (counted ops act) Q s"
proof (rule safeI)
  fix r s' assume sf: "safe act Q s" and run: "counted ops act s = (r, s')"
  obtain q s1 where a: "act s = (q, s1)" by force
  from run a safeD(1,2) [OF sf a] safeD(3) [OF sf]
  show "keeps s s' \<and> length (slots s') = length (slots s) \<and> (\<forall>a. r = Inr a \<longrightarrow> Q a s')"
    by (auto simp: counted_def keeps_def split: sum.splits)
qed


lemma safe_attempts:
  "safe act Q (s\<lparr>attempts := n\<rparr>) \<Longrightarrow> act2 s = act (s\<lparr>attempts := n\<rparr>) \<Longrightarrow> safe act2 Q s"
  by (simp add: safe_def keeps_def)

lemma skip_attempt_safe:
  "reliable NONE \<Longrightarrow> slots s \<noteq> [] \<Longrightarrow> set (w_keys w) \<subseteq> set (w_columns w) \<Longrightarrow> safe (skip_attempt ops w) (\<lambda>_ s'. stored_all w (w_rows w) s') s"
  by (rule safe_attempts [where n = "Suc (attempts s)" and act = "counted ops (execute_skip_existing ops w)"])
    (auto intro!: safe_counted execute_skip_existing_safe intro: stored_all_stable simp: skip_attempt_def)

lemma insert_attempt_safe:
  assumes "trusted w" "w_mode w \<noteq> SKIP_EXISTING" "slots s \<noteq> []"
  shows "safe (insert_attempt ops w) (\<lambda>_ s'. stored_all w (w_rows w) s') s"
proof (rule safeI)
  fix r s' assume run: "insert_attempt ops w s = (r, s')"
  let ?n = "length (w_rows w)" and ?s0 = "s\<lparr>attempts := Suc (attempts s)\<rparr>"
  have tr: "w_mode w = NONE \<or> reliable (w_mode w)"
    using assms(1,2) by (cases "w_mode w") (auto simp: trusted_def)
  have keyed: "set (w_keys w) \<subseteq> set (w_columns w)" using assms(1) by (simp add: trusted_def)
  have rel: "w_mode w = NONE \<Longrightarrow> w_keys w \<noteq> [] \<Longrightarrow> reliable NONE" using assms(1) by (simp add: trusted_def)
  obtain q s1 where e: "execute_insert ops (insert_statement w ?n (w_mode w))
      (flatten_params (w_rows w) (w_columns w)) ?n (w_mode w) ?s0 = (q, s1)" by force
  have sf: "safe (execute_insert ops (insert_statement w ?n (w_mode w)) (flatten_params (w_rows w) (w_columns w)) ?n (w_mode w))
      (\<lambda>_ s'. w_mode w = NONE \<or> reliable (w_mode w) \<longrightarrow> stored_all w (w_rows w) s') ?s0"
    using execute_insert_safe [of ?s0 w "w_rows w" "w_mode w"] assms(3) keyed by simp
  note Q1 = safeD(3) [OF sf]
  have k: "keeps s s1" "length (slots s1) = length (slots s)"
    using safeD(1,2) [OF sf e] by (auto simp: keeps_def)
  show "keeps s s' \<and> length (slots s') = length (slots s) \<and> (\<forall>a. r = Inr a \<longrightarrow> stored_all w (w_rows w) s')"
  proof (cases "\<exists>x. q = Inl x \<and> is_exception x \<and> w_mode w = NONE \<and> w_keys w \<noteq> [] \<and> sqlstate x = Some UNIQUE_VIOLATION")
    case True
    then have rest: "counted ops (select_filter_insert ops w) (record_event UniqueRecovery s1) = (r, s')"
      using run e by (auto simp: insert_attempt_def)
    have "slots (record_event UniqueRecovery s1) \<noteq> []" using k(2) assms(3) by (metis length_0_conv record_event_simps(2))
    with True rel keyed have sf2: "safe (counted ops (select_filter_insert ops w)) (\<lambda>_ s'. stored_all w (w_rows w) s') (record_event UniqueRecovery s1)"
      by (intro safe_counted select_filter_insert_safe) (auto intro: stored_all_stable)
    from safeD(1,2) [OF sf2 rest] safeD(3) [OF sf2] rest k show ?thesis
      using keeps_trans keeps_event by fastforce
  next
    case False
    then have "(\<exists>a. q = Inr a \<and> r = Inr a \<and> s' = s1) \<or> (\<exists>x. q = Inl x \<and> r = Inl x \<and> s' = count_failure ops x s1)"
      using run e by (cases q) (auto simp: insert_attempt_def)
    with k Q1 e tr show ?thesis by (auto simp: keeps_def)
  qed
qed

lemma occ_wait_keeps: "keeps s (occ_wait (lift_occ (occ ops)) a s) \<and> slots (occ_wait (lift_occ (occ ops)) a s) = slots s"
  using sleep_keeps jitter_keeps
  by (auto simp: occ_wait_def lift_occ_def keeps_def split: prod.splits)

lemma execute_for_mode_safe:
  assumes tr: "trusted w" and "slots s \<noteq> []" and cfg: "occ_config_ok (occ ops)"
  shows "safe (execute_for_mode ops w) (\<lambda>_ s'. stored_all w (w_rows w) s') s"
proof (rule safeI)
  fix r s' assume run: "execute_for_mode ops w s = (r, s')"
  define attempt where "attempt = (if w_mode w = SKIP_EXISTING then skip_attempt ops w else insert_attempt ops w)"
  have sf: "safe attempt (\<lambda>_ s'. stored_all w (w_rows w) s') s1" if "slots s1 \<noteq> []" for s1
    using that tr insert_attempt_safe [of w s1] skip_attempt_safe [of s1 w]
    by (cases "w_mode w") (auto simp: attempt_def trusted_def)
  obtain q s1 where q: "with_occ_retry (lift_occ (occ ops)) attempt (s\<lparr>attempts := 0\<rparr>) = (q, s1)" by force
  let ?I = "\<lambda>s1. keeps s s1 \<and> length (slots s1) = length (slots s)"
  have "?I s1 \<and> (\<forall>a. q = Inr a \<longrightarrow> stored_all w (w_rows w) s1)"
  proof (rule with_occ_retry_rule [where I = ?I and Q = "\<lambda>r s. \<forall>a. r = Inr a \<longrightarrow> stored_all w (w_rows w) s", OF _ _ _ _ q])
    show "occ_config_ok (lift_occ (occ ops))" using cfg by (simp add: occ_config_ok_def lift_occ_def)
    show "?I (s\<lparr>attempts := 0\<rparr>)" by (simp add: keeps_def)
    show "?I s3 \<and> (\<forall>a. r3 = Inr a \<longrightarrow> stored_all w (w_rows w) s3)"
      if "?I s2" "attempt s2 = (r3, s3)" for s2 r3 s3
    proof -
      have ne: "slots s2 \<noteq> []" using that(1) assms(2) by (metis length_0_conv)
      from safeD(1,2) [OF sf [OF ne] that(2)] safeD(3) [OF sf [OF ne]] that show ?thesis
        by (auto intro: keeps_trans)
    qed
    show "?I (occ_wait (lift_occ (occ ops)) a s2)" if "?I s2" for a s2
      using that occ_wait_keeps [of s2 a] by (auto intro: keeps_trans)
  qed
  with run q show "keeps s s' \<and> length (slots s') = length (slots s) \<and> (\<forall>a. r = Inr a \<longrightarrow> stored_all w (w_rows w) s')"
    by (auto simp: execute_for_mode_def attempt_def [symmetric] keeps_def stored_all_def stored_def)
qed

text \<open>
  The quarantine: as many records as rows dropped, one identity each, never past the cap.
\<close>

definition quarantine_ok :: "('c, 't) loader \<Rightarrow> bool" where
  "quarantine_ok s =
     (quarantine_total s \<le> max_quarantine ops \<and> length (quarantine s) = quarantine_total s
      \<and> length (quarantine_seen s) = quarantine_total s \<and> distinct (quarantine_seen s))"

definition grows :: "('c, 't) loader \<Rightarrow> ('c, 't) loader \<Rightarrow> bool" where
  "grows s s' =
     ((\<forall>tab ns vs. holds (target s) tab ns vs \<longrightarrow> holds (target s') tab ns vs)
      \<and> set (quarantine_seen s) \<subseteq> set (quarantine_seen s')
      \<and> (quarantine_ok s \<longrightarrow> quarantine_ok s'))"

lemma keeps_grows: "keeps s s' \<Longrightarrow> grows s s'"
  by (simp add: keeps_def grows_def q_part_def quarantine_ok_def)

lemma grows_refl [simp]: "grows s s"
  by (simp add: grows_def)

lemma grows_trans [trans]: "grows s s1 \<Longrightarrow> grows s1 s2 \<Longrightarrow> grows s s2"
  unfolding grows_def by blast

definition batch_safe :: "(('c, 't) loader, 'a) action \<Rightarrow> ('a \<Rightarrow> ('c, 't) loader \<Rightarrow> bool) \<Rightarrow> ('c, 't) loader \<Rightarrow> bool" where
  "batch_safe act Q s =
     (\<forall>r s'. act s = (r, s') \<longrightarrow>
        grows s s' \<and> length (slots s') = length (slots s) \<and> (\<forall>a. r = Inr a \<longrightarrow> Q a s'))"

lemma batch_safeI:
  "(\<And>r s'. act s = (r, s') \<Longrightarrow> grows s s' \<and> length (slots s') = length (slots s) \<and> (\<forall>a. r = Inr a \<longrightarrow> Q a s'))
     \<Longrightarrow> batch_safe act Q s"
  by (simp add: batch_safe_def)

lemma batch_safeD:
  "batch_safe act Q s \<Longrightarrow> act s = (r, s') \<Longrightarrow> grows s s'"
  "batch_safe act Q s \<Longrightarrow> act s = (r, s') \<Longrightarrow> length (slots s') = length (slots s)"
  "batch_safe act Q s \<Longrightarrow> act s = (Inr a, s') \<Longrightarrow> Q a s'"
  by (simp_all add: batch_safe_def)

text \<open>Every row is on the target or in quarantine.\<close>

definition covered :: "batch_work \<Rightarrow> pyrow list \<Rightarrow> ('c, 't) loader \<Rightarrow> bool" where
  "covered w rows s =
     (\<forall>row \<in> set rows. stored w row s \<or> quarantined_row_identity ops w row \<in> set (quarantine_seen s))"

lemma covered_stable: "covered w rows s \<Longrightarrow> grows s s' \<Longrightarrow> covered w rows s'"
  unfolding covered_def grows_def stored_def by blast

lemma covered_part [simp]:
  "covered (w\<lparr>w_rows := xs\<rparr>) rows s = covered w rows s"
  "trusted (w\<lparr>w_rows := xs\<rparr>) = trusted w"
  by (simp_all add: covered_def stored_def ident_names_def quarantined_row_identity_def trusted_def
      split: on_conflict_mode.split)

lemma quarantine_one_safe:
  "quarantine_total s < max_quarantine ops \<Longrightarrow>
   batch_safe (quarantine_one ops w e) (\<lambda>_ s'. covered w (take 1 (w_rows w)) s') s"
  by (rule batch_safeI)
    (auto simp: quarantine_one_def Let_def grows_def covered_def quarantine_ok_def split: list.splits if_splits)

lemma load_batch_safe:
  assumes cfg: "occ_config_ok (occ ops)"
  shows "trusted w \<Longrightarrow> slots s \<noteq> [] \<Longrightarrow> batch_safe (load_batch ops w) (\<lambda>_ s'. covered w (w_rows w) s') s"
proof (induction "length (w_rows w)" arbitrary: w s rule: less_induct)
  case less
  note tr = less.prems(1) and sl = less.prems(2)
  show ?case
  proof (rule batch_safeI)
    fix r s' assume run: "load_batch ops w s = (r, s')"
    let ?goal = "grows s s' \<and> length (slots s') = length (slots s) \<and> (\<forall>a. r = Inr a \<longrightarrow> covered w (w_rows w) s')"
    show ?goal
    proof (cases "max_quarantine ops \<le> quarantine_total s")
      case True
      with run show ?thesis by (auto simp: load_batch.simps [of ops w s])
    next
      case cap: False
      obtain q s1 where x: "execute_for_mode ops w s = (q, s1)" by force
      note sf = execute_for_mode_safe [OF tr sl cfg]
      note k0 = safeD(1,2) [OF sf x] and Q = safeD(3) [OF sf]
      have k: "grows s s1" "length (slots s1) = length (slots s)" "quarantine_total s1 = quarantine_total s"
        using k0 keeps_grows by (auto simp: keeps_def q_part_def)
      have sl1: "slots s1 \<noteq> []" using k(2) sl by (metis length_0_conv)
      show ?thesis
      proof (cases q)
        case (Inr counts)
        with run x cap k Q show ?thesis
          by (auto simp: load_batch.simps [of ops w s] covered_def stored_all_def)
      next
        case (Inl e)
        show ?thesis
        proof (cases "\<not> is_exception e \<or> is_retryable_load_error e \<or> sqlstate e = None")
          case True
          with run x cap Inl k show ?thesis by (auto simp: load_batch.simps [of ops w s])
        next
          case poison: False
          show ?thesis
          proof (cases "length (w_rows w) \<le> 1")
            case True
            obtain q2 s2 where qo: "quarantine_one ops w e s1 = (q2, s2)" by force
            have room: "quarantine_total s1 < max_quarantine ops" using cap k(3) by simp
            note k2 = batch_safeD(1,2) [OF quarantine_one_safe [OF room] qo]
            have "r = Inr a \<Longrightarrow> covered w (take 1 (w_rows w)) s2" for a
              using batch_safeD(3) [OF quarantine_one_safe [OF room], of w e] qo run x cap Inl poison True
              by (auto simp: load_batch.simps [of ops w s] split: sum.splits)
            moreover have "s' = s2"
              using run x cap Inl poison True qo by (auto simp: load_batch.simps [of ops w s] split: sum.splits)
            ultimately show ?thesis using k k2 True by (auto intro: grows_trans)
          next
            case split: False
            define mid where "mid = length (w_rows w) div 2"
            let ?L = "w\<lparr>w_rows := take mid (w_rows w)\<rparr>" and ?R = "w\<lparr>w_rows := drop mid (w_rows w)\<rparr>"
            have len: "length (w_rows ?L) < length (w_rows w)" "length (w_rows ?R) < length (w_rows w)"
              using split by (auto simp: mid_def)
            obtain q2 s2 where l: "load_batch ops ?L s1 = (q2, s2)" by force
            note sfL = less.hyps [OF len(1) _ sl1, simplified, OF tr]
            note kL = batch_safeD(1,2) [OF sfL l] and QL = batch_safeD(3) [OF sfL]
            have sl2: "slots s2 \<noteq> []" using kL(2) sl1 by (metis length_0_conv)
            obtain q3 s3 where rr: "load_batch ops ?R s2 = (q3, s3)" by force
            note sfR = less.hyps [OF len(2) _ sl2, simplified, OF tr]
            note kR = batch_safeD(1,2) [OF sfR rr] and QR = batch_safeD(3) [OF sfR]
            have eq: "(r, s') = (case load_batch ops ?L s1 of
                (Inl e2, s2) \<Rightarrow> (Inl e2, s2)
              | (Inr (i1, c1), s2) \<Rightarrow>
                  (case load_batch ops ?R s2 of
                     (Inl e3, s3) \<Rightarrow> (Inl e3, s3)
                   | (Inr (i2, c2), s3) \<Rightarrow> (Inr (i1 + i2, c1 + c2), s3)))"
              unfolding run [symmetric] mid_def using x cap Inl poison split
              by (subst load_batch.simps) (auto simp: Let_def)
            show ?thesis
            proof (cases q2)
              case l2: (Inl e2)
              with eq l have "s' = s2" "r = Inl e2" by simp_all
              with k kL show ?thesis by (auto intro: grows_trans)
            next
              case l2: (Inr c1)
              obtain i1 k1 where c1: "c1 = (i1, k1)" by force
              have eq2: "(r, s') = (case (q3, s3) of
                  (Inl e3, s3) \<Rightarrow> (Inl e3, s3)
                | (Inr (i2, c2), s3) \<Rightarrow> (Inr (i1 + i2, k1 + c2), s3))"
                using eq by (simp only: l l2 c1 rr prod.case sum.case)
              from eq2 have s'1: "s' = s3" by (cases q3) (simp_all split: prod.splits)
              from eq2 have s'2: "r = Inr a \<Longrightarrow> \<exists>c2. q3 = Inr c2" for a
                by (cases q3) simp_all
              have "covered w (take mid (w_rows w)) s2" using QL l l2 by simp
              then have cov: "covered w (take mid (w_rows w)) s3" by (rule covered_stable [OF _ kR(1)])
              have "covered w (w_rows w) s3" if "r = Inr a" for a
              proof -
                have "covered w (drop mid (w_rows w)) s3" using s'2 [OF that] QR rr by auto
                with cov show ?thesis
                  unfolding covered_def using set_append [of "take mid (w_rows w)" "drop mid (w_rows w)"]
                  by (simp only: append_take_drop_id) blast
              qed
              with s'1 k kL kR show ?thesis by (auto intro: grows_trans)
            qed
          qed
        qed
      qed
    qed
  qed
qed

lemma load_batch_timed_safe:
  assumes "occ_config_ok (occ ops)" "trusted w" "slots s \<noteq> []"
  shows "batch_safe (load_batch_timed ops w) (\<lambda>_ s'. covered w (w_rows w) s') s"
proof (rule batch_safeI)
  fix r s' assume run: "load_batch_timed ops w s = (r, s')"
  obtain q s1 where l: "load_batch ops w s = (q, s1)" by force
  note sf = load_batch_safe [OF assms(1,2,3)]
  from run l batch_safeD(1,2) [OF sf l] batch_safeD(3) [OF sf]
  show "grows s s' \<and> length (slots s') = length (slots s) \<and> (\<forall>a. r = Inr a \<longrightarrow> covered w (w_rows w) s')"
    by (auto simp: load_batch_timed_def grows_def covered_def stored_def quarantine_ok_def)
qed

end

section \<open>Properties\<close>

text \<open>
  C20: the two plain \<open>INSERT\<close> paths disagree on a short row count. When the server answers that it
  stored fewer rows than it was sent, the mode \<open>NONE\<close> fails the batch, but \<open>SKIP_EXISTING\<close> reports the
  rows it did not store as already there.
\<close>

theorem short_count_none_vs_skip:
  assumes "slots s = Conn c # rest" "w_keys w \<noteq> []" "w_rows w \<noteq> []" "0 \<le> n" "n < int (length (w_rows w))"
    and "run_insert ops c (insert_statement w (length (w_rows w)) NONE) (flatten_params (w_rows w) (w_columns w)) (target s)
           = (Inr (Some n), t)"
  shows "(\<exists>e. fst (execute_insert ops (insert_statement w (length (w_rows w)) NONE)
                     (flatten_params (w_rows w) (w_columns w)) (length (w_rows w)) NONE s) = Inl e)
    \<and> fst (execute_skip_existing ops w s) = Inr (n, int (length (w_rows w)) - n)"
  using assms by (simp add: execute_insert_def execute_skip_existing_def lease_def on_target_def inserted_rows_def Let_def)

theorem short_count_none_vs_skip_witness:
  "\<exists>ops :: (unit, unit) load_ops. \<exists>s. fst (execute_skip_existing ops
      \<lparr>w_chunk = ''t#batch-000000'', w_table = ''t'', w_columns = [''id''], w_keys = [''id''], w_mode = SKIP_EXISTING,
       w_rows = [[(''id'', PInt 1)], [(''id'', PInt 2)]], w_shard = None, w_index = 0\<rparr> s) = Inr (0, 2)"
proof -
  let ?w = "\<lparr>w_chunk = ''t#batch-000000'', w_table = ''t'', w_columns = [''id''], w_keys = [''id''], w_mode = SKIP_EXISTING,
       w_rows = [[(''id'', PInt 1)], [(''id'', PInt 2)]], w_shard = None, w_index = 0\<rparr>"
  let ?ops = "\<lparr>connect = (\<lambda>t. (Inr (), t)), conn_closed = (\<lambda>_ _. False), conn_broken = (\<lambda>_ _. False),
      conn_idle = (\<lambda>_ _. True), close_conn = (\<lambda>_ t. t), run_insert = (\<lambda>_ _ _ t. (Inr (Some 0), t)),
      run_select = (\<lambda>_ _ _ _ _ t. (Inr ([], []), t)), read_pk_index = (\<lambda>_ _ t. (Inr None, t)), digest = concat \<circ> map safe_key_text,
      occ = \<lparr>max_attempts = 1, base_delay = 0, max_delay = 0, sleep = (\<lambda>_ t. t), jitter = (\<lambda>t. (0, t)), retryable = is_retryable_load_error\<rparr>,
      max_quarantine = 1\<rparr> :: (unit, unit) load_ops"
  let ?s = "\<lparr>target = (), slots = [Conn ()], created = [()], events = [], quarantine = [], quarantine_total = 0,
      quarantine_seen = [], pk_indexes = [], attempts = 0\<rparr> :: (unit, unit) loader"
  have "fst (execute_skip_existing ?ops ?w ?s) = Inr (0, int (length (w_rows ?w)) - 0)"
    by (rule conjunct2 [OF short_count_none_vs_skip [where c = "()" and rest = "[]" and t = "()"]]) simp_all
  then show ?thesis by (intro exI [of _ ?ops] exI [of _ ?s]) simp
qed

end
