(* ===== verification/IndexPass.thy ===== *)
theory IndexPass
  imports PyString ConnPool
begin

text \<open>
  \<^verbatim>\<open>core/batched_import.py\<close>: the post-load \<open>CREATE INDEX ASYNC\<close> pass (\<open>_create_indexes\<close>,
  \<open>index_pass\<close>, \<open>create_indexes\<close>). Each statement is retried on its own lease, a failed index is
  isolated, and a failure whose outcome the server never confirmed says so.
\<close>

section \<open>Labels\<close>

definition ci_prefix :: "string \<Rightarrow> string \<Rightarrow> bool" where
  "ci_prefix pat s = prefix (ascii_lower pat) (ascii_lower s)"

text \<open>\<open>\s+\<close> after a keyword: what follows the spaces, when there is at least one.\<close>

definition after_spaces :: "string \<Rightarrow> string option" where
  "after_spaces s = (case s of
      c # cs \<Rightarrow> (if py_space c then Some (dropWhile py_space cs) else None)
    | [] \<Rightarrow> None)"

definition after_word :: "string \<Rightarrow> string \<Rightarrow> string option" where
  "after_word word s = (if ci_prefix word s then after_spaces (drop (length word) s) else None)"

definition name_char :: "char \<Rightarrow> bool" where
  "name_char c = (c \<noteq> quote_char \<and> c \<noteq> CHR ''('' \<and> \<not> py_space c)"

definition index_name_here :: "string \<Rightarrow> string option" where
  "index_name_here s =
     (let t = (case s of c # cs \<Rightarrow> (if c = quote_char then cs else s) | [] \<Rightarrow> s);
          name = takeWhile name_char t
      in if name = [] then None else Some name)"

text \<open>One position of the search for \<open>CREATE\s+(?:UNIQUE\s+)?INDEX\s+(?:ASYNC\s+)?"?([^"\s(]+)"?\<close>.\<close>

definition match_index_at :: "string \<Rightarrow> string option" where
  "match_index_at s =
     (case after_word ''CREATE'' s of
        None \<Rightarrow> None
      | Some s1 \<Rightarrow>
          (case after_word ''INDEX'' (case after_word ''UNIQUE'' s1 of Some s2 \<Rightarrow> s2 | None \<Rightarrow> s1) of
             None \<Rightarrow> None
           | Some s3 \<Rightarrow>
               (case (case after_word ''ASYNC'' s3 of Some s4 \<Rightarrow> index_name_here s4 | None \<Rightarrow> None) of
                  Some name \<Rightarrow> Some name
                | None \<Rightarrow> index_name_here s3)))"

fun search_index_name :: "string \<Rightarrow> string option" where
  "search_index_name [] = None"
| "search_index_name (c # cs) =
     (case match_index_at (c # cs) of Some name \<Rightarrow> Some name | None \<Rightarrow> search_index_name cs)"

definition index_name_of :: "string \<Rightarrow> string" where
  "index_name_of ddl = (case search_index_name ddl of Some name \<Rightarrow> name | None \<Rightarrow> take 60 ddl)"

text \<open>\<open>\w\<close> on Latin-1, and the \<open>UNIQUE\<close> tag.\<close>

definition word_char :: "char \<Rightarrow> bool" where
  "word_char c =
     (is_digit c \<or> c = CHR ''_'' \<or> (65 \<le> code c \<and> code c \<le> 90) \<or> (97 \<le> code c \<and> code c \<le> 122)
      \<or> code c \<in> {170, 178, 179, 181, 185, 186, 188, 189, 190}
      \<or> (192 \<le> code c \<and> code c \<noteq> 215 \<and> code c \<noteq> 247))"

definition is_unique_ddl :: "string \<Rightarrow> bool" where
  "is_unique_ddl ddl =
     (case after_word ''CREATE'' (dropWhile py_space ddl) of
        None \<Rightarrow> False
      | Some s \<Rightarrow> ci_prefix ''UNIQUE'' s
          \<and> (case drop 6 s of [] \<Rightarrow> True | c # _ \<Rightarrow> \<not> word_char c))"

definition UNCONFIRMED_INDEX_NOTE :: string where
  "UNCONFIRMED_INDEX_NOTE =
     '' (Aurora DSQL answered server unavailable (SQLSTATE XX000) to an attempt to create it, so it may have been created anyway: check whether it exists on this table before you add it)''"

definition UNCONFIRMED_INDEX_DROP_NOTE :: string where
  "UNCONFIRMED_INDEX_DROP_NOTE =
     '' (the connection dropped while an attempt to create it was running, so it may have been created anyway: check whether it exists on this table before you add it)''"

definition is_unconfirmed_index_failure :: "string \<Rightarrow> bool" where
  "is_unconfirmed_index_failure text =
     (sublist UNCONFIRMED_INDEX_NOTE text \<or> sublist UNCONFIRMED_INDEX_DROP_NOTE text)"

section \<open>State and driver\<close>

text \<open>\<open>note\<close> and \<open>sent\<close> are the one-element lists the retried closure writes into.\<close>

record ('c, 't) index_state = "('c, 't) pool_state" +
  note_text :: string
  sent :: bool

text \<open>
  \<open>open_cursor\<close> and \<open>run_ddl_stmt\<close> are \<open>connection.cursor()\<close> and \<open>cursor.execute(ddl)\<close>;
  \<open>has_rows\<close> is \<open>cursor.description is not None\<close> and \<open>fetch_row\<close> is \<open>cursor.fetchone()\<close>, a
  row being the text of its cells.
\<close>

record ('c, 't) index_ops = "('c, 't) pool_ops" +
  open_cursor :: "'c \<Rightarrow> ('t, unit) action"
  run_ddl_stmt :: "'c \<Rightarrow> string \<Rightarrow> ('t, unit) action"
  has_rows :: "'c \<Rightarrow> 't \<Rightarrow> bool"
  fetch_row :: "'c \<Rightarrow> ('t, string option list option) action"
  ix_occ :: "'t occ_config"

abbreviation ix_pool :: "('c, 't) index_ops \<Rightarrow> ('c, 't) pool_ops" where
  "ix_pool ops \<equiv> pool_ops.truncate ops"

definition on_ix_target :: "('t, 'a) action \<Rightarrow> (('c, 't) index_state, 'a) action" where
  "on_ix_target act s = (let (r, t) = act (target s) in (r, s\<lparr>target := t\<rparr>))"

definition answered_job_id :: "('c, 't) index_ops \<Rightarrow> 'c \<Rightarrow> (('c, 't) index_state, string option) action" where
  "answered_job_id ops c s =
     (if \<not> has_rows ops c (target s) then (Inr None, s)
      else (case on_ix_target (fetch_row ops c) s of
              (Inl e, s1) \<Rightarrow> (if is_exception e then (Inr None, s1) else (Inl e, s1))
            | (Inr (Some (cell # _)), s1) \<Rightarrow> (Inr cell, s1)
            | (Inr _, s1) \<Rightarrow> (Inr None, s1)))"

definition unconfirmed_note :: "pyexc \<Rightarrow> string" where
  "unconfirmed_note e =
     (if is_server_unavailable e then UNCONFIRMED_INDEX_NOTE
      else if is_dropped_connection e then UNCONFIRMED_INDEX_DROP_NOTE
      else '''')"

text \<open>\<open>_run_ddl\<close>: one attempt on its own lease.\<close>

definition ddl_failed :: "pyexc \<Rightarrow> ('c, 't) index_state \<Rightarrow> ('c, 't) index_state" where
  "ddl_failed e s =
     (let s1 = (if is_retryable_load_error e then record_event (IndexRetried (sqlstate e)) s else s)
      in if note_text s1 = [] then s1\<lparr>note_text := unconfirmed_note e\<rparr> else s1)"

definition run_ddl_on :: "('c, 't) index_ops \<Rightarrow> string \<Rightarrow> 'c \<Rightarrow> (('c, 't) index_state, string option) action" where
  "run_ddl_on ops ddl c s =
     (case on_ix_target (open_cursor ops c) s of
        (Inl e, s1) \<Rightarrow> (Inl e, s1)
      | (Inr _, s1) \<Rightarrow>
          (case on_ix_target (run_ddl_stmt ops c ddl) (s1\<lparr>sent := True\<rparr>) of
             (Inl e, s2) \<Rightarrow> (Inl e, (if is_exception e then ddl_failed e s2 else s2))
           | (Inr _, s2) \<Rightarrow> answered_job_id ops c s2))"

definition run_ddl :: "('c, 't) index_ops \<Rightarrow> bool \<Rightarrow> string \<Rightarrow> (('c, 't) index_state, string option) action" where
  "run_ddl ops counted ddl s = lease (ix_pool ops) counted (run_ddl_on ops ddl) (s\<lparr>sent := False\<rparr>)"

definition lift_ix_occ :: "'t occ_config \<Rightarrow> ('c, 't) index_state occ_config" where
  "lift_ix_occ cfg =
     \<lparr>max_attempts = max_attempts cfg, base_delay = base_delay cfg, max_delay = max_delay cfg,
      sleep = (\<lambda>d s. s\<lparr>target := sleep cfg d (target s)\<rparr>),
      jitter = (\<lambda>s. let (j, t) = jitter cfg (target s) in (j, s\<lparr>target := t\<rparr>)),
      retryable = is_retryable_load_error\<rparr>"

definition index_failure_text :: "string \<Rightarrow> pyexc \<Rightarrow> string \<Rightarrow> string" where
  "index_failure_text ddl e note =
     (if is_unique_ddl ddl then ''UNIQUE '' else '''') @ index_name_of ddl @ '': '' @ safe_error e @ note"

text \<open>
  The loop over the statements. \<open>on_job\<close> is the caller's callback (an \<open>Exception\<close> of it is
  logged and dropped); \<open>unreachable\<close> is \<open>unreachable_raises\<close>, whose raise carries the
  counts so far.
\<close>

datatype index_stop = Unreachable nat "string list" | Escaped pyexc

fun create_indexes_from :: "('c, 't) index_ops \<Rightarrow> bool \<Rightarrow> (string \<Rightarrow> string option \<Rightarrow> ('t, unit) action) option \<Rightarrow> bool \<Rightarrow>
    nat \<Rightarrow> string list \<Rightarrow> string list \<Rightarrow> ('c, 't) index_state \<Rightarrow>
    (index_stop + nat \<times> string list) \<times> ('c, 't) index_state" where
  "create_indexes_from ops counted on_job unreachable made failed [] s = (Inr (made, failed), s)"
| "create_indexes_from ops counted on_job unreachable made failed (ddl # ddls) s =
     (case with_occ_retry (lift_ix_occ (ix_occ ops)) (run_ddl ops counted ddl)
             (s\<lparr>note_text := '''', sent := False\<rparr>) of
        (Inl e, s1) \<Rightarrow>
          if \<not> is_exception e then (Inl (Escaped e), s1)
          else if unreachable \<and> (is_retryable_load_error e \<or> \<not> sent s1)
          then (Inl (Unreachable made failed), s1)
          else create_indexes_from ops counted on_job unreachable made
                 (failed @ [index_failure_text ddl e (note_text s1)]) ddls s1
      | (Inr job_id, s1) \<Rightarrow>
          (case on_job of
             None \<Rightarrow> create_indexes_from ops counted on_job unreachable (Suc made) failed ddls s1
           | Some record_job \<Rightarrow>
               (case on_ix_target (record_job ddl job_id) s1 of
                  (Inr _, s2) \<Rightarrow> create_indexes_from ops counted on_job unreachable (Suc made) failed ddls s2
                | (Inl e, s2) \<Rightarrow>
                    if is_exception e
                    then create_indexes_from ops counted on_job unreachable (Suc made) failed ddls s2
                    else (Inl (Escaped e), s2))))"

definition create_indexes_in :: "('c, 't) index_ops \<Rightarrow> bool \<Rightarrow> (string \<Rightarrow> string option \<Rightarrow> ('t, unit) action) option \<Rightarrow> bool \<Rightarrow>
    string list \<Rightarrow> ('c, 't) index_state \<Rightarrow> (index_stop + nat \<times> string list) \<times> ('c, 't) index_state" where
  "create_indexes_in ops counted on_job unreachable ddls s =
     create_indexes_from ops counted on_job unreachable 0 [] ddls s"

text \<open>\<open>index_pass\<close>: the calls of its \<open>create\<close> over one one-connection pool, closed at the end.\<close>

fun index_pass_calls :: "('c, 't) index_ops \<Rightarrow> (string list \<times> (string \<Rightarrow> string option \<Rightarrow> ('t, unit) action) option) list \<Rightarrow>
    ('c, 't) index_state \<Rightarrow> (index_stop + (nat \<times> string list) list) \<times> ('c, 't) index_state" where
  "index_pass_calls ops [] s = (Inr [], s)"
| "index_pass_calls ops ((ddls, on_job) # calls) s =
     (case (if ddls = [] then (Inr (0, []), s) else create_indexes_in ops False on_job True ddls s) of
        (Inl stop, s1) \<Rightarrow> (Inl stop, s1)
      | (Inr result, s1) \<Rightarrow>
          (case index_pass_calls ops calls s1 of
             (Inl stop, s2) \<Rightarrow> (Inl stop, s2)
           | (Inr results, s2) \<Rightarrow> (Inr (result # results), s2)))"

definition new_index_state :: "nat \<Rightarrow> 't \<Rightarrow> load_event list \<Rightarrow> ('c, 't) index_state" where
  "new_index_state n t evs =
     \<lparr>target = t, slots = new_pool n, created = [], events = evs, note_text = '''', sent = False\<rparr>"

definition index_pass :: "('c, 't) index_ops \<Rightarrow> (string list \<times> (string \<Rightarrow> string option \<Rightarrow> ('t, unit) action) option) list \<Rightarrow>
    't \<Rightarrow> load_event list \<Rightarrow> (index_stop + (nat \<times> string list) list) \<times> ('c, 't) index_state" where
  "index_pass ops calls t evs =
     (let (r, s) = index_pass_calls ops calls (new_index_state 1 t evs) in (r, close_all (ix_pool ops) s))"

text \<open>The public \<open>create_indexes\<close>: its own pool of the importer's parallelism.\<close>

definition create_indexes :: "('c, 't) index_ops \<Rightarrow> nat \<Rightarrow> (string \<Rightarrow> string option \<Rightarrow> ('t, unit) action) option \<Rightarrow>
    string list \<Rightarrow> 't \<Rightarrow> load_event list \<Rightarrow> (index_stop + nat \<times> string list) \<times> ('c, 't) index_state" where
  "create_indexes ops n on_job ddls t evs =
     (if ddls = [] then (Inr (0, []), new_index_state n t evs)
      else (let (r, s) = create_indexes_in ops True on_job False ddls (new_index_state n t evs)
            in (r, close_all (ix_pool ops) s)))"

section \<open>Every statement is accounted for\<close>

lemma create_indexes_from_count:
  "create_indexes_from ops counted on_job unreachable made failed ddls s = (Inr (made', failed'), s') \<Longrightarrow>
     made' + length failed' = made + length failed + length ddls"
proof (induction ddls arbitrary: made failed s)
  case Nil
  then show ?case by simp
next
  case (Cons ddl ddls)
  show ?case
    using Cons.prems Cons.IH
    by (auto split: prod.splits sum.splits option.splits if_splits; fastforce)
qed

text \<open>Without \<open>unreachable_raises\<close> only a \<open>BaseException\<close> ends the loop early.\<close>

lemma create_indexes_from_total:
  "create_indexes_from ops counted on_job False made failed ddls s = (Inl stop, s') \<Longrightarrow>
     \<exists>e. stop = Escaped e \<and> \<not> is_exception e"
proof (induction ddls arbitrary: made failed s)
  case Nil
  then show ?case by simp
next
  case (Cons ddl ddls)
  show ?case
    using Cons.prems Cons.IH
    by (auto split: prod.splits sum.splits option.splits if_splits)
qed

section \<open>Properties\<close>



lemma lease_more_index:
  "pool_state.more s1 = pool_state.more s2 \<longleftrightarrow> note_text s1 = note_text s2 \<and> sent s1 = sent (s2 :: ('c, 't) index_state)"
  by (cases s1; cases s2) simp

text \<open>One attempt: an error of the sent statement whose outcome is unknown leaves a note.\<close>

definition noted :: "pyexc \<Rightarrow> ('c, 't) index_state \<Rightarrow> bool" where
  "noted e s =
     (is_exception e \<and> sent s \<and> (is_server_unavailable e \<or> is_dropped_connection e)
        \<longrightarrow> note_text s \<in> {UNCONFIRMED_INDEX_NOTE, UNCONFIRMED_INDEX_DROP_NOTE})"

definition note_ok :: "('c, 't) index_state \<Rightarrow> bool" where
  "note_ok s = (note_text s \<in> {'''', UNCONFIRMED_INDEX_NOTE, UNCONFIRMED_INDEX_DROP_NOTE} \<and> slots s \<noteq> [])"

lemma on_ix_target_frame:
  "on_ix_target act s = (r, s') \<Longrightarrow> note_text s' = note_text s \<and> sent s' = sent s \<and> slots s' = slots s"
  by (auto simp: on_ix_target_def split: prod.splits)

lemma answered_job_id_frame:
  "answered_job_id ops c s = (r, s') \<Longrightarrow> note_text s' = note_text s \<and> sent s' = sent s
     \<and> (\<forall>e. r = Inl e \<longrightarrow> \<not> is_exception e)"
  by (auto simp: answered_job_id_def dest: on_ix_target_frame split: if_splits prod.splits sum.splits option.splits list.splits)

lemma ddl_failed_frame:
  "note_text (ddl_failed e s) = (if note_text s = [] then unconfirmed_note e else note_text s)"
  "sent (ddl_failed e s) = sent s"
  by (simp_all add: ddl_failed_def record_event_def Let_def)

lemma run_ddl_on_noted:
  assumes "run_ddl_on ops ddl c s = (r, s')" "\<not> sent s"
    and "note_text s \<in> {'''', UNCONFIRMED_INDEX_NOTE, UNCONFIRMED_INDEX_DROP_NOTE}"
  shows "note_text s' \<in> {'''', UNCONFIRMED_INDEX_NOTE, UNCONFIRMED_INDEX_DROP_NOTE} \<and> (\<forall>e. r = Inl e \<longrightarrow> noted e s')"
proof -
  obtain r1 s1 where o: "on_ix_target (open_cursor ops c) s = (r1, s1)" by (cases "on_ix_target (open_cursor ops c) s")
  note f1 = on_ix_target_frame [OF o]
  show ?thesis
  proof (cases r1)
    case (Inl e)
    with assms o f1 show ?thesis by (auto simp: run_ddl_on_def noted_def)
  next
    case (Inr u)
    obtain r2 s2 where x: "on_ix_target (run_ddl_stmt ops c ddl) (s1\<lparr>sent := True\<rparr>) = (r2, s2)"
      by (cases "on_ix_target (run_ddl_stmt ops c ddl) (s1\<lparr>sent := True\<rparr>)")
    note f2 = on_ix_target_frame [OF x]
    show ?thesis
    proof (cases r2)
      case (Inl e)
      with assms o x f1 f2 Inr show ?thesis
        by (cases "is_exception e") (auto simp: run_ddl_on_def noted_def ddl_failed_frame unconfirmed_note_def)
    next
      case r2: (Inr v)
      with assms(1) o x Inr have a: "answered_job_id ops c s2 = (r, s')" by (simp add: run_ddl_on_def)
      from answered_job_id_frame [OF a] f1 f2 assms(3) show ?thesis by (auto simp: noted_def)
    qed
  qed
qed

lemma run_ddl_noted:
  assumes "note_ok s" "run_ddl ops counted ddl s = (r, s')"
  shows "note_ok s' \<and> (\<forall>e. r = Inl e \<longrightarrow> noted e s')"
proof -
  have l: "lease (ix_pool ops) counted (run_ddl_on ops ddl) (s\<lparr>sent := False\<rparr>) = (r, s')"
    using assms(2) by (simp add: run_ddl_def)
  have sl: "slots (s\<lparr>sent := False\<rparr>) \<noteq> []" using assms(1) by (simp add: note_ok_def)
  from l sl show ?thesis
  proof (cases rule: lease_cases)
    case (no_connect e t)
    then have "note_text s' = note_text s" "\<not> sent s'" "slots s' \<noteq> []"
      using assms(1) by (auto simp: lease_more_index note_ok_def)
    with assms(1) no_connect(2) show ?thesis by (auto simp: note_ok_def noted_def)
  next
    case (ran c s1 q s2)
    then have "note_text s1 = note_text s" "\<not> sent s1" "note_text s' = note_text s2" "sent s' = sent s2" "slots s' \<noteq> []"
      by (auto simp: lease_more_index)
    with run_ddl_on_noted [OF ran(1)] assms(1) ran(2) show ?thesis by (auto simp: note_ok_def noted_def)
  qed
qed

text \<open>
  An index that may exist is never reported as plainly failed. When the last attempt to create
  it had been sent and the server answered "unavailable" or the connection dropped, the text
  listed for it carries the note a reader recognises.
\<close>

theorem unconfirmed_index_flagged:
  fixes ops :: "('c, 't) index_ops" and s :: "('c, 't) index_state"
  assumes "occ_config_ok (ix_occ ops)" "slots s \<noteq> []"
    and "with_occ_retry (lift_ix_occ (ix_occ ops)) (run_ddl ops counted ddl) (s\<lparr>note_text := '''', sent := False\<rparr>) = (Inl e, s')"
    and "is_exception e" "sent s'" "is_server_unavailable e \<or> is_dropped_connection e"
  shows "is_unconfirmed_index_failure (index_failure_text ddl e (note_text s'))"
proof -
  have ok: "occ_config_ok (lift_ix_occ (ix_occ ops) :: ('c, 't) index_state occ_config)"
    using assms(1) by (simp add: occ_config_ok_def lift_ix_occ_def)
  have "note_ok s' \<and> (\<forall>e'. (Inl e :: pyexc + string option) = Inl e' \<longrightarrow> noted e' s')"
  proof (rule with_occ_retry_rule [OF ok, where I = note_ok and Q = "\<lambda>r s'. \<forall>e. r = Inl e \<longrightarrow> noted e s'", OF _ _ _ assms(3)])
    show "note_ok (s\<lparr>note_text := '''', sent := False\<rparr>)" using assms(2) by (simp add: note_ok_def)
    show "note_ok t' \<and> (\<forall>e. r = Inl e \<longrightarrow> noted e t')" if "note_ok t" "run_ddl ops counted ddl t = (r, t')" for t r t'
      by (rule run_ddl_noted [OF that])
    show "note_ok (occ_wait (lift_ix_occ (ix_occ ops)) a t)" if "note_ok t" for a and t :: "('c, 't) index_state"
      using that by (auto simp: occ_wait_def lift_ix_occ_def note_ok_def Let_def split: prod.splits)
  qed
  with assms(4-6) have "note_text s' \<in> {UNCONFIRMED_INDEX_NOTE, UNCONFIRMED_INDEX_DROP_NOTE}" by (simp add: noted_def)
  moreover obtain before where "index_failure_text ddl e (note_text s') = before @ note_text s'"
    by (metis index_failure_text_def append_assoc)
  moreover have "sublist n (xs @ n)" for n xs :: string
    by (meson suffix_appendI suffix_imp_sublist suffix_order.order_refl)
  ultimately show ?thesis by (auto simp: is_unconfirmed_index_failure_def)
qed

theorem unconfirmed_index_flagged_witness:
  "is_unconfirmed_index_failure (index_failure_text ''CREATE INDEX ASYNC i ON t (a)''
      (raise_named ''OperationalError'' ''server closed'') UNCONFIRMED_INDEX_DROP_NOTE)"
proof -
  let ?e = "raise_named ''OperationalError'' ''server closed''"
  let ?ddl = "''CREATE INDEX ASYNC i ON t (a)''"
  let ?ops = "\<lparr>connect = (\<lambda>t. (Inr (), t)), conn_closed = (\<lambda>_ _. False), conn_broken = (\<lambda>_ _. False),
      conn_idle = (\<lambda>_ _. True), close_conn = (\<lambda>c t. t), open_cursor = (\<lambda>_ t. (Inr (), t)),
      run_ddl_stmt = (\<lambda>_ ddl t. (Inl ?e, t)), has_rows = (\<lambda>_ _. False), fetch_row = (\<lambda>_ t. (Inr None, t)),
      ix_occ = \<lparr>max_attempts = 1, base_delay = 0, max_delay = 0, sleep = (\<lambda>_ t. t), jitter = (\<lambda>t. (0, t)), retryable = (\<lambda>_. True)\<rparr>\<rparr> :: (unit, unit) index_ops"
  let ?s = "new_index_state 1 () [] :: (unit, unit) index_state"
  obtain s' where run: "with_occ_retry (lift_ix_occ (ix_occ ?ops)) (run_ddl ?ops False ?ddl) (?s\<lparr>note_text := '''', sent := False\<rparr>) = (Inl ?e, s')"
    and s': "sent s'" "note_text s' = UNCONFIRMED_INDEX_DROP_NOTE"
    by (simp add: with_occ_retry_def lift_ix_occ_def run_ddl_def run_ddl_on_def lease_def new_index_state_def
        new_pool_def open_slot_def on_ix_target_def pool_ops.defs record_event_if_def record_event_def
        release_failed_def session_survives_def ddl_failed_def unconfirmed_note_def error_class_defs Let_def)
  have "is_unconfirmed_index_failure (index_failure_text ?ddl ?e (note_text s'))"
    by (rule unconfirmed_index_flagged [OF _ _ run]) (simp_all add: occ_config_ok_def new_index_state_def new_pool_def
        error_class_defs s')
  then show ?thesis by (simp add: s')
qed

end
