(* ===== verification/Works.thy ===== *)
theory Works
  imports Batching
begin

text \<open>
  Facts on the work items of \<^verbatim>\<open>core/batched_import.py\<close>: what \<open>_iter_work\<close> and \<open>_iter_work_pages\<close>
  yield at a resume high-water against what they yield at none, for one stream, for one cut
  short by an error, and for one reader's pages of several key ranges.
\<close>

section \<open>The work of a source\<close>

text \<open>
  The batches a source is cut into do not depend on the high-water: a resumed load drops those
  at or below it and keeps the others under the same index. \<open>whole\<close> is the work at no
  high-water.
\<close>

definition beyond :: "(string, int) pydict \<Rightarrow> batch_work \<Rightarrow> bool" where
  "beyond W w = (high_water_of W (w_shard w) < int (w_index w))"

lemma high_water_Nil [simp]: "high_water_of [] sh = -1"
  by (simp add: high_water_of_def)

lemma beyond_Nil [simp]: "beyond [] w"
  by (simp add: beyond_def)

lemma number_batches_beyond:
  "fst (number_batches spec sh (high_water_of W sh) k bs) = filter (beyond W) (fst (number_batches spec sh (-1) k bs))"
  by (simp add: number_batches_works filter_map o_def case_prod_beta beyond_def cong: filter_cong)

lemma number_batches_all: "fst (number_batches spec sh (-1) k bs) = map (\<lambda>(i, b). make_work spec sh i b) (enumerate k bs)"
proof -
  have "filter (\<lambda>p. - 1 < int (fst p)) (enumerate k bs) = enumerate k bs" by (simp add: filter_id_conv)
  then show ?thesis by (simp add: number_batches_works)
qed

lemma iter_work_beyond:
  "fst (iter_work spec W sh rows)
     = (filter (beyond W) (fst (fst (iter_work spec [] sh rows))), snd (fst (iter_work spec [] sh rows)))"
  by (simp add: iter_work_def Let_def number_batches_beyond [of spec sh W] split: prod.splits)
    (metis fst_conv number_batches_beyond)

lemma iter_work_all:
  "fst (iter_work spec [] sh rows)
     = (map (\<lambda>(i, b). make_work spec sh i b) (enumerate 0 (fst (iter_batches rows (spec_size spec) (Some MAX_BATCH_BYTES)))), snd rows)"
  using number_batches_all [of spec sh 0 "fst (iter_batches rows (spec_size spec) (Some MAX_BATCH_BYTES))"]
  by (auto simp: iter_work_def Let_def iter_batches_def split: prod.splits)

lemma map_rows_enumerate [simp]:
  "map w_rows (map (\<lambda>(i, b). make_work spec sh i b) (enumerate k bs)) = bs"
  by (induction bs arbitrary: k) auto

lemma iter_work_rows:
  "concat (map w_rows (fst (fst (iter_work spec [] sh (rows, None))))) = rows"
  by (simp add: iter_work_all concat_iter_batches del: map_map)

text \<open>A source cut short yields the same batches, fewer of them.\<close>

lemma prefix_batches_cut:
  "prefix (batches_from bsize cap False batch bytes xs) (batches_from bsize cap True batch bytes (xs @ ys))"
proof (induction xs arbitrary: batch bytes)
  case Nil
  then show ?case by simp
next
  case (Cons x xs)
  then show ?case by (auto simp: Let_def split: option.splits)
qed

lemma iter_work_cut:
  "set (fst (fst (iter_work spec [] sh (xs, Some e)))) \<subseteq> set (fst (fst (iter_work spec [] sh (xs @ ys, None))))"
proof -
  let ?n = "spec_size spec" and ?cap = "Some MAX_BATCH_BYTES"
  from prefix_batches_cut [of ?n ?cap "[]" 0 xs ys] obtain zs where
    "batches_from ?n ?cap True [] 0 (xs @ ys) = batches_from ?n ?cap False [] 0 xs @ zs"
    unfolding prefix_def by blast
  then show ?thesis by (simp add: iter_work_all iter_batches_def enumerate_append_eq)
qed

lemma iter_work_inj: "inj_on (\<lambda>w. (w_shard w, w_index w)) (set (fst (fst (iter_work spec [] sh rows))))"
proof (rule inj_onI)
  fix v w
  assume "v \<in> set (fst (fst (iter_work spec [] sh rows)))" "w \<in> set (fst (fst (iter_work spec [] sh rows)))"
    "(w_shard v, w_index v) = (w_shard w, w_index w)"
  then show "v = w" by (auto simp: iter_work_all in_set_enumerate_eq)
qed

lemma iter_work_shard: "w \<in> set (fst (fst (iter_work spec [] sh rows))) \<Longrightarrow> w_shard w = sh"
  by (auto simp: iter_work_all)

lemma iter_work_made: "w \<in> set (fst (fst (iter_work spec [] sh rows))) \<Longrightarrow> \<exists>i b. w = make_work spec sh i b"
  by (auto simp: iter_work_all)

section \<open>The work of one reader's pages\<close>

lemma work_pages_beyond:
  "fst (work_pages spec W ni pages err)
     = (filter (beyond W) (fst (fst (work_pages spec [] ni pages err))), snd (fst (work_pages spec [] ni pages err)))"
proof (induction spec W ni pages err rule: work_pages.induct)
  case (1 spec W ni err)
  then show ?case by simp
next
  case (2 spec W ni shard page pages err)
  define k where "k = (case map_of ni shard of Some i \<Rightarrow> i | None \<Rightarrow> 0)"
  obtain bs perr where b: "iter_batches page (spec_size spec) (Some MAX_BATCH_BYTES) = (bs, perr)" by force
  obtain ws sk where n: "number_batches spec (Some shard) (high_water_of W (Some shard)) k bs = (ws, sk)" by force
  obtain ws0 sk0 where n0: "number_batches spec (Some shard) (-1) k bs = (ws0, sk0)" by force
  have ws: "ws = filter (beyond W) ws0" using number_batches_beyond [of spec "Some shard" W k bs] n n0 by simp
  show ?case
  proof (cases perr)
    case (Some e)
    with b n n0 ws show ?thesis by (simp add: k_def [symmetric])
  next
    case None
    obtain m me ms where m: "work_pages spec W (dict_set shard (k + length bs) ni) pages err = ((m, me), ms)"
      by (metis surj_pair)
    obtain m0 me0 ms0 where m0: "work_pages spec [] (dict_set shard (k + length bs) ni) pages err = ((m0, me0), ms0)"
      by (metis surj_pair)
    from 2 [OF k_def b [symmetric] refl n [symmetric] refl None] m m0
    have "m = filter (beyond W) m0" "me = me0" by simp_all
    with b n n0 m m0 ws None show ?thesis by (simp add: k_def [symmetric])
  qed
qed

lemma work_pages_Cons_all:
  assumes "k = (case map_of ni shard of Some i \<Rightarrow> i | None \<Rightarrow> 0)"
    and "bs = fst (iter_batches page (spec_size spec) (Some MAX_BATCH_BYTES))"
  shows "fst (fst (work_pages spec [] ni ((shard, page) # pages) err))
     = map (\<lambda>(i, b). make_work spec (Some shard) i b) (enumerate k bs)
       @ (if snd page = None then fst (fst (work_pages spec [] (dict_set shard (k + length bs) ni) pages err)) else [])"
  using number_batches_all [of spec "Some shard" k bs] assms
  by (auto simp: Let_def iter_batches_def split: prod.splits option.splits)

lemma work_pages_index:
  "w \<in> set (fst (fst (work_pages spec [] ni pages err))) \<Longrightarrow>
     \<exists>shard i b. w = make_work spec (Some shard) i b \<and> (case map_of ni shard of Some k \<Rightarrow> k | None \<Rightarrow> 0) \<le> i"
proof (induction pages arbitrary: ni)
  case Nil
  then show ?case by simp
next
  case (Cons p pages)
  obtain shard page where p: "p = (shard, page)" by (cases p)
  define k where "k = (case map_of ni shard of Some i \<Rightarrow> i | None \<Rightarrow> 0)"
  define bs where "bs = fst (iter_batches page (spec_size spec) (Some MAX_BATCH_BYTES))"
  note eq = work_pages_Cons_all [OF k_def bs_def, of pages err]
  from Cons.prems consider
    (here) i b where "(i, b) \<in> set (enumerate k bs)" "w = make_work spec (Some shard) i b"
  | (later) "w \<in> set (fst (fst (work_pages spec [] (dict_set shard (k + length bs) ni) pages err)))"
    unfolding p eq by (auto split: if_splits)
  then show ?case
  proof cases
    case here
    then have "k \<le> i" by (simp add: in_set_enumerate_eq)
    with here(2) show ?thesis unfolding k_def by blast
  next
    case later
    from Cons.IH [OF later] obtain s i b where w: "w = make_work spec (Some s) i b"
      and le: "(case map_of (dict_set shard (k + length bs) ni) s of Some j \<Rightarrow> j | None \<Rightarrow> 0) \<le> i" by blast
    have "(case map_of ni s of Some j \<Rightarrow> j | None \<Rightarrow> 0) \<le> i"
      using le by (cases "s = shard") (auto simp: k_def split: option.splits)
    with w show ?thesis by blast
  qed
qed

lemma work_pages_inj: "inj_on (\<lambda>w. (w_shard w, w_index w)) (set (fst (fst (work_pages spec [] ni pages err))))"
proof (induction pages arbitrary: ni)
  case Nil
  then show ?case by simp
next
  case (Cons p pages)
  obtain shard page where p: "p = (shard, page)" by (cases p)
  define k where "k = (case map_of ni shard of Some i \<Rightarrow> i | None \<Rightarrow> 0)"
  define bs where "bs = fst (iter_batches page (spec_size spec) (Some MAX_BATCH_BYTES))"
  let ?ni = "dict_set shard (k + length bs) ni"
  note eq = work_pages_Cons_all [OF k_def bs_def, of pages err]
  have later: "w_shard w = Some shard \<Longrightarrow> k + length bs \<le> w_index w"
    if w: "w \<in> set (fst (fst (work_pages spec [] ?ni pages err)))" for w
    using work_pages_index [OF w] by auto
  have here: "inj_on (\<lambda>w. (w_shard w, w_index w)) (set (map (\<lambda>(i, b). make_work spec (Some shard) i b) (enumerate k bs)))"
    by (auto simp: inj_on_def in_set_enumerate_eq)
  show ?case
    unfolding p eq
  proof (cases "snd page = None")
    case True
    have "inj_on (\<lambda>w. (w_shard w, w_index w))
        (set (map (\<lambda>(i, b). make_work spec (Some shard) i b) (enumerate k bs)) \<union> set (fst (fst (work_pages spec [] ?ni pages err))))"
      using here Cons.IH [of ?ni] later by (fastforce simp: inj_on_Un in_set_enumerate_eq)
    with True show "inj_on (\<lambda>w. (w_shard w, w_index w)) (set (map (\<lambda>(i, b). make_work spec (Some shard) i b) (enumerate k bs)
        @ (if snd page = None then fst (fst (work_pages spec [] ?ni pages err)) else [])))"
      by simp
  next
    case False
    then obtain e where "snd page = Some e" by blast
    with here show "inj_on (\<lambda>w. (w_shard w, w_index w)) (set (map (\<lambda>(i, b). make_work spec (Some shard) i b) (enumerate k bs)
        @ (if snd page = None then fst (fst (work_pages spec [] ?ni pages err)) else [])))" by simp
  qed
qed

lemma work_pages_rows:
  "\<forall>(shard, page) \<in> set pages. snd page = None \<Longrightarrow>
   concat (map w_rows (fst (fst (work_pages spec [] ni pages err)))) = concat (map (fst \<circ> snd) pages)"
proof (induction pages arbitrary: ni)
  case Nil
  then show ?case by simp
next
  case (Cons p pages)
  obtain shard rows where p: "p = (shard, (rows, None))" using Cons.prems by (cases p; cases "snd p") auto
  define k where "k = (case map_of ni shard of Some i \<Rightarrow> i | None \<Rightarrow> 0)"
  define bs where "bs = fst (iter_batches (rows, None) (spec_size spec) (Some MAX_BATCH_BYTES))"
  from Cons.IH Cons.prems show ?case
    unfolding p work_pages_Cons_all [OF k_def bs_def]
    by (simp add: bs_def concat_iter_batches del: map_map)
qed

section \<open>Properties\<close>

text \<open>
  C23: every statement the load sends stays within its limits: a batch is never empty, never has
  more rows than asked for, never binds more than 65535 parameters, and passes the byte budget
  only when it is a single row.
\<close>

theorem load_statements_bounded:
  assumes "1 \<le> ws_batch_size spec" "int (length (ws_columns spec)) \<le> MAX_STATEMENT_PARAMETERS"
    and "w \<in> set (fst (fst (iter_work spec W sh rows)))"
  shows "w_rows w \<noteq> [] \<and> int (length (w_rows w)) \<le> ws_batch_size spec
    \<and> int (length (w_rows w)) * int (length (w_columns w)) \<le> MAX_STATEMENT_PARAMETERS
    \<and> (batch_bytes (w_rows w) \<le> MAX_BATCH_BYTES \<or> length (w_rows w) = 1)"
proof -
  let ?n = "effective_batch_size (ws_batch_size spec) (int (length (ws_columns spec)))"
  from assms(3) have "w \<in> set (fst (fst (iter_work spec [] sh rows)))" by (subst (asm) iter_work_beyond) simp
  then have c: "w_columns w = ws_columns spec"
    and b: "w_rows w \<in> set (fst (iter_batches rows (spec_size spec) (Some MAX_BATCH_BYTES)))"
    by (auto simp: iter_work_all in_set_enumerate_eq)
  from iter_batches_within [OF spec_size_pos [OF assms(1)] b]
  have l: "w_rows w \<noteq> []" "length (w_rows w) \<le> spec_size spec"
    "batch_bytes (w_rows w) \<le> MAX_BATCH_BYTES \<or> length (w_rows w) = 1"
    by (auto simp: batch_within_def)
  have n: "1 \<le> ?n" "?n \<le> ws_batch_size spec" "?n * int (length (ws_columns spec)) \<le> MAX_STATEMENT_PARAMETERS"
  proof -
    show "1 \<le> ?n" "?n \<le> ws_batch_size spec" using assms(1) by (auto simp: effective_batch_size_def)
    show "?n * int (length (ws_columns spec)) \<le> MAX_STATEMENT_PARAMETERS"
    proof (cases "length (ws_columns spec) = 0")
      case True
      then show ?thesis by (simp add: MAX_STATEMENT_PARAMETERS_def)
    next
      case False
      let ?c = "int (length (ws_columns spec))"
      have pos: "0 < ?c" using False by simp
      have "1 \<le> MAX_STATEMENT_PARAMETERS div ?c" using assms(2) pos by (simp add: pos_imp_zdiv_pos_iff [symmetric] int_one_le_iff_zero_less)
      then have "?n \<le> MAX_STATEMENT_PARAMETERS div ?c" using pos by (simp add: effective_batch_size_def)
      then have "?n * ?c \<le> MAX_STATEMENT_PARAMETERS div ?c * ?c" using pos by (simp add: mult_right_mono)
      also have "\<dots> \<le> MAX_STATEMENT_PARAMETERS"
        using pos_mod_sign [OF pos, of MAX_STATEMENT_PARAMETERS] by (simp add: minus_mod_eq_div_mult [symmetric])
      finally show ?thesis .
    qed
  qed
  have len: "int (length (w_rows w)) \<le> ?n" using l(2) n(1) by (simp add: spec_size_def)
  then have "int (length (w_rows w)) * int (length (ws_columns spec)) \<le> ?n * int (length (ws_columns spec))"
    by (intro mult_right_mono) simp_all
  with n len l c show ?thesis by auto
qed

theorem load_statements_bounded_witness:
  "length (w_rows (make_work \<lparr>ws_table = ''t'', ws_columns = [''a''], ws_keys = [], ws_mode = NONE, ws_batch_size = 2\<rparr>
      None 0 [[(''a'', PNone)], [(''a'', PNone)]])) \<le> 2"
proof -
  let ?spec = "\<lparr>ws_table = ''t'', ws_columns = [''a''], ws_keys = [], ws_mode = NONE, ws_batch_size = 2\<rparr>"
  let ?rows = "([[(''a'', PNone)], [(''a'', PNone)], [(''a'', PNone)]], None) :: pyrow stream"
  have "make_work ?spec None 0 [[(''a'', PNone)], [(''a'', PNone)]] \<in> set (fst (fst (iter_work ?spec [] None ?rows)))"
    by (simp add: iter_work_all iter_batches_def spec_size_def effective_batch_size_def MAX_STATEMENT_PARAMETERS_def
        MAX_BATCH_BYTES_def estimate_row_bytes_def value_bytes_def Let_def)
  from load_statements_bounded [OF _ _ this] show ?thesis by (simp add: MAX_STATEMENT_PARAMETERS_def)
qed

text \<open>
  Cutting loses, repeats and reorders nothing: the rows of the batches of a source that ended
  are its rows in order, and those of a source that raised are a prefix of what it read.
\<close>

theorem load_batches_exact:
  "concat (map w_rows (fst (fst (iter_work spec [] sh (rows, None))))) = rows
   \<and> prefix (concat (map w_rows (fst (fst (iter_work spec [] sh (rows, Some e)))))) rows"
proof
  show "concat (map w_rows (fst (fst (iter_work spec [] sh (rows, None))))) = rows" by (rule iter_work_rows)
  have "map w_rows (fst (fst (iter_work spec [] sh (rows, Some e))))
      = fst (iter_batches (rows, Some e) (spec_size spec) (Some MAX_BATCH_BYTES))"
    by (simp add: iter_work_all del: map_map)
  then show "prefix (concat (map w_rows (fst (fst (iter_work spec [] sh (rows, Some e)))))) rows"
    by (simp add: prefix_iter_batches)
qed

text \<open>
  C22: a resumed reader sends exactly the batches of an uninterrupted one past its high-water,
  under the same chunk ids, and counts the others as skipped.
\<close>

theorem resumed_work_exact:
  "fst (fst (iter_work spec W sh rows)) = filter (beyond W) (fst (fst (iter_work spec [] sh rows)))
   \<and> snd (iter_work spec W sh rows) + length (fst (fst (iter_work spec W sh rows)))
       = length (fst (fst (iter_work spec [] sh rows)))"
proof
  show "fst (fst (iter_work spec W sh rows)) = filter (beyond W) (fst (fst (iter_work spec [] sh rows)))"
    by (subst iter_work_beyond) simp
  let ?bs = "fst (iter_batches rows (spec_size spec) (Some MAX_BATCH_BYTES))"
  have "snd (iter_work spec W sh rows) + length (fst (fst (iter_work spec W sh rows))) = length ?bs"
    using number_batches_skipped [of spec sh "high_water_of W sh" 0 ?bs]
    by (auto simp: iter_work_def Let_def split: prod.splits)
  then show "snd (iter_work spec W sh rows) + length (fst (fst (iter_work spec W sh rows)))
       = length (fst (fst (iter_work spec [] sh rows)))"
    by (simp add: iter_work_all)
qed

text \<open>A chunk id names one batch: the shard and the index can be read back from it.\<close>

theorem chunk_id_identifies:
  "batch_chunk_id table i a = batch_chunk_id table j b \<longleftrightarrow> i = j \<and> a = b"
  by (rule batch_chunk_id_inject)

end
