(* ===== verification/LoadRun.thy ===== *)
theory LoadRun
  imports Loader IndexPass Works
begin

text \<open>
  \<^verbatim>\<open>core/batched_import.py\<close>, \<open>import_rows\<close>: one load of a table. The row source is cut and
  numbered (\<open>Batching\<close>), the batches run through the pipeline (\<open>Pipeline\<close>) on the importer's
  loader (\<open>Loader\<close>), the indexes follow a clean load (\<open>IndexPass\<close>), and the resume high-water is
  handed back whatever happened. The locale \<open>importer\<close> joins the two contracts: over a target
  that keeps its promises the importer is a \<open>batch_loader\<close>.
\<close>

section \<open>One load\<close>

record import_options =
  opt_batch_size :: int
  opt_key_columns :: "string list"
  opt_on_conflict :: on_conflict_mode
  opt_parallelism :: nat

record table_def =
  td_name :: string
  td_columns :: "string list"
  td_primary_key :: "string list"

text \<open>
  What a call is given besides its rows: the driver, the caller's progress callback, and the
  scheduler's choices. \<open>ie_merge\<close> is the order in which \<open>_prefetch_many\<close> hands over the work of
  several shard readers.
\<close>

record ('c, 't) import_env =
  ie_load :: "('c, 't) load_ops"
  ie_cursor :: "'c \<Rightarrow> ('t, unit) action"
  ie_ddl :: "'c \<Rightarrow> string \<Rightarrow> ('t, unit) action"
  ie_has_rows :: "'c \<Rightarrow> 't \<Rightarrow> bool"
  ie_fetch :: "'c \<Rightarrow> ('t, string option list option) action"
  ie_progress :: "(int \<Rightarrow> int \<Rightarrow> ('t, unit) action) option"
  ie_wait :: "nat \<Rightarrow> batch_work list \<Rightarrow> batch_work list"
  ie_cancel :: "nat \<Rightarrow> bool"
  ie_merge :: "batch_work stream list \<Rightarrow> batch_work stream"

definition index_part :: "('c, 't) import_env \<Rightarrow> ('c, 't) index_ops" where
  "index_part env =
     \<lparr>connect = connect (ie_load env), conn_closed = conn_closed (ie_load env),
      conn_broken = conn_broken (ie_load env), conn_idle = conn_idle (ie_load env),
      close_conn = close_conn (ie_load env), open_cursor = ie_cursor env,
      run_ddl_stmt = ie_ddl env, has_rows = ie_has_rows env, fetch_row = ie_fetch env,
      ix_occ = occ (ie_load env)\<rparr>"

definition run_env :: "('c, 't) import_env \<Rightarrow> nat \<Rightarrow> ('c, 't) loader pipeline_env" where
  "run_env env n =
     \<lparr>load = load_batch_timed (ie_load env),
      progress = map_option (\<lambda>report a b. on_target (report a b)) (ie_progress env),
      parallelism = n, wait_done = ie_wait env, cancelled = ie_cancel env\<rparr>"

datatype row_source = Single "pyrow stream" | Shards "pyrow stream list"
  | RangePages "(nat \<times> pyrow stream) stream"

record import_result =
  ir_rows_loaded :: int
  ir_conflicts :: int
  ir_batches_completed :: nat
  ir_batches_skipped :: nat
  ir_failures :: nat
  ir_first_error :: "string option"
  ir_cancelled :: bool
  ir_indexes_created :: nat
  ir_index_failures :: "string list"
  ir_quarantined :: nat
  ir_quarantine_records :: "quarantine_record list"

definition aggregate_result :: "run_aggregate \<Rightarrow> nat \<Rightarrow> nat \<Rightarrow> bool \<Rightarrow> import_result" where
  "aggregate_result a skipped indexes stopped =
     \<lparr>ir_rows_loaded = rows_loaded a, ir_conflicts = conflicts a,
      ir_batches_completed = batches_completed a, ir_batches_skipped = skipped,
      ir_failures = failures a, ir_first_error = first_error a, ir_cancelled = stopped,
      ir_indexes_created = indexes, ir_index_failures = [], ir_quarantined = 0,
      ir_quarantine_records = []\<rparr>"

text \<open>The key columns: the caller's, else the options', else the source's primary key.\<close>

definition import_keys :: "import_options \<Rightarrow> table_def \<Rightarrow> string list option \<Rightarrow> string list" where
  "import_keys opts table key_columns =
     (case key_columns of
        Some (k # ks) \<Rightarrow> k # ks
      | _ \<Rightarrow> if opt_key_columns opts \<noteq> [] then opt_key_columns opts else td_primary_key table)"

definition import_spec :: "import_options \<Rightarrow> table_def \<Rightarrow> string list option \<Rightarrow> on_conflict_mode option \<Rightarrow> work_spec" where
  "import_spec opts table key_columns mode =
     \<lparr>ws_table = td_name table, ws_columns = td_columns table,
      ws_keys = import_keys opts table key_columns,
      ws_mode = (case mode of Some m \<Rightarrow> m | None \<Rightarrow> opt_on_conflict opts),
      ws_batch_size = opt_batch_size opts\<rparr>"

text \<open>The prefetched work of the call, and how many batches it drops as already committed.\<close>

definition import_works :: "('c, 't) import_env \<Rightarrow> work_spec \<Rightarrow> (string, int) pydict \<Rightarrow> row_source \<Rightarrow> batch_work stream \<times> nat" where
  "import_works env spec watermark source =
     (case source of
        Single rows \<Rightarrow> iter_work spec watermark None rows
      | RangePages pages \<Rightarrow> iter_work_pages spec watermark pages
      | Shards shards \<Rightarrow>
          (let iters = map (\<lambda>(i, rows). iter_work spec watermark (Some i) rows) (enumerate 0 shards)
           in ((case map fst iters of [works] \<Rightarrow> works | streams \<Rightarrow> ie_merge env streams),
               sum_list (map snd iters))))"

text \<open>A resumed call keeps what the previous attempt quarantined; the pool is always new.\<close>

definition begin_import :: "nat \<Rightarrow> bool \<Rightarrow> ('c, 't) loader \<Rightarrow> ('c, 't) loader" where
  "begin_import n resuming s =
     (let s1 = s\<lparr>slots := new_pool n, created := []\<rparr>
      in if resuming then s1\<lparr>quarantine_total := length (quarantine s)\<rparr>
         else s1\<lparr>quarantine := [], quarantine_total := 0, quarantine_seen := []\<rparr>)"

definition run_indexes :: "('c, 't) import_env \<Rightarrow> string list \<Rightarrow> ('c, 't) loader \<Rightarrow>
    (pyexc + nat \<times> string list) \<times> ('c, 't) loader" where
  "run_indexes env ddls s =
     (let (r, ix) = create_indexes_in (index_part env) True None False ddls
            \<lparr>target = target s, slots = slots s, created = created s, events = events s,
             note_text = '''', sent = False\<rparr>;
          s1 = s\<lparr>target := target ix, slots := slots ix, created := created ix, events := events ix\<rparr>
      in case r of
           Inr result \<Rightarrow> (Inr result, s1)
         | Inl (Escaped e) \<Rightarrow> (Inl e, s1)
         | Inl (Unreachable n fs) \<Rightarrow> (Inl (raise_named ''IndexTargetUnreachable'' ''''), s1))"

text \<open>
  The call: the answer or the exception, the importer afterwards, and the high-water written
  back onto the job.
\<close>

definition import_rows :: "('c, 't) import_env \<Rightarrow> import_options \<Rightarrow> table_def \<Rightarrow> string list option \<Rightarrow>
    on_conflict_mode option \<Rightarrow> string list \<Rightarrow> (string, int) pydict option \<Rightarrow> row_source \<Rightarrow> ('c, 't) loader \<Rightarrow>
    (pyexc + import_result) \<times> ('c, 't) loader \<times> (string, int) pydict option" where
  "import_rows env opts table key_columns mode ddls job source s =
     (let spec = import_spec opts table key_columns mode
      in if ws_columns spec = []
         then (Inl (batched_import_error (''table '' @ td_name table @ '' has no columns to import'')), s, job)
         else if ws_mode spec = DO_UPDATE \<and> ws_keys spec = []
         then (Inl (batched_import_error ''on_conflict=DO_UPDATE requires key_columns or a table primary key''), s, job)
         else
           (let watermark = (case job of Some w \<Rightarrow> w | None \<Rightarrow> []);
                (works, skipped) = import_works env spec watermark source;
                s0 = begin_import (opt_parallelism opts) (watermark \<noteq> []) s;
                (r, p) = run_data_batches (run_env env (opt_parallelism opts)) works
                           (start_pipeline s0 (new_tracker watermark));
                (r2, s2) =
                  (case r of
                     Inl e \<Rightarrow> (Inl e, world p)
                   | Inr stopped \<Rightarrow>
                       if failures (agg p) = 0 \<and> \<not> stopped \<and> ddls \<noteq> []
                       then (case run_indexes env ddls (world p) of
                               (Inl e, q) \<Rightarrow> (Inl e, q)
                             | (Inr (made, failed), q) \<Rightarrow>
                                 (Inr ((aggregate_result (agg p) skipped made stopped)\<lparr>ir_index_failures := failed\<rparr>), q))
                       else (Inr (aggregate_result (agg p) skipped 0 stopped), world p));
                s3 = close_all (pool_part (ie_load env)) s2
            in ((case r2 of
                   Inl e \<Rightarrow> Inl e
                 | Inr res \<Rightarrow> Inr (res\<lparr>ir_quarantined := quarantine_total s3,
                                       ir_quarantine_records := quarantine s3\<rparr>)),
                s3, map_option (\<lambda>_. tracker_watermark (tracker p)) job)))"

section \<open>The importer over a target that keeps its promises\<close>

lemma run_env_simps [simp]:
  "load (run_env env n) = load_batch_timed (ie_load env)" "parallelism (run_env env n) = n"
  "progress (run_env env n) = map_option (\<lambda>report a b. on_target (report a b)) (ie_progress env)"
  by (simp_all add: run_env_def)

locale importer = target_db "ie_load env" holds reliable
  for env :: "('c, 't) import_env"
    and holds :: "'t \<Rightarrow> string \<Rightarrow> string list \<Rightarrow> pyval list \<Rightarrow> bool"
    and reliable :: "on_conflict_mode \<Rightarrow> bool" +
  fixes workers :: nat
  assumes fair: "fair_wait (run_env env workers)"
    and retry_ok: "occ_config_ok (occ (ie_load env))"
    and report_keeps: "ie_progress env = Some report \<Longrightarrow> report a b t = (q, t') \<Longrightarrow> holds t tab ns vs \<Longrightarrow> holds t' tab ns vs"
    and cursor_keeps: "ie_cursor env c t = (q, t') \<Longrightarrow> holds t tab ns vs \<Longrightarrow> holds t' tab ns vs"
    and ddl_keeps: "ie_ddl env c d t = (q, t') \<Longrightarrow> holds t tab ns vs \<Longrightarrow> holds t' tab ns vs"
    and fetch_keeps: "ie_fetch env c t = (q2, t') \<Longrightarrow> holds t tab ns vs \<Longrightarrow> holds t' tab ns vs"

sublocale importer \<subseteq> pipe: batch_loader "run_env env workers" "\<lambda>s. slots s \<noteq> []" trusted
  "\<lambda>s w. covered w (w_rows w) s"
proof
  show "fair_wait (run_env env workers)" by (rule fair)
next
  fix st :: "('c, 't) loader" and w r st'
  assume "slots st \<noteq> []" "trusted w" "load (run_env env workers) w st = (r, st')"
  then show "slots st' \<noteq> []"
    using batch_safeD(2) [OF load_batch_timed_safe [OF retry_ok]] by (metis length_0_conv run_env_simps(1))
next
  fix st :: "('c, 't) loader" and w counts st'
  assume "slots st \<noteq> []" "trusted w" "load (run_env env workers) w st = (Inr counts, st')"
  then show "covered w (w_rows w) st'"
    using batch_safeD(3) [OF load_batch_timed_safe [OF retry_ok]] by (metis run_env_simps(1))
next
  fix st :: "('c, 't) loader" and w v r st'
  assume "slots st \<noteq> []" "trusted w" "covered v (w_rows v) st" "load (run_env env workers) w st = (r, st')"
  then show "covered v (w_rows v) st'"
    using batch_safeD(1) [OF load_batch_timed_safe [OF retry_ok]] covered_stable by (metis run_env_simps(1))
next
  fix report and st :: "('c, 't) loader" and a b q st'
  assume rep: "progress (run_env env workers) = Some report" "slots st \<noteq> []" "report a b st = (q, st')"
  then obtain g where g: "ie_progress env = Some g" "on_target (g a b) st = (q, st')" by auto
  have k: "keeps st st' \<and> slots st' = slots st" by (rule on_target_keeps [OF g(2)]) (rule report_keeps [OF g(1)])
  with rep show "slots st' \<noteq> []" by simp
  fix v assume "covered v (w_rows v) st"
  with k keeps_grows show "covered v (w_rows v) st'" by (blast intro: covered_stable)
qed

section \<open>What a source holds\<close>

fun source_rows :: "row_source \<Rightarrow> pyrow list" where
  "source_rows (Single rows) = fst rows"
| "source_rows (Shards shards) = concat (map fst shards)"
| "source_rows (RangePages pages) = concat (map (fst \<circ> snd) (fst pages))"

text \<open>No reader raised.\<close>

fun source_ended :: "row_source \<Rightarrow> bool" where
  "source_ended (Single rows) = (snd rows = None)"
| "source_ended (Shards shards) = (\<forall>rows \<in> set shards. snd rows = None)"
| "source_ended (RangePages pages) = (snd pages = None \<and> (\<forall>(shard, page) \<in> set (fst pages). snd page = None))"

fun all_work :: "work_spec \<Rightarrow> row_source \<Rightarrow> batch_work set" where
  "all_work spec (Single rows) = set (fst (fst (iter_work spec [] None rows)))"
| "all_work spec (Shards shards) =
     (\<Union>(i, rows) \<in> set (enumerate 0 shards). set (fst (fst (iter_work spec [] (Some i) rows))))"
| "all_work spec (RangePages pages) = set (fst (fst (iter_work_pages spec [] pages)))"

text \<open>The merge of several readers hands over their items, all of them unless one raised.\<close>

definition merge_ok :: "(batch_work stream list \<Rightarrow> batch_work stream) \<Rightarrow> bool" where
  "merge_ok merge =
     (\<forall>xs. set (fst (merge xs)) \<subseteq> (\<Union>x \<in> set xs. set (fst x))
         \<and> (snd (merge xs) = None \<longrightarrow>
              (\<forall>x \<in> set xs. snd x = None) \<and> (\<Union>x \<in> set xs. set (fst x)) \<subseteq> set (fst (merge xs))))"

lemma iter_work_err [simp]: "snd (fst (iter_work spec W sh rows)) = snd rows"
  by (auto simp: iter_work_def iter_batches_def Let_def split: prod.splits)

lemma iter_work_pages_beyond:
  "fst (iter_work_pages spec W pages)
     = (filter (beyond W) (fst (fst (iter_work_pages spec [] pages))), snd (fst (iter_work_pages spec [] pages)))"
  unfolding iter_work_pages_def by (rule work_pages_beyond)

lemma work_pages_err_Cons:
  "\<exists>ni'. snd (fst (work_pages spec W ni ((shard, page) # pages) err))
     = (case snd page of Some e \<Rightarrow> Some e | None \<Rightarrow> snd (fst (work_pages spec W ni' pages err)))"
proof -
  let ?k = "case map_of ni shard of Some i \<Rightarrow> i | None \<Rightarrow> 0"
  let ?ni = "dict_set shard (?k + length (fst (iter_batches page (spec_size spec) (Some MAX_BATCH_BYTES)))) ni"
  have "snd (fst (work_pages spec W ni ((shard, page) # pages) err))
     = (case snd page of Some e \<Rightarrow> Some e | None \<Rightarrow> snd (fst (work_pages spec W ?ni pages err)))"
    by (simp add: Let_def iter_batches_def case_prod_unfold split: option.split)
  then show ?thesis by blast
qed

lemma work_pages_err: "snd (fst (work_pages spec W ni pages err)) = None \<longleftrightarrow> err = None \<and> (\<forall>(shard, page) \<in> set pages. snd page = None)"
proof (induction pages arbitrary: ni)
  case Nil
  then show ?case by simp
next
  case (Cons p pages)
  obtain shard page where p: "p = (shard, page)" by (cases p)
  from work_pages_err_Cons obtain ni' where eq: "snd (fst (work_pages spec W ni ((shard, page) # pages) err))
     = (case snd page of Some e \<Rightarrow> Some e | None \<Rightarrow> snd (fst (work_pages spec W ni' pages err)))" by blast
  show ?case unfolding p eq using Cons.IH [of ni'] by (auto split: option.split)
qed

definition shard_streams :: "work_spec \<Rightarrow> (string, int) pydict \<Rightarrow> pyrow stream list \<Rightarrow> batch_work stream list" where
  "shard_streams spec W shards = map (\<lambda>(i, rows). fst (iter_work spec W (Some i) rows)) (enumerate 0 shards)"

lemma shard_streams_items:
  "(\<Union>x \<in> set (shard_streams spec W shards). set (fst x)) = {w \<in> all_work spec (Shards shards). beyond W w}"
  by (simp add: shard_streams_def iter_work_beyond [of spec W] case_prod_unfold) auto

lemma shard_streams_ended:
  "(\<forall>x \<in> set (shard_streams spec W shards). snd x = None) \<longleftrightarrow> source_ended (Shards shards)"
proof -
  have "set (map snd (enumerate 0 shards)) = set shards" by (metis map_snd_enumerate)
  then have "(\<forall>rows \<in> set shards. P rows) \<longleftrightarrow> (\<forall>p \<in> set (enumerate 0 shards). P (snd p))" for P
    by (metis (no_types, lifting) image_iff list.set_map)
  from this [of "\<lambda>rows. snd rows = None"] show ?thesis
    by (simp add: shard_streams_def case_prod_beta)
qed

lemma import_works_Shards:
  "fst (import_works env spec W (Shards shards))
     = (case shard_streams spec W shards of [works] \<Rightarrow> works | streams \<Rightarrow> ie_merge env streams)"
  by (simp add: import_works_def shard_streams_def o_def case_prod_unfold Let_def)

lemma import_works_items:
  assumes "merge_ok (ie_merge env)"
  shows "set (fst (fst (import_works env spec W source))) \<subseteq> {w \<in> all_work spec source. beyond W w}"
    and "snd (fst (import_works env spec W source)) = None \<Longrightarrow>
           source_ended source \<and> set (fst (fst (import_works env spec W source))) = {w \<in> all_work spec source. beyond W w}"
proof -
  have "set (fst (fst (import_works env spec W source))) \<subseteq> {w \<in> all_work spec source. beyond W w}
    \<and> (snd (fst (import_works env spec W source)) = None \<longrightarrow>
         source_ended source \<and> set (fst (fst (import_works env spec W source))) = {w \<in> all_work spec source. beyond W w})"
  proof (cases source)
    case (Single rows)
    then show ?thesis by (auto simp: import_works_def iter_work_beyond [of spec W])
  next
    case (RangePages pages)
    then show ?thesis
      using work_pages_err [of spec W "[]" "fst pages" "snd pages"]
      by (auto simp: import_works_def iter_work_pages_beyond [of spec W] iter_work_pages_def work_pages_beyond [of spec W])
  next
    case (Shards shards)
    let ?xs = "shard_streams spec W shards"
    have any: "set (fst (ie_merge env ?xs)) \<subseteq> (\<Union>x \<in> set ?xs. set (fst x))
        \<and> (snd (ie_merge env ?xs) = None \<longrightarrow>
             (\<forall>x \<in> set ?xs. snd x = None) \<and> (\<Union>x \<in> set ?xs. set (fst x)) \<subseteq> set (fst (ie_merge env ?xs)))"
      using assms unfolding merge_ok_def by blast
    show ?thesis
    proof (cases "\<exists>works. ?xs = [works]")
      case True
      then obtain works where one: "?xs = [works]" by blast
      then show ?thesis
        using shard_streams_items [of spec W shards] shard_streams_ended [of spec W shards]
        unfolding Shards import_works_Shards by (auto simp: one)
    next
      case False
      then have eq: "fst (import_works env spec W (Shards shards)) = ie_merge env ?xs"
        unfolding import_works_Shards by (auto split: list.splits)
      with any show ?thesis
        unfolding Shards eq shard_streams_items shard_streams_ended by blast
    qed
  qed
  then show "set (fst (fst (import_works env spec W source))) \<subseteq> {w \<in> all_work spec source. beyond W w}"
    and "snd (fst (import_works env spec W source)) = None \<Longrightarrow>
           source_ended source \<and> set (fst (fst (import_works env spec W source))) = {w \<in> all_work spec source. beyond W w}"
    by blast+
qed

lemma all_work_made: "w \<in> all_work spec source \<Longrightarrow> \<exists>sh i b. w = make_work spec sh i b"
proof (cases source)
  case (RangePages pages)
  assume "w \<in> all_work spec source"
  with RangePages work_pages_index [of w spec "[]" "fst pages" "snd pages"] show ?thesis
    by (auto simp: iter_work_pages_def)
qed (auto dest!: iter_work_made)

lemma all_work_inj: "inj_on (\<lambda>w. (w_shard w, w_index w)) (all_work spec source)"
proof (cases source)
  case (Single rows)
  then show ?thesis using iter_work_inj by simp
next
  case (RangePages pages)
  then show ?thesis using work_pages_inj by (simp add: iter_work_pages_def)
next
  case (Shards shards)
  show ?thesis
  proof (rule inj_onI)
    fix v w assume v: "v \<in> all_work spec source" and w: "w \<in> all_work spec source"
      and eq: "(w_shard v, w_index v) = (w_shard w, w_index w)"
    from v w Shards obtain i rs j qs where
      i: "(i, rs) \<in> set (enumerate 0 shards)" "v \<in> set (fst (fst (iter_work spec [] (Some i) rs)))" and
      j: "(j, qs) \<in> set (enumerate 0 shards)" "w \<in> set (fst (fst (iter_work spec [] (Some j) qs)))" by auto
    from eq iter_work_shard [OF i(2)] iter_work_shard [OF j(2)] have "i = j" by simp
    with i(1) j(1) have "rs = qs" by (auto simp: in_set_enumerate_eq)
    with i(2) j(2) \<open>i = j\<close> eq iter_work_inj [of spec "Some i" rs] show "v = w"
      by (auto simp: inj_on_def)
  qed
qed

lemma iter_work_has_row: "snd rows = None \<Longrightarrow> row \<in> set (fst rows) \<Longrightarrow>
    \<exists>w \<in> set (fst (fst (iter_work spec [] sh rows))). row \<in> set (w_rows w)"
  using arg_cong [OF iter_work_rows [of spec sh "fst rows"], of set] by (cases rows) auto

lemma all_work_rows:
  "source_ended source \<Longrightarrow> row \<in> set (source_rows source) \<Longrightarrow> \<exists>w \<in> all_work spec source. row \<in> set (w_rows w)"
proof (cases source)
  case (Single rows)
  assume "source_ended source" "row \<in> set (source_rows source)"
  with Single iter_work_has_row show ?thesis by simp
next
  case (Shards shards)
  assume a: "source_ended source" "row \<in> set (source_rows source)"
  with Shards obtain rows where "rows \<in> set shards" "row \<in> set (fst rows)" "snd rows = None" by auto
  then obtain k where k: "k < length shards" "row \<in> set (fst (shards ! k))" "snd (shards ! k) = None"
    by (metis in_set_conv_nth)
  then have "(k, shards ! k) \<in> set (enumerate 0 shards)" by (simp add: in_set_enumerate_eq)
  with iter_work_has_row [OF k(3,2), of spec "Some k"] Shards show ?thesis
    by (simp add: case_prod_unfold) (metis fst_conv snd_conv)
next
  case (RangePages pages)
  assume a: "source_ended source" "row \<in> set (source_rows source)"
  have "concat (map w_rows (fst (fst (work_pages spec [] [] (fst pages) (snd pages))))) = concat (map (fst \<circ> snd) (fst pages))"
    by (rule work_pages_rows) (use a RangePages in auto)
  from arg_cong [OF this, of set] a RangePages show ?thesis by (auto simp: iter_work_pages_def)
qed

context importer
begin

text \<open>The index pass removes no row either.\<close>

definition ix_keeps :: "'t \<Rightarrow> 't \<Rightarrow> bool" where
  "ix_keeps t t' = (\<forall>tab ns vs. holds t tab ns vs \<longrightarrow> holds t' tab ns vs)"

lemma ix_keeps_refl [simp]: "ix_keeps t t"
  by (simp add: ix_keeps_def)

lemma ix_keeps_trans [trans]: "ix_keeps t t1 \<Longrightarrow> ix_keeps t1 t2 \<Longrightarrow> ix_keeps t t2"
  by (simp add: ix_keeps_def)

lemma ix_target_keeps:
  "on_ix_target act s = (r, s') \<Longrightarrow> (\<And>t. act (target s) = (r, t) \<Longrightarrow> ix_keeps (target s) t) \<Longrightarrow>
     ix_keeps (target s) (target s')"
  by (auto simp: on_ix_target_def split: prod.splits)

lemma index_part_simps [simp]:
  "open_cursor (index_part env) = ie_cursor env" "run_ddl_stmt (index_part env) = ie_ddl env"
  "fetch_row (index_part env) = ie_fetch env" "ix_occ (index_part env) = occ (ie_load env)"
  "connect (ix_pool (index_part env)) = connect (ie_load env)"
  "close_conn (ix_pool (index_part env)) = close_conn (ie_load env)"
  by (simp_all add: index_part_def pool_ops.truncate_def)

lemma answered_job_id_keeps: "answered_job_id (index_part env) c s = (r, s') \<Longrightarrow> ix_keeps (target s) (target s')"
proof -
  assume run: "answered_job_id (index_part env) c s = (r, s')"
  obtain q s1 where f: "on_ix_target (ie_fetch env c) s = (q, s1)" by force
  have "ix_keeps (target s) (target s1)"
    by (rule ix_target_keeps [OF f]) (use fetch_keeps in \<open>auto simp: ix_keeps_def\<close>)
  with run f show ?thesis
    by (auto simp: answered_job_id_def split: if_splits sum.splits option.splits list.splits)
qed

lemma ddl_failed_target [simp]: "target (ddl_failed e s) = target s"
  by (simp add: ddl_failed_def Let_def)

lemma run_ddl_on_keeps: "run_ddl_on (index_part env) ddl c s = (r, s') \<Longrightarrow> ix_keeps (target s) (target s')"
proof -
  assume run: "run_ddl_on (index_part env) ddl c s = (r, s')"
  obtain q1 s1 where o: "on_ix_target (ie_cursor env c) s = (q1, s1)" by force
  have k1: "ix_keeps (target s) (target s1)"
    by (rule ix_target_keeps [OF o]) (use cursor_keeps in \<open>auto simp: ix_keeps_def\<close>)
  obtain q2 s2 where d: "on_ix_target (ie_ddl env c ddl) (s1\<lparr>sent := True\<rparr>) = (q2, s2)" by force
  have k2: "ix_keeps (target (s1\<lparr>sent := True\<rparr>)) (target s2)"
    by (rule ix_target_keeps [OF d]) (use ddl_keeps in \<open>auto simp: ix_keeps_def\<close>)
  show ?thesis
  proof (cases q1)
    case (Inl e)
    with run o k1 show ?thesis by (simp add: run_ddl_on_def)
  next
    case (Inr u)
    then show ?thesis
      using run o d k1 k2 answered_job_id_keeps [of c s2 r s']
      by (cases q2) (auto simp: run_ddl_on_def intro: ix_keeps_trans split: if_splits)
  qed
qed

lemma run_ddl_keeps:
  assumes "run_ddl (index_part env) b ddl s = (r, s')" "slots s \<noteq> []"
  shows "ix_keeps (target s) (target s') \<and> slots s' \<noteq> []"
proof -
  have "lease (ix_pool (index_part env)) b (run_ddl_on (index_part env) ddl) (s\<lparr>sent := False\<rparr>) = (r, s')"
    using assms(1) by (simp add: run_ddl_def)
  moreover have "slots (s\<lparr>sent := False\<rparr>) \<noteq> []" using assms(2) by simp
  ultimately show ?thesis
  proof (cases rule: lease_cases)
    case (no_connect e t)
    with connect_keeps assms(2) show ?thesis by (auto simp: ix_keeps_def)
  next
    case (ran c s1 q s2)
    have "ix_keeps (target s) (target s1)" using ran(7) connect_keeps by (auto simp: ix_keeps_def)
    also have "ix_keeps (target s1) (target s2)" by (rule run_ddl_on_keeps [OF ran(1)])
    also have "ix_keeps (target s2) (target s')" using ran(8) close_keeps by (auto simp: ix_keeps_def)
    finally show ?thesis using ran(6) by auto
  qed
qed

lemma create_indexes_from_keeps:
  "create_indexes_from (index_part env) b None u made failed ddls s = (r, s') \<Longrightarrow> slots s \<noteq> [] \<Longrightarrow>
     ix_keeps (target s) (target s')"
proof (induction ddls arbitrary: made failed s)
  case Nil
  then show ?case by simp
next
  case (Cons ddl ddls)
  let ?s = "s\<lparr>note_text := '''', sent := False\<rparr>"
  let ?I = "\<lambda>s1. ix_keeps (target s) (target s1) \<and> slots s1 \<noteq> []"
  obtain q s1 where w: "with_occ_retry (lift_ix_occ (occ (ie_load env))) (run_ddl (index_part env) b ddl) ?s = (q, s1)"
    by force
  have "?I s1 \<and> True"
  proof (rule with_occ_retry_rule [where I = ?I and Q = "\<lambda>r s. True", OF _ _ _ _ w])
    show "occ_config_ok (lift_ix_occ (occ (ie_load env)))" using retry_ok by (simp add: occ_config_ok_def lift_ix_occ_def)
    show "?I ?s" using Cons.prems(2) by simp
    show "?I s3 \<and> True" if "?I s2" "run_ddl (index_part env) b ddl s2 = (r3, s3)" for s2 r3 s3
      using run_ddl_keeps [OF that(2)] that(1) by (auto intro: ix_keeps_trans)
    show "?I (occ_wait (lift_ix_occ (occ (ie_load env))) a s2)" if "?I s2" for a s2
      using that sleep_keeps jitter_keeps
      by (auto simp: occ_wait_def lift_ix_occ_def ix_keeps_def split: prod.splits)
  qed
  then have k: "ix_keeps (target s) (target s1)" "slots s1 \<noteq> []" by auto
  have "s' = s1 \<or> (\<exists>made' failed'. create_indexes_from (index_part env) b None u made' failed' ddls s1 = (r, s'))"
    using Cons.prems(1) w by (cases q) (auto split: if_splits)
  with k Cons.IH show ?case by (blast intro: ix_keeps_trans)
qed

lemma run_indexes_keeps:
  assumes "run_indexes env ddls s = (r, s')" "slots s \<noteq> []"
  shows "keeps s s'"
proof -
  let ?ix = "\<lparr>target = target s, slots = slots s, created = created s, events = events s, note_text = '''', sent = False\<rparr>"
  obtain q ix where c: "create_indexes_in (index_part env) True None False ddls ?ix = (q, ix)" by force
  have "ix_keeps (target ?ix) (target ix)"
    by (rule create_indexes_from_keeps [OF c [unfolded create_indexes_in_def]]) (use assms(2) in simp)
  with assms(1) c show ?thesis
    by (auto simp: run_indexes_def Let_def keeps_def ix_keeps_def q_part_def split: sum.splits index_stop.splits)
qed

lemma close_all_keeps: "keeps s (close_all (pool_part (ie_load env)) s)"
proof -
  have "holds t tab ns vs \<Longrightarrow> holds (fold (close_conn (ie_load env)) cs t) tab ns vs" for cs t tab ns vs
    by (induction cs arbitrary: t) (auto intro: close_keeps)
  then show ?thesis by (simp add: close_all_def keeps_def q_part_def)
qed

end

context importer
begin

definition spec_trusted :: "work_spec \<Rightarrow> bool" where
  "spec_trusted spec = (trusted (make_work spec None 0 []) \<and> ws_columns spec \<noteq> []
     \<and> \<not> (ws_mode spec = DO_UPDATE \<and> ws_keys spec = []))"

lemma trusted_make: "trusted (make_work spec sh i b) = trusted (make_work spec None 0 [])"
  by (simp add: trusted_def split: on_conflict_mode.split)

lemma import_rows_unfold:
  assumes "spec = import_spec opts table kc mode" "spec_trusted spec" "opt_parallelism opts = workers"
    and run: "import_rows env opts table kc mode ddls (Some W) source s = (r, s', W')"
  obtains p rr where
    "run_data_batches (run_env env workers) (fst (import_works env spec W source))
       (start_pipeline (begin_import workers (W \<noteq> []) s) (new_tracker W)) = (rr, p)"
    "W' = Some (frontier (tracker p))"
    "slots (world p) \<noteq> [] \<Longrightarrow> keeps (world p) s'"
    "\<And>res. r = Inr res \<Longrightarrow> \<exists>stopped. rr = Inr stopped \<and> ir_failures res = failures (agg p) \<and> ir_cancelled res = stopped"
proof -
  let ?works = "import_works env spec W source"
  obtain works skipped where ws: "?works = (works, skipped)" by (cases ?works)
  obtain rr p where p: "run_data_batches (run_env env workers) (fst ?works)
       (start_pipeline (begin_import workers (W \<noteq> []) s) (new_tracker W)) = (rr, p)" by force
  define mid where "mid = (case rr of
        Inl e \<Rightarrow> (Inl e, world p)
      | Inr stopped \<Rightarrow>
          if failures (agg p) = 0 \<and> \<not> stopped \<and> ddls \<noteq> []
          then (case run_indexes env ddls (world p) of
                  (Inl e, q) \<Rightarrow> (Inl e, q)
                | (Inr (made, failed), q) \<Rightarrow>
                    (Inr ((aggregate_result (agg p) skipped made stopped)\<lparr>ir_index_failures := failed\<rparr>), q))
          else (Inr (aggregate_result (agg p) skipped 0 stopped), world p))"
  obtain r2 s2 where m: "mid = (r2, s2)" by force
  have guards: "ws_columns spec \<noteq> []" "\<not> (ws_mode spec = DO_UPDATE \<and> ws_keys spec = [])"
    using assms(2) by (auto simp: spec_trusted_def)
  have "import_rows env opts table kc mode ddls (Some W) source s = (case mid of (r2, s2) \<Rightarrow>
      ((case r2 of Inl e \<Rightarrow> Inl e
        | Inr res \<Rightarrow> Inr (res\<lparr>ir_quarantined := quarantine_total (close_all (pool_part (ie_load env)) s2),
             ir_quarantine_records := quarantine (close_all (pool_part (ie_load env)) s2)\<rparr>)),
       close_all (pool_part (ie_load env)) s2, Some (frontier (tracker p))))"
    unfolding mid_def using guards p ws
    by (auto simp: import_rows_def Let_def tracker_watermark_def assms(3) assms(1) [symmetric])
  then have res: "(r, s', W') = ((case r2 of Inl e \<Rightarrow> Inl e
        | Inr res \<Rightarrow> Inr (res\<lparr>ir_quarantined := quarantine_total (close_all (pool_part (ie_load env)) s2),
             ir_quarantine_records := quarantine (close_all (pool_part (ie_load env)) s2)\<rparr>)),
      close_all (pool_part (ie_load env)) s2, Some (frontier (tracker p)))"
    by (simp add: run m)
  have s2: "keeps (world p) s2" if "slots (world p) \<noteq> []"
  proof (cases "s2 = world p")
    case False
    then obtain q where "run_indexes env ddls (world p) = (q, s2)"
      using m by (auto simp: mid_def split: sum.splits if_splits prod.splits)
    with run_indexes_keeps that show ?thesis by blast
  qed simp
  show thesis
  proof (rule that [OF p])
    show "W' = Some (frontier (tracker p))" using res by simp
    show "keeps (world p) s'" if "slots (world p) \<noteq> []"
      using s2 [OF that] close_all_keeps [of s2] res by (auto intro: keeps_trans)
    show "\<exists>stopped. rr = Inr stopped \<and> ir_failures res = failures (agg p) \<and> ir_cancelled res = stopped"
      if "r = Inr res" for res
      using res that m
      by (auto simp: mid_def aggregate_result_def split: sum.splits if_splits prod.splits)
  qed
qed

lemma works_trusted:
  assumes "merge_ok (ie_merge env)" "spec_trusted spec"
  shows "\<forall>w \<in> set (fst (fst (import_works env spec W source))). trusted w"
proof
  fix w assume "w \<in> set (fst (fst (import_works env spec W source)))"
  then have "w \<in> all_work spec source" using import_works_items(1) [OF assms(1)] by auto
  then obtain sh i b where "w = make_work spec sh i b" by (blast dest: all_work_made)
  with assms(2) trusted_make [of spec sh i b] show "trusted w" by (simp add: spec_trusted_def)
qed

text \<open>
  Whatever the outcome, the high-water handed back covers only committed batches; a clean
  outcome commits the whole source.
\<close>

theorem import_rows_sound:
  assumes spec: "spec = import_spec opts table kc mode" "spec_trusted spec" "opt_parallelism opts = workers"
    and merge: "merge_ok (ie_merge env)" and n: "0 < workers"
    and run: "import_rows env opts table kc mode ddls (Some W) source s = (r, s', Some W')"
  shows "\<forall>sh i. high_water_of W sh < i \<and> i \<le> high_water_of W' sh \<longrightarrow>
            (\<exists>w \<in> all_work spec source. w_shard w = sh \<and> int (w_index w) = i \<and> covered w (w_rows w) s')"
    and "r = Inr res \<Longrightarrow> ir_failures res = 0 \<Longrightarrow> \<not> ir_cancelled res \<Longrightarrow>
           source_ended source \<and> (\<forall>w \<in> all_work spec source. beyond W w \<longrightarrow> covered w (w_rows w) s')"
proof -
  let ?works = "fst (import_works env spec W source)"
  let ?p0 = "start_pipeline (begin_import workers (W \<noteq> []) s) (new_tracker W)"
  from import_rows_unfold [OF spec run] obtain p rr where
    p: "run_data_batches (run_env env workers) ?works ?p0 = (rr, p)"
    and W': "Some W' = Some (frontier (tracker p))"
    and k: "slots (world p) \<noteq> [] \<Longrightarrow> keeps (world p) s'"
    and ok: "\<And>res. r = Inr res \<Longrightarrow> \<exists>stopped. rr = Inr stopped \<and> ir_failures res = failures (agg p) \<and> ir_cancelled res = stopped"
    by metis
  have s0: "slots (begin_import workers (W \<noteq> []) s) \<noteq> []" using n by (simp add: begin_import_def new_pool_def Let_def)
  have inv0: "pipe.pipe_inv (fst ?works) W ?p0"
    using s0 by (simp add: pipe.pipe_inv_def start_pipeline_def tracker_sound_new)
  note tr = works_trusted [OF merge spec(2), of W source]
  have fl0: "length (in_flight ?p0) < parallelism (run_env env workers)" using n by (simp add: start_pipeline_def)
  from pipe.run_sound [OF inv0 tr fl0 p] have inv: "pipe.pipe_inv (fst ?works) W p" by simp
  have ks: "grows (world p) s'" using inv k by (auto simp: pipe.pipe_inv_def keeps_grows)
  show "\<forall>sh i. high_water_of W sh < i \<and> i \<le> high_water_of W' sh \<longrightarrow>
            (\<exists>w \<in> all_work spec source. w_shard w = sh \<and> int (w_index w) = i \<and> covered w (w_rows w) s')"
  proof (intro allI impI)
    fix sh i assume i: "high_water_of W sh < i \<and> i \<le> high_water_of W' sh"
    have "frontier_at (tracker p) (shard_key sh) = high_water_of W' sh"
      using W' by (simp add: frontier_at_def high_water_of_def)
    with inv i have "pipe.done_batch (fst ?works) (world p) sh i"
      by (auto simp: pipe.pipe_inv_def tracker_sound_def)
    then obtain w where "w \<in> set (fst ?works)" "w_shard w = sh" "int (w_index w) = i" "covered w (w_rows w) (world p)"
      by (auto simp: pipe.done_batch_def)
    with import_works_items(1) [OF merge, of spec W source] covered_stable [OF _ ks] show
      "\<exists>w \<in> all_work spec source. w_shard w = sh \<and> int (w_index w) = i \<and> covered w (w_rows w) s'" by blast
  qed
  assume r: "r = Inr res" "ir_failures res = 0" "\<not> ir_cancelled res"
  with ok have rr: "rr = Inr False" "failures (agg p) = 0" by auto
  have "pipe.accounted [] ?p0" by (simp add: pipe.accounted_def start_pipeline_def empty_aggregate_def)
  from pipe.run_complete [OF inv0 tr this fl0 p [unfolded rr(1)]]
  have "in_flight p = []" "pipe.accounted (fst ?works) p" "snd ?works = None" by auto
  with rr(2) have cov: "\<forall>w \<in> set (fst ?works). covered w (w_rows w) (world p)" and e: "snd ?works = None"
    by (auto simp: pipe.accounted_def)
  from import_works_items(2) [OF merge e] cov covered_stable [OF _ ks]
  show "source_ended source \<and> (\<forall>w \<in> all_work spec source. beyond W w \<longrightarrow> covered w (w_rows w) s')"
    by blast
qed

text \<open>Nothing the importer holds is lost from one call to the next.\<close>

lemma loader_keeping:
  "batch_loader (run_env env workers) (\<lambda>s. slots s \<noteq> [] \<and> covered v rows s) trusted (\<lambda>s w. covered w (w_rows w) s)"
proof
  show "fair_wait (run_env env workers)" by (rule fair)
next
  fix st :: "('c, 't) loader" and w r st'
  assume a: "slots st \<noteq> [] \<and> covered v rows st" "trusted w" "load (run_env env workers) w st = (r, st')"
  have g: "grows st st'" using batch_safeD(1) [OF load_batch_timed_safe [OF retry_ok a(2)]] a(1,3) by simp
  show "slots st' \<noteq> [] \<and> covered v rows st'" using pipe.load_good [OF _ a(2,3)] covered_stable [OF _ g] a(1) by blast
next
  fix st :: "('c, 't) loader" and w counts st'
  assume "slots st \<noteq> [] \<and> covered v rows st" "trusted w" "load (run_env env workers) w st = (Inr counts, st')"
  then show "covered w (w_rows w) st'" using pipe.load_commits by blast
next
  fix st :: "('c, 't) loader" and w u r st'
  assume "slots st \<noteq> [] \<and> covered v rows st" "trusted w" "covered u (w_rows u) st" "load (run_env env workers) w st = (r, st')"
  then show "covered u (w_rows u) st'" using pipe.load_keeps by blast
next
  fix report and st :: "('c, 't) loader" and a b q st'
  assume rep: "progress (run_env env workers) = Some report" "slots st \<noteq> [] \<and> covered v rows st" "report a b st = (q, st')"
  then obtain g where g: "ie_progress env = Some g" "on_target (g a b) st = (q, st')" by auto
  have "keeps st st'" using on_target_keeps [OF g(2)] report_keeps [OF g(1)] by blast
  with rep pipe.progress_good [OF rep(1)] show "slots st' \<noteq> [] \<and> covered v rows st'"
    by (blast intro: covered_stable keeps_grows)
  fix u assume "covered u (w_rows u) st"
  with rep show "covered u (w_rows u) st'" using pipe.progress_keeps by blast
qed

lemma import_rows_grows:
  assumes spec: "spec = import_spec opts table kc mode" "spec_trusted spec" "opt_parallelism opts = workers"
    and merge: "merge_ok (ie_merge env)" and n: "0 < workers"
    and run: "import_rows env opts table kc mode ddls (Some W) source s = (r, s', W')"
    and "W \<noteq> []" and "covered v rows s"
  shows "covered v rows s'"
proof -
  let ?works = "fst (import_works env spec W source)"
  let ?b = "begin_import workers (W \<noteq> []) s"
  let ?p0 = "start_pipeline ?b (new_tracker W)"
  from import_rows_unfold [OF spec run] obtain p rr where
    p: "run_data_batches (run_env env workers) ?works ?p0 = (rr, p)"
    and k: "slots (world p) \<noteq> [] \<Longrightarrow> keeps (world p) s'"
    by metis
  have "slots ?b \<noteq> [] \<and> covered v rows ?b"
    using assms(5,7,8) by (simp add: covered_def stored_def begin_import_def new_pool_def Let_def)
  then have inv0: "batch_loader.pipe_inv (\<lambda>s. slots s \<noteq> [] \<and> covered v rows s) (\<lambda>s w. covered w (w_rows w) s) (fst ?works) W ?p0"
    by (simp add: batch_loader.pipe_inv_def [OF loader_keeping] start_pipeline_def tracker_sound_new)
  have fl0: "length (in_flight ?p0) < parallelism (run_env env workers)" using n by (simp add: start_pipeline_def)
  from batch_loader.run_sound [OF loader_keeping inv0 works_trusted [OF merge spec(2)] fl0 p]
  have "slots (world p) \<noteq> [] \<and> covered v rows (world p)"
    by (simp add: batch_loader.pipe_inv_def [OF loader_keeping])
  with k show ?thesis by (blast intro: covered_stable keeps_grows)
qed

text \<open>
  Two calls: a first one that ends anyhow (its source cut short by an error, say), and a second
  one over the whole source at the high-water the first handed back, which ends clean.
\<close>

theorem resume_converges:
  assumes spec: "spec = import_spec opts table kc mode" "spec_trusted spec" "opt_parallelism opts = workers"
    and merge: "merge_ok (ie_merge env)" and n: "0 < workers"
    and cut: "all_work spec part \<subseteq> all_work spec source"
    and first: "import_rows env opts table kc mode ddls1 (Some []) part s = (r1, s1, Some W1)"
    and second: "import_rows env opts table kc mode ddls2 (Some W1) source s1 = (Inr res, s2, W2)"
    and clean: "ir_failures res = 0" "\<not> ir_cancelled res"
    and row: "row \<in> set (source_rows source)"
  shows "covered (make_work spec None 0 []) [row] s2"
proof -
  obtain W2' where W2: "W2 = Some W2'" using import_rows_unfold [OF spec second] by metis
  note full = import_rows_sound(2) [OF spec merge n second [unfolded W2] refl clean]
  then obtain w where w: "w \<in> all_work spec source" "row \<in> set (w_rows w)" using all_work_rows row by blast
  have "covered w (w_rows w) s2"
  proof (cases "beyond W1 w")
    case True
    with full w show ?thesis by blast
  next
    case False
    then have le: "high_water_of [] (w_shard w) < int (w_index w) \<and> int (w_index w) \<le> high_water_of W1 (w_shard w)"
      by (simp add: beyond_def)
    with import_rows_sound(1) [OF spec merge n first] obtain v where
      v: "v \<in> all_work spec part" "w_shard v = w_shard w" "int (w_index v) = int (w_index w)" "covered v (w_rows v) s1"
      by blast
    have "v = w" using all_work_inj [of spec source] v cut w(1) by (auto simp: inj_on_def)
    have "W1 \<noteq> []" using le by auto
    with v(4) \<open>v = w\<close> show ?thesis using import_rows_grows [OF spec merge n second] by blast
  qed
  with w(2) have "covered w [row] s2" by (simp add: covered_def)
  moreover obtain sh i b where "w = make_work spec sh i b" using all_work_made [OF w(1)] by blast
  ultimately show ?thesis
    by (cases "ws_keys spec = []") (simp_all add: covered_def stored_def ident_names_def quarantined_row_identity_def)
qed

end

end
