(* ===== verification/MemTarget.thy ===== *)
theory MemTarget
  imports LoadRun
begin

text \<open>
  A concrete target the contracts of the importer hold of: an in-memory table store with
  primary keys, a size limit per value, and PostgreSQL's SQLSTATEs. It shows that the
  assumptions of \<open>target_db\<close> and \<open>importer\<close> can be met, and it is what the witnesses of the
  loader's properties run on. It models no code of the repository.
\<close>

type_synonym mem_db = "(string \<times> pyrow) list"

fun chunks :: "nat \<Rightarrow> nat \<Rightarrow> 'a list \<Rightarrow> 'a list list" where
  "chunks 0 width xs = []"
| "chunks (Suc n) width xs = take width xs # chunks n width (drop width xs)"

definition mem_error :: "string \<Rightarrow> string \<Rightarrow> string \<Rightarrow> pyexc" where
  "mem_error state cls msg = \<lparr>sqlstate = Some state, mro = [cls, ''Exception'', ''BaseException''],
     message = msg, diag_constraint = None\<rparr>"

definition too_big_error :: pyexc where
  "too_big_error = mem_error ''54000'' ''ProgramLimitExceeded'' ''value too large''"

definition mem_unique_error :: pyexc where
  "mem_unique_error = mem_error ''23505'' ''UniqueViolation'' ''duplicate key value''"

definition mem_key :: "string list \<Rightarrow> pyrow \<Rightarrow> pyval list" where
  "mem_key keys row = map (py_canon \<circ> row_get row) keys"

definition mem_present :: "mem_db \<Rightarrow> string \<Rightarrow> string list \<Rightarrow> pyval list \<Rightarrow> bool" where
  "mem_present db table keys k = list_ex (\<lambda>(t, row). t = table \<and> mem_key keys row = k) db"

definition mem_holds :: "mem_db \<Rightarrow> string \<Rightarrow> string list \<Rightarrow> pyval list \<Rightarrow> bool" where
  "mem_holds db table names vs = mem_present db table names (map py_canon vs)"

definition mem_put_absent :: "string \<Rightarrow> string list \<Rightarrow> pyrow \<Rightarrow> mem_db \<Rightarrow> mem_db" where
  "mem_put_absent table keys row db =
     (if keys \<noteq> [] \<and> mem_present db table keys (mem_key keys row) then db else db @ [(table, row)])"

definition mem_insert :: "nat \<Rightarrow> insert_stmt \<Rightarrow> pyval list \<Rightarrow> (mem_db, int option) action" where
  "mem_insert limit stmt params db =
     (let rows = map (zip (st_columns stmt)) (chunks (st_count stmt) (length (st_columns stmt)) params);
          keys = map (mem_key (st_keys stmt)) rows
      in if list_ex (\<lambda>v. limit < value_bytes v) params then (Inl too_big_error, db)
         else if st_mode stmt = DO_UPDATE then (Inl (mem_error ''0A000'' ''FeatureNotSupported'' ''''), db)
         else if st_mode stmt = DO_NOTHING
         then (let db' = fold (mem_put_absent (st_table stmt) (st_keys stmt)) rows db
               in (Inr (Some (int (length db') - int (length db))), db'))
         else if st_keys stmt \<noteq> [] \<and> (\<not> distinct keys \<or> list_ex (mem_present db (st_table stmt) (st_keys stmt)) keys)
         then (Inl mem_unique_error, db)
         else (Inr (Some (int (length rows))), db @ map (Pair (st_table stmt)) rows))"

definition mem_select :: "string \<Rightarrow> string list \<Rightarrow> (mem_db, pyval list list \<times> int option list) action" where
  "mem_select table keys db =
     (Inr (map (\<lambda>(t, row). map (row_get row) keys) (filter (\<lambda>(t, row). t = table) db), []), db)"

definition mem_occ :: "mem_db occ_config" where
  "mem_occ = \<lparr>max_attempts = 3, base_delay = 0, max_delay = 0, sleep = (\<lambda>_ db. db),
     jitter = (\<lambda>db. (0, db)), retryable = is_retryable_load_error\<rparr>"

definition mem_ops :: "nat \<Rightarrow> nat \<Rightarrow> (unit, mem_db) load_ops" where
  "mem_ops limit cap =
     \<lparr>connect = (\<lambda>db. (Inr (), db)), conn_closed = (\<lambda>_ _. False), conn_broken = (\<lambda>_ _. False),
      conn_idle = (\<lambda>_ _. True), close_conn = (\<lambda>_ db. db),
      run_insert = (\<lambda>_. mem_insert limit), run_select = (\<lambda>_ table keys _ _. mem_select table keys),
      read_pk_index = (\<lambda>_ table db. (Inr (Some (table @ ''_pkey'')), db)),
      digest = concat \<circ> map safe_key_text, occ = mem_occ, max_quarantine = cap\<rparr>"

definition mem_env :: "nat \<Rightarrow> nat \<Rightarrow> (unit, mem_db) import_env" where
  "mem_env limit cap =
     \<lparr>ie_load = mem_ops limit cap, ie_cursor = (\<lambda>_ db. (Inr (), db)), ie_ddl = (\<lambda>_ _ db. (Inr (), db)),
      ie_has_rows = (\<lambda>_ _. False), ie_fetch = (\<lambda>_ db. (Inr None, db)), ie_progress = None,
      ie_wait = (\<lambda>_ xs. [hd xs]), ie_cancel = (\<lambda>_. False),
      ie_merge = (\<lambda>xs. (concat (map fst xs), List.find (\<lambda>_. True) (concat (map (\<lambda>x. case snd x of Some e \<Rightarrow> [e] | None \<Rightarrow> []) xs))))\<rparr>"

definition mem_start :: "mem_db \<Rightarrow> (unit, mem_db) loader" where
  "mem_start db = \<lparr>target = db, slots = [Empty, Empty], created = [], events = [], quarantine = [],
     quarantine_total = 0, quarantine_seen = [], pk_indexes = [], attempts = 0\<rparr>"

section \<open>It keeps the promises\<close>

lemma chunks_flatten:
  "chunks (length rows) (length cols) (flatten_params rows cols) = map (\<lambda>row. map (row_get row) cols) rows"
  by (induction rows) (auto simp: flatten_params_def)

lemma row_get_zip: "n \<in> set cols \<Longrightarrow> row_get (zip cols (map (row_get row) cols)) n = row_get row n"
proof (induction cols)
  case Nil
  then show ?case by simp
next
  case (Cons c cols)
  then show ?case by (cases "n = c") (auto simp: row_get_def split: option.splits)
qed

lemma mem_key_zip: "set ns \<subseteq> set cols \<Longrightarrow> mem_key ns (zip cols (map (row_get row) cols)) = map py_canon (key_of ns row)"
  by (induction ns) (auto simp: mem_key_def key_of_def row_get_zip)

lemma mem_present_append [simp]:
  "mem_present (db @ db') table ns k = (mem_present db table ns k \<or> mem_present db' table ns k)"
  by (simp add: mem_present_def)

lemma mem_present_put: "mem_present db tab ns k \<Longrightarrow> mem_present (mem_put_absent t ks row db) tab ns k"
  by (simp add: mem_put_absent_def)

lemma mem_present_fold: "mem_present db tab ns k \<Longrightarrow> mem_present (fold (mem_put_absent t ks) rows db) tab ns k"
  by (induction rows arbitrary: db) (auto intro: mem_present_put)

lemma mem_fold_stores:
  "row \<in> set rows \<Longrightarrow> ks \<noteq> [] \<and> ns = ks \<or> ks = [] \<Longrightarrow> mem_present (fold (mem_put_absent t ks) rows db) t ns (mem_key ns row)"
proof (induction rows arbitrary: db)
  case Nil
  then show ?case by simp
next
  case (Cons r rows)
  show ?case
  proof (cases "row = r")
    case True
    have "mem_present (mem_put_absent t ks r db) t ns (mem_key ns r)"
      using Cons.prems(2) by (auto simp: mem_put_absent_def mem_present_def)
    with True show ?thesis by (simp add: mem_present_fold)
  next
    case False
    with Cons show ?thesis by simp
  qed
qed

lemma mem_insert_keeps: "mem_insert limit stmt ps db = (r, db') \<Longrightarrow> mem_present db tab ns k \<Longrightarrow> mem_present db' tab ns k"
  by (auto simp: mem_insert_def Let_def split: if_splits intro: mem_present_fold)

lemma mem_insert_stores:
  assumes "mem_insert limit (insert_statement w (length rows) mode) (flatten_params rows (w_columns w)) db = (Inr rc, db')"
    and "set (w_keys w) \<subseteq> set (w_columns w)" and "row \<in> set rows"
  shows "mem_holds db' (w_table w) (ident_names w) (key_of (ident_names w) row)"
proof -
  let ?row = "zip (w_columns w) (map (row_get row) (w_columns w))"
  let ?rows = "map (zip (w_columns w)) (map (\<lambda>row. map (row_get row) (w_columns w)) rows)"
  have ns: "set (ident_names w) \<subseteq> set (w_columns w)" using assms(2) by (simp add: ident_names_def)
  have mem: "?row \<in> set ?rows" using assms(3) by auto
  have "mem_present db' (w_table w) (ident_names w) (mem_key (ident_names w) ?row)"
  proof (cases "mode = DO_NOTHING")
    case True
    with assms(1) have "db' = fold (mem_put_absent (w_table w) (w_keys w)) ?rows db"
      by (auto simp: mem_insert_def insert_statement_def chunks_flatten Let_def split: if_splits)
    with mem_fold_stores [OF mem, of "w_keys w" "ident_names w"] show ?thesis by (auto simp: ident_names_def)
  next
    case False
    with assms(1) have "db' = db @ map (Pair (w_table w)) ?rows"
      by (auto simp: mem_insert_def insert_statement_def chunks_flatten Let_def split: if_splits)
    with mem show ?thesis by (auto simp: mem_present_def list_ex_iff)
  qed
  then show ?thesis by (simp add: mem_holds_def mem_key_zip [OF ns])
qed

lemma mem_select_sound:
  assumes "mem_select (w_table w) (w_keys w) db = (Inr answer, db')"
    and "row \<in> set (w_rows w)" "row \<notin> set (missing_rows (w_keys w) answer (w_rows w))"
  shows "mem_holds db' (w_table w) (w_keys w) (key_of (w_keys w) row)"
  using assms
  by (auto simp: mem_select_def missing_rows_def normalize_key_def mem_holds_def mem_present_def mem_key_def
      list_ex_iff key_of_def) force

lemma mem_ops_simps [simp]:
  "connect (mem_ops limit cap) = (\<lambda>db. (Inr (), db))" "close_conn (mem_ops limit cap) = (\<lambda>_ db. db)"
  "run_insert (mem_ops limit cap) = (\<lambda>_. mem_insert limit)"
  "run_select (mem_ops limit cap) = (\<lambda>_ table keys _ _. mem_select table keys)"
  "read_pk_index (mem_ops limit cap) = (\<lambda>_ table db. (Inr (Some (table @ ''_pkey'')), db))"
  "occ (mem_ops limit cap) = mem_occ" "max_quarantine (mem_ops limit cap) = cap"
  by (simp_all add: mem_ops_def)

interpretation mem: target_db "mem_ops limit cap" mem_holds "\<lambda>_. True" for limit cap
  by unfold_locales
    (auto simp: mem_occ_def mem_holds_def intro: mem_insert_keeps mem_insert_stores [unfolded mem_holds_def]
      mem_select_sound [unfolded mem_holds_def] simp: mem_select_def)

lemma mem_env_simps [simp]:
  "ie_load (mem_env limit cap) = mem_ops limit cap" "ie_progress (mem_env limit cap) = None"
  "ie_cursor (mem_env limit cap) = (\<lambda>_ db. (Inr (), db))" "ie_ddl (mem_env limit cap) = (\<lambda>_ _ db. (Inr (), db))"
  "ie_fetch (mem_env limit cap) = (\<lambda>_ db. (Inr None, db))" "ie_wait (mem_env limit cap) = (\<lambda>_ xs. [hd xs])"
  by (simp_all add: mem_env_def)

lemma mem_fair: "fair_wait (run_env (mem_env limit cap) n)"
  by (simp add: fair_wait_def run_env_def)

lemma mem_merge: "merge_ok (ie_merge (mem_env limit cap))"
  unfolding merge_ok_def
proof (intro allI conjI impI)
  fix xs :: "batch_work stream list"
  let ?errs = "concat (map (\<lambda>x. case snd x of Some e \<Rightarrow> [e] | None \<Rightarrow> []) xs)"
  have m: "ie_merge (mem_env limit cap) xs = (concat (map fst xs), List.find (\<lambda>_. True) ?errs)"
    by (simp add: mem_env_def)
  show "set (fst (ie_merge (mem_env limit cap) xs)) \<subseteq> (\<Union>x \<in> set xs. set (fst x))" by (auto simp: m)
  show "(\<Union>x \<in> set xs. set (fst x)) \<subseteq> set (fst (ie_merge (mem_env limit cap) xs))" by (auto simp: m)
  assume "snd (ie_merge (mem_env limit cap) xs) = None"
  then have "?errs = []" by (cases ?errs) (auto simp: m)
  then show "\<forall>x \<in> set xs. snd x = None" by (auto split: option.splits)
qed

interpretation memrun: importer "mem_env limit cap" mem_holds "\<lambda>_. True" n for limit cap n
  by unfold_locales
    (auto simp: mem_fair mem_occ_def occ_config_ok_def mem_holds_def mem_select_def
      intro: mem_insert_keeps mem_insert_stores [unfolded mem_holds_def] mem_select_sound [unfolded mem_holds_def])

end
