(* ===== verification/Poison.thy ===== *)
theory Poison
  imports MemTarget
begin

text \<open>
  \<^verbatim>\<open>core/batched_import.py\<close>, \<open>_load_batch\<close>: poison-row isolation stated exactly. On a target that
  rejects a statement with a permanent error exactly when one of its rows is bad, the binary
  split loads every good row and quarantines every bad one, and the quarantine never passes
  its cap. The contract is the locale \<open>poison_target\<close>.
\<close>

text \<open>Over no promise about rows at all, the loader still keeps its pool and its quarantine in order.\<close>

interpretation any: target_db ops "\<lambda>_ _ _ _. True" "\<lambda>_. True" for ops
  by unfold_locales simp_all

lemma safe_frame:
  fixes ops :: "('c, 't) load_ops"
  assumes "any.trusted w" "slots s \<noteq> []" "occ_config_ok (occ ops)" "execute_for_mode ops w s = (q, s1)"
  shows "q_part s1 = q_part s \<and> slots s1 \<noteq> []"
proof -
  note sf = any.execute_for_mode_safe [OF assms(1-3)]
  from any.safeD(1,2) [OF sf assms(4)] assms(2) show ?thesis
    by (auto simp: any.keeps_def)
qed

locale poison_target =
  fixes ops :: "('c, 't) load_ops"
    and bad :: "string list \<Rightarrow> pyrow \<Rightarrow> bool"
    and perm :: pyexc
  assumes connects: "\<exists>c t'. connect ops t = (Inr c, t')"
    and rejects: "list_ex (bad (w_columns w)) rows \<Longrightarrow>
        \<exists>t'. run_insert ops c (insert_statement w (length rows) (w_mode w)) (flatten_params rows (w_columns w)) t = (Inl perm, t')"
    and accepts: "w_mode w = NONE \<Longrightarrow> w_keys w = [] \<Longrightarrow> \<not> list_ex (bad (w_columns w)) rows \<Longrightarrow>
        \<exists>t'. run_insert ops c (insert_statement w (length rows) (w_mode w)) (flatten_params rows (w_columns w)) t
               = (Inr (Some (int (length rows))), t')"
    and permanent: "is_exception perm" "\<not> is_retryable_load_error perm" "sqlstate perm \<noteq> None" "sqlstate perm \<noteq> Some UNIQUE_VIOLATION"
    and retry_ok: "occ_config_ok (occ ops)"
begin

lemma lease_result:
  assumes "slots s \<noteq> []" "lease (pool_part ops) b body s = (r, s')"
  obtains c s1 s2 where "body c s1 = (r, s2)"
  using assms(2,1)
proof (cases rule: lease_cases)
  case (no_connect e t)
  with connects [of "target s"] show ?thesis by auto
next
  case (ran c s1 q s2)
  with that show ?thesis by blast
qed

lemma execute_insert_bad:
  assumes "slots s \<noteq> []" "list_ex (bad (w_columns w)) (w_rows w)"
  shows "\<exists>s'. execute_insert ops (insert_statement w (length (w_rows w)) (w_mode w))
      (flatten_params (w_rows w) (w_columns w)) (length (w_rows w)) (w_mode w) s = (Inl perm, s')"
proof -
  let ?body = "\<lambda>c. on_target (run_insert ops c (insert_statement w (length (w_rows w)) (w_mode w)) (flatten_params (w_rows w) (w_columns w)))"
  obtain r s' where l: "lease (pool_part ops) True ?body s = (r, s')" by force
  with assms(1) obtain c and s1 s2 :: "('c, 't) loader" where b: "?body c s1 = (r, s2)"
    by (rule lease_result)
  with rejects [OF assms(2), of c "target s1"] have "r = Inl perm" by (auto simp: on_target_def)
  with l show ?thesis by (simp add: execute_insert_def)
qed

lemma execute_insert_good:
  assumes "slots s \<noteq> []" "w_mode w = NONE" "w_keys w = []" "\<not> list_ex (bad (w_columns w)) (w_rows w)"
  shows "\<exists>s'. execute_insert ops (insert_statement w (length (w_rows w)) (w_mode w))
      (flatten_params (w_rows w) (w_columns w)) (length (w_rows w)) (w_mode w) s = (Inr (int (length (w_rows w)), 0), s')"
proof -
  let ?body = "\<lambda>c. on_target (run_insert ops c (insert_statement w (length (w_rows w)) (w_mode w)) (flatten_params (w_rows w) (w_columns w)))"
  obtain r s' where l: "lease (pool_part ops) True ?body s = (r, s')" by force
  with assms(1) obtain c and s1 s2 :: "('c, 't) loader" where b: "?body c s1 = (r, s2)"
    by (rule lease_result)
  with accepts [OF assms(2-4), of c "target s1"] have "r = Inr (Some (int (length (w_rows w))))"
    by (auto simp: on_target_def)
  with l show ?thesis by (simp add: execute_insert_def inserted_rows_def)
qed

lemma first_attempt:
  fixes s :: "('c, 't) loader"
  assumes "\<And>n. \<exists>s'. act (s\<lparr>attempts := n\<rparr>) = (r, s')" "\<not> retried (lift_occ (occ ops) :: ('c, 't) loader occ_config) r"
  shows "\<exists>s'. with_occ_retry (lift_occ (occ ops)) act (s\<lparr>attempts := 0\<rparr>) = (r, s')"
proof -
  have ok: "occ_config_ok (lift_occ (occ ops))" using retry_ok by (simp add: occ_config_ok_def lift_occ_def)
  obtain s' where "act (s\<lparr>attempts := 0\<rparr>) = (r, s')" using assms(1) by blast
  with assms(2) show ?thesis
    by (cases r) (auto simp: with_occ_retry_ok [OF ok] retried_def)
qed

lemma execute_for_mode_bad:
  assumes "slots s \<noteq> []" "w_mode w = NONE" "list_ex (bad (w_columns w)) (w_rows w)"
  shows "\<exists>s'. execute_for_mode ops w s = (Inl perm, s')"
proof -
  have "\<exists>s'. insert_attempt ops w (s\<lparr>attempts := n\<rparr>) = (Inl perm, s')" for n
    using execute_insert_bad [of "s\<lparr>attempts := Suc n\<rparr>" w] assms permanent
    by (auto simp: insert_attempt_def)
  moreover have "\<not> retried (lift_occ (occ ops) :: ('c, 't) loader occ_config) (Inl perm :: pyexc + int \<times> int)"
    using permanent(2) by (simp add: retried_def lift_occ_def)
  ultimately obtain s' where
    "with_occ_retry (lift_occ (occ ops)) (insert_attempt ops w) (s\<lparr>attempts := 0\<rparr>) = (Inl perm, s')"
    using first_attempt [where act = "insert_attempt ops w" and r = "Inl perm"] by blast
  with assms(2) show ?thesis by (simp add: execute_for_mode_def)
qed

lemma execute_for_mode_good:
  assumes "slots s \<noteq> []" "w_mode w = NONE" "w_keys w = []" "\<not> list_ex (bad (w_columns w)) (w_rows w)"
  shows "\<exists>s'. execute_for_mode ops w s = (Inr (int (length (w_rows w)), 0), s')"
proof -
  have "\<exists>s'. insert_attempt ops w (s\<lparr>attempts := n\<rparr>) = (Inr (int (length (w_rows w)), 0), s')" for n
    using execute_insert_good [of "s\<lparr>attempts := Suc n\<rparr>" w] assms
    by (auto simp: insert_attempt_def)
  moreover have "\<not> retried (lift_occ (occ ops) :: ('c, 't) loader occ_config) (Inr (int (length (w_rows w)), 0) :: pyexc + int \<times> int)"
    by (simp add: retried_def)
  ultimately obtain s' where
    "with_occ_retry (lift_occ (occ ops)) (insert_attempt ops w) (s\<lparr>attempts := 0\<rparr>) = (Inr (int (length (w_rows w)), 0), s')"
    using first_attempt [where act = "insert_attempt ops w" and r = "Inr (int (length (w_rows w)), 0)"] by blast
  with assms(2) show ?thesis by (simp add: execute_for_mode_def)
qed
text \<open>Rows in quarantine after the call: those before, and every bad row of the batch.\<close>

lemma poison_isolation:
  "w_mode w = NONE \<Longrightarrow> w_keys w = [] \<Longrightarrow> slots s \<noteq> [] \<Longrightarrow>
   quarantine_total s + length (filter (bad (w_columns w)) (w_rows w)) < max_quarantine ops \<Longrightarrow>
   \<exists>s'. load_batch ops w s = (Inr (int (length (filter (\<lambda>row. \<not> bad (w_columns w) row) (w_rows w))), 0), s')
      \<and> set (quarantine_seen s') = set (quarantine_seen s)
           \<union> quarantined_row_identity ops w ` set (filter (bad (w_columns w)) (w_rows w))
      \<and> quarantine_total s' \<le> quarantine_total s + length (filter (bad (w_columns w)) (w_rows w))
      \<and> slots s' \<noteq> []"
proof (induction "length (w_rows w)" arbitrary: w s rule: less_induct)
  case less
  note mode = less.prems(1) and keys = less.prems(2) and sl = less.prems(3) and room = less.prems(4)
  have cap: "\<not> max_quarantine ops \<le> quarantine_total s" using room by simp
  have tr: "any.trusted w" using keys mode by (simp add: any.trusted_def)
  have frame: "q_part s1 = q_part s \<and> slots s1 \<noteq> []" if "execute_for_mode ops w s = (q, s1)" for q s1
    using safe_frame [OF tr sl retry_ok that] .
  show ?case
  proof (cases "list_ex (bad (w_columns w)) (w_rows w)")
    case False
    then have none: "filter (bad (w_columns w)) (w_rows w) = []" "filter (\<lambda>row. \<not> bad (w_columns w) row) (w_rows w) = w_rows w"
      by (auto simp: list_ex_iff filter_empty_conv filter_id_conv)
    from execute_for_mode_good [OF sl mode keys False] obtain s1 where
      x: "execute_for_mode ops w s = (Inr (int (length (w_rows w)), 0), s1)" by blast
    with cap have "load_batch ops w s = (Inr (int (length (w_rows w)), 0), s1)"
      by (simp add: load_batch.simps [of ops w s])
    with frame [OF x] none show ?thesis by (simp add: q_part_def)
  next
    case True
    from execute_for_mode_bad [OF sl mode True] obtain s1 where x: "execute_for_mode ops w s = (Inl perm, s1)" by blast
    have f: "quarantine_total s1 = quarantine_total s" "quarantine_seen s1 = quarantine_seen s" "slots s1 \<noteq> []"
      using frame [OF x] by (simp_all add: q_part_def)
    note unfold = load_batch.simps [of ops w s]
    show ?thesis
    proof (cases "length (w_rows w) \<le> 1")
      case one: True
      then obtain row where row: "w_rows w = [row]" "bad (w_columns w) row" using True by (cases "w_rows w") auto
      define s2 where "s2 = snd (quarantine_one ops w perm s1)"
      have qo: "quarantine_one ops w perm s1 = (Inr (), s2)"
        using row(1) by (simp add: s2_def quarantine_one_def Let_def)
      have q2: "set (quarantine_seen s2) = insert (quarantined_row_identity ops w row) (set (quarantine_seen s1))"
          "quarantine_total s2 \<le> Suc (quarantine_total s1)" "slots s2 = slots s1"
        using row(1) by (auto simp: s2_def quarantine_one_def Let_def)
      have "load_batch ops w s = (Inr (0, 0), s2)"
        using cap x permanent(1-3) one qo by (simp add: unfold)
      with row f q2 show ?thesis by auto
    next
      case False
      define mid where "mid = length (w_rows w) div 2"
      let ?L = "w\<lparr>w_rows := take mid (w_rows w)\<rparr>" and ?R = "w\<lparr>w_rows := drop mid (w_rows w)\<rparr>"
      have len: "length (w_rows ?L) < length (w_rows w)" "length (w_rows ?R) < length (w_rows w)"
        using False by (auto simp: mid_def)
      let ?b = "bad (w_columns w)"
      have halves: "filter P (w_rows w) = filter P (take mid (w_rows w)) @ filter P (drop mid (w_rows w))" for P
        by (metis append_take_drop_id filter_append)
      have ident: "quarantined_row_identity ops ?L = quarantined_row_identity ops w"
        "quarantined_row_identity ops ?R = quarantined_row_identity ops w"
        by (simp_all add: fun_eq_iff quarantined_row_identity_def ident_names_def)
      from less.hyps [OF len(1), of s1] mode keys f room halves [of ?b] obtain s2 where
        l: "load_batch ops ?L s1 = (Inr (int (length (filter (\<lambda>row. \<not> ?b row) (take mid (w_rows w)))), 0), s2)" and
        l2: "set (quarantine_seen s2) = set (quarantine_seen s) \<union> quarantined_row_identity ops w ` set (filter ?b (take mid (w_rows w)))"
          "quarantine_total s2 \<le> quarantine_total s + length (filter ?b (take mid (w_rows w)))" "slots s2 \<noteq> []"
        by (auto simp: ident)
      from less.hyps [OF len(2), of s2] mode keys l2 room halves [of ?b] obtain s3 where
        r: "load_batch ops ?R s2 = (Inr (int (length (filter (\<lambda>row. \<not> ?b row) (drop mid (w_rows w)))), 0), s3)" and
        r2: "set (quarantine_seen s3) = set (quarantine_seen s2) \<union> quarantined_row_identity ops w ` set (filter ?b (drop mid (w_rows w)))"
          "quarantine_total s3 \<le> quarantine_total s2 + length (filter ?b (drop mid (w_rows w)))" "slots s3 \<noteq> []"
        by (auto simp: ident)
      have "load_batch ops w s = (Inr (int (length (filter (\<lambda>row. \<not> ?b row) (w_rows w))), 0), s3)"
        using cap x permanent(1-3) False l r by (simp add: unfold mid_def [symmetric] halves)
      moreover have "set (quarantine_seen s3) = set (quarantine_seen s) \<union> quarantined_row_identity ops w ` set (filter ?b (w_rows w))"
        unfolding halves [of ?b] using l2(1) r2(1) by (auto simp: image_Un)
      moreover have "quarantine_total s3 \<le> quarantine_total s + length (filter ?b (w_rows w))"
        unfolding halves [of ?b] using l2(2) r2(2) by simp
      ultimately show ?thesis using r2(3) by blast
    qed
  qed
qed

end

definition mem_bad :: "nat \<Rightarrow> string list \<Rightarrow> pyrow \<Rightarrow> bool" where
  "mem_bad limit columns row = list_ex (\<lambda>c. limit < value_bytes (row_get row c)) columns"

lemma mem_bad_params:
  "list_ex (\<lambda>v. limit < value_bytes v) (flatten_params rows columns) \<longleftrightarrow> list_ex (mem_bad limit columns) rows"
  by (auto simp: flatten_params_def mem_bad_def list_ex_iff)

interpretation mempoison: poison_target "mem_ops limit cap" "mem_bad limit" too_big_error for limit cap
proof
  show "\<exists>c t'. connect (mem_ops limit cap) t = (Inr c, t')" for t by simp
  show "\<exists>t'. run_insert (mem_ops limit cap) c (insert_statement w (length rows) (w_mode w)) (flatten_params rows (w_columns w)) t
      = (Inl too_big_error, t')" if "list_ex (mem_bad limit (w_columns w)) rows" for w rows c t
    using that by (simp add: mem_insert_def Let_def mem_bad_params)
  show "\<exists>t'. run_insert (mem_ops limit cap) c (insert_statement w (length rows) (w_mode w)) (flatten_params rows (w_columns w)) t
      = (Inr (Some (int (length rows))), t')"
    if "w_mode w = NONE" "w_keys w = []" "\<not> list_ex (mem_bad limit (w_columns w)) rows" for w rows c t
    using that by (simp add: mem_insert_def Let_def mem_bad_params insert_statement_def chunks_flatten)
qed (simp_all add: too_big_error_def mem_error_def is_exception_def error_class_defs UNIQUE_VIOLATION_def
      mem_occ_def occ_config_ok_def)

section \<open>Properties\<close>





end
