(* ===== verification/JobStore.thy ===== *)
theory JobStore
  imports PyString
begin

text \<open>
  \<^verbatim>\<open>core/job_store.py\<close>: the two stores of job snapshots, the in-memory one and the SQLite one,
  and the contract \<open>job_store\<close> the job manager relies on: a store is a recency-ordered
  dictionary of snapshots. The jobs are those of \<^verbatim>\<open>core/models.py\<close> with the fields the manager
  reads; the record extension \<open>'m\<close> stands for the others. A payload (the model's JSON) is the job.
\<close>

section \<open>Jobs\<close>

datatype job_status = PENDING | RUNNING | DONE | FAILED | CANCELLED
datatype chunk_status = ChunkPending | ChunkInProgress | ChunkDone | ChunkFailed

record chunk_state =
  chunk_id :: string
  chunk_status :: chunk_status
  chunk_rows_loaded :: nat
  chunk_rows_skipped :: nat
  chunk_rows_quarantined :: nat
  chunk_attempts :: nat

record migration_job =
  job_id :: string
  status :: job_status
  chunks :: "chunk_state list"
  progress_pct :: real
  error_count :: int
  resume_batch_watermark :: "(string, int) pydict"
  watermark :: "string option"

type_synonym 'm persisted = "'m migration_job_scheme \<times> string option"

definition terminal :: "job_status \<Rightarrow> bool" where
  "terminal st = (st = DONE \<or> st = FAILED \<or> st = CANCELLED)"

section \<open>The store interface\<close>

record ('s, 'm) store_ops =
  save :: "'m migration_job_scheme \<Rightarrow> string option \<Rightarrow> 's \<Rightarrow> 's"
  load_all :: "'s \<Rightarrow> 'm persisted list"
  delete :: "string \<Rightarrow> 's \<Rightarrow> 's"
  prune :: "int \<Rightarrow> 's \<Rightarrow> string list \<times> 's"

type_synonym 'm snapshots = "(string, 'm persisted) pydict"

text \<open>The snapshots retention drops: every \<open>DONE\<close> one but the newest \<open>keep\<close>.\<close>

definition done_ids :: "'m snapshots \<Rightarrow> string list" where
  "done_ids d = map fst (filter (\<lambda>(jid, job, err). status job = DONE) d)"

definition pruned_ids :: "int \<Rightarrow> 'm snapshots \<Rightarrow> string list" where
  "pruned_ids keep d = take (length (done_ids d) - nat keep) (done_ids d)"

definition snapshots_ok :: "'m snapshots \<Rightarrow> bool" where
  "snapshots_ok d = (dict_ok d \<and> (\<forall>(jid, job, err) \<in> set d. job_id job = jid))"

locale job_store =
  fixes ops :: "('s, 'm) store_ops"
    and snapshots :: "'s \<Rightarrow> 'm snapshots"
    and good :: "'s \<Rightarrow> bool"
  assumes snapshots_good: "good s \<Longrightarrow> snapshots_ok (snapshots s)"
    and save_good: "good s \<Longrightarrow> good (save ops job err s)"
    and save_snapshots: "good s \<Longrightarrow>
        snapshots (save ops job err s) = dict_pop (job_id job) (snapshots s) @ [(job_id job, job, err)]"
    and load_snapshots: "good s \<Longrightarrow> load_all ops s = map snd (snapshots s)"
    and delete_good: "good s \<Longrightarrow> good (delete ops jid s)"
    and delete_snapshots: "good s \<Longrightarrow> snapshots (delete ops jid s) = dict_pop jid (snapshots s)"
    and prune_good: "good s \<Longrightarrow> prune ops keep s = (ids, s') \<Longrightarrow> good s'"
    and prune_ids: "good s \<Longrightarrow> prune ops keep s = (ids, s') \<Longrightarrow> set ids = set (pruned_ids keep (snapshots s))"
    and prune_snapshots: "good s \<Longrightarrow> prune ops keep s = (ids, s') \<Longrightarrow>
        snapshots s' = filter (\<lambda>(jid, p). jid \<notin> set ids) (snapshots s)"
begin

lemma save_lookup: "good s \<Longrightarrow>
  map_of (snapshots (save ops job err s)) jid = (if jid = job_id job then Some (job, err) else map_of (snapshots s) jid)"
  by (auto simp: save_snapshots map_add_def split: option.split)

text \<open>What is pruned was finished, and enough finished jobs stay.\<close>

lemma prune_only_done:
  assumes "good s" "prune ops keep s = (ids, s')" "jid \<in> set ids"
  shows "\<exists>job err. (jid, job, err) \<in> set (snapshots s) \<and> status job = DONE"
proof -
  have "jid \<in> set (done_ids (snapshots s))"
    using prune_ids [OF assms(1,2)] assms(3) by (auto simp: pruned_ids_def dest: in_set_takeD)
  then obtain p where "p \<in> set (snapshots s)" "fst p = jid" "status (fst (snd p)) = DONE"
    by (auto simp: done_ids_def case_prod_unfold)
  then show ?thesis by (metis prod.collapse)
qed

lemma prune_lookup:
  assumes "good s" "prune ops keep s = (ids, s')"
  shows "map_of (snapshots s') jid = (if jid \<in> set ids then None else map_of (snapshots s) jid)"
proof -
  have "map_of (filter (\<lambda>(k, v). k \<notin> set ids) d) jid = (if jid \<in> set ids then None else map_of d jid)"
    for d :: "(string \<times> 'm persisted) list"
    by (induction d) auto
  with prune_snapshots [OF assms] show ?thesis by simp
qed

end

section \<open>The in-memory store\<close>

type_synonym 'm memory_store = "'m snapshots"

definition memory_save :: "'m migration_job_scheme \<Rightarrow> string option \<Rightarrow> 'm memory_store \<Rightarrow> 'm memory_store" where
  "memory_save job err s = dict_set (job_id job) (job, err) (dict_pop (job_id job) s)"

definition memory_load_all :: "'m memory_store \<Rightarrow> 'm persisted list" where
  "memory_load_all s = map snd s"

definition memory_delete :: "string \<Rightarrow> 'm memory_store \<Rightarrow> 'm memory_store" where
  "memory_delete jid s = dict_pop jid s"

definition memory_prune :: "int \<Rightarrow> 'm memory_store \<Rightarrow> string list \<times> 'm memory_store" where
  "memory_prune keep s =
     (let done = map fst (filter (\<lambda>(jid, job, err). status job = DONE) s);
          to_delete = (if keep \<le> 0 then done else take (length done - nat keep) done)
      in (to_delete, fold dict_pop to_delete s))"

definition memory_ops :: "('m memory_store, 'm) store_ops" where
  "memory_ops = \<lparr>save = memory_save, load_all = memory_load_all, delete = memory_delete, prune = memory_prune\<rparr>"

lemma prune_list: "(if keep \<le> 0 then xs else take (length xs - nat keep) xs) = take (length xs - nat keep) xs"
  by simp

lemma fold_dict_pop: "fold dict_pop ids d = filter (\<lambda>(k, v). k \<notin> set ids) d"
proof (induction ids arbitrary: d)
  case Nil
  then show ?case by (simp add: case_prod_unfold)
next
  case (Cons i ids)
  then show ?case by (simp add: dict_pop_def case_prod_unfold conj_commute)
qed

lemma snapshots_ok_filter: "snapshots_ok d \<Longrightarrow> snapshots_ok (filter P d)"
  by (auto simp: snapshots_ok_def distinct_map inj_on_def)

lemma snapshots_ok_pop: "snapshots_ok d \<Longrightarrow> snapshots_ok (dict_pop k d)"
  by (simp add: dict_pop_def snapshots_ok_filter)

lemma snapshots_ok_snoc: "snapshots_ok d \<Longrightarrow> snapshots_ok (dict_pop (job_id job) d @ [(job_id job, job, err)])"
  by (auto simp: snapshots_ok_def dict_pop_def distinct_map inj_on_def)

lemma dict_set_popped: "dict_set k v (dict_pop k d) = dict_pop k d @ [(k, v)]"
  by (rule dict_set_absent) (auto simp: dict_pop_def)

interpretation mem_store: job_store memory_ops "\<lambda>s. s" snapshots_ok
  by unfold_locales
    (auto simp: memory_ops_def memory_save_def memory_load_all_def memory_delete_def memory_prune_def
      dict_set_popped snapshots_ok_snoc snapshots_ok_pop fold_dict_pop pruned_ids_def done_ids_def Let_def
      prune_list simp del: length_map intro: snapshots_ok_filter)

section \<open>The SQLite store\<close>

text \<open>
  The table \<open>jobs\<close>, its rows in insertion order, and the readings of the wall clock
  (\<open>updated_at\<close> is a reading; its ISO text orders as the reading does).
\<close>

record 'm job_row =
  r_job_id :: string
  r_payload :: "'m migration_job_scheme"
  r_error :: "string option"
  r_status :: job_status
  r_updated_at :: int

record 'm sqlite_store =
  job_rows :: "'m job_row list"
  reading :: "nat \<Rightarrow> int"
  readings :: nat

fun upsert_row :: "'m job_row \<Rightarrow> 'm job_row list \<Rightarrow> 'm job_row list" where
  "upsert_row new [] = [new]"
| "upsert_row new (r # rs) =
     (if r_job_id r = r_job_id new
      then r\<lparr>r_payload := r_payload new, r_error := r_error new, r_status := r_status new,
             r_updated_at := r_updated_at new\<rparr> # rs
      else r # upsert_row new rs)"

definition sqlite_save :: "'m migration_job_scheme \<Rightarrow> string option \<Rightarrow> 'm sqlite_store \<Rightarrow> 'm sqlite_store" where
  "sqlite_save job err s =
     s\<lparr>job_rows := upsert_row \<lparr>r_job_id = job_id job, r_payload = job, r_error = err, r_status = status job,
                           r_updated_at = reading s (readings s)\<rparr> (job_rows s),
       readings := Suc (readings s)\<rparr>"

definition by_time :: "'m sqlite_store \<Rightarrow> 'm job_row list" where
  "by_time s = sort_key r_updated_at (job_rows s)"

definition sqlite_load_all :: "'m sqlite_store \<Rightarrow> 'm persisted list" where
  "sqlite_load_all s = map (\<lambda>r. (r_payload r, r_error r)) (by_time s)"

definition sqlite_delete :: "string \<Rightarrow> 'm sqlite_store \<Rightarrow> 'm sqlite_store" where
  "sqlite_delete jid s = s\<lparr>job_rows := filter (\<lambda>r. r_job_id r \<noteq> jid) (job_rows s)\<rparr>"

definition sqlite_prune :: "int \<Rightarrow> 'm sqlite_store \<Rightarrow> string list \<times> 'm sqlite_store" where
  "sqlite_prune keep s =
     (let newest = map r_job_id (sort_key (\<lambda>r. - r_updated_at r) (filter (\<lambda>r. r_status r = DONE) (job_rows s)));
          to_delete = drop (nat (max keep 0)) newest
      in (to_delete, fold sqlite_delete to_delete s))"

definition sqlite_ops :: "('m sqlite_store, 'm) store_ops" where
  "sqlite_ops = \<lparr>save = sqlite_save, load_all = sqlite_load_all, delete = sqlite_delete, prune = sqlite_prune\<rparr>"

definition new_sqlite_store :: "(nat \<Rightarrow> int) \<Rightarrow> 'm sqlite_store" where
  "new_sqlite_store clock = \<lparr>job_rows = [], reading = clock, readings = 0\<rparr>"

definition sqlite_snapshots :: "'m sqlite_store \<Rightarrow> 'm snapshots" where
  "sqlite_snapshots s = map (\<lambda>r. (r_job_id r, r_payload r, r_error r)) (by_time s)"

text \<open>Rows carry past, distinct readings of a clock that moves forward, under distinct ids.\<close>

definition sqlite_good :: "'m sqlite_store \<Rightarrow> bool" where
  "sqlite_good s =
     (distinct (map r_job_id (job_rows s)) \<and> distinct (map r_updated_at (job_rows s))
      \<and> (\<forall>r \<in> set (job_rows s). r_job_id r = job_id (r_payload r) \<and> r_status r = status (r_payload r)
            \<and> r_updated_at r < reading s (readings s))
      \<and> (\<forall>n. reading s n < reading s (Suc n)))"

section \<open>The SQLite store is the in-memory store\<close>

lemma sort_key_unique:
  assumes "sorted (map f xs)" "distinct (map f xs)" "distinct (map f ys)" "set ys = set xs"
  shows "sort_key f ys = xs"
proof -
  have "sorted (map f (sort_key f ys))" "distinct (map f (sort_key f ys))" "set (sort_key f ys) = set xs"
    using assms by (auto simp: distinct_map)
  with assms(1,2) have "map f (sort_key f ys) = map f xs"
    by (intro sorted_distinct_set_unique) simp_all
  moreover have "inj_on f (set (sort_key f ys) \<union> set xs)"
    using assms(2) \<open>set (sort_key f ys) = set xs\<close> by (simp add: distinct_map)
  ultimately show ?thesis by (simp add: map_inj_on)
qed

lemma upsert_row_set:
  "distinct (map r_job_id rs) \<Longrightarrow> set (upsert_row new rs) = {r \<in> set rs. r_job_id r \<noteq> r_job_id new} \<union> {new}"
proof (induction new rs rule: upsert_row.induct)
  case (2 new r rs)
  show ?case
  proof (cases "r_job_id r = r_job_id new")
    case True
    then have "r\<lparr>r_payload := r_payload new, r_error := r_error new, r_status := r_status new,
        r_updated_at := r_updated_at new\<rparr> = new" by simp
    with True 2 show ?thesis by (auto simp: image_iff)
  next
    case False
    with 2 show ?thesis by auto
  qed
qed simp

lemma upsert_row_ids: "map r_job_id (upsert_row new rs) =
    (if r_job_id new \<in> set (map r_job_id rs) then map r_job_id rs else map r_job_id rs @ [r_job_id new])"
  by (induction new rs rule: upsert_row.induct) auto

lemma upsert_row_times:
  "distinct (map r_updated_at rs) \<Longrightarrow> r_updated_at new \<notin> set (map r_updated_at rs) \<Longrightarrow>
     distinct (map r_updated_at (upsert_row new rs))"
proof (induction new rs rule: upsert_row.induct)
  case (2 new r rs)
  have "set (map r_updated_at (upsert_row new rs)) \<subseteq> insert (r_updated_at new) (set (map r_updated_at rs))" for new rs
    by (induction new rs rule: upsert_row.induct) auto
  from this [of new rs] 2 show ?case by auto
qed simp

lemma by_time_facts:
  "sqlite_good s \<Longrightarrow> sorted (map r_updated_at (by_time s)) \<and> distinct (map r_updated_at (by_time s)) \<and> set (by_time s) = set (job_rows s)"
  by (auto simp: by_time_def sqlite_good_def distinct_map)

lemma sqlite_save_by_time:
  fixes s :: "'m sqlite_store" and job :: "'m migration_job_scheme" and err :: "string option"
  assumes "sqlite_good s"
  defines "new \<equiv> \<lparr>r_job_id = job_id job, r_payload = job, r_error = err, r_status = status job,
                      r_updated_at = reading s (readings s)\<rparr>"
  shows "by_time (sqlite_save job err s) = filter (\<lambda>r. r_job_id r \<noteq> job_id job) (by_time s) @ [new]"
    and "sqlite_good (sqlite_save job err s)"
proof -
  note bt = by_time_facts [OF assms(1)]
  have job_rows': "job_rows (sqlite_save job err s) = upsert_row new (job_rows s)"
    by (simp add: sqlite_save_def new_def)
  have fresh: "\<forall>r \<in> set (job_rows s). r_updated_at r < r_updated_at new"
    using assms(1) by (simp add: sqlite_good_def new_def)
  then have notin: "r_updated_at new \<notin> set (map r_updated_at (job_rows s))" by auto
  have dist: "distinct (map r_updated_at (upsert_row new (job_rows s)))"
    using assms(1) notin by (intro upsert_row_times) (auto simp: sqlite_good_def)
  have st: "set (upsert_row new (job_rows s)) = {r \<in> set (job_rows s). r_job_id r \<noteq> job_id job} \<union> {new}"
    using assms(1) by (subst upsert_row_set) (auto simp: sqlite_good_def new_def)
  show "by_time (sqlite_save job err s) = filter (\<lambda>r. r_job_id r \<noteq> job_id job) (by_time s) @ [new]"
    unfolding by_time_def [of "sqlite_save job err s"] job_rows'
  proof (rule sort_key_unique)
    show "sorted (map r_updated_at (filter (\<lambda>r. r_job_id r \<noteq> job_id job) (by_time s) @ [new]))"
      using bt fresh by (auto simp: sorted_append sorted_filter intro: less_imp_le)
    show "distinct (map r_updated_at (filter (\<lambda>r. r_job_id r \<noteq> job_id job) (by_time s) @ [new]))"
      using bt fresh by (auto simp: distinct_map inj_on_def)
    show "set (upsert_row new (job_rows s)) = set (filter (\<lambda>r. r_job_id r \<noteq> job_id job) (by_time s) @ [new])"
      using st bt by auto
  qed (rule dist)
  have "reading s (readings s) < reading s (Suc (readings s))" using assms(1) by (simp add: sqlite_good_def)
  with assms(1) st dist show "sqlite_good (sqlite_save job err s)"
    unfolding sqlite_good_def job_rows' by (auto simp: upsert_row_ids sqlite_save_def new_def intro: less_trans)
qed

lemma sqlite_snapshots_ok: "sqlite_good s \<Longrightarrow> snapshots_ok (sqlite_snapshots s)"
  using by_time_facts [of s]
  by (auto simp: snapshots_ok_def sqlite_snapshots_def sqlite_good_def o_def by_time_def distinct_map)

lemma sqlite_filter_good: "sqlite_good s \<Longrightarrow> sqlite_good (s\<lparr>job_rows := filter P (job_rows s)\<rparr>)"
  by (auto simp: sqlite_good_def distinct_map inj_on_def)

lemma by_time_filter: "sqlite_good s \<Longrightarrow> by_time (s\<lparr>job_rows := filter P (job_rows s)\<rparr>) = filter P (by_time s)"
  unfolding by_time_def by (simp add: filter_sort)

lemma sqlite_delete_many: "fold sqlite_delete ids s = s\<lparr>job_rows := filter (\<lambda>r. r_job_id r \<notin> set ids) (job_rows s)\<rparr>"
  by (induction ids arbitrary: s) (auto simp: sqlite_delete_def conj_commute intro!: filter_cong)

lemma sorted_rev_neg: "sorted (map (\<lambda>x. - f x) (rev xs)) \<longleftrightarrow> sorted (map (f :: 'a \<Rightarrow> int) xs)"
  by (induction xs) (auto simp: sorted_append)

lemma newest_first: "sqlite_good s \<Longrightarrow>
  sort_key (\<lambda>r. - r_updated_at r) (filter P (job_rows s)) = rev (filter P (by_time s))"
proof (rule sort_key_unique)
  assume g: "sqlite_good s"
  note bt = by_time_facts [OF g]
  have "sorted (map r_updated_at (filter P (by_time s)))" using bt by (simp add: sorted_filter)
  then show "sorted (map (\<lambda>r. - r_updated_at r) (rev (filter P (by_time s))))"
    by (simp only: sorted_rev_neg)
  show "distinct (map (\<lambda>r. - r_updated_at r) (rev (filter P (by_time s))))"
    using bt by (auto simp: distinct_map inj_on_def)
  show "distinct (map (\<lambda>r. - r_updated_at r) (filter P (job_rows s)))"
    using g by (auto simp: sqlite_good_def distinct_map inj_on_def)
  show "set (filter P (job_rows s)) = set (rev (filter P (by_time s)))" using bt by auto
qed

lemma set_drop_rev: "set (drop k (rev xs)) = set (take (length xs - k) xs)"
  by (simp add: drop_rev)

lemma sqlite_done_ids:
  "sqlite_good s \<Longrightarrow> done_ids (sqlite_snapshots s) = map r_job_id (filter (\<lambda>r. r_status r = DONE) (by_time s))"
proof -
  assume g: "sqlite_good s"
  then have "\<forall>r \<in> set (by_time s). r_status r = status (r_payload r)"
    using by_time_facts [OF g] by (auto simp: sqlite_good_def)
  then show ?thesis
    by (simp add: done_ids_def sqlite_snapshots_def filter_map o_def case_prod_unfold cong: filter_cong)
qed

lemma sqlite_prune_ids:
  assumes "sqlite_good s" "sqlite_prune keep s = (ids, s')"
  shows "set ids = set (pruned_ids keep (sqlite_snapshots s))"
    and "s' = s\<lparr>job_rows := filter (\<lambda>r. r_job_id r \<notin> set ids) (job_rows s)\<rparr>"
proof -
  have ids: "ids = drop (nat (max keep 0)) (map r_job_id (rev (filter (\<lambda>r. r_status r = DONE) (by_time s))))"
    using assms(2) by (simp add: sqlite_prune_def newest_first [OF assms(1)] Let_def)
  have "nat (max keep 0) = nat keep" by simp
  then have "ids = drop (nat keep) (rev (map r_job_id (filter (\<lambda>r. r_status r = DONE) (by_time s))))"
    using ids by (simp only: rev_map)
  then show "set ids = set (pruned_ids keep (sqlite_snapshots s))"
    by (simp only: pruned_ids_def sqlite_done_ids [OF assms(1)] set_drop_rev)
  show "s' = s\<lparr>job_rows := filter (\<lambda>r. r_job_id r \<notin> set ids) (job_rows s)\<rparr>"
    using assms(2) by (auto simp: sqlite_prune_def Let_def sqlite_delete_many)
qed

interpretation sqlite: job_store sqlite_ops sqlite_snapshots sqlite_good
proof
  fix s s' :: "'a sqlite_store" and job :: "'a migration_job_scheme" and err jid keep ids
  assume g: "sqlite_good s"
  show "snapshots_ok (sqlite_snapshots s)" by (rule sqlite_snapshots_ok [OF g])
  show "sqlite_good (save sqlite_ops job err s)" using sqlite_save_by_time(2) [OF g] by (simp add: sqlite_ops_def)
  show "sqlite_snapshots (save sqlite_ops job err s) = dict_pop (job_id job) (sqlite_snapshots s) @ [(job_id job, job, err)]"
    using sqlite_save_by_time(1) [OF g, of job err]
    by (simp add: sqlite_ops_def sqlite_snapshots_def dict_pop_def filter_map o_def)
  show "load_all sqlite_ops s = map snd (sqlite_snapshots s)"
    by (simp add: sqlite_ops_def sqlite_load_all_def sqlite_snapshots_def)
  show "sqlite_good (delete sqlite_ops jid s)"
    using sqlite_filter_good [OF g] by (simp add: sqlite_ops_def sqlite_delete_def)
  show "sqlite_snapshots (delete sqlite_ops jid s) = dict_pop jid (sqlite_snapshots s)"
    using by_time_filter [OF g]
    by (simp add: sqlite_ops_def sqlite_delete_def sqlite_snapshots_def dict_pop_def filter_map o_def)
  assume "prune sqlite_ops keep s = (ids, s')"
  then have p: "sqlite_prune keep s = (ids, s')" by (simp add: sqlite_ops_def)
  show "sqlite_good s'" using sqlite_prune_ids(2) [OF g p] sqlite_filter_good [OF g] by simp
  show "set ids = set (pruned_ids keep (sqlite_snapshots s))" by (rule sqlite_prune_ids(1) [OF g p])
  show "sqlite_snapshots s' = filter (\<lambda>(jid, p). jid \<notin> set ids) (sqlite_snapshots s)"
    using sqlite_prune_ids(2) [OF g p] by_time_filter [OF g]
    by (simp add: sqlite_snapshots_def filter_map o_def case_prod_unfold)
qed

section \<open>Properties\<close>

lemma pruned_done_ids:
  fixes d :: "'m snapshots"
  assumes ok: "snapshots_ok d" and ids: "set ids = set (pruned_ids keep d)"
    and d': "d' = filter (\<lambda>(jid, p). jid \<notin> set ids) d"
  shows "done_ids d' = drop (length (done_ids d) - nat keep) (done_ids d)"
proof -
  have dist: "distinct (done_ids d)" using ok by (auto simp: snapshots_ok_def done_ids_def distinct_map inj_on_def)
  have fm: "filter P (map fst xs) = map fst (filter (\<lambda>(k, p). P k) xs)" for P and xs :: "(string \<times> 'm persisted) list"
    by (induction xs) auto
  have "done_ids d' = filter (\<lambda>jid. jid \<notin> set ids) (done_ids d)"
    by (simp add: done_ids_def d' fm filter_filter case_prod_unfold conj_commute)
  also have "\<dots> = filter (\<lambda>jid. jid \<notin> set (pruned_ids keep d)) (done_ids d)" by (simp add: ids)
  also have "\<dots> = drop (length (done_ids d) - nat keep) (done_ids d)"
  proof -
    let ?n = "length (done_ids d) - nat keep"
    have "filter (\<lambda>x. x \<notin> set (take ?n (done_ids d))) (take ?n (done_ids d) @ drop ?n (done_ids d)) = drop ?n (done_ids d)"
      using dist set_take_disj_set_drop_if_distinct [OF dist, of ?n ?n]
      by (subst filter_append) (auto simp: filter_id_conv simp del: append_take_drop_id)
    then show ?thesis by (simp add: pruned_ids_def)
  qed
  finally show ?thesis .
qed

text \<open>
  The SQLite store is the in-memory store: under a clock that moves forward, every operation
  on the table acts on its snapshots, read oldest first, as the in-memory one does.
\<close>

theorem sqlite_refines_memory:
  fixes s :: "'m sqlite_store"
  assumes "sqlite_good s"
  shows "sqlite_load_all s = memory_load_all (sqlite_snapshots s)
    \<and> sqlite_snapshots (sqlite_save job err s) = memory_save job err (sqlite_snapshots s)
    \<and> sqlite_snapshots (sqlite_delete jid s) = memory_delete jid (sqlite_snapshots s)
    \<and> sqlite_snapshots (snd (sqlite_prune keep s)) = snd (memory_prune keep (sqlite_snapshots s))
    \<and> set (fst (sqlite_prune keep s)) = set (fst (memory_prune keep (sqlite_snapshots s)))
    \<and> sqlite_good (sqlite_save job err s) \<and> sqlite_good (sqlite_delete jid s) \<and> sqlite_good (snd (sqlite_prune keep s))"
proof -
  note g = assms and g' = sqlite_snapshots_ok [OF assms]
  obtain ids s' where p: "sqlite_prune keep s = (ids, s')" by force
  obtain ids2 d' where p2: "memory_prune keep (sqlite_snapshots s) = (ids2, d')" by force
  have ids: "set ids = set ids2"
    using sqlite.prune_ids [OF g, of keep ids s'] mem_store.prune_ids [OF g', of keep ids2 d'] p p2
    by (simp add: sqlite_ops_def memory_ops_def)
  have "sqlite_snapshots s' = d'"
    using sqlite.prune_snapshots [OF g, of keep ids s'] mem_store.prune_snapshots [OF g', of keep ids2 d'] p p2 ids
    by (simp add: sqlite_ops_def memory_ops_def)
  with ids p p2 show ?thesis
    using sqlite.load_snapshots [OF g] sqlite.save_snapshots [OF g, of job err] sqlite.delete_snapshots [OF g, of jid]
      sqlite.save_good [OF g, of job err] sqlite.delete_good [OF g, of jid] sqlite.prune_good [OF g, of keep ids s']
      mem_store.save_snapshots [OF g', of job err]
    by (simp add: sqlite_ops_def memory_ops_def memory_load_all_def memory_delete_def)
qed

theorem sqlite_refines_memory_witness:
  "sqlite_load_all (new_sqlite_store int :: unit sqlite_store) = memory_load_all (sqlite_snapshots (new_sqlite_store int))"
  by (rule conjunct1 [OF sqlite_refines_memory]) (simp add: sqlite_good_def new_sqlite_store_def)

text \<open>
  Retention deletes finished work only, and keeps the newest of it: pruning to \<open>keep\<close> removes
  \<open>DONE\<close> jobs alone, leaves every other job and its order, and the \<open>DONE\<close> jobs left are the
  \<open>keep\<close> most recent.
\<close>

theorem prune_keeps_newest:
  fixes s :: "'m sqlite_store"
  assumes "sqlite_good s" "sqlite_prune keep s = (ids, s')"
  shows "done_ids (sqlite_snapshots s') = drop (length (done_ids (sqlite_snapshots s)) - nat keep) (done_ids (sqlite_snapshots s))
    \<and> filter (\<lambda>(jid, job, err). status job \<noteq> DONE) (sqlite_snapshots s')
        = filter (\<lambda>(jid, job, err). status job \<noteq> DONE) (sqlite_snapshots s)"
proof
  have p: "prune sqlite_ops keep s = (ids, s')" using assms(2) by (simp add: sqlite_ops_def)
  note snap = sqlite.prune_snapshots [OF assms(1) p] and only = sqlite.prune_only_done [OF assms(1) p]
  show "done_ids (sqlite_snapshots s') = drop (length (done_ids (sqlite_snapshots s)) - nat keep) (done_ids (sqlite_snapshots s))"
    by (rule pruned_done_ids [OF sqlite_snapshots_ok [OF assms(1)] sqlite.prune_ids [OF assms(1) p] snap])
  have dict: "dict_ok (sqlite_snapshots s)" using sqlite_snapshots_ok [OF assms(1)] by (simp add: snapshots_ok_def)
  have "x \<in> set (sqlite_snapshots s) \<Longrightarrow> status (fst (snd x)) \<noteq> DONE \<Longrightarrow> fst x \<notin> set ids" for x
  proof
    assume x: "x \<in> set (sqlite_snapshots s)" "status (fst (snd x)) \<noteq> DONE" "fst x \<in> set ids"
    obtain job err where d: "(fst x, job, err) \<in> set (sqlite_snapshots s)" "status job = DONE" using only [OF x(3)] by blast
    have "snd x = (job, err)" using dict d(1) x(1) by (metis eq_key_imp_eq_value prod.collapse)
    with d(2) x(2) show False by simp
  qed
  then show "filter (\<lambda>(jid, job, err). status job \<noteq> DONE) (sqlite_snapshots s')
        = filter (\<lambda>(jid, job, err). status job \<noteq> DONE) (sqlite_snapshots s)"
    unfolding snap by (auto simp: case_prod_unfold intro!: filter_cong)
qed

definition finished_job :: "string \<Rightarrow> unit migration_job_scheme" where
  "finished_job jid = \<lparr>job_id = jid, status = DONE, chunks = [], progress_pct = 100, error_count = 0,
     resume_batch_watermark = [], watermark = None\<rparr>"

theorem prune_keeps_newest_witness:
  "done_ids (sqlite_snapshots (snd (sqlite_prune 1 (sqlite_save (finished_job ''b'') None
      (sqlite_save (finished_job ''a'') None (new_sqlite_store int)))))) = [''b'']"
proof -
  let ?s0 = "new_sqlite_store int :: unit sqlite_store"
  let ?s2 = "sqlite_save (finished_job ''b'') None (sqlite_save (finished_job ''a'') None ?s0)"
  have "sqlite_good ?s0" by (simp add: sqlite_good_def new_sqlite_store_def)
  then have g: "sqlite_good ?s2" by (intro sqlite_save_by_time(2))
  have d: "done_ids (sqlite_snapshots ?s2) = [''a'', ''b'']"
    by (simp add: done_ids_def sqlite_snapshots_def by_time_def sqlite_save_def new_sqlite_store_def finished_job_def)
  show ?thesis
    using conjunct1 [OF prune_keeps_newest [OF g, of 1 "fst (sqlite_prune 1 ?s2)" "snd (sqlite_prune 1 ?s2)"]] d by simp
qed

end
