(* ===== verification/JobManager.thy ===== *)
theory JobManager
  imports JobStore
begin

text \<open>
  \<^verbatim>\<open>core/job_manager.py\<close>: the background-job manager over any store that keeps the contract
  \<open>job_store\<close>. Each method is one atomic step under the manager's lock; \<open>job_step\<close> interleaves
  them with the phases of every worker thread (\<open>_run\<close>). A clock reading is an argument.
\<close>

section \<open>State\<close>

record 'm job_record =
  rec_job :: "'m migration_job_scheme"
  rec_worker :: bool
  rec_error :: "string option"
  rec_cancel :: bool
  rec_last :: "real option"
  rec_stall_message :: "string option"
  rec_durable :: bool

record ('s, 'm) manager =
  records :: "(string, 'm job_record) pydict"
  store :: "'s option"
  stall_timeout :: "real option"

definition record_of :: "('s, 'm) manager \<Rightarrow> string \<Rightarrow> 'm job_record option" where
  "record_of m jid = map_of (records m) jid"

definition job_not_found :: "string \<Rightarrow> pyexc" where
  "job_not_found jid = raise_named ''JobNotFoundError'' jid"

definition persist :: "('s, 'm) store_ops \<Rightarrow> 'm job_record \<Rightarrow> ('s, 'm) manager \<Rightarrow> ('s, 'm) manager" where
  "persist ops r m =
     (case store m of
        Some st \<Rightarrow> if rec_durable r then m\<lparr>store := Some (save ops (rec_job r) (rec_error r) st)\<rparr> else m
      | None \<Rightarrow> m)"

text \<open>A record changed in place under its key, then persisted.\<close>

definition put_record :: "('s, 'm) store_ops \<Rightarrow> string \<Rightarrow> 'm job_record \<Rightarrow> ('s, 'm) manager \<Rightarrow> ('s, 'm) manager" where
  "put_record ops jid r m = persist ops r (m\<lparr>records := dict_set jid r (records m)\<rparr>)"

definition present :: "string option \<Rightarrow> bool" where
  "present e = (e \<noteq> None \<and> e \<noteq> Some '''')"

definition fail_open_chunks :: "chunk_state list \<Rightarrow> chunk_state list" where
  "fail_open_chunks cs =
     map (\<lambda>c. if chunk_status c = ChunkInProgress then c\<lparr>chunk_status := ChunkFailed\<rparr> else c) cs"

definition failed_chunks :: "chunk_state list \<Rightarrow> nat" where
  "failed_chunks cs = length (filter (\<lambda>c. chunk_status c = ChunkFailed) cs)"

text \<open>What a restart and a reap both do to a job.\<close>

definition abandon_job :: "'m migration_job_scheme \<Rightarrow> 'm migration_job_scheme" where
  "abandon_job job =
     (let cs = fail_open_chunks (chunks job)
      in job\<lparr>status := FAILED, chunks := cs,
             error_count := max (error_count job) (max (int (failed_chunks cs)) 1)\<rparr>)"

section \<open>Operations\<close>

definition INTERRUPTED_BY_RESTART_MESSAGE :: string where
  "INTERRUPTED_BY_RESTART_MESSAGE =
     ''Interrupted: the app restarted while this job was running. Retry the failed tables to resume.''"

definition is_interrupted_by_restart :: "string option \<Rightarrow> bool" where
  "is_interrupted_by_restart err =
     (case err of Some e \<Rightarrow> e \<noteq> '''' \<and> sublist INTERRUPTED_BY_RESTART_MESSAGE e | None \<Rightarrow> False)"

definition reconciled :: "'m persisted \<Rightarrow> 'm job_record" where
  "reconciled p =
     (let (job, err) = p;
          running = (status job = PENDING \<or> status job = RUNNING)
      in \<lparr>rec_job = (if running then abandon_job job else job), rec_worker = False,
          rec_error = (if running \<and> \<not> present err then Some INTERRUPTED_BY_RESTART_MESSAGE else err),
          rec_cancel = False, rec_last = None, rec_stall_message = None, rec_durable = True\<rparr>)"

definition restore :: "('s, 'm) store_ops \<Rightarrow> ('s, 'm) manager \<Rightarrow> ('s, 'm) manager" where
  "restore ops m =
     (case store m of
        None \<Rightarrow> m
      | Some st \<Rightarrow>
          (let m1 = m\<lparr>records := fold (\<lambda>p. dict_set (job_id (fst p)) (reconciled p)) (load_all ops st) (records m)\<rparr>
           in fold (persist ops) (map snd (records m1)) m1))"

definition attach_store :: "('s, 'm) store_ops \<Rightarrow> 's \<Rightarrow> ('s, 'm) manager \<Rightarrow> ('s, 'm) manager" where
  "attach_store ops st m = restore ops (m\<lparr>store := Some st\<rparr>)"

definition new_manager :: "('s, 'm) store_ops \<Rightarrow> 's option \<Rightarrow> real option \<Rightarrow> ('s, 'm) manager" where
  "new_manager ops st timeout = restore ops \<lparr>records = [], store = st, stall_timeout = timeout\<rparr>"

definition prune_manager :: "('s, 'm) store_ops \<Rightarrow> int \<Rightarrow> ('s, 'm) manager \<Rightarrow> nat \<times> ('s, 'm) manager" where
  "prune_manager ops keep m =
     (case store m of
        Some st \<Rightarrow>
          (let (deleted, st') = prune ops keep st
           in (length deleted, m\<lparr>store := Some st', records := fold dict_pop deleted (records m)\<rparr>))
      | None \<Rightarrow>
          (let done = map fst (filter (\<lambda>(jid, r). status (rec_job r) = DONE) (records m));
               to_delete = (if keep \<le> 0 then done else take (length done - nat keep) done)
           in (length to_delete, m\<lparr>records := fold dict_pop to_delete (records m)\<rparr>)))"

text \<open>\<open>blank\<close> is \<open>MigrationJob(job_id=...)\<close> without the fields the manager reads.\<close>

definition new_job :: "'m \<Rightarrow> string \<Rightarrow> 'm migration_job_scheme" where
  "new_job blank jid =
     \<lparr>job_id = jid, status = PENDING, chunks = [], progress_pct = 0, error_count = 0,
      resume_batch_watermark = [], watermark = None, \<dots> = blank\<rparr>"

definition submit :: "('s, 'm) store_ops \<Rightarrow> real \<Rightarrow> 'm \<Rightarrow> string \<Rightarrow> string option \<Rightarrow> bool \<Rightarrow>
    ('s, 'm) manager \<Rightarrow> (pyexc + string) \<times> ('s, 'm) manager" where
  "submit ops now blank jid stall durable m =
     (if record_of m jid \<noteq> None
      then (Inl (raise_named ''ValueError'' (''job_id already exists: '' @ jid)), m)
      else (Inr jid, put_record ops jid
              \<lparr>rec_job = new_job blank jid, rec_worker = True, rec_error = None, rec_cancel = False,
               rec_last = Some now, rec_stall_message = stall, rec_durable = durable\<rparr> m))"

definition get_status :: "('s, 'm) manager \<Rightarrow> string \<Rightarrow> pyexc + 'm migration_job_scheme" where
  "get_status m jid = (case record_of m jid of None \<Rightarrow> Inl (job_not_found jid) | Some r \<Rightarrow> Inr (rec_job r))"

definition get_error :: "('s, 'm) manager \<Rightarrow> string \<Rightarrow> pyexc + string option" where
  "get_error m jid = (case record_of m jid of None \<Rightarrow> Inl (job_not_found jid) | Some r \<Rightarrow> Inr (rec_error r))"

definition list_jobs :: "('s, 'm) manager \<Rightarrow> 'm migration_job_scheme list" where
  "list_jobs m = map (rec_job \<circ> snd) (records m)"

definition apply_update :: "('s, 'm) store_ops \<Rightarrow> real \<Rightarrow> string \<Rightarrow> ('m migration_job_scheme \<Rightarrow> 'm migration_job_scheme) \<Rightarrow>
    ('s, 'm) manager \<Rightarrow> (pyexc + unit) \<times> ('s, 'm) manager" where
  "apply_update ops now jid mutator m =
     (case record_of m jid of
        None \<Rightarrow> (Inl (job_not_found jid), m)
      | Some r \<Rightarrow> (Inr (), put_record ops jid (r\<lparr>rec_job := mutator (rec_job r), rec_last := Some now\<rparr>) m))"

text \<open>\<open>JobHandle.heartbeat\<close>: an update that changes nothing, whose failure is swallowed.\<close>

definition heartbeat :: "('s, 'm) store_ops \<Rightarrow> real \<Rightarrow> string \<Rightarrow> ('s, 'm) manager \<Rightarrow> ('s, 'm) manager" where
  "heartbeat ops now jid m = snd (apply_update ops now jid (\<lambda>job. job) m)"

definition request_cancel :: "string \<Rightarrow> ('s, 'm) manager \<Rightarrow> bool \<times> ('s, 'm) manager" where
  "request_cancel jid m =
     (case record_of m jid of
        None \<Rightarrow> (False, m)
      | Some r \<Rightarrow>
          if terminal (status (rec_job r)) then (False, m)
          else (True, m\<lparr>records := dict_set jid (r\<lparr>rec_cancel := True\<rparr>) (records m)\<rparr>))"

definition is_cancel_requested :: "('s, 'm) manager \<Rightarrow> string \<Rightarrow> bool" where
  "is_cancel_requested m jid = (case record_of m jid of None \<Rightarrow> False | Some r \<Rightarrow> rec_cancel r)"

fun py_replace :: "string \<Rightarrow> string \<Rightarrow> string \<Rightarrow> string" where
  "py_replace pat new [] = []"
| "py_replace pat new (c # cs) =
     (if pat \<noteq> [] \<and> prefix pat (c # cs) then new @ py_replace pat new (drop (length pat) (c # cs))
      else c # py_replace pat new cs)"

text \<open>The default text's dash is written \<open>--\<close> here.\<close>

definition stall_text :: "string option \<Rightarrow> real \<Rightarrow> string" where
  "stall_text msg timeout =
     (let seconds = int_str \<lfloor>timeout\<rfloor>
      in case msg of
           Some (c # cs) \<Rightarrow> py_replace ''{seconds}'' seconds (c # cs)
         | _ \<Rightarrow> ''No progress for '' @ seconds @ ''s -- the load appears to have stalled (an unresponsive source/target connection) and was stopped. Retry the failed tables to resume; the already-loaded tables are kept.'')"

definition stalled :: "real \<Rightarrow> real \<Rightarrow> 'm job_record \<Rightarrow> bool" where
  "stalled now timeout r =
     (status (rec_job r) = RUNNING
      \<and> (case rec_last r of None \<Rightarrow> False | Some t0 \<Rightarrow> \<not> now - t0 < timeout))"

definition reaped_record :: "real \<Rightarrow> real \<Rightarrow> 'm job_record \<Rightarrow> 'm job_record" where
  "reaped_record now timeout r =
     r\<lparr>rec_job := abandon_job (rec_job r),
       rec_error := (if present (rec_error r) then rec_error r
                     else Some (stall_text (rec_stall_message r) timeout)),
       rec_last := Some now\<rparr>"

fun reap_from :: "('s, 'm) store_ops \<Rightarrow> real \<Rightarrow> real \<Rightarrow> (string \<times> 'm job_record) list \<Rightarrow> ('s, 'm) manager \<Rightarrow>
    (string \<times> nat \<times> nat) list \<times> ('s, 'm) manager" where
  "reap_from ops now timeout [] m = ([], m)"
| "reap_from ops now timeout ((jid, r) # rs) m =
     (if stalled now timeout r
      then (let r' = reaped_record now timeout r;
                (more, m') = reap_from ops now timeout rs (put_record ops jid r' m)
            in ((job_id (rec_job r'), failed_chunks (chunks (rec_job r')), length (chunks (rec_job r'))) # more, m'))
      else reap_from ops now timeout rs m)"

text \<open>What the stall listener is told of each reaped job.\<close>

definition reap_stalled_jobs :: "('s, 'm) store_ops \<Rightarrow> real \<Rightarrow> ('s, 'm) manager \<Rightarrow>
    (string \<times> nat \<times> nat) list \<times> ('s, 'm) manager" where
  "reap_stalled_jobs ops now m =
     (case stall_timeout m of
        None \<Rightarrow> ([], m)
      | Some timeout \<Rightarrow> reap_from ops now timeout (records m) m)"

definition set_status :: "('s, 'm) store_ops \<Rightarrow> real \<Rightarrow> string \<Rightarrow> job_status \<Rightarrow> ('s, 'm) manager \<Rightarrow> ('s, 'm) manager" where
  "set_status ops now jid st m =
     (case record_of m jid of
        None \<Rightarrow> m
      | Some r \<Rightarrow> put_record ops jid (r\<lparr>rec_job := (rec_job r)\<lparr>status := st\<rparr>, rec_last := Some now\<rparr>) m)"

definition mark_done :: "('s, 'm) store_ops \<Rightarrow> string \<Rightarrow> ('s, 'm) manager \<Rightarrow> ('s, 'm) manager" where
  "mark_done ops jid m =
     (case record_of m jid of
        None \<Rightarrow> m
      | Some r \<Rightarrow>
          if status (rec_job r) = FAILED then m
          else put_record ops jid (r\<lparr>rec_job := (rec_job r)\<lparr>status := DONE\<rparr>\<rparr>) m)"

definition STOPPED_BY_USER :: string where
  "STOPPED_BY_USER = ''Stopped by user. Already-loaded tables are kept; retry the remaining (failed) tables to resume.''"

definition mark_cancelled :: "('s, 'm) store_ops \<Rightarrow> string \<Rightarrow> ('s, 'm) manager \<Rightarrow> ('s, 'm) manager" where
  "mark_cancelled ops jid m =
     (case record_of m jid of
        None \<Rightarrow> m
      | Some r \<Rightarrow>
          if status (rec_job r) = FAILED then m
          else put_record ops jid
                 (r\<lparr>rec_job := (rec_job r)\<lparr>status := CANCELLED\<rparr>,
                    rec_error := (if present (rec_error r) then rec_error r else Some STOPPED_BY_USER)\<rparr>) m)"

definition mark_failed :: "('s, 'm) store_ops \<Rightarrow> string \<Rightarrow> pyexc \<Rightarrow> ('s, 'm) manager \<Rightarrow> ('s, 'm) manager" where
  "mark_failed ops jid e m =
     (case record_of m jid of
        None \<Rightarrow> m
      | Some r \<Rightarrow>
          (let job = (rec_job r)\<lparr>status := FAILED\<rparr>
           in put_record ops jid
                (r\<lparr>rec_job := (if error_count job = 0 then job\<lparr>error_count := 1\<rparr> else job),
                   rec_error := Some (safe_error e)\<rparr>) m))"

section \<open>Workers\<close>

text \<open>
  Where each worker thread is in \<open>_run\<close>: before \<open>_set_status("RUNNING")\<close>, in its work, after a
  normal return, after the cancel check, after a raise, finished. A worker whose work raised no
  \<open>Exception\<close> (a \<open>SystemExit\<close>) is \<open>Dead\<close>: nothing marks its job.
\<close>

datatype phase = Starting | Working | Returned | Checked bool | Raised pyexc | Finished | Dead

type_synonym ('s, 'm) system = "('s, 'm) manager \<times> (string \<Rightarrow> phase option)"

text \<open>A worker reports progress; it does not write the job's identity or status.\<close>

definition progress_only :: "('m migration_job_scheme \<Rightarrow> 'm migration_job_scheme) \<Rightarrow> bool" where
  "progress_only f = (\<forall>job. job_id (f job) = job_id job \<and> status (f job) = status job)"

inductive job_step :: "('s, 'm) store_ops \<Rightarrow> ('s, 'm) system \<Rightarrow> ('s, 'm) system \<Rightarrow> bool"
  for ops where
  submitted: "submit ops now blank jid stall durable m = (Inr jid, m') \<Longrightarrow>
     job_step ops (m, ph) (m', ph(jid \<mapsto> Starting))"
| started: "ph jid = Some Starting \<Longrightarrow>
     job_step ops (m, ph) (set_status ops now jid RUNNING m, ph(jid \<mapsto> Working))"
| updated: "ph jid = Some Working \<Longrightarrow> progress_only f \<Longrightarrow> apply_update ops now jid f m = (r, m') \<Longrightarrow>
     job_step ops (m, ph) (m', ph)"
| returned: "ph jid = Some Working \<Longrightarrow> job_step ops (m, ph) (m, ph(jid \<mapsto> Returned))"
| raised: "ph jid = Some Working \<Longrightarrow> is_exception e \<Longrightarrow> job_step ops (m, ph) (m, ph(jid \<mapsto> Raised e))"
| died: "ph jid = Some Working \<Longrightarrow> job_step ops (m, ph) (m, ph(jid \<mapsto> Dead))"
| checked: "ph jid = Some Returned \<Longrightarrow>
     job_step ops (m, ph) (m, ph(jid \<mapsto> Checked (is_cancel_requested m jid)))"
| finished: "ph jid = Some (Checked False) \<Longrightarrow>
     job_step ops (m, ph) (mark_done ops jid m, ph(jid \<mapsto> Finished))"
| stopped: "ph jid = Some (Checked True) \<Longrightarrow>
     job_step ops (m, ph) (mark_cancelled ops jid m, ph(jid \<mapsto> Finished))"
| failed: "ph jid = Some (Raised e) \<Longrightarrow>
     job_step ops (m, ph) (mark_failed ops jid e m, ph(jid \<mapsto> Finished))"
| cancel: "request_cancel jid m = (b, m') \<Longrightarrow> job_step ops (m, ph) (m', ph)"
| reap: "reap_stalled_jobs ops now m = (told, m') \<Longrightarrow> job_step ops (m, ph) (m', ph)"
| pruned: "prune_manager ops keep m = (n, m') \<Longrightarrow> job_step ops (m, ph) (m', ph)"

inductive_cases job_stepE [consumes 1, case_names submitted started updated returned raised died checked
    finished stopped failed cancel reap pruned]: "job_step ops (m, ph) (m', ph')"

text \<open>A process starts from a store that survived the last one, with no worker.\<close>

inductive job_reachable :: "('s, 'm) store_ops \<Rightarrow> 's option \<Rightarrow> ('s, 'm) system \<Rightarrow> bool"
  for ops st where
  boot: "job_reachable ops st (new_manager ops st timeout, \<lambda>_. None)"
| move: "job_reachable ops st x \<Longrightarrow> job_step ops x y \<Longrightarrow> job_reachable ops st y"

section \<open>Well-formedness and the coherence of the store\<close>

definition wf_manager :: "('s, 'm) manager \<Rightarrow> bool" where
  "wf_manager m = (dict_ok (records m) \<and> (\<forall>(jid, r) \<in> set (records m). job_id (rec_job r) = jid))"

definition phase_ok :: "phase option \<Rightarrow> 'm job_record option \<Rightarrow> bool" where
  "phase_ok p r =
     (case p of
        Some Starting \<Rightarrow> (\<exists>x. r = Some x \<and> status (rec_job x) = PENDING)
      | Some Finished \<Rightarrow> (\<forall>x. r = Some x \<longrightarrow> terminal (status (rec_job x)))
      | None \<Rightarrow> (\<forall>x. r = Some x \<longrightarrow> terminal (status (rec_job x)))
      | Some _ \<Rightarrow> (\<exists>x. r = Some x \<and> (status (rec_job x) = RUNNING \<or> status (rec_job x) = FAILED)))"

lemma persist_records [simp]: "records (persist ops r m) = records m" "stall_timeout (persist ops r m) = stall_timeout m"
  by (auto simp: persist_def split: option.split)

lemma record_of_put [simp]: "record_of (put_record ops jid r m) k = (if k = jid then Some r else record_of m k)"
  by (simp add: record_of_def put_record_def)

lemma stall_timeout_put [simp]: "stall_timeout (put_record ops jid r m) = stall_timeout m"
  by (simp add: put_record_def)

lemma wf_record: "wf_manager m \<Longrightarrow> record_of m jid = Some r \<Longrightarrow> job_id (rec_job r) = jid"
  by (auto simp: wf_manager_def record_of_def dest: map_of_SomeD)

lemma wf_put: "wf_manager m \<Longrightarrow> job_id (rec_job r) = jid \<Longrightarrow> wf_manager (put_record ops jid r m)"
  by (auto simp: wf_manager_def put_record_def set_dict_set)

lemma wf_filter: "wf_manager m \<Longrightarrow> wf_manager (m\<lparr>records := filter P (records m)\<rparr>)"
  by (auto simp: wf_manager_def distinct_map inj_on_def)

lemma abandon_simps [simp]: "job_id (abandon_job job) = job_id job" "status (abandon_job job) = FAILED"
  by (simp_all add: abandon_job_def Let_def)

context job_store
begin

definition coherent :: "('s, 'm) manager \<Rightarrow> bool" where
  "coherent m =
     (\<forall>st. store m = Some st \<longrightarrow> good st
        \<and> (\<forall>jid. map_of (snapshots st) jid =
             (case record_of m jid of
                Some r \<Rightarrow> (if rec_durable r then Some (rec_job r, rec_error r) else None)
              | None \<Rightarrow> None)))"

definition system_ok :: "('s, 'm) system \<Rightarrow> bool" where
  "system_ok x = (wf_manager (fst x) \<and> coherent (fst x) \<and> (\<forall>jid. phase_ok (snd x jid) (record_of (fst x) jid)))"

lemma coherent_put:
  assumes "coherent m" "job_id (rec_job r) = jid"
    and "\<And>old. record_of m jid = Some old \<Longrightarrow> rec_durable old = rec_durable r"
  shows "coherent (put_record ops jid r m)"
proof (cases "store m")
  case None
  then show ?thesis by (simp add: coherent_def put_record_def persist_def)
next
  case (Some st)
  with assms(1) have g: "good st" and look: "\<And>k. map_of (snapshots st) k =
      (case record_of m k of Some r \<Rightarrow> (if rec_durable r then Some (rec_job r, rec_error r) else None) | None \<Rightarrow> None)"
    by (auto simp: coherent_def)
  show ?thesis
  proof (cases "rec_durable r")
    case True
    then have "store (put_record ops jid r m) = Some (save ops (rec_job r) (rec_error r) st)"
      using Some by (simp add: put_record_def persist_def)
    with g look True assms(2) show ?thesis
      by (auto simp: coherent_def save_good save_lookup)
  next
    case False
    then have "store (put_record ops jid r m) = Some st" using Some by (simp add: put_record_def persist_def)
    with g look False assms(3) show ?thesis by (auto simp: coherent_def split: option.split)
  qed
qed

text \<open>A step that only rewrites the record of one job, keeping its identity and durability.\<close>

definition touches :: "string \<Rightarrow> ('s, 'm) manager \<Rightarrow> ('s, 'm) manager \<Rightarrow> bool" where
  "touches jid m m' = (m' = m \<or> (\<exists>r r'. record_of m jid = Some r \<and> m' = put_record ops jid r' m
      \<and> job_id (rec_job r') = job_id (rec_job r) \<and> rec_durable r' = rec_durable r))"

lemma touches_ok: "touches jid m m' \<Longrightarrow> wf_manager m \<Longrightarrow> coherent m \<Longrightarrow> wf_manager m' \<and> coherent m'"
  using wf_record by (fastforce simp: touches_def intro!: wf_put coherent_put)

lemma marks_touch:
  "touches jid m (set_status ops now jid st m)"
  "touches jid m (mark_done ops jid m)" "touches jid m (mark_cancelled ops jid m)"
  "touches jid m (mark_failed ops jid e m)"
  "progress_only f \<Longrightarrow> touches jid m (snd (apply_update ops now jid f m))"
  by (auto simp: touches_def set_status_def mark_done_def mark_cancelled_def mark_failed_def apply_update_def
      progress_only_def Let_def split: option.split)

lemma reap_from_ok:
  "wf_manager m \<Longrightarrow> coherent m \<Longrightarrow> distinct (map fst rs) \<Longrightarrow> (\<forall>(jid, r) \<in> set rs. record_of m jid = Some r) \<Longrightarrow>
   reap_from ops now timeout rs m = (told, m') \<Longrightarrow>
     wf_manager m' \<and> coherent m'
     \<and> (\<forall>jid. record_of m' jid =
          (case map_of rs jid of
             Some r \<Rightarrow> Some (if stalled now timeout r then reaped_record now timeout r else r)
           | None \<Rightarrow> record_of m jid))"
proof (induction rs arbitrary: m told)
  case Nil
  then show ?case by simp
next
  case (Cons x rs)
  obtain jid r where x: "x = (jid, r)" by (cases x)
  have r: "record_of m jid = Some r" using Cons.prems(4) x by auto
  have notin: "jid \<notin> fst ` set rs" using Cons.prems(3) x by auto
  then have look: "map_of rs jid = None" by (simp add: map_of_eq_None_iff)
  show ?case
  proof (cases "stalled now timeout r")
    case True
    let ?m = "put_record ops jid (reaped_record now timeout r) m"
    obtain more where rest: "reap_from ops now timeout rs ?m = (more, m')"
      using Cons.prems(5) x True by (auto simp: Let_def split: prod.splits)
    have "touches jid m ?m" using r by (auto simp: touches_def reaped_record_def)
    then have ok: "wf_manager ?m" "coherent ?m" using touches_ok Cons.prems(1,2) by auto
    have "\<forall>(k, v) \<in> set rs. record_of ?m k = Some v" using Cons.prems(4) x notin by force
    with Cons.IH [OF ok _ _ rest] Cons.prems(3) x look True show ?thesis by (auto split: option.splits)
  next
    case False
    then have "reap_from ops now timeout rs m = (told, m')" using Cons.prems(5) x by simp
    with Cons.IH [OF Cons.prems(1,2) _ _ this] Cons.prems(3,4) x look r False show ?thesis
      by (auto split: option.splits)
  qed
qed

lemma reap_ok:
  assumes "wf_manager m" "coherent m" "reap_stalled_jobs ops now m = (told, m')"
  shows "wf_manager m' \<and> coherent m'
    \<and> (\<forall>jid. record_of m' jid =
         (case (stall_timeout m, record_of m jid) of
            (Some timeout, Some r) \<Rightarrow> Some (if stalled now timeout r then reaped_record now timeout r else r)
          | (_, r) \<Rightarrow> r))"
proof (cases "stall_timeout m")
  case None
  with assms show ?thesis by (simp add: reap_stalled_jobs_def)
next
  case (Some timeout)
  with assms(3) have run: "reap_from ops now timeout (records m) m = (told, m')" by (simp add: reap_stalled_jobs_def)
  have "distinct (map fst (records m))" "\<forall>(jid, r) \<in> set (records m). record_of m jid = Some r"
    using assms(1) by (auto simp: wf_manager_def record_of_def)
  from reap_from_ok [OF assms(1,2) this run] Some show ?thesis
    by (auto simp: record_of_def split: option.splits)
qed

lemma prune_manager_ok:
  assumes "wf_manager m" "coherent m" "prune_manager ops keep m = (n, m')"
  shows "wf_manager m' \<and> coherent m' \<and> stall_timeout m' = stall_timeout m
    \<and> (\<forall>jid. record_of m' jid = record_of m jid
         \<or> (record_of m' jid = None \<and> (\<exists>r. record_of m jid = Some r \<and> status (rec_job r) = DONE)))"
proof (cases "store m")
  case None
  define dones where "dones = map fst (filter (\<lambda>(jid, r). status (rec_job r) = DONE) (records m))"
  define ids where "ids = (if keep \<le> 0 then dones else take (length dones - nat keep) dones)"
  have sub: "set ids \<subseteq> set dones" by (auto simp: ids_def dest: in_set_takeD)
  have m': "m' = m\<lparr>records := filter (\<lambda>(k, v). k \<notin> set ids) (records m)\<rparr>"
    using assms(3) None by (simp add: prune_manager_def Let_def ids_def [symmetric] dones_def [symmetric] fold_dict_pop)
  have "map_of (filter (\<lambda>(k, v). k \<notin> set ids) d) jid = (if jid \<in> set ids then None else map_of d jid)"
    for jid and d :: "(string \<times> 'm job_record) list" by (induction d) auto
  moreover have "\<exists>r. record_of m jid = Some r \<and> status (rec_job r) = DONE" if "jid \<in> set ids" for jid
  proof -
    from that sub obtain p where "p \<in> set (records m)" "fst p = jid" "status (rec_job (snd p)) = DONE"
      by (auto simp: dones_def case_prod_unfold)
    moreover from this assms(1) have "map_of (records m) jid = Some (snd p)"
      by (auto simp: wf_manager_def intro!: map_of_is_SomeI)
    ultimately show ?thesis by (auto simp: record_of_def)
  qed
  ultimately show ?thesis
    using assms(1,2) None wf_filter by (auto simp: m' record_of_def coherent_def)
next
  case (Some st)
  obtain ids st' where p: "prune ops keep st = (ids, st')" by force
  have m': "m' = m\<lparr>store := Some st', records := filter (\<lambda>(k, v). k \<notin> set ids) (records m)\<rparr>"
    using assms(3) Some p by (simp add: prune_manager_def fold_dict_pop)
  have g: "good st" using assms(2) Some by (simp add: coherent_def)
  have look: "map_of (snapshots st) jid = (case record_of m jid of
      Some r \<Rightarrow> (if rec_durable r then Some (rec_job r, rec_error r) else None) | None \<Rightarrow> None)" for jid
    using assms(2) Some by (simp add: coherent_def)
  have lk: "map_of (filter (\<lambda>(k, v). k \<notin> set ids) d) jid = (if jid \<in> set ids then None else map_of d jid)"
    for jid and d :: "(string \<times> 'm job_record) list" by (induction d) auto
  then have rec': "record_of m' jid = (if jid \<in> set ids then None else record_of m jid)" for jid
    by (simp add: m' record_of_def)
  have gone: "\<exists>r. record_of m jid = Some r \<and> status (rec_job r) = DONE" if jid: "jid \<in> set ids" for jid
  proof -
    from prune_only_done [OF g p jid] obtain job err where "(jid, job, err) \<in> set (snapshots st)" "status job = DONE"
      by blast
    then have "map_of (snapshots st) jid = Some (job, err)"
      using snapshots_good [OF g] by (auto simp: snapshots_ok_def intro!: map_of_is_SomeI)
    with look [of jid] \<open>status job = DONE\<close> show ?thesis by (auto split: option.splits if_splits)
  qed
  have "wf_manager (m\<lparr>records := filter (\<lambda>(k, v). k \<notin> set ids) (records m)\<rparr>)" by (rule wf_filter [OF assms(1)])
  then have "wf_manager m'" by (simp add: m' wf_manager_def)
  moreover have "coherent m'"
    unfolding coherent_def using prune_good [OF g p] prune_lookup [OF g p] look rec' by (auto simp: m')
  ultimately show ?thesis using gone rec' by (auto simp: m')
qed

end

section \<open>A restart\<close>

definition restored :: "'m snapshots \<Rightarrow> (string, 'm job_record) pydict" where
  "restored d = map (\<lambda>(jid, p). (jid, reconciled p)) d"

lemma fold_restore:
  "snapshots_ok d \<Longrightarrow> fst ` set d \<inter> fst ` set acc = {} \<Longrightarrow>
     fold (\<lambda>p. dict_set (job_id (fst p)) (reconciled p)) (map snd d) acc = acc @ restored d"
proof (induction d arbitrary: acc)
  case Nil
  then show ?case by (simp add: restored_def)
next
  case (Cons x d)
  obtain jid job err where x: "x = (jid, job, err)" by (cases x)
  have ok: "snapshots_ok d" "jid \<notin> fst ` set d" "job_id job = jid" using Cons.prems(1) x by (auto simp: snapshots_ok_def)
  have "dict_set jid (reconciled (job, err)) acc = acc @ [(jid, reconciled (job, err))]"
    by (rule dict_set_absent) (use Cons.prems(2) x in auto)
  moreover have "fst ` set d \<inter> fst ` set (acc @ [(jid, reconciled (job, err))]) = {}" using Cons.prems(2) x ok(2) by auto
  ultimately show ?case using Cons.IH [OF ok(1)] x ok(3) by (simp add: restored_def)
qed

lemma reconciled_simps [simp]:
  "rec_durable (reconciled p)" "\<not> rec_worker (reconciled p)" "\<not> rec_cancel (reconciled p)"
  "job_id (rec_job (reconciled p)) = job_id (fst p)"
  "terminal (status (rec_job (reconciled p)))"
  by (cases p; cases "status (fst p)"; simp add: reconciled_def Let_def terminal_def)+

lemma restored_lookup: "map_of (restored d) jid = map_option reconciled (map_of d jid)"
  by (induction d) (auto simp: restored_def)

lemma wf_restored: "snapshots_ok d \<Longrightarrow> records m = restored d \<Longrightarrow> wf_manager m"
  by (auto simp: wf_manager_def restored_def snapshots_ok_def o_def case_prod_unfold)

context job_store
begin

lemma fold_persist:
  "store m = Some st \<Longrightarrow> good st \<Longrightarrow> \<forall>r \<in> set rs. rec_durable r \<Longrightarrow> distinct (map (job_id \<circ> rec_job) rs) \<Longrightarrow>
     \<exists>st'. fold (persist ops) rs m = m\<lparr>store := Some st'\<rparr> \<and> good st'
       \<and> (\<forall>jid. map_of (snapshots st') jid =
            (case List.find (\<lambda>r. job_id (rec_job r) = jid) rs of
               Some r \<Rightarrow> Some (rec_job r, rec_error r) | None \<Rightarrow> map_of (snapshots st) jid))"
proof (induction rs arbitrary: m st)
  case Nil
  then show ?case by (auto intro!: exI [of _ st])
next
  case (Cons r rs)
  let ?st = "save ops (rec_job r) (rec_error r) st"
  have p: "persist ops r m = m\<lparr>store := Some ?st\<rparr>" using Cons.prems by (simp add: persist_def)
  have "store (m\<lparr>store := Some ?st\<rparr>) = Some ?st" "good ?st" using save_good [OF Cons.prems(2)] by simp_all
  from Cons.IH [OF this] Cons.prems(3,4) obtain st' where
    st': "fold (persist ops) rs (m\<lparr>store := Some ?st\<rparr>) = m\<lparr>store := Some st'\<rparr>" "good st'"
      "\<forall>jid. map_of (snapshots st') jid = (case List.find (\<lambda>r. job_id (rec_job r) = jid) rs of
               Some r \<Rightarrow> Some (rec_job r, rec_error r) | None \<Rightarrow> map_of (snapshots ?st) jid)" by auto
  have none: "List.find (\<lambda>x. job_id (rec_job x) = job_id (rec_job r)) rs = None"
    using Cons.prems(4) by (auto simp: find_None_iff image_iff)
  show ?case
  proof (intro exI conjI allI)
    show "fold (persist ops) (r # rs) m = m\<lparr>store := Some st'\<rparr>" using p st'(1) by simp
    show "good st'" by (rule st'(2))
    fix jid
    show "map_of (snapshots st') jid = (case List.find (\<lambda>r. job_id (rec_job r) = jid) (r # rs) of
               Some r \<Rightarrow> Some (rec_job r, rec_error r) | None \<Rightarrow> map_of (snapshots st) jid)"
      using st'(3) none save_lookup [OF Cons.prems(2)] by (auto split: option.split)
  qed
qed

text \<open>
  A manager booted on a surviving store: every job is back, finished or reconciled, nothing runs,
  and the store holds the reconciled jobs.
\<close>

lemma new_manager_records:
  assumes "good st"
  shows "\<exists>st'. new_manager ops (Some st) timeout = \<lparr>records = restored (snapshots st), store = Some st', stall_timeout = timeout\<rparr>
    \<and> coherent (new_manager ops (Some st) timeout) \<and> wf_manager (new_manager ops (Some st) timeout)"
proof -
  note ok = snapshots_good [OF assms]
  let ?m = "\<lparr>records = restored (snapshots st), store = Some st, stall_timeout = timeout\<rparr>"
  have recs: "fold (\<lambda>p. dict_set (job_id (fst p)) (reconciled p)) (load_all ops st) [] = restored (snapshots st)"
    using fold_restore [OF ok, of "[]"] load_snapshots [OF assms] by simp
  have keys: "map (job_id \<circ> rec_job) (map snd (restored (snapshots st))) = map fst (snapshots st)"
    using ok by (auto simp: restored_def snapshots_ok_def)
  have dur: "\<forall>r \<in> set (map snd (restored (snapshots st))). rec_durable r" by (auto simp: restored_def)
  have "distinct (map (job_id \<circ> rec_job) (map snd (restored (snapshots st))))"
    unfolding keys using ok by (simp add: snapshots_ok_def)
  from fold_persist [OF _ assms dur this, of ?m] obtain st' where
    f: "fold (persist ops) (map snd (restored (snapshots st))) ?m = ?m\<lparr>store := Some st'\<rparr>" and g: "good st'" and
    look: "\<forall>jid. map_of (snapshots st') jid = (case List.find (\<lambda>r. job_id (rec_job r) = jid) (map snd (restored (snapshots st))) of
               Some r \<Rightarrow> Some (rec_job r, rec_error r) | None \<Rightarrow> map_of (snapshots st) jid)" by auto
  have nm: "new_manager ops (Some st) timeout = ?m\<lparr>store := Some st'\<rparr>"
    using recs f by (simp add: new_manager_def restore_def Let_def)
  have wf: "wf_manager (?m\<lparr>store := Some st'\<rparr>)" by (rule wf_restored [OF ok]) simp
  have find: "List.find (\<lambda>r. job_id (rec_job r) = jid) (map snd d) = map_of d jid"
    if "\<forall>(k, r) \<in> set d. job_id (rec_job r) = k" for jid and d :: "(string \<times> 'm job_record) list"
    using that by (induction d) auto
  have "\<forall>(k, r) \<in> set (restored (snapshots st)). job_id (rec_job r) = k"
    using wf by (simp add: wf_manager_def)
  from find [OF this] look g have "coherent (?m\<lparr>store := Some st'\<rparr>)"
    by (auto simp: coherent_def record_of_def restored_lookup split: option.split)
  with nm wf show ?thesis by simp
qed

lemma boot_ok: "(\<And>s. st = Some s \<Longrightarrow> good s) \<Longrightarrow> system_ok (new_manager ops st timeout, \<lambda>_. None)"
proof (cases st)
  case None
  then show ?thesis
    by (simp add: system_ok_def new_manager_def restore_def wf_manager_def coherent_def record_of_def phase_ok_def)
next
  case (Some s)
  assume "\<And>s. st = Some s \<Longrightarrow> good s"
  with Some have "good s" by simp
  from new_manager_records [OF this, of timeout] obtain st' where nm:
    "new_manager ops (Some s) timeout = \<lparr>records = restored (snapshots s), store = Some st', stall_timeout = timeout\<rparr>"
    "coherent (new_manager ops (Some s) timeout)" "wf_manager (new_manager ops (Some s) timeout)" by blast
  from nm(2,3) Some show ?thesis
    by (auto simp: system_ok_def phase_ok_def) (simp add: nm(1) record_of_def restored_lookup; auto)
qed

lemma touch_record: "touches jid m m' \<Longrightarrow> k \<noteq> jid \<Longrightarrow> record_of m' k = record_of m k"
  by (auto simp: touches_def)

lemma system_touch:
  assumes "touches jid m m'" "system_ok (m, ph)" "phase_ok p (record_of m' jid)"
  shows "system_ok (m', ph(jid := p))"
  using assms(2,3) touches_ok [OF assms(1)] by (auto simp: system_ok_def touch_record [OF assms(1)])

lemma step_ok: "job_step ops x y \<Longrightarrow> system_ok x \<Longrightarrow> system_ok y"
proof (induction rule: job_step.induct)
  case (submitted now blank jid stall durable m m' ph)
  then have none: "record_of m jid = None" and m': "m' = put_record ops jid
      \<lparr>rec_job = new_job blank jid, rec_worker = True, rec_error = None, rec_cancel = False,
       rec_last = Some now, rec_stall_message = stall, rec_durable = durable\<rparr> m"
    by (auto simp: submit_def split: if_splits)
  from submitted(2) none show ?case
    unfolding system_ok_def fst_conv snd_conv m'
    by (auto intro!: wf_put coherent_put simp: new_job_def phase_ok_def split: phase.splits)
next
  case (started ph jid m now)
  have t: "touches jid m (set_status ops now jid RUNNING m)" by (rule marks_touch)
  from started obtain r where "record_of m jid = Some r" by (auto simp: system_ok_def phase_ok_def split: option.splits dest!: spec [of _ jid])
  then have "record_of (set_status ops now jid RUNNING m) jid = Some (r\<lparr>rec_job := (rec_job r)\<lparr>status := RUNNING\<rparr>, rec_last := Some now\<rparr>)"
    by (simp add: set_status_def)
  with started show ?case by (intro system_touch [OF t]) (auto simp: phase_ok_def)
next
  case (updated ph jid f now m r m')
  then have t: "touches jid m m'" using marks_touch(5) [OF updated(2), of jid m now] by simp
  from updated obtain x where x: "record_of m jid = Some x" by (auto simp: system_ok_def phase_ok_def split: option.splits dest!: spec [of _ jid])
  then have "record_of m' jid = Some (x\<lparr>rec_job := f (rec_job x), rec_last := Some now\<rparr>)"
    using updated(3) by (auto simp: apply_update_def)
  moreover have "status (f (rec_job x)) = status (rec_job x)" using updated(2) by (simp add: progress_only_def)
  ultimately have "phase_ok (ph k) (record_of m' k) = phase_ok (ph k) (record_of m k)" for k
    using x by (cases "k = jid") (auto simp: phase_ok_def touch_record [OF t] split: option.split phase.split)
  with updated(4) touches_ok [OF t] show ?case by (simp add: system_ok_def)
next
  case (finished ph jid m)
  have t: "touches jid m (mark_done ops jid m)" by (rule marks_touch)
  from finished obtain r where "record_of m jid = Some r" "status (rec_job r) = RUNNING \<or> status (rec_job r) = FAILED"
    by (auto simp: system_ok_def phase_ok_def split: option.splits dest!: spec [of _ jid])
  then have "\<exists>x. record_of (mark_done ops jid m) jid = Some x \<and> terminal (status (rec_job x))"
    by (auto simp: mark_done_def terminal_def)
  with finished show ?case by (intro system_touch [OF t]) (auto simp: phase_ok_def)
next
  case (stopped ph jid m)
  have t: "touches jid m (mark_cancelled ops jid m)" by (rule marks_touch)
  from stopped obtain r where "record_of m jid = Some r" "status (rec_job r) = RUNNING \<or> status (rec_job r) = FAILED"
    by (auto simp: system_ok_def phase_ok_def split: option.splits dest!: spec [of _ jid])
  then have "\<exists>x. record_of (mark_cancelled ops jid m) jid = Some x \<and> terminal (status (rec_job x))"
    by (auto simp: mark_cancelled_def terminal_def)
  with stopped show ?case by (intro system_touch [OF t]) (auto simp: phase_ok_def)
next
  case (failed ph jid e m)
  have t: "touches jid m (mark_failed ops jid e m)" by (rule marks_touch)
  from failed obtain r where "record_of m jid = Some r"
    by (auto simp: system_ok_def phase_ok_def split: option.splits dest!: spec [of _ jid])
  then have "\<exists>x. record_of (mark_failed ops jid e m) jid = Some x \<and> terminal (status (rec_job x))"
    by (auto simp: mark_failed_def terminal_def Let_def)
  with failed show ?case by (intro system_touch [OF t]) (auto simp: phase_ok_def)
next
  case (cancel jid m b m' ph)
  show ?case
  proof (cases "m' = m")
    case False
    with cancel(1) obtain r where r: "record_of m jid = Some r" "m' = m\<lparr>records := dict_set jid (r\<lparr>rec_cancel := True\<rparr>) (records m)\<rparr>"
      by (auto simp: request_cancel_def split: option.splits if_splits)
    then have look: "record_of m' k = (if k = jid then Some (r\<lparr>rec_cancel := True\<rparr>) else record_of m k)" for k
      by (simp add: record_of_def)
    have "job_id (rec_job r) = jid" using wf_record r(1) cancel(2) by (auto simp: system_ok_def)
    then have "wf_manager m'" using cancel(2) r(2) by (auto simp: system_ok_def wf_manager_def set_dict_set)
    moreover have "coherent m'" using cancel(2) r look by (auto simp: system_ok_def coherent_def)
    moreover have "phase_ok (ph k) (record_of m' k) = phase_ok (ph k) (record_of m k)" for k
      using r(1) look by (cases "k = jid") (auto simp: phase_ok_def split: option.split phase.split)
    ultimately show ?thesis using cancel(2) by (simp add: system_ok_def)
  qed (use cancel in simp)
next
  case (reap now m told m' ph)
  from reap(2) have "wf_manager m" "coherent m" and ph: "\<And>k. phase_ok (ph k) (record_of m k)" by (auto simp: system_ok_def)
  note r = reap_ok [OF this(1,2) reap(1)]
  have "phase_ok (ph k) (record_of m' k)" for k
    using ph [of k] r by (auto simp: phase_ok_def stalled_def reaped_record_def terminal_def split: option.splits phase.splits)
  with r show ?case by (simp add: system_ok_def)
next
  case (pruned keep m n m' ph)
  from pruned(2) have "wf_manager m" "coherent m" and ph: "\<And>k. phase_ok (ph k) (record_of m k)" by (auto simp: system_ok_def)
  note r = prune_manager_ok [OF this(1,2) pruned(1)]
  have "phase_ok (ph k) (record_of m' k)" for k
  proof -
    from r consider "record_of m' k = record_of m k"
      | x where "record_of m' k = None" "record_of m k = Some x" "status (rec_job x) = DONE" by blast
    then show ?thesis using ph [of k] by cases (auto simp: phase_ok_def split: option.splits phase.splits)
  qed
  with r show ?case by (simp add: system_ok_def)
qed (auto simp: system_ok_def phase_ok_def split: option.splits phase.splits)

lemma reachable_ok:
  assumes "\<And>s. st = Some s \<Longrightarrow> good s"
  shows "job_reachable ops st x \<Longrightarrow> system_ok x"
proof (induction rule: job_reachable.induct)
  case (boot timeout)
  show ?case by (rule boot_ok) (use assms in simp)
next
  case (move x y)
  then show ?case by (auto intro: step_ok)
qed

end

section \<open>Terminal states and stops\<close>

text \<open>The worker's own steps change only the record of its job.\<close>

lemma record_of_cancel:
  "request_cancel jid m = (b, m') \<Longrightarrow> record_of m' k =
     (if k = jid \<and> b then map_option (\<lambda>r. r\<lparr>rec_cancel := True\<rparr>) (record_of m k) else record_of m k)"
  by (auto simp: request_cancel_def record_of_def split: option.splits if_splits)

context job_store
begin

text \<open>What one step does to one record: nothing, a change its phase allows, its removal, or its creation.\<close>

lemma step_record:
  assumes "system_ok (m, ph)" "job_step ops (m, ph) (m', ph')" "record_of m jid = Some r"
  shows "(record_of m' jid = None \<and> status (rec_job r) = DONE \<and> ph' jid = ph jid)
    \<or> (\<exists>r'. record_of m' jid = Some r' \<and> (rec_cancel r \<longrightarrow> rec_cancel r')
          \<and> (terminal (status (rec_job r)) \<longrightarrow> status (rec_job r') = status (rec_job r)))"
proof -
  have pf: "phase_ok (ph jid) (Some r)" using assms(1,3) by (auto simp: system_ok_def dest!: spec [of _ jid])
  from assms(2) show ?thesis
  proof (cases rule: job_stepE)
  case (submitted now blank k stall durable)
  then have "record_of m k = None" "m' = put_record ops k
      \<lparr>rec_job = new_job blank k, rec_worker = True, rec_error = None, rec_cancel = False,
       rec_last = Some now, rec_stall_message = stall, rec_durable = durable\<rparr> m"
    by (auto simp: submit_def split: if_splits)
  with assms(3) show ?thesis by auto
next
  case (started k now)
  have "terminal (status (rec_job r)) \<Longrightarrow> k \<noteq> jid"
    using pf started by (auto simp: phase_ok_def terminal_def)
  with started assms(3) show ?thesis by (auto simp: set_status_def split: option.split)
next
  case (updated k f now rr)
  with assms(3) show ?thesis
    by (cases "k = jid") (auto simp: apply_update_def progress_only_def split: option.splits)
next
  case (finished k)
  have "k = jid \<Longrightarrow> terminal (status (rec_job r)) \<Longrightarrow> status (rec_job r) = FAILED"
    using pf finished by (auto simp: phase_ok_def terminal_def)
  with finished assms(3) show ?thesis by (auto simp: mark_done_def split: option.split)
next
  case (stopped k)
  have "k = jid \<Longrightarrow> terminal (status (rec_job r)) \<Longrightarrow> status (rec_job r) = FAILED"
    using pf stopped by (auto simp: phase_ok_def terminal_def)
  with stopped assms(3) show ?thesis by (auto simp: mark_cancelled_def split: option.split)
next
  case (failed k e)
  have "k = jid \<Longrightarrow> terminal (status (rec_job r)) \<Longrightarrow> status (rec_job r) = FAILED"
    using pf failed by (auto simp: phase_ok_def terminal_def)
  with failed assms(3) show ?thesis by (auto simp: mark_failed_def Let_def split: option.split)
next
  case (cancel k b)
  with record_of_cancel [OF cancel(2), of jid] assms(3) show ?thesis by auto
next
  case (reap now told)
  from assms(1) have "wf_manager m" "coherent m" by (auto simp: system_ok_def)
  from reap_ok [OF this reap(2)] assms(3) show ?thesis
    by (auto simp: stalled_def reaped_record_def terminal_def split: option.splits)
next
  case (pruned keep n)
  from assms(1) have "wf_manager m" "coherent m" by (auto simp: system_ok_def)
  from prune_manager_ok [OF this pruned(2)] have "record_of m' jid = record_of m jid
      \<or> (record_of m' jid = None \<and> (\<exists>x. record_of m jid = Some x \<and> status (rec_job x) = DONE))" by blast
  with assms(3) pruned(1) show ?thesis by auto
  qed (use assms(3) in auto)
qed

text \<open>A job asked to stop before its worker's check: its record and phase from then on.\<close>

definition stopping :: "string \<Rightarrow> ('s, 'm) system \<Rightarrow> bool" where
  "stopping jid x =
     (\<exists>r. record_of (fst x) jid = Some r \<and> rec_cancel r
        \<and> (case snd x jid of
             Some (Checked b) \<Rightarrow> b
           | Some Finished \<Rightarrow> status (rec_job r) = CANCELLED \<or> status (rec_job r) = FAILED
           | Some _ \<Rightarrow> True
           | None \<Rightarrow> False))"

lemma stopping_step:
  assumes ok: "system_ok (m, ph)" and st: "stopping jid (m, ph)" and step: "job_step ops (m, ph) (m', ph')"
  shows "stopping jid (m', ph')"
proof -
  from st obtain r where r: "record_of m jid = Some r" "rec_cancel r" and
    ph: "case ph jid of Some (Checked b) \<Rightarrow> b
           | Some Finished \<Rightarrow> status (rec_job r) = CANCELLED \<or> status (rec_job r) = FAILED
           | Some _ \<Rightarrow> True | None \<Rightarrow> False"
    by (auto simp: stopping_def)
  have "status (rec_job r) \<noteq> DONE"
  proof -
    have "phase_ok (ph jid) (Some r)" using ok r(1) by (auto simp: system_ok_def dest!: spec [of _ jid])
    with ph show ?thesis by (cases "ph jid") (auto simp: phase_ok_def split: phase.splits)
  qed
  with step_record [OF ok step r(1)] obtain r' where r': "record_of m' jid = Some r'" "rec_cancel r'"
    "terminal (status (rec_job r)) \<longrightarrow> status (rec_job r') = status (rec_job r)"
    using r(2) by blast
  have "case ph' jid of Some (Checked b) \<Rightarrow> b
      | Some Finished \<Rightarrow> status (rec_job r') = CANCELLED \<or> status (rec_job r') = FAILED
      | Some _ \<Rightarrow> True | None \<Rightarrow> False"
  proof (cases "ph' jid = ph jid")
    case True
    with ph r'(3) show ?thesis by (auto simp: terminal_def split: option.splits phase.splits)
  next
    case False
    from step show ?thesis
    proof (cases rule: job_stepE)
      case (checked k)
      with False r show ?thesis by (auto simp: is_cancel_requested_def split: if_splits)
    next
      case (finished k)
      with False ph show ?thesis by (auto split: if_splits)
    next
      case (stopped k)
      with False r' r(1) show ?thesis by (auto simp: mark_cancelled_def split: if_splits)
    next
      case (failed k e)
      with False r' r(1) show ?thesis by (auto simp: mark_failed_def Let_def split: if_splits)
    qed (use False in \<open>auto split: if_splits\<close>)
  qed
  with r' show ?thesis by (auto simp: stopping_def)
qed

lemma stopping_steps:
  "(job_step ops)\<^sup>*\<^sup>* x y \<Longrightarrow> system_ok x \<Longrightarrow> stopping jid x \<Longrightarrow> system_ok y \<and> stopping jid y"
proof (induction rule: rtranclp_induct)
  case base
  then show ?case by simp
next
  case (step y z)
  then show ?case using step_ok stopping_step by (cases y; cases z) blast
qed

end

section \<open>Properties\<close>


lemma new_sqlite_good: "sqlite_good (new_sqlite_store int)"
  by (simp add: sqlite_good_def new_sqlite_store_def)

lemma boot_sqlite: "job_reachable sqlite_ops (Some (new_sqlite_store int)) (new_manager sqlite_ops (Some (new_sqlite_store int)) None, \<lambda>_. None)"
  by (rule job_reachable.boot)

lemma new_manager_empty:
  "new_manager sqlite_ops (Some (new_sqlite_store int)) None
     = \<lparr>records = [], store = Some (new_sqlite_store int), stall_timeout = None\<rparr>"
  by (simp add: new_manager_def restore_def sqlite_ops_def sqlite_load_all_def by_time_def new_sqlite_store_def)

definition started_manager :: "(unit sqlite_store, unit) manager" where
  "started_manager = snd (submit sqlite_ops 0 () ''j'' None True (new_manager sqlite_ops (Some (new_sqlite_store int)) None))"

lemma sqlite_save_op: "save sqlite_ops = sqlite_save"
  by (simp add: sqlite_ops_def)

lemma started_manager_simps:
  "record_of started_manager jid = (if jid = ''j'' then Some
      \<lparr>rec_job = new_job () ''j'', rec_worker = True, rec_error = None, rec_cancel = False,
       rec_last = Some 0, rec_stall_message = None, rec_durable = True\<rparr> else None)"
  "store started_manager = Some (sqlite_save (new_job () ''j'') None (new_sqlite_store int))"
  by (simp_all add: started_manager_def submit_def new_manager_empty record_of_def put_record_def persist_def sqlite_save_op)

lemma submit_started:
  "submit sqlite_ops 0 () ''j'' None True (new_manager sqlite_ops (Some (new_sqlite_store int)) None) = (Inr ''j'', started_manager)"
  by (simp add: started_manager_def submit_def new_manager_empty record_of_def)

lemma started_reachable:
  "job_reachable sqlite_ops (Some (new_sqlite_store int)) (started_manager, (\<lambda>_. None)(''j'' \<mapsto> Starting))"
  by (rule job_reachable.move [OF boot_sqlite job_step.submitted [OF submit_started]])


text \<open>
  C36: a restart leaves nothing running and loses nothing. Every job the store held comes back; one
  that had ended comes back as it was; one that had not is \<open>FAILED\<close> with at least one error, its
  chunks in progress failed, its finished chunks and its resume high-water kept, and says why;
  and the store is told.
\<close>

theorem restart_reconciles:
  assumes "sqlite_good st" "map_of (sqlite_snapshots st) jid = Some (job, err)"
  shows "\<exists>r st'. record_of (new_manager sqlite_ops (Some st) timeout) jid = Some r
    \<and> store (new_manager sqlite_ops (Some st) timeout) = Some st'
    \<and> map_of (sqlite_snapshots st') jid = Some (rec_job r, rec_error r)
    \<and> (terminal (status job) \<longrightarrow> rec_job r = job \<and> rec_error r = err)
    \<and> (\<not> terminal (status job) \<longrightarrow>
         status (rec_job r) = FAILED \<and> 1 \<le> error_count (rec_job r)
       \<and> chunks (rec_job r) = map (\<lambda>c. if chunk_status c = ChunkInProgress then c\<lparr>chunk_status := ChunkFailed\<rparr> else c) (chunks job)
       \<and> resume_batch_watermark (rec_job r) = resume_batch_watermark job \<and> watermark (rec_job r) = watermark job
       \<and> (\<not> present err \<longrightarrow> is_interrupted_by_restart (rec_error r)))"
proof -
  from sqlite.new_manager_records [OF assms(1), of timeout] obtain st' where
    m: "new_manager sqlite_ops (Some st) timeout = \<lparr>records = restored (sqlite_snapshots st), store = Some st', stall_timeout = timeout\<rparr>"
    and c: "sqlite.coherent (new_manager sqlite_ops (Some st) timeout)" by blast
  have r: "record_of (new_manager sqlite_ops (Some st) timeout) jid = Some (reconciled (job, err))"
    using assms(2) by (simp add: m record_of_def restored_lookup)
  from c r have snap: "map_of (sqlite_snapshots st') jid = Some (rec_job (reconciled (job, err)), rec_error (reconciled (job, err)))"
    by (simp add: sqlite.coherent_def m)
  have "is_interrupted_by_restart (Some INTERRUPTED_BY_RESTART_MESSAGE)"
    by (simp add: is_interrupted_by_restart_def) (simp add: INTERRUPTED_BY_RESTART_MESSAGE_def)
  then show ?thesis
    using r snap by (intro exI [of _ "reconciled (job, err)"] exI [of _ st'])
      (cases "status job"; simp add: m reconciled_def terminal_def abandon_job_def fail_open_chunks_def Let_def)
qed

theorem restart_reconciles_witness:
  "\<exists>r. record_of (new_manager sqlite_ops (store started_manager) None) ''j'' = Some r \<and> status (rec_job r) = FAILED"
proof -
  let ?st = "sqlite_save (new_job () ''j'') None (new_sqlite_store int)"
  have g: "sqlite_good ?st" by (rule sqlite_save_by_time(2) [OF new_sqlite_good])
  have l: "map_of (sqlite_snapshots ?st) ''j'' = Some (new_job () ''j'', None)"
    by (simp add: sqlite_snapshots_def by_time_def sqlite_save_def new_sqlite_store_def new_job_def)
  from restart_reconciles [OF g l, of None] show ?thesis
    by (auto simp: started_manager_simps(2) terminal_def new_job_def)
qed

text \<open>
  C37: an ended job stays as it ended. No step of the manager or of any worker changes the status of
  a job that is \<open>DONE\<close>, \<open>FAILED\<close> or \<open>CANCELLED\<close>; retention may delete it.
\<close>

theorem ended_job_is_final:
  assumes "sqlite_good st0" "job_reachable sqlite_ops (Some st0) (m, ph)" "job_step sqlite_ops (m, ph) (m', ph')"
    and "record_of m jid = Some r" "terminal (status (rec_job r))"
  shows "(record_of m' jid = None \<and> status (rec_job r) = DONE)
    \<or> (\<exists>r'. record_of m' jid = Some r' \<and> status (rec_job r') = status (rec_job r))"
proof -
  have "sqlite.system_ok (m, ph)" by (rule sqlite.reachable_ok [OF _ assms(2)]) (use assms(1) in simp)
  from sqlite.step_record [OF this assms(3,4)] assms(5) show ?thesis by blast
qed

text \<open>A job driven to its normal end, for the witnesses.\<close>

definition run_to_end :: "(unit sqlite_store, unit) manager" where
  "run_to_end = mark_done sqlite_ops ''j'' (set_status sqlite_ops 1 ''j'' RUNNING started_manager)"

lemma run_to_end_record:
  "\<exists>r. record_of run_to_end ''j'' = Some r \<and> status (rec_job r) = DONE \<and> rec_durable r"
  by (simp add: run_to_end_def mark_done_def set_status_def started_manager_simps)

lemma run_to_end_reachable:
  "job_reachable sqlite_ops (Some (new_sqlite_store int)) (run_to_end, (\<lambda>_. None)(''j'' \<mapsto> Finished))"
proof -
  let ?m = "set_status sqlite_ops 1 ''j'' RUNNING started_manager"
  let ?ph = "\<lambda>p. (\<lambda>_. None)(''j'' \<mapsto> p) :: string \<Rightarrow> phase option"
  let ?R = "job_reachable sqlite_ops (Some (new_sqlite_store int))"
  have c: "is_cancel_requested ?m ''j'' = False"
    by (simp add: is_cancel_requested_def set_status_def started_manager_simps)
  have "?R (?m, ?ph Working)"
    using job_reachable.move [OF started_reachable job_step.started [of "?ph Starting" "''j''"]] by simp
  then have "?R (?m, ?ph Returned)"
    using job_reachable.move [OF _ job_step.returned [of "?ph Working" "''j''"]] by fastforce
  then have "?R (?m, ?ph (Checked False))"
    using job_reachable.move [OF _ job_step.checked [of "?ph Returned" "''j''"]] c by fastforce
  then show ?thesis
    using job_reachable.move [OF _ job_step.finished [of "?ph (Checked False)" "''j''"]] by (fastforce simp: run_to_end_def)
qed

theorem ended_job_is_final_witness:
  "\<exists>r'. record_of (snd (request_cancel ''j'' run_to_end)) ''j'' = Some r' \<and> status (rec_job r') = DONE"
proof -
  from run_to_end_record obtain r where r: "record_of run_to_end ''j'' = Some r" "status (rec_job r) = DONE" by blast
  have st: "job_step sqlite_ops (run_to_end, (\<lambda>_. None)(''j'' \<mapsto> Finished)) (snd (request_cancel ''j'' run_to_end), (\<lambda>_. None)(''j'' \<mapsto> Finished))"
    by (rule job_step.cancel [of "''j''" _ "fst (request_cancel ''j'' run_to_end)"]) simp
  have "record_of (snd (request_cancel ''j'' run_to_end)) ''j'' = Some r"
    using r by (simp add: request_cancel_def terminal_def)
  with ended_job_is_final [OF new_sqlite_good run_to_end_reachable st r(1)] r(2) show ?thesis
    by (auto simp: terminal_def)
qed

text \<open>
  C38: a cancel request that is accepted before the worker's check is honoured. From then on the
  request is never lost, and when the worker has finished the job is \<open>CANCELLED\<close> or \<open>FAILED\<close>, never
  \<open>DONE\<close>.
\<close>

theorem cancel_is_honoured:
  assumes "sqlite_good st0" "job_reachable sqlite_ops (Some st0) (m, ph)"
    and "ph jid \<in> {Some Starting, Some Working, Some Returned}" "request_cancel jid m = (True, m1)"
    and "(job_step sqlite_ops)\<^sup>*\<^sup>* (m1, ph) (m2, ph2)"
  shows "\<exists>r. record_of m2 jid = Some r \<and> rec_cancel r
    \<and> (ph2 jid = Some Finished \<longrightarrow> status (rec_job r) = CANCELLED \<or> status (rec_job r) = FAILED)"
proof -
  have ok: "sqlite.system_ok (m, ph)" by (rule sqlite.reachable_ok [OF _ assms(2)]) (use assms(1) in simp)
  have ok1: "sqlite.system_ok (m1, ph)" by (rule sqlite.step_ok [OF job_step.cancel [OF assms(4)] ok])
  from assms(4) obtain r where "record_of m jid = Some r" by (auto simp: request_cancel_def split: option.splits)
  then have "record_of m1 jid = Some (r\<lparr>rec_cancel := True\<rparr>)" using record_of_cancel [OF assms(4), of jid] by simp
  then have "sqlite.stopping jid (m1, ph)" using assms(3) by (auto simp: sqlite.stopping_def)
  from sqlite.stopping_steps [OF assms(5) ok1 this] show ?thesis by (auto simp: sqlite.stopping_def)
qed

theorem cancel_is_honoured_witness:
  "\<exists>r. record_of (snd (request_cancel ''j'' started_manager)) ''j'' = Some r \<and> rec_cancel r"
proof -
  have "request_cancel ''j'' started_manager = (True, snd (request_cancel ''j'' started_manager))"
    by (simp add: request_cancel_def started_manager_simps terminal_def new_job_def)
  from cancel_is_honoured [OF new_sqlite_good started_reachable _ this rtranclp.rtrancl_refl] show ?thesis by auto
qed



end
