(* ===== verification/Loop.thy ===== *)
theory Loop
  imports Prelude
begin

text \<open>
  Procedures that may not return. A \<open>proc\<close> acts on a state and either raises, returns, or never
  ends (\<open>None\<close>), so that \<open>while True\<close> of the source is \<open>while_true\<close>, and a claim that a read ends
  is a claim that its value is not \<open>None\<close>. \<open>while_true_rule\<close> is the rule for total correctness:
  an invariant, a measure that every continuing round lowers, and what a round that ends
  establishes. \<open>while_true_partial\<close> is the rule without the measure.
\<close>

type_synonym ('s, 'a) proc = "'s \<Rightarrow> ((pyexc + 'a) \<times> 's) option"

definition ret :: "'a \<Rightarrow> ('s, 'a) proc" where
  "ret a s = Some (Inr a, s)"

definition raising :: "pyexc \<Rightarrow> ('s, 'a) proc" where
  "raising e s = Some (Inl e, s)"

definition and_then :: "('s, 'a) proc \<Rightarrow> ('a \<Rightarrow> ('s, 'b) proc) \<Rightarrow> ('s, 'b) proc" where
  "and_then m f s =
     (case m s of
        None \<Rightarrow> None
      | Some (Inl e, s') \<Rightarrow> Some (Inl e, s')
      | Some (Inr a, s') \<Rightarrow> f a s')"

text \<open>\<open>try: m except Exception as e: h\<close>.\<close>

definition on_exception :: "('s, 'a) proc \<Rightarrow> (pyexc \<Rightarrow> ('s, 'a) proc) \<Rightarrow> ('s, 'a) proc" where
  "on_exception m h s =
     (case m s of
        Some (Inl e, s') \<Rightarrow> if is_exception e then h e s' else Some (Inl e, s')
      | r \<Rightarrow> r)"

text \<open>A statement of the driver, which always answers.\<close>

definition statement :: "('s, 'a) action \<Rightarrow> ('s, 'a) proc" where
  "statement act s = Some (act s)"

definition modify :: "('s \<Rightarrow> 's) \<Rightarrow> ('s, unit) proc" where
  "modify f s = Some (Inr (), f s)"

partial_function (option) while_true :: "('a \<Rightarrow> ('s, 'a + 'b) proc) \<Rightarrow> 'a \<Rightarrow> ('s, 'b) proc" where
  "while_true body a s =
     (case body a s of
        None \<Rightarrow> None
      | Some (r, s') \<Rightarrow>
          (case r of
             Inl e \<Rightarrow> Some (Inl e, s')
           | Inr c \<Rightarrow> (case c of Inl a' \<Rightarrow> while_true body a' s' | Inr b \<Rightarrow> Some (Inr b, s'))))"

lemmas proc_defs = ret_def raising_def and_then_def on_exception_def statement_def modify_def

lemma and_then_simps [simp]:
  "and_then (ret a) f = f a"
  "and_then (raising e) f = raising e"
  "and_then m ret = m"
  by (auto simp: fun_eq_iff proc_defs split: option.splits prod.splits sum.splits)

lemma and_then_Some [exec_simps]:
  "m s = Some (Inr a, s') \<Longrightarrow> and_then m f s = f a s'"
  "m s = Some (Inl e, s') \<Longrightarrow> and_then m f s = Some (Inl e, s')"
  "m s = None \<Longrightarrow> and_then m f s = None"
  by (simp_all add: and_then_def)

lemma on_exception_Some [exec_simps]:
  "m s = Some (Inr a, s') \<Longrightarrow> on_exception m h s = Some (Inr a, s')"
  "m s = Some (Inl e, s') \<Longrightarrow> is_exception e \<Longrightarrow> on_exception m h s = h e s'"
  "m s = Some (Inl e, s') \<Longrightarrow> \<not> is_exception e \<Longrightarrow> on_exception m h s = Some (Inl e, s')"
  "m s = None \<Longrightarrow> on_exception m h s = None"
  by (simp_all add: on_exception_def)

lemma while_true_step [exec_simps]:
  "body a s = Some (Inl e, s') \<Longrightarrow> while_true body a s = Some (Inl e, s')"
  "body a s = Some (Inr (Inr b), s') \<Longrightarrow> while_true body a s = Some (Inr b, s')"
  "body a s = Some (Inr (Inl a'), s') \<Longrightarrow> while_true body a s = while_true body a' s'"
  "body a s = None \<Longrightarrow> while_true body a s = None"
  by (simp_all add: while_true.simps)

text \<open>What one round does: raise or return under \<open>Q\<close>, or go on under \<open>I\<close> with a smaller measure.\<close>

definition round_ok :: "('a \<Rightarrow> 's \<Rightarrow> bool) \<Rightarrow> ('a \<Rightarrow> 's \<Rightarrow> nat) \<Rightarrow> (pyexc + 'b \<Rightarrow> 's \<Rightarrow> bool) \<Rightarrow> nat \<Rightarrow>
    ((pyexc + ('a + 'b)) \<times> 's) option \<Rightarrow> bool" where
  "round_ok I m Q n r =
     (case r of
        None \<Rightarrow> False
      | Some (Inl e, s') \<Rightarrow> Q (Inl e) s'
      | Some (Inr (Inl a'), s') \<Rightarrow> I a' s' \<and> m a' s' < n
      | Some (Inr (Inr b), s') \<Rightarrow> Q (Inr b) s')"

lemma round_ok_simps [simp]:
  "round_ok I m Q n (Some (Inl e, s')) = Q (Inl e) s'"
  "round_ok I m Q n (Some (Inr (Inl a'), s')) = (I a' s' \<and> m a' s' < n)"
  "round_ok I m Q n (Some (Inr (Inr b), s')) = Q (Inr b) s'"
  "\<not> round_ok I m Q n None"
  by (simp_all add: round_ok_def)

lemma while_true_rule:
  assumes "I a s"
    and step: "\<And>a s. I a s \<Longrightarrow> round_ok I m Q (m a s) (body a s)"
  shows "\<exists>r s'. while_true body a s = Some (r, s') \<and> Q r s'"
  using assms(1)
proof (induction "m a s" arbitrary: a s rule: less_induct)
  case less
  from step [OF less.prems] show ?case
    by (auto simp: round_ok_def exec_simps dest: less.hyps split: option.splits prod.splits sum.splits)
qed

text \<open>The same with a rank the invariant carries.\<close>

lemma while_true_ranked:
  assumes "I (n :: nat) a s"
    and step: "\<And>n a s. I n a s \<Longrightarrow> round_ok (\<lambda>a' s'. \<exists>k < n. I k a' s') (\<lambda>a s. 0) Q 1 (body a s)"
  shows "\<exists>r s'. while_true body a s = Some (r, s') \<and> Q r s'"
  using assms(1)
proof (induction n arbitrary: a s rule: less_induct)
  case (less n)
  from step [OF less.prems] show ?case
    by (auto simp: round_ok_def exec_simps dest: less.IH split: option.splits prod.splits sum.splits)
qed

lemma while_true_partial:
  assumes "while_true body a s = Some (r, s')" "I a s"
    and step: "\<And>a s r s'. I a s \<Longrightarrow> body a s = Some (r, s') \<Longrightarrow>
      (case r of Inl e \<Rightarrow> Q (Inl e) s' | Inr (Inl a') \<Rightarrow> I a' s' | Inr (Inr b) \<Rightarrow> Q (Inr b) s')"
  shows "Q r s'"
proof -
  have "b = body \<longrightarrow> I a s \<longrightarrow> Q (fst y) (snd y)" if "while_true b a s = Some y" for b y
  proof (rule while_true.raw_induct
      [where P = "\<lambda>b a s y. b = body \<longrightarrow> I a s \<longrightarrow> Q (fst y) (snd y)", OF _ that])
    fix rec b a s y
    assume rec: "\<And>b a s y. rec b a s = Some y \<Longrightarrow> b = body \<longrightarrow> I a s \<longrightarrow> Q (fst y) (snd y)"
      and eq: "(case b a s of None \<Rightarrow> None | Some (Inl e, s') \<Rightarrow> Some (Inl e, s')
        | Some (Inr (Inl a'), s') \<Rightarrow> rec b a' s' | Some (Inr (Inr b), s') \<Rightarrow> Some (Inr b, s')) = Some y"
    show "b = body \<longrightarrow> I a s \<longrightarrow> Q (fst y) (snd y)"
    proof (intro impI)
      assume b: "b = body" and i: "I a s"
      with eq obtain r s' where r: "body a s = Some (r, s')" by (auto split: option.splits)
      from step [OF i r] rec eq b r show "Q (fst y) (snd y)" by (auto split: sum.splits)
    qed
  qed
  from this [OF assms(1)] assms(2) show ?thesis by simp
qed

section \<open>Procedures that always return\<close>

definition returns :: "('s, 'a) proc \<Rightarrow> bool" where
  "returns m = (\<forall>s. m s \<noteq> None)"

named_theorems returning \<open>procedures that always return\<close>

lemma returns_basic [returning, simp]:
  "returns (ret a)" "returns (raising e)" "returns (statement act)" "returns (modify f)"
  by (simp_all add: returns_def proc_defs)

lemma returns_and_then [returning]:
  "returns m \<Longrightarrow> (\<And>a. returns (f a)) \<Longrightarrow> returns (and_then m f)"
  by (auto simp: returns_def and_then_def split: option.splits prod.splits sum.splits)

lemma returns_on_exception [returning]:
  "returns m \<Longrightarrow> (\<And>e. returns (h e)) \<Longrightarrow> returns (on_exception m h)"
  by (auto simp: returns_def on_exception_def split: option.splits prod.splits sum.splits)

text \<open>A loop ends when every round returns and a continuing one lowers the rank.\<close>

lemma while_true_returns:
  assumes "I (n :: nat) a"
    and "\<And>a. returns (body a)"
    and "\<And>n a s a' s'. I n a \<Longrightarrow> body a s = Some (Inr (Inl a'), s') \<Longrightarrow> \<exists>k < n. I k a'"
  shows "returns (while_true body a)"
  unfolding returns_def
proof
  fix s
  have "\<exists>r s'. while_true body a s = Some (r, s') \<and> True"
  proof (rule while_true_ranked [where I = "\<lambda>n a s. I n a"])
    show "I n a" by (fact assms(1))
    fix n a s assume "I n a"
    then show "round_ok (\<lambda>a' s'. \<exists>k < n. I k a') (\<lambda>a s. 0) (\<lambda>r s'. True) 1 (body a s)"
      using assms(2) [of a] assms(3) [of n a s]
      by (auto simp: round_ok_def returns_def split: option.splits prod.splits sum.splits)
  qed
  then show "while_true body a s \<noteq> None" by auto
qed

end
