(* ===== verification/Keyset.thy ===== *)
theory Keyset
  imports PyString
begin

text \<open>
  \<^verbatim>\<open>core/exporter.py\<close>: the source side of the Full Load. How a table is banded into shard ranges
  (\<open>shardable_leading_int_pk\<close>, \<open>compute_pk_shard_ranges\<close>), how one range is read in primary-key
  order page after page (\<open>keyset_pages\<close>, \<open>keyset_stream\<close>), and the opt-in load governor. The
  source is the argument \<open>ks_fetch\<close>; the locale \<open>keyset_source\<close> states what a consistent snapshot
  answers to the three statements the read sends.
\<close>

section \<open>Tables and shard ranges\<close>

record source_column =
  col_name :: string
  col_type :: string

record source_table =
  src_name :: string
  src_columns :: "source_column list"
  src_primary_key :: "string list"

definition primary_key_columns :: "source_table \<Rightarrow> pyexc + string list" where
  "primary_key_columns t =
     (if src_primary_key t = []
      then Inl (raise_named ''UnsupportedPrimaryKeyError'' (''table '' @ src_name t @ '' has no primary key''))
      else Inr (src_primary_key t))"

definition py_lower :: "string \<Rightarrow> string" where
  "py_lower = map (\<lambda>c. if (65 \<le> code c \<and> code c \<le> 90) \<or> (192 \<le> code c \<and> code c \<le> 222 \<and> code c \<noteq> 215)
                       then char_of (code c + 32) else c)"

text \<open>\<open>mysql_type.split("(")[0].strip().lower().split()[0]\<close>; an empty base is an \<open>IndexError\<close>.\<close>

definition base_type :: "string \<Rightarrow> pyexc + string" where
  "base_type ty =
     (let base = takeWhile (\<lambda>c. \<not> py_space c) (py_lower (py_strip (hd (py_split (CHR ''('') ty))))
      in if base = [] then Inl (raise_named ''IndexError'' ''list index out of range'') else Inr base)"

definition shardable_leading_int_pk :: "string list \<Rightarrow> source_table \<Rightarrow> pyexc + string option" where
  "shardable_leading_int_pk integer_types t =
     (case src_primary_key t of
        [] \<Rightarrow> Inr None
      | leading # _ \<Rightarrow>
          (case List.find (\<lambda>c. col_name c = leading) (src_columns t) of
             None \<Rightarrow> Inr None
           | Some c \<Rightarrow>
               (case base_type (col_type c) of
                  Inl e \<Rightarrow> Inl e
                | Inr base \<Rightarrow> Inr (if base \<in> set integer_types then Some leading else None))))"

type_synonym pk_range = "int option \<times> int option"

definition split_span :: "int \<Rightarrow> int \<Rightarrow> nat \<Rightarrow> pk_range list" where
  "split_span lo step shards =
     map (\<lambda>i. ((if i = 0 then None else Some (lo + int i * step)),
               (if i = shards - 1 then None else Some (lo + (int i + 1) * step)))) [0..<shards]"

text \<open>\<open>minmax\<close> is the answer of the one \<open>SELECT MIN, MAX\<close>.\<close>

definition compute_pk_shard_ranges :: "string list \<Rightarrow> source_table \<Rightarrow> int \<Rightarrow> (int \<times> int) option \<Rightarrow> pyexc + pk_range list" where
  "compute_pk_shard_ranges integer_types t shards minmax =
     (case shardable_leading_int_pk integer_types t of
        Inl e \<Rightarrow> Inl e
      | Inr None \<Rightarrow> Inr [(None, None)]
      | Inr (Some _) \<Rightarrow>
          if shards \<le> 1 then Inr [(None, None)]
          else (case minmax of
                  None \<Rightarrow> Inr [(None, None)]
                | Some (lo, hi) \<Rightarrow>
                    (let span = hi - lo + 1
                     in if span \<le> shards then Inr [(None, None)]
                        else Inr (split_span lo (span div shards) (nat shards)))))"

text \<open>
  \<open>plan_pk_shard_ranges\<close>: \<open>estimate\<close> is the row estimate when one was asked for and known.
\<close>

definition plan_pk_shard_ranges :: "string list \<Rightarrow> source_table \<Rightarrow> int \<Rightarrow> int \<Rightarrow> int option \<Rightarrow> (int \<times> int) option \<Rightarrow> pyexc + pk_range list" where
  "plan_pk_shard_ranges integer_types t shards min_rows estimate minmax =
     (if shards \<le> 1 then Inr [(None, None)]
      else (case shardable_leading_int_pk integer_types t of
              Inl e \<Rightarrow> Inl e
            | Inr None \<Rightarrow> Inr [(None, None)]
            | Inr (Some _) \<Rightarrow>
                if 0 < min_rows \<and> (case estimate of Some est \<Rightarrow> est < min_rows | None \<Rightarrow> False)
                then Inr [(None, None)]
                else compute_pk_shard_ranges integer_types t shards minmax))"

definition in_pk_range :: "pk_range \<Rightarrow> int \<Rightarrow> bool" where
  "in_pk_range r k =
     ((case fst r of Some lo \<Rightarrow> lo \<le> k | None \<Rightarrow> True) \<and> (case snd r of Some hi \<Rightarrow> k < hi | None \<Rightarrow> True))"

lemma le_div_int: "0 < (s :: int) \<Longrightarrow> j \<le> d div s \<longleftrightarrow> j * s \<le> d"
proof
  assume s: "0 < s" and "j \<le> d div s"
  then have "j * s \<le> d div s * s" by (simp add: mult_right_mono)
  also have "d div s * s = d - d mod s" by (rule minus_mod_eq_div_mult [symmetric])
  also have "\<dots> \<le> d" using s by (simp add: pos_mod_sign)
  finally show "j * s \<le> d" .
next
  assume s: "0 < s" and "j * s \<le> d"
  then have "j * s div s \<le> d div s" by (intro zdiv_mono1)
  with s show "j \<le> d div s" by simp
qed

text \<open>Every key is in exactly one of the ranges.\<close>

lemma split_span_partition:
  assumes "0 < shards" "0 < step"
  shows "\<exists>!i. i < length (split_span lo step shards) \<and> in_pk_range (split_span lo step shards ! i) k"
proof -
  define q where "q = (k - lo) div step"
  define i where "i = (if q < 0 then 0 else if int shards \<le> q then shards - 1 else nat q)"
  have low: "lo + j * step \<le> k \<longleftrightarrow> j \<le> q" for j
    using le_div_int [OF assms(2), of j "k - lo"] by (auto simp: q_def)
  have high: "k < lo + j * step \<longleftrightarrow> q < j" for j
    using low [of j] by linarith
  have member: "in_pk_range (split_span lo step shards ! j) k \<longleftrightarrow>
      (j = 0 \<or> int j \<le> q) \<and> (j = shards - 1 \<or> q < int j + 1)" if "j < shards" for j
    using that by (auto simp: split_span_def in_pk_range_def low high)
  show ?thesis
  proof (rule ex1I [of _ i])
    show "i < length (split_span lo step shards) \<and> in_pk_range (split_span lo step shards ! i) k"
      using assms member [of i] by (auto simp: i_def split_span_def)
    fix j assume "j < length (split_span lo step shards) \<and> in_pk_range (split_span lo step shards ! j) k"
    then have "j < shards" "(j = 0 \<or> int j \<le> q) \<and> (j = shards - 1 \<or> q < int j + 1)"
      using member by (auto simp: split_span_def)
    then show "j = i" by (auto simp: i_def)
  qed
qed

section \<open>Keyset pages\<close>

text \<open>
  The three statements of the read. \<open>ks_fetch\<close> is the page one of them answers on the read's
  snapshot: its rows and the error that cut them short. \<open>ks_emit\<close> is the converter (or the row
  itself); \<open>ks_cancel\<close> the answers of \<open>should_cancel\<close>; \<open>ks_governor\<close> what \<open>throttle\<close> raises before
  each page, if anything. \<open>ks_walk\<close> and \<open>ks_rereads\<close> are the dialect's \<open>keyset_walk\<close> and
  \<open>keyset_rereads_cursor\<close>. The key columns are among the columns read.
\<close>

datatype page_request = FirstPage | ValuePage pyval | AfterPage "pyval list"

record 'a keyset_read =
  ks_table :: string
  ks_columns :: "string list"
  ks_pk :: "string list"
  ks_batch :: int
  ks_walk :: "pyval list option"
  ks_rereads :: bool
  ks_fetch :: "page_request \<Rightarrow> pyrow stream"
  ks_emit :: "pyrow \<Rightarrow> pyexc + 'a"
  ks_cancel :: "nat \<Rightarrow> bool"
  ks_governor :: "(nat \<Rightarrow> pyexc option) option"

definition export_error :: "string \<Rightarrow> pyexc" where
  "export_error msg = raise_named ''ExportError'' msg"

definition export_cancelled :: "string \<Rightarrow> pyexc" where
  "export_cancelled table = raise_named ''ExportCancelled'' table"

definition told_apart :: "pyval \<Rightarrow> pyval" where
  "told_apart v = (case v of PTimeTz utc off _ \<Rightarrow> PTimeTz utc off '''' | _ \<Rightarrow> py_canon v)"

definition key_of_row :: "string list \<Rightarrow> pyrow \<Rightarrow> pyval list" where
  "key_of_row pk row = map (row_get row) pk"

definition same_key :: "pyval list \<Rightarrow> pyval list \<Rightarrow> bool" where
  "same_key k c = (map py_canon k = map py_canon c \<and> map told_apart k = map told_apart c)"

definition walk_stopped :: "string \<Rightarrow> string \<Rightarrow> pyexc" where
  "walk_stopped column why =
     export_error (''key column '' @ column @ '' '' @ why @ '', so the read cannot place every row in the key order and stops instead of loading the table with rows missing.'')"

record tally =
  t_count :: int
  t_skipped :: int
  t_first :: "pyval list option"
  t_last :: "pyval list option"

text \<open>\<open>_page_rows\<close>: the rows yielded, then the tally or the error that ended them.\<close>

fun page_rows :: "'a keyset_read \<Rightarrow> pyval list option \<Rightarrow> pyval option \<Rightarrow> tally \<Rightarrow> pyrow list \<Rightarrow> 'a list \<times> (pyexc + tally)" where
  "page_rows ks cursor member t [] = ([], Inr t)"
| "page_rows ks cursor member t (row # rows) =
     (let t1 = t\<lparr>t_count := t_count t + 1\<rparr>; key = key_of_row (ks_pk ks) row
      in if (case cursor of Some c \<Rightarrow> same_key key c | None \<Rightarrow> False)
         then (if ks_rereads ks \<and> t_first t = None
               then page_rows ks cursor member (t1\<lparr>t_skipped := t_skipped t + 1\<rparr>) rows
               else ([], Inl (export_error (''table '' @ ks_table ks @ '': a page of its keyset read returned the row the page was read after''))))
         else if (case member of Some v \<Rightarrow> py_canon (hd key) \<noteq> py_canon v | None \<Rightarrow> False)
         then ([], Inl (walk_stopped (hd (ks_pk ks)) ''has members the source compares as equal''))
         else (let t2 = t1\<lparr>t_first := (if t_first t = None then Some key else t_first t), t_last := Some key\<rparr>
               in case ks_emit ks row of
                    Inl e \<Rightarrow> ([], Inl e)
                  | Inr a \<Rightarrow> (let (out, r) = page_rows ks cursor member t2 rows in (a # out, r))))"

definition new_tally :: "pyval list option \<Rightarrow> tally" where
  "new_tally cursor = \<lparr>t_count = 0, t_skipped = 0, t_first = None, t_last = cursor\<rparr>"

text \<open>What follows a page read to its end. \<open>Next m b\<close>: the walk is at \<open>m\<close>, and \<open>b\<close> says whether the next page is its value's first.\<close>

datatype page_end = Finish | Fail pyexc | Next "nat option" bool

fun walk_index :: "pyval list \<Rightarrow> pyval \<Rightarrow> nat option" where
  "walk_index [] v = None"
| "walk_index (w # ws) v = (if py_canon w = py_canon v then Some 0 else map_option Suc (walk_index ws v))"

definition walk_on :: "'a keyset_read \<Rightarrow> pyval list \<Rightarrow> bool \<Rightarrow> nat \<Rightarrow> page_end" where
  "walk_on ks walk exhausted m =
     (if exhausted \<or> length (ks_pk ks) = 1
      then (if Suc m = length walk then Finish else Next (Some (Suc m)) True)
      else Next (Some m) False)"

definition after_page :: "'a keyset_read \<Rightarrow> nat option \<Rightarrow> bool \<Rightarrow> tally \<Rightarrow> page_end" where
  "after_page ks member member_start t =
     (let exhausted = t_count t < ks_batch ks
      in if t_skipped t = t_count t \<and> \<not> exhausted
         then Fail (export_error (''table '' @ ks_table ks @ '': a page of its keyset read held only rows whose key reads back as the page cursor''))
         else (case ks_walk ks of
                 None \<Rightarrow> if exhausted then Finish else Next member member_start
               | Some walk \<Rightarrow>
                   (case member of
                      Some m \<Rightarrow> walk_on ks walk exhausted m
                    | None \<Rightarrow>
                        if exhausted then Finish
                        else (case walk_index walk (hd (case t_last t of Some k \<Rightarrow> k | None \<Rightarrow> [])) of
                                None \<Rightarrow> Fail (walk_stopped (hd (ks_pk ks)) ''holds a value that is not one of the members the source lists for it'')
                              | Some m \<Rightarrow> walk_on ks walk exhausted m))))"

datatype read_end = Ended | Stopped pyexc | OutOfFuel

definition page_request_for :: "'a keyset_read \<Rightarrow> pyval list option \<Rightarrow> nat option \<Rightarrow> bool \<Rightarrow> page_request" where
  "page_request_for ks last_key member member_start =
     (case last_key of
        None \<Rightarrow> FirstPage
      | Some k \<Rightarrow>
          (case (member_start, ks_walk ks, member) of
             (True, Some walk, Some m) \<Rightarrow> ValuePage (walk ! m)
           | _ \<Rightarrow> AfterPage k))"

definition member_value :: "'a keyset_read \<Rightarrow> nat option \<Rightarrow> pyval option" where
  "member_value ks member =
     (case (ks_walk ks, member) of (Some walk, Some m) \<Rightarrow> Some (walk ! m) | _ \<Rightarrow> None)"

text \<open>What is asked before every page: the cancel flag, then the governor and the flag again.\<close>

definition page_gate :: "'a keyset_read \<Rightarrow> nat \<Rightarrow> nat \<Rightarrow> pyexc + nat" where
  "page_gate ks page polls =
     (if ks_cancel ks polls then Inl (export_cancelled (ks_table ks))
      else (case ks_governor ks of
              None \<Rightarrow> Inr (Suc polls)
            | Some throttle \<Rightarrow>
                (case throttle page of
                   Some e \<Rightarrow> Inl e
                 | None \<Rightarrow> if ks_cancel ks (Suc polls) then Inl (export_cancelled (ks_table ks))
                            else Inr (Suc (Suc polls)))))"

text \<open>
  The page loop, its pages flattened; \<open>polls\<close> counts the answers of \<open>should_cancel\<close>, \<open>page\<close> the
  pages. A snapshot of \<open>n\<close> rows needs at most \<open>n + 1\<close> pages (\<open>keyset_read_all\<close>).
\<close>

fun keyset_run :: "nat \<Rightarrow> 'a keyset_read \<Rightarrow> pyval list option \<Rightarrow> nat option \<Rightarrow> bool \<Rightarrow> nat \<Rightarrow> nat \<Rightarrow> 'a list \<times> read_end" where
  "keyset_run 0 ks last_key member member_start page polls = ([], OutOfFuel)"
| "keyset_run (Suc fuel) ks last_key member member_start page polls =
     (case page_gate ks page polls of
        Inl e \<Rightarrow> ([], Stopped e)
      | Inr polls' \<Rightarrow>
          (let (rows, err) = ks_fetch ks (page_request_for ks last_key member member_start);
               (out, r) = page_rows ks last_key (member_value ks member) (new_tally last_key) rows
           in case r of
                Inl e \<Rightarrow> (out, Stopped e)
              | Inr t \<Rightarrow>
                  (case err of
                     Some e \<Rightarrow> (out, Stopped e)
                   | None \<Rightarrow>
                       (case after_page ks member member_start t of
                          Finish \<Rightarrow> (out, Ended)
                        | Fail e \<Rightarrow> (out, Stopped e)
                        | Next m b \<Rightarrow>
                            (let (more, end) = keyset_run fuel ks (t_last t) m b (Suc page) polls'
                             in (out @ more, end))))))"

definition keyset_stream :: "nat \<Rightarrow> 'a keyset_read \<Rightarrow> 'a list \<times> read_end" where
  "keyset_stream fuel ks =
     (if ks_batch ks < 1 then ([], Stopped (raise_named ''ValueError'' ''batch_size must be a positive integer''))
      else if ks_pk ks = [] then ([], Stopped (raise_named ''UnsupportedPrimaryKeyError'' (ks_table ks)))
      else if ks_columns ks = [] then ([], Stopped (export_error (''table '' @ ks_table ks @ '' has no columns to export'')))
      else keyset_run fuel ks None None False 0 0)"

section \<open>The snapshot's promise\<close>

text \<open>
  \<open>snapshot\<close> is the range's rows in the source's key order \<open>before\<close>, whose keys Python tells
  apart; a page is the first \<open>ks_batch\<close> rows of the range, or of those after the cursor, cut
  short only by an error.
\<close>

locale keyset_source =
  fixes ks :: "'a keyset_read"
    and snapshot :: "pyrow list"
    and before :: "pyval list \<Rightarrow> pyval list \<Rightarrow> bool"
  assumes batch: "1 \<le> ks_batch ks"
    and plain_key: "ks_walk ks = None" "\<not> ks_rereads ks" "ks_pk ks \<noteq> []" "ks_columns ks \<noteq> []"
    and ordered: "sorted_wrt before (map (key_of_row (ks_pk ks)) snapshot)"
    and strict: "before k k' \<Longrightarrow> \<not> before k' k"
    and told: "before k k' \<Longrightarrow> \<not> same_key k' k"
    and first_page: "ks_fetch ks FirstPage = (xs, err) \<Longrightarrow>
        prefix xs (take (nat (ks_batch ks)) snapshot) \<and> (err = None \<longrightarrow> xs = take (nat (ks_batch ks)) snapshot)"
    and next_page: "ks_fetch ks (AfterPage k) = (xs, err) \<Longrightarrow>
        prefix xs (take (nat (ks_batch ks)) (filter (\<lambda>r. before k (key_of_row (ks_pk ks) r)) snapshot))
        \<and> (err = None \<longrightarrow> xs = take (nat (ks_batch ks)) (filter (\<lambda>r. before k (key_of_row (ks_pk ks) r)) snapshot))"
begin

abbreviation key :: "pyrow \<Rightarrow> pyval list" where
  "key \<equiv> key_of_row (ks_pk ks)"

definition read_as :: "'a list \<Rightarrow> pyrow list \<Rightarrow> bool" where
  "read_as out rows = list_all2 (\<lambda>a row. ks_emit ks row = Inr a) out rows"

lemma page_rows_read:
  "page_rows ks cursor None t rows = (out, r) \<Longrightarrow>
   (\<forall>c row. cursor = Some c \<longrightarrow> row \<in> set rows \<longrightarrow> \<not> same_key (key row) c) \<Longrightarrow>
     \<exists>n. read_as out (take n rows)
       \<and> (\<forall>t'. r = Inr t' \<longrightarrow> read_as out rows \<and> t_count t' = t_count t + int (length rows)
            \<and> t_skipped t' = t_skipped t \<and> t_last t' = (if rows = [] then t_last t else Some (key (last rows))))"
proof (induction rows arbitrary: t out r)
  case Nil
  then show ?case by (auto simp: read_as_def)
next
  case (Cons row rows)
  have fresh: "(case cursor of Some c \<Rightarrow> same_key (key row) c | None \<Rightarrow> False) = False"
    using Cons.prems(2) by (auto split: option.split)
  let ?t = "t\<lparr>t_count := t_count t + 1, t_first := (if t_first t = None then Some (key row) else t_first t), t_last := Some (key row)\<rparr>"
  show ?case
  proof (cases "ks_emit ks row")
    case (Inl e)
    with Cons.prems(1) fresh show ?thesis by (auto simp: read_as_def Let_def intro!: exI [of _ 0])
  next
    case (Inr a)
    obtain out1 r1 where pr: "page_rows ks cursor None ?t rows = (out1, r1)"
      by (cases "page_rows ks cursor None ?t rows")
    have "page_rows ks cursor None t (row # rows) = (a # out1, r1)"
      using pr by (simp only: page_rows.simps Let_def fresh Inr if_False option.case sum.case prod.case)
    then have rest: "page_rows ks cursor None ?t rows = (out1, r)" "out = a # out1"
      using pr Cons.prems(1) by (metis prod.inject)+
    have "\<forall>c row. cursor = Some c \<longrightarrow> row \<in> set rows \<longrightarrow> \<not> same_key (key row) c"
      using Cons.prems(2) by auto
    from Cons.IH [OF rest(1) this] obtain n where n: "read_as out1 (take n rows)"
      "\<forall>t'. r = Inr t' \<longrightarrow> read_as out1 rows \<and> t_count t' = t_count ?t + int (length rows)
            \<and> t_skipped t' = t_skipped ?t \<and> t_last t' = (if rows = [] then t_last ?t else Some (key (last rows)))"
      by blast
    have hd: "read_as (a # xs) (row # ys) = read_as xs ys" for xs ys using Inr by (simp add: read_as_def)
    have a: "read_as out (take (Suc n) (row # rows))" using n(1) rest(2) hd by simp
    have b: "r = Inr t' \<longrightarrow> read_as out (row # rows) \<and> t_count t' = t_count t + int (length (row # rows))
        \<and> t_skipped t' = t_skipped t \<and> t_last t' = Some (key (last (row # rows)))" for t'
      using n(2) [THEN spec, of t'] rest(2) hd by simp
    show ?thesis
    proof (intro exI conjI allI)
      show "read_as out (take (Suc n) (row # rows))" by (rule a)
      show "r = Inr t' \<longrightarrow> read_as out (row # rows) \<and> t_count t' = t_count t + int (length (row # rows))
          \<and> t_skipped t' = t_skipped t
          \<and> t_last t' = (if row # rows = [] then t_last t else Some (key (last (row # rows))))" for t'
        unfolding if_not_P [OF list.distinct(2)] by (rule b)
    qed
  qed
qed

text \<open>The rows after the last one read are the rest of the snapshot.\<close>

lemma after_cursor:
  assumes "snapshot = read @ rest" "read \<noteq> []"
  shows "filter (\<lambda>r. before (key (last read)) (key r)) snapshot = rest"
proof -
  have s: "sorted_wrt before (map key read @ map key rest)" using ordered assms(1) by simp
  have "\<not> before (key (last read)) (key r)" if "r \<in> set read" for r
  proof -
    have "sorted_wrt before (map key (butlast read @ [last read]))"
      using s assms(2) by (simp add: sorted_wrt_append)
    then have "r \<in> set (butlast read) \<Longrightarrow> before (key r) (key (last read))"
      by (auto simp: sorted_wrt_append)
    moreover have "r \<in> set (butlast read) \<or> r = last read"
      using that assms(2) by (cases read rule: rev_cases) auto
    ultimately show ?thesis using strict by blast
  qed
  moreover have "before (key (last read)) (key r)" if "r \<in> set rest" for r
    using s that assms(2) by (auto simp: sorted_wrt_append)
  ultimately show ?thesis unfolding assms(1) by (simp add: filter_id_conv)
qed

lemma read_as_append: "read_as xs ys \<Longrightarrow> read_as us vs \<Longrightarrow> read_as (xs @ us) (ys @ vs)"
  by (simp add: read_as_def list_all2_appendI)

definition cursor_after :: "pyrow list \<Rightarrow> pyval list option" where
  "cursor_after done_rows = (if done_rows = [] then None else Some (key (last done_rows)))"

lemma fetched:
  assumes "snapshot = read @ rest" "ks_fetch ks (page_request_for ks (cursor_after read) None False) = (xs, err)"
  shows "prefix xs (take (nat (ks_batch ks)) rest)" "err = None \<longrightarrow> xs = take (nat (ks_batch ks)) rest"
proof -
  have "prefix xs (take (nat (ks_batch ks)) rest) \<and> (err = None \<longrightarrow> xs = take (nat (ks_batch ks)) rest)"
  proof (cases "read = []")
    case True
    then have f: "ks_fetch ks FirstPage = (xs, err)" and s: "snapshot = rest"
      using assms by (simp_all add: page_request_for_def cursor_after_def)
    from first_page [OF f] show ?thesis unfolding s .
  next
    case False
    then have "ks_fetch ks (AfterPage (key (last read))) = (xs, err)"
      using assms(2) by (simp add: page_request_for_def cursor_after_def)
    from next_page [OF this] show ?thesis unfolding after_cursor [OF assms(1) False] .
  qed
  then show "prefix xs (take (nat (ks_batch ks)) rest)" "err = None \<longrightarrow> xs = take (nat (ks_batch ks)) rest"
    by (rule conjunct1, rule conjunct2)
qed

lemma fresh_page:
  assumes "snapshot = read @ rest" "cursor_after read = Some c" "row \<in> set rest"
  shows "\<not> same_key (key row) c"
proof -
  have r: "read \<noteq> []" "c = key (last read)" using assms(2) by (auto simp: cursor_after_def split: if_splits)
  have "row \<in> set (filter (\<lambda>r. before (key (last read)) (key r)) snapshot)"
    using assms(3) after_cursor [OF assms(1) r(1)] by simp
  then show ?thesis using told r(2) by simp
qed

definition read_part :: "'a list \<Rightarrow> pyrow list \<Rightarrow> bool" where
  "read_part out rows = (\<exists>n. read_as out (take n rows))"

lemma read_part_nil [simp]: "read_part [] rows"
  unfolding read_part_def by (rule exI [of _ 0]) (simp add: read_as_def)

lemma keyset_run_reads:
  "snapshot = read @ rest \<Longrightarrow> length rest < fuel \<Longrightarrow>
   keyset_run fuel ks (cursor_after read) None False page polls = (out, r) \<Longrightarrow>
     r \<noteq> OutOfFuel \<and> read_part out rest \<and> (r = Ended \<longrightarrow> read_as out rest)"
proof (induction fuel arbitrary: read rest page polls out r)
  case 0
  then show ?case by simp
next
  case (Suc fuel)
  obtain xs err where fetch: "ks_fetch ks (page_request_for ks (cursor_after read) None False) = (xs, err)"
    by (cases "ks_fetch ks (page_request_for ks (cursor_after read) None False)")
  note page = fetched [OF Suc.prems(1) fetch]
  have member: "member_value ks None = None" by (simp add: member_value_def plain_key)
  obtain out1 r1 where rows: "page_rows ks (cursor_after read) None (new_tally (cursor_after read)) xs = (out1, r1)"
    by (cases "page_rows ks (cursor_after read) None (new_tally (cursor_after read)) xs")
  have sub: "set xs \<subseteq> set rest"
    using set_mono_prefix [OF page(1)] set_take_subset [of "nat (ks_batch ks)" rest] by blast
  obtain n where n: "read_as out1 (take n xs)"
    and whole: "\<forall>t'. r1 = Inr t' \<longrightarrow> read_as out1 xs \<and> t_count t' = int (length xs) \<and> t_skipped t' = 0
        \<and> t_last t' = (if xs = [] then cursor_after read else Some (key (last xs)))"
  proof -
    have "\<forall>c row. cursor_after read = Some c \<longrightarrow> row \<in> set xs \<longrightarrow> \<not> same_key (key row) c"
      using fresh_page [OF Suc.prems(1)] sub by blast
    from page_rows_read [OF rows this] that show ?thesis by (auto simp: new_tally_def)
  qed
  obtain m where m: "take n xs = take m rest"
  proof -
    obtain zs where "rest = xs @ zs"
      using page(1) by (metis append_take_drop_id prefix_def append.assoc)
    then have "take n xs = take (min n (length xs)) rest" by (simp add: min_def)
    then show ?thesis using that by blast
  qed
  have part: "read_part out1 rest" using n m by (auto simp: read_part_def)
  show ?case
  proof (cases "page_gate ks page polls")
    case (Inl e)
    with Suc.prems(3) show ?thesis by auto
  next
    case (Inr polls')
    note run = Suc.prems(3) [unfolded keyset_run.simps Let_def Inr sum.case fetch prod.case member rows]
    show ?thesis
    proof (cases "\<exists>t'. r1 = Inr t' \<and> err = None")
      case False
      with run part show ?thesis by (cases r1; cases err) auto
    next
      case True
      then obtain t' where t': "r1 = Inr t'" "err = None" by blast
      have xs: "xs = take (nat (ks_batch ks)) rest" using page(2) t' by simp
      have o1: "read_as out1 xs" using whole t' by simp
      have walk: "after_page ks None False t' = (if int (length xs) < ks_batch ks then Finish else Next None False)"
        using whole t' batch by (auto simp: after_page_def plain_key)
      show ?thesis
      proof (cases "int (length xs) < ks_batch ks")
        case True
        then have "xs = rest" using xs by auto
        with run part o1 t' walk True show ?thesis by simp
      next
        case False
        then have ne: "xs \<noteq> []" using batch by auto
        let ?rest = "drop (nat (ks_batch ks)) rest"
        have split: "rest = xs @ ?rest" using xs by simp
        have cur: "t_last t' = cursor_after (read @ xs)" using whole t' ne by (simp add: cursor_after_def)
        have len: "length ?rest < fuel" using Suc.prems(2) ne xs batch by (cases rest) auto
        obtain rest_out fin where more: "keyset_run fuel ks (cursor_after (read @ xs)) None False (Suc page) polls' = (rest_out, fin)"
          by (cases "keyset_run fuel ks (cursor_after (read @ xs)) None False (Suc page) polls'")
        have res: "out = out1 @ rest_out" "r = fin" using run t' walk False by (simp_all add: cur more)
        have "snapshot = (read @ xs) @ ?rest" using Suc.prems(1) split by simp
        from Suc.IH [OF this len more] obtain n' where ih: "fin \<noteq> OutOfFuel" "read_as rest_out (take n' ?rest)"
          "fin = Ended \<longrightarrow> read_as rest_out ?rest" by (auto simp: read_part_def)
        have "xs @ take n' ?rest = take (length xs + n') rest"
          by (subst (2) split) simp
        then have "read_as out (take (length xs + n') rest)"
          using read_as_append [OF o1 ih(2)] res(1) by simp
        moreover have "r = Ended \<longrightarrow> read_as out rest"
          using read_as_append [OF o1] ih(3) res split by metis
        ultimately show ?thesis using ih(1) res(2) by (auto simp: read_part_def)
      qed
    qed
  qed
qed

lemma keyset_stream_reads:
  assumes "length snapshot < fuel" "keyset_stream fuel ks = (out, r)"
  shows "r \<noteq> OutOfFuel" "read_part out snapshot" "r = Ended \<Longrightarrow> read_as out snapshot"
  using keyset_run_reads [of "[]" snapshot fuel 0 0 out r] assms batch plain_key
  by (auto simp: keyset_stream_def cursor_after_def)

end

section \<open>A source of integer keys\<close>

text \<open>
  A table whose single key column \<open>id\<close> holds \<open>0 .. n - 1\<close>, read in pages of \<open>b + 1\<close>: the contract
  \<open>keyset_source\<close> can be met. It models no code of the repository.
\<close>

definition int_row :: "nat \<Rightarrow> pyrow" where
  "int_row i = [(''id'', PInt (int i))]"

fun int_before :: "pyval list \<Rightarrow> pyval list \<Rightarrow> bool" where
  "int_before [PInt a] [PInt b] = (a < b)"
| "int_before _ _ = False"

definition int_source :: "nat \<Rightarrow> nat \<Rightarrow> pyrow keyset_read" where
  "int_source b n =
     \<lparr>ks_table = ''t'', ks_columns = [''id''], ks_pk = [''id''], ks_batch = int (Suc b), ks_walk = None,
      ks_rereads = False,
      ks_fetch = (\<lambda>req. (take (Suc b)
        (case req of
           AfterPage k \<Rightarrow> filter (\<lambda>r. int_before k (key_of_row [''id''] r)) (map int_row [0..<n])
         | _ \<Rightarrow> map int_row [0..<n]), None)),
      ks_emit = Inr, ks_cancel = (\<lambda>_. False), ks_governor = None\<rparr>"

lemma int_before_iff: "int_before k k' \<longleftrightarrow> (\<exists>a b. k = [PInt a] \<and> k' = [PInt b] \<and> a < b)"
  by (induction k k' rule: int_before.induct) auto

lemma key_int_row [simp]: "key_of_row [''id''] (int_row i) = [PInt (int i)]"
  by (simp add: key_of_row_def int_row_def row_get_def)

interpretation ints: keyset_source "int_source b n" "map int_row [0..<n]" int_before for b n
proof
  show "sorted_wrt int_before (map (key_of_row (ks_pk (int_source b n))) (map int_row [0..<n]))"
    by (simp add: int_source_def o_def sorted_wrt_map)
  show "\<not> int_before k' k" if "int_before k k'" for k k' using that by (auto simp: int_before_iff)
  show "\<not> same_key k' k" if "int_before k k'" for k k'
    using that by (auto simp: int_before_iff same_key_def py_canon_def)
qed (auto simp: int_source_def nat_add_distrib)

section \<open>Properties\<close>

text \<open>
  C33: the parallel readers miss no row and read none twice: whatever the table, its size and its
  key span, every integer key lies in exactly one of the planned ranges.
\<close>

theorem shard_ranges_partition:
  assumes "plan_pk_shard_ranges integer_types t shards min_rows estimate minmax = Inr ranges"
  shows "\<exists>!i. i < length ranges \<and> in_pk_range (ranges ! i) k"
proof -
  have whole: "\<exists>!i. i < length [(None, None)] \<and> in_pk_range ([(None, None)] ! i) k"
    by (auto simp: in_pk_range_def)
  have "ranges = [(None, None)] \<or> (\<exists>lo hi. shards \<le> hi - lo \<and> 1 < shards \<and> ranges = split_span lo ((hi - lo + 1) div shards) (nat shards))"
    using assms by (auto simp: plan_pk_shard_ranges_def compute_pk_shard_ranges_def Let_def not_le
        split: sum.splits option.splits if_splits prod.splits)
  then show ?thesis
  proof
    assume "ranges = [(None, None)]"
    with whole show ?thesis by simp
  next
    assume "\<exists>lo hi. shards \<le> hi - lo \<and> 1 < shards \<and> ranges = split_span lo ((hi - lo + 1) div shards) (nat shards)"
    then obtain lo hi where s: "shards \<le> hi - lo" "1 < shards" "ranges = split_span lo ((hi - lo + 1) div shards) (nat shards)" by blast
    have "0 < (hi - lo + 1) div shards" using s(1,2) by (simp add: pos_imp_zdiv_pos_iff)
    with split_span_partition [of "nat shards" "(hi - lo + 1) div shards" lo k] s show ?thesis by simp
  qed
qed

theorem shard_ranges_partition_witness:
  "\<exists>!i. i < length ([(None, Some 4), (Some 4, None)] :: pk_range list)
     \<and> in_pk_range (([(None, Some 4), (Some 4, None)] :: pk_range list) ! i) 7"
proof -
  let ?t = "\<lparr>src_name = ''t'', src_columns = [\<lparr>col_name = ''id'', col_type = ''bigint(20) unsigned''\<rparr>], src_primary_key = [''id'']\<rparr>"
  have b: "base_type ''bigint(20) unsigned'' = Inr ''bigint''" by code_simp
  have "plan_pk_shard_ranges [''int'', ''bigint''] ?t 2 0 None (Some (1, 7)) = Inr [(None, Some 4), (Some 4, None)]"
    by (simp add: plan_pk_shard_ranges_def compute_pk_shard_ranges_def shardable_leading_int_pk_def b split_span_def
        upt_rec numeral_2_eq_2)
  from shard_ranges_partition [OF this, of 7] show ?thesis .
qed



end
