(* ===== verification/Pages.thy ===== *)
theory Pages
  imports Loop Keyset
begin

text \<open>
  \<^verbatim>\<open>core/validator.py\<close>: the bounded keyset reads of one side. Every statement is one page of
  a table in the order of a key that side enforces; a page's answer is an operation of the record
  \<open>pg_conn\<close> (Aurora DSQL, or a PostgreSQL source) on the databases' state. The NULL proof of the
  excluded columns (\<open>_NullProofAccumulator\<close>) rides on the target's pages. Every \<open>while True\<close> of the
  source is a \<open>while_true\<close>, so that a read that would never end has no value.
\<close>

section \<open>Errors of a paged read\<close>

definition runtime_error :: "string \<Rightarrow> string \<Rightarrow> pyexc" where
  "runtime_error cls msg = \<lparr>sqlstate = None, mro = [cls, ''RuntimeError'', ''Exception'', ''BaseException''],
     message = msg, diag_constraint = None\<rparr>"

definition is_paged_read_error :: "pyexc \<Rightarrow> bool" where
  "is_paged_read_error e = (''PagedReadError'' \<in> set (mro e))"

definition is_cancelled :: "pyexc \<Rightarrow> bool" where
  "is_cancelled e = (''ValidationCancelled'' \<in> set (mro e))"

text \<open>\<open>f"{n:,}"\<close>: the digits of \<open>n\<close> in groups of three.\<close>

fun group_digits :: "string \<Rightarrow> string" where
  "group_digits (a # b # c # d # ds) = a # b # c # CHR '','' # group_digits (d # ds)"
| "group_digits ds = ds"

definition grouped :: "int \<Rightarrow> string" where
  "grouped n = (if n < 0 then ''-'' else '''') @ rev (group_digits (rev (nat_str (nat \<bar>n\<bar>))))"

definition stalled_read :: "string \<Rightarrow> pyexc" where
  "stalled_read side = runtime_error ''PagedReadError''
     (''A keyset page of the '' @ side @ '' did not move past the key it was read after, so '' @
      ''the read would repeat that page forever: the database compares the primary key '' @
      ''differently from the read's cursor. The table is not compared.'')"

definition rows_disagree :: "string \<Rightarrow> int \<Rightarrow> int \<Rightarrow> pyexc" where
  "rows_disagree side paged counted = runtime_error ''PagedReadError''
     (''The '' @ side @ '''s keyset pages read '' @ grouped paged @ '' rows, but COUNT(*) in the same '' @
      ''snapshot counts '' @ grouped counted @ '', so the '' @ side @ '' checksum cannot be trusted and the '' @
      ''table is not compared. Re-run Validation once writes to this table have stopped; '' @
      ''if it repeats, the source compares the primary key differently from the read's cursor.'')"

definition rows_overrun :: "string \<Rightarrow> int \<Rightarrow> int \<Rightarrow> pyexc" where
  "rows_overrun side paged counted = runtime_error ''PagedReadError''
     (''The '' @ side @ '''s keyset pages had read '' @ grouped paged @ '' rows, more than the '' @
      grouped counted @ '' COUNT(*) counts in the same snapshot, so the read was stopped: the '' @ side @
      '' compares the primary key differently from the read's cursor, which read rows again. The '' @
      ''table is not compared.'')"

definition boundary_unread :: pyexc where
  "boundary_unread = runtime_error ''PagedReadError''
     (''The last key of a full keyset page of the source could not be read, so the '' @
      ''read cannot go on. The table is not compared.'')"

definition validation_cancelled :: "string \<Rightarrow> pyexc" where
  "validation_cancelled msg = runtime_error ''ValidationCancelled'' msg"

lemma runtime_error_simps [simp]:
  "sqlstate (runtime_error c m) = None"
  "mro (runtime_error c m) = [c, ''RuntimeError'', ''Exception'', ''BaseException'']"
  "message (runtime_error c m) = m"
  "is_exception (runtime_error c m)"
  "is_paged_read_error (runtime_error c m) \<longleftrightarrow> c = ''PagedReadError''"
  "is_cancelled (runtime_error c m) \<longleftrightarrow> c = ''ValidationCancelled''"
  by (auto simp: runtime_error_def is_exception_def is_paged_read_error_def is_cancelled_def)

lemma paged_read_errors [simp]:
  "is_paged_read_error (stalled_read side)" "is_paged_read_error (rows_disagree side p n)"
  "is_paged_read_error (rows_overrun side p n)" "is_paged_read_error boundary_unread"
  "is_exception (stalled_read side)" "is_exception (rows_disagree side p n)"
  "is_exception (rows_overrun side p n)" "is_exception boundary_unread"
  "\<not> is_cancelled (stalled_read side)" "\<not> is_cancelled (rows_disagree side p n)"
  "\<not> is_cancelled (rows_overrun side p n)" "\<not> is_cancelled boundary_unread"
  by (simp_all add: stalled_read_def rows_disagree_def rows_overrun_def boundary_unread_def)

lemma validation_cancelled_simps [simp]:
  "is_cancelled (validation_cancelled m)" "is_exception (validation_cancelled m)"
  "\<not> is_paged_read_error (validation_cancelled m)"
  by (simp_all add: validation_cancelled_def)

section \<open>Keys\<close>

text \<open>The key a table is paged by on its own side, and the one key reconciliation merges.\<close>

definition pk_paging_columns :: "source_table \<Rightarrow> string list" where
  "pk_paging_columns t =
     (if src_primary_key t \<noteq> [] \<and> set (src_primary_key t) \<subseteq> col_name ` set (src_columns t)
      then src_primary_key t else [])"

definition INTEGER_BASE_TYPES :: "string list" where
  "INTEGER_BASE_TYPES = [''tinyint'', ''smallint'', ''mediumint'', ''int'', ''integer'', ''bigint'']"

definition integer_pk_column :: "source_table \<Rightarrow> pyexc + string option" where
  "integer_pk_column t =
     (case src_primary_key t of
        [pk] \<Rightarrow>
          (case List.find (\<lambda>c. col_name c = pk) (src_columns t) of
             None \<Rightarrow> Inr None
           | Some c \<Rightarrow>
               (let words = py_lower (py_strip (col_type c));
                    base = takeWhile (\<lambda>c. \<not> py_space c) (dropWhile py_space (hd (py_split (CHR ''('') words)))
                in if base = [] then Inl (raise_named ''IndexError'' ''list index out of range'')
                   else Inr (if base \<in> set INTEGER_BASE_TYPES then Some pk else None)))
      | _ \<Rightarrow> Inr None)"

text \<open>A boolean key's text is \<open>'false'\<close> / \<open>'true'\<close>: the source's 0 / 1.\<close>

definition pk_integer :: "string \<Rightarrow> pyexc + int" where
  "pk_integer txt =
     (if txt = ''false'' then Inr 0 else if txt = ''true'' then Inr 1
      else (case py_int txt of
              Some n \<Rightarrow> Inr n
            | None \<Rightarrow> Inl (raise_named ''ValueError'' (''invalid literal for int() with base 10: '' @ txt))))"

lemma pk_integer_int_str [simp]: "pk_integer (int_str n) = Inr n"
proof -
  have "py_int ''false'' = None" "py_int ''true'' = None" by code_simp+
  then have "int_str n \<noteq> ''false''" "int_str n \<noteq> ''true''"
    using py_int_int_str [of n] by (metis option.distinct(1))+
  then show ?thesis by (simp add: pk_integer_def)
qed

section \<open>The NULL proof\<close>

text \<open>
  \<open>proof_columns\<close> in the statement's order, one count per column; \<open>complete\<close> is set at the natural
  end of the pass alone.
\<close>

record null_proof =
  proof_columns :: "string list"
  legacy :: "string list"
  counts :: "int list"
  complete :: bool
  failed :: "pyexc option"
  proof_retried :: bool
  reason :: "string option"

definition new_proof :: "string list \<Rightarrow> string list \<Rightarrow> null_proof" where
  "new_proof columns leg = \<lparr>proof_columns = columns, legacy = leg, counts = replicate (length columns) 0,
     complete = False, failed = None, proof_retried = False, reason = None\<rparr>"

definition reset_proof :: "null_proof \<Rightarrow> null_proof" where
  "reset_proof p = p\<lparr>counts := replicate (length (proof_columns p)) 0, complete := False, failed := None\<rparr>"

text \<open>A page of keys: each row is its key's text and one flag per proof column.\<close>

type_synonym key_rows = "(string \<times> bool list) list"

definition flagged :: "nat \<Rightarrow> key_rows \<Rightarrow> int" where
  "flagged i rows = int (length (filter (\<lambda>(k, flags). flags ! i) rows))"

definition add_page :: "key_rows \<Rightarrow> null_proof \<Rightarrow> null_proof" where
  "add_page rows p = p\<lparr>counts := map (\<lambda>i. counts p ! i + flagged i rows) [0..<length (proof_columns p)]\<rparr>"

definition add_counts :: "int list \<Rightarrow> null_proof \<Rightarrow> null_proof" where
  "add_counts ns p = p\<lparr>counts := map2 (+) (counts p) ns\<rparr>"

text \<open>
  The databases' state, the proof of the table being read, and the live target keys the comparison
  recorded for the orphan check.
\<close>

record 'w reading =
  db :: 'w
  acc :: null_proof
  live_keys :: "(string, string list) pydict"

definition on_db :: "('w, 'a) action \<Rightarrow> ('w reading, 'a) proc" where
  "on_db act r = (case act (db r) of (x, w) \<Rightarrow> Some (x, r\<lparr>db := w\<rparr>))"

definition update_proof :: "bool \<Rightarrow> (null_proof \<Rightarrow> null_proof) \<Rightarrow> ('w reading, unit) proc" where
  "update_proof bearing f = modify (\<lambda>r. if bearing then r\<lparr>acc := f (acc r)\<rparr> else r)"

text \<open>A statement of the pass: its failure is recorded on the proof it bears.\<close>

definition proof_statement :: "bool \<Rightarrow> ('w, 'a) action \<Rightarrow> ('w reading, 'a) proc" where
  "proof_statement bearing act =
     on_exception (on_db act)
       (\<lambda>e. and_then (update_proof bearing (\<lambda>p. p\<lparr>failed := Some e\<rparr>)) (\<lambda>_. raising e))"

lemma on_db_returns [returning, simp]: "returns (on_db act)"
  by (auto simp: returns_def on_db_def split: prod.splits)

lemma on_db_run [exec_simps]: "act (db r) = (x, w) \<Longrightarrow> on_db act r = Some (x, r\<lparr>db := w\<rparr>)"
  by (simp add: on_db_def)

lemma update_proof_run [simp]:
  "update_proof bearing f r = Some (Inr (), if bearing then r\<lparr>acc := f (acc r)\<rparr> else r)"
  by (simp add: update_proof_def modify_def)

lemma update_proof_returns [returning, simp]: "returns (update_proof bearing f)"
  by (simp add: returns_def)

lemma proof_statement_returns [returning, simp]: "returns (proof_statement bearing act)"
  unfolding proof_statement_def by (intro returning)

lemma proof_statement_run [exec_simps]:
  "act (db r) = (Inr a, w) \<Longrightarrow> proof_statement bearing act r = Some (Inr a, r\<lparr>db := w\<rparr>)"
  by (simp add: proof_statement_def on_exception_def on_db_def)

lemma proof_statement_fails [exec_simps]:
  "act (db r) = (Inl e, w) \<Longrightarrow> is_exception e \<Longrightarrow> proof_statement bearing act r
     = Some (Inl e, if bearing then r\<lparr>db := w, acc := (acc r)\<lparr>failed := Some e\<rparr>\<rparr> else r\<lparr>db := w\<rparr>)"
  "act (db r) = (Inl e, w) \<Longrightarrow> \<not> is_exception e \<Longrightarrow> proof_statement bearing act r = Some (Inl e, r\<lparr>db := w\<rparr>)"
  by (auto simp: proof_statement_def on_exception_def on_db_def and_then_def raising_def)

text \<open>\<open>_page_or_stop\<close>: the page hook, whose errors are swallowed, then the run's cancel check.\<close>

definition cancel_answer :: "string \<Rightarrow> (pyexc + bool) \<times> 'w \<Rightarrow> (pyexc + unit) \<times> 'w" where
  "cancel_answer msg r =
     (case r of
        (Inl e, w) \<Rightarrow> (Inl e, w)
      | (Inr True, w) \<Rightarrow> (Inl (validation_cancelled msg), w)
      | (Inr False, w) \<Rightarrow> (Inr (), w))"

definition page_or_stop :: "('w, unit) action \<Rightarrow> ('w, bool) action \<Rightarrow> ('w, unit) action" where
  "page_or_stop hook cancel w =
     (let stop = cancel_answer ''Validation cancelled while a table was being read.''
      in case hook w of
        (h, w1) \<Rightarrow>
          (case h of
             Inl e \<Rightarrow> if is_exception e then stop (cancel w1) else (Inl e, w1)
           | Inr _ \<Rightarrow> stop (cancel w1)))"

section \<open>The statements of a PostgreSQL-side connection\<close>

text \<open>
  One operation per statement of \<^verbatim>\<open>core/validation_sql.py\<close> this side is sent, executed and
  fetched: a page of keys after a cursor (\<open>None\<close>: the first page), one aggregate page of a composite
  key (sum, rows, last key, flag sums), \<open>COUNT(*)\<close> with the proof's counts, one checksum page
  (sum, last key, rows), the whole-table checksum, the orphan pages and the whole-table orphan count,
  the live primary key, the sampled tokens and the catalog's answer whether a table exists.
\<close>

record composite_row =
  row_sum :: "int option"
  row_count :: "int option"
  row_last :: "string list"
  row_flags :: "int option list"

record foreign_key =
  fk_name :: string
  referenced_table :: string
  created_on_target :: bool

record 'w pg_conn =
  pg_key_page :: "source_table \<Rightarrow> string \<Rightarrow> string list \<Rightarrow> nat \<Rightarrow> string option \<Rightarrow> ('w, key_rows) action"
  pg_composite_page :: "source_table \<Rightarrow> string list \<Rightarrow> bool \<Rightarrow> string list \<Rightarrow> nat \<Rightarrow> string list option \<Rightarrow>
    ('w, composite_row option) action"
  pg_count :: "string \<Rightarrow> string list \<Rightarrow> ('w, (int option \<times> int option list) option) action"
  pg_checksum_page :: "source_table \<Rightarrow> string \<Rightarrow> nat \<Rightarrow> string option \<Rightarrow>
    ('w, (int option \<times> string option \<times> int option) option) action"
  pg_checksum :: "source_table \<Rightarrow> ('w, int option) action"
  pg_orphan_page :: "string \<Rightarrow> foreign_key \<Rightarrow> string \<Rightarrow> nat \<Rightarrow> string option \<Rightarrow>
    ('w, (int option \<times> string option \<times> int option) option) action"
  pg_composite_orphan_page :: "string \<Rightarrow> foreign_key \<Rightarrow> string list \<Rightarrow> nat \<Rightarrow> string list option \<Rightarrow>
    ('w, (int option \<times> int option \<times> string list) option) action"
  pg_orphans :: "string \<Rightarrow> foreign_key \<Rightarrow> ('w, int option) action"
  pg_primary_key :: "string \<Rightarrow> ('w, string list) action"
  pg_tokens :: "source_table \<Rightarrow> string \<Rightarrow> nat \<Rightarrow> ('w, (string \<times> string) list) action"
  pg_exists :: "string \<Rightarrow> ('w, bool) action"

definition none_zero :: "int option \<Rightarrow> int" where
  "none_zero v = (case v of None \<Rightarrow> 0 | Some n \<Rightarrow> n)"

lemma none_zero_simps [simp]: "none_zero None = 0" "none_zero (Some n) = n"
  by (simp_all add: none_zero_def)

section \<open>Counting a side\<close>

text \<open>\<open>_target_count\<close>: one statement, the proof's counts in its row.\<close>

definition target_count :: "'w pg_conn \<Rightarrow> string \<Rightarrow> bool \<Rightarrow> ('w reading, int) proc" where
  "target_count conn table bearing r =
     (if bearing
      then and_then (proof_statement True (pg_count conn table (proof_columns (acc r))))
        (\<lambda>row. case row of
            None \<Rightarrow> and_then (update_proof True (\<lambda>p. p\<lparr>complete := True\<rparr>)) (\<lambda>_. ret 0)
          | Some (n, flags) \<Rightarrow>
              and_then (update_proof True (\<lambda>p. p\<lparr>counts := map none_zero flags, complete := True\<rparr>))
                (\<lambda>_. ret (none_zero n))) r
      else and_then (on_db (pg_count conn table []))
        (\<lambda>row. ret (case row of None \<Rightarrow> 0 | Some (n, _) \<Rightarrow> none_zero n)) r)"

text \<open>The columns the statements of a proof-bearing pass count.\<close>

definition bearing_columns :: "bool \<Rightarrow> 'w reading \<Rightarrow> string list" where
  "bearing_columns bearing r = (if bearing then proof_columns (acc r) else [])"

text \<open>\<open>_target_count_keyset\<close>: one round is one page.\<close>

definition count_round :: "'w pg_conn \<Rightarrow> source_table \<Rightarrow> string \<Rightarrow> nat \<Rightarrow> ('w, unit) action \<Rightarrow> bool \<Rightarrow>
    int \<times> string option \<Rightarrow> ('w reading, int \<times> string option + int) proc" where
  "count_round conn t pk page beat bearing st r =
     (case st of
        (tot, cursor) \<Rightarrow>
          and_then (on_db beat)
            (\<lambda>_. and_then (proof_statement bearing
                     (pg_key_page conn t pk (bearing_columns bearing r) page cursor))
              (\<lambda>rows. and_then (update_proof bearing (add_page rows))
                (\<lambda>_. if length rows < page
                     then and_then (update_proof bearing (\<lambda>p. p\<lparr>complete := True\<rparr>))
                            (\<lambda>_. ret (Inr (tot + int (length rows))))
                     else if rows = [] then raising (raise_named ''IndexError'' ''list index out of range'')
                     else ret (Inl (tot + int (length rows), Some (fst (last rows))))))) r)"

definition target_count_keyset :: "'w pg_conn \<Rightarrow> source_table \<Rightarrow> string \<Rightarrow> nat \<Rightarrow> ('w, unit) action \<Rightarrow> bool \<Rightarrow>
    ('w reading, int) proc" where
  "target_count_keyset conn t pk page beat bearing =
     while_true (count_round conn t pk page beat bearing) (0, None)"

text \<open>\<open>_composite_pages_pg\<close>: what the pages of one pass over a composite key added up to.\<close>

record paged_totals =
  tot_rows :: int
  tot_checksum :: int
  tot_flags :: "int list"

definition add_composite_row :: "composite_row option \<Rightarrow> paged_totals \<Rightarrow> paged_totals" where
  "add_composite_row row t =
     (case row of
        None \<Rightarrow> t
      | Some p \<Rightarrow> t\<lparr>tot_checksum := tot_checksum t + none_zero (row_sum p),
                    tot_rows := tot_rows t + none_zero (row_count p),
                    tot_flags := map2 (+) (tot_flags t) (map none_zero (row_flags p))\<rparr>)"

definition overruns :: "int option \<Rightarrow> int \<Rightarrow> bool" where
  "overruns expected rows = (case expected of None \<Rightarrow> False | Some n \<Rightarrow> n < rows)"

definition composite_round :: "'w pg_conn \<Rightarrow> source_table \<Rightarrow> string list \<Rightarrow> nat \<Rightarrow> bool \<Rightarrow> string list \<Rightarrow>
    ('w, unit) action \<Rightarrow> bool \<Rightarrow> string \<Rightarrow> int option \<Rightarrow> paged_totals \<times> string list option \<Rightarrow>
    ('w reading, paged_totals \<times> string list option + paged_totals) proc" where
  "composite_round conn t key page checksum nonnull beat bearing side expected st =
     (case st of
        (totals, cursor) \<Rightarrow>
          and_then (on_db beat)
            (\<lambda>_. and_then (proof_statement bearing (pg_composite_page conn t key checksum nonnull page cursor))
              (\<lambda>row. let cnt = (case row of None \<Rightarrow> 0 | Some p \<Rightarrow> none_zero (row_count p));
                         totals' = add_composite_row row totals
                     in if overruns expected (tot_rows totals')
                        then raising (rows_overrun side (tot_rows totals') (the expected))
                        else if cnt < int page
                        then and_then (update_proof bearing
                               (\<lambda>p. (add_counts (tot_flags totals') p)\<lparr>complete := True\<rparr>))
                               (\<lambda>_. ret (Inr totals'))
                        else (case row of
                                None \<Rightarrow> raising (raise_named ''TypeError'' ''row is None'')
                              | Some p \<Rightarrow> if Some (row_last p) = cursor then raising (stalled_read side)
                                          else ret (Inl (totals', Some (row_last p)))))))"

definition composite_pages_pg :: "'w pg_conn \<Rightarrow> source_table \<Rightarrow> string list \<Rightarrow> nat \<Rightarrow> bool \<Rightarrow> string list \<Rightarrow>
    ('w, unit) action \<Rightarrow> bool \<Rightarrow> string \<Rightarrow> int option \<Rightarrow> ('w reading, paged_totals) proc" where
  "composite_pages_pg conn t key page checksum nonnull beat bearing side expected =
     while_true (composite_round conn t key page checksum nonnull beat bearing side expected)
       (\<lparr>tot_rows = 0, tot_checksum = 0, tot_flags = replicate (length nonnull) 0\<rparr>, None)"

definition target_count_composite :: "'w pg_conn \<Rightarrow> source_table \<Rightarrow> string list \<Rightarrow> nat \<Rightarrow> ('w, unit) action \<Rightarrow>
    bool \<Rightarrow> ('w reading, int) proc" where
  "target_count_composite conn t key page beat bearing r =
     and_then (composite_pages_pg conn t key page False (bearing_columns bearing r) beat bearing ''target'' None)
       (\<lambda>totals. ret (tot_rows totals)) r"

text \<open>\<open>_bounded_target_count\<close>: paged by the side's own key, one statement without a key.\<close>

definition bounded_target_count :: "'w pg_conn \<Rightarrow> source_table \<Rightarrow> string list option \<Rightarrow> nat \<Rightarrow> ('w, unit) action \<Rightarrow>
    bool \<Rightarrow> ('w reading, int) proc" where
  "bounded_target_count conn t key page beat bearing =
     (case (case key of None \<Rightarrow> pk_paging_columns t | Some k \<Rightarrow> k) of
        [] \<Rightarrow> target_count conn (src_name t) bearing
      | [pk] \<Rightarrow> target_count_keyset conn t pk page beat bearing
      | k \<Rightarrow> target_count_composite conn t k page beat bearing)"

section \<open>The checksum of a side\<close>

text \<open>
  \<open>_target_checksum_keyset\<close>: the rows read are held to the snapshot's \<open>COUNT(*)\<close> when it is known.
  The page's last key is what the next one starts after; a \<open>NULL\<close> one binds the first page again.
\<close>

definition checksum_round :: "'w pg_conn \<Rightarrow> source_table \<Rightarrow> string \<Rightarrow> nat \<Rightarrow> ('w, unit) action \<Rightarrow> int option \<Rightarrow>
    string \<Rightarrow> int \<times> int \<times> string option \<Rightarrow> ('w reading, int \<times> int \<times> string option + int \<times> int) proc" where
  "checksum_round conn t pk page beat expected side st =
     (case st of
        (tot, rows, cursor) \<Rightarrow>
          and_then (on_db beat)
            (\<lambda>_. and_then (on_db (pg_checksum_page conn t pk page cursor))
              (\<lambda>row. case row of
                  None \<Rightarrow> ret (Inr (tot, rows))
                | Some (sub, last_key, cnt) \<Rightarrow>
                    let tot' = tot + none_zero sub; rows' = rows + none_zero cnt
                    in if overruns expected rows' then raising (rows_overrun side rows' (the expected))
                       else if cnt = None \<or> none_zero cnt < int page then ret (Inr (tot', rows'))
                       else if last_key = cursor then raising (stalled_read side)
                       else ret (Inl (tot', rows', last_key)))))"

text \<open>What every paged checksum does with the rows its pages read.\<close>

definition held_to_count :: "string \<Rightarrow> int option \<Rightarrow> int \<times> int \<Rightarrow> ('s, int) proc" where
  "held_to_count side expected read =
     (case expected of
        None \<Rightarrow> ret (fst read)
      | Some n \<Rightarrow> if snd read = n then ret (fst read) else raising (rows_disagree side (snd read) n))"

definition target_checksum_keyset :: "'w pg_conn \<Rightarrow> source_table \<Rightarrow> string \<Rightarrow> nat \<Rightarrow> ('w, unit) action \<Rightarrow>
    int option \<Rightarrow> string \<Rightarrow> ('w reading, int) proc" where
  "target_checksum_keyset conn t pk page beat expected side =
     and_then (while_true (checksum_round conn t pk page beat expected side) (0, 0, None))
       (held_to_count side expected)"

definition target_checksum :: "'w pg_conn \<Rightarrow> source_table \<Rightarrow> nat \<Rightarrow> ('w, unit) action \<Rightarrow> string list option \<Rightarrow>
    int option \<Rightarrow> string \<Rightarrow> ('w reading, int) proc" where
  "target_checksum conn t page beat key expected side =
     (case (case key of None \<Rightarrow> pk_paging_columns t | Some k \<Rightarrow> k) of
        [] \<Rightarrow> and_then (on_db (pg_checksum conn t)) (\<lambda>v. ret (none_zero v))
      | [pk] \<Rightarrow> target_checksum_keyset conn t pk page beat expected side
      | k \<Rightarrow> and_then (composite_pages_pg conn t k page True [] beat False ''target'' None)
               (\<lambda>totals. ret (tot_checksum totals)))"

definition target_checksum_and_count :: "'w pg_conn \<Rightarrow> source_table \<Rightarrow> string list \<Rightarrow> nat \<Rightarrow> ('w, unit) action \<Rightarrow>
    bool \<Rightarrow> ('w reading, int \<times> int) proc" where
  "target_checksum_and_count conn t key page beat bearing r =
     and_then (composite_pages_pg conn t key page True (bearing_columns bearing r) beat bearing ''target'' None)
       (\<lambda>totals. ret (tot_checksum totals, tot_rows totals)) r"

section \<open>A side that is not written while it is read\<close>

text \<open>
  The rows of one table in the order of the key it is paged by: a row is its key's text, its token
  of the checksum and which of its columns hold a value. \<open>after cursor rows\<close> is what a cursor leaves.
\<close>

type_synonym side_row = "string list \<times> int \<times> (string \<Rightarrow> bool)"

definition after :: "'k option \<Rightarrow> ('k \<times> 'v) list \<Rightarrow> ('k \<times> 'v) list" where
  "after cursor rows =
     (case cursor of None \<Rightarrow> rows | Some k \<Rightarrow> tl (dropWhile (\<lambda>row. fst row \<noteq> k) rows))"

definition tokens_of :: "side_row list \<Rightarrow> int" where
  "tokens_of rows = (\<Sum>(k, token, nonnull) \<leftarrow> rows. token)"

definition nonnull_rows :: "string \<Rightarrow> side_row list \<Rightarrow> int" where
  "nonnull_rows c rows = int (length (filter (\<lambda>(k, token, nonnull). nonnull c) rows))"

lemma after_None [simp]: "after None rows = rows"
  by (simp add: after_def)

lemma after_last:
  assumes "distinct (map fst rows)" "rows = xs @ pg @ ys" "pg \<noteq> []"
  shows "after (Some (fst (last pg))) rows = ys"
proof -
  obtain zs z where pg: "pg = zs @ [z]" using assms(3) by (cases pg rule: rev_cases) auto
  with assms have z: "fst z \<notin> fst ` set (xs @ zs)" by auto
  have "\<forall>row \<in> set (xs @ zs). fst row \<noteq> fst z" using z by (metis imageI)
  then have "dropWhile (\<lambda>row. fst row \<noteq> fst z) ((xs @ zs) @ z # ys) = z # ys"
    by (subst dropWhile_append2) simp_all
  with assms pg show ?thesis by (simp add: after_def)
qed

lemma tokens_of_append [simp]:
  "tokens_of [] = 0" "tokens_of (a @ b) = tokens_of a + tokens_of b"
  by (simp_all add: tokens_of_def)

lemma nonnull_rows_append [simp]:
  "nonnull_rows c [] = 0" "nonnull_rows c (a @ b) = nonnull_rows c a + nonnull_rows c b"
  by (simp_all add: nonnull_rows_def)

definition was_cancelled :: "pyexc + 'a \<Rightarrow> bool" where
  "was_cancelled x = (\<exists>e. x = Inl e \<and> is_cancelled e \<and> is_exception e)"

lemma was_cancelled_simps [simp]:
  "was_cancelled (Inl e) \<longleftrightarrow> is_cancelled e \<and> is_exception e" "\<not> was_cancelled (Inr a)"
  by (auto simp: was_cancelled_def)

text \<open>What every pass over the side leaves: the databases as they were read, and a proof that is exact.\<close>

definition exact_counts :: "string list \<Rightarrow> side_row list \<Rightarrow> int list" where
  "exact_counts cols rows = map (\<lambda>c. nonnull_rows c rows) cols"

definition pass_done :: "bool \<Rightarrow> side_row list \<Rightarrow> null_proof \<Rightarrow> null_proof \<Rightarrow> bool" where
  "pass_done bearing rows p p' =
     (p' = (if bearing then p\<lparr>counts := exact_counts (proof_columns p) rows, complete := True\<rparr> else p))"

definition pass_result :: "('w \<Rightarrow> bool) \<Rightarrow> bool \<Rightarrow> side_row list \<Rightarrow> ('a \<Rightarrow> bool) \<Rightarrow> null_proof \<Rightarrow> pyexc + 'a \<Rightarrow>
    'w reading \<Rightarrow> bool" where
  "pass_result snap bearing rows P p x r =
     (snap (db r)
      \<and> (case x of
           Inl e \<Rightarrow> is_cancelled e \<and> is_exception e \<and> failed (acc r) = failed p
         | Inr v \<Rightarrow> P v \<and> pass_done bearing rows p (acc r)))"

definition beats :: "('w \<Rightarrow> bool) \<Rightarrow> ('w, unit) action \<Rightarrow> bool" where
  "beats snap beat = (\<forall>w. snap w \<longrightarrow> snap (snd (beat w))
     \<and> (fst (beat w) = Inr () \<or> was_cancelled (fst (beat w))))"

lemma beats_cases:
  assumes "beats snap beat" "snap w"
  obtains (going) w' where "beat w = (Inr (), w')" "snap w'"
  | (stopped) e w' where "beat w = (Inl e, w')" "snap w'" "is_cancelled e" "is_exception e"
  using assms unfolding beats_def was_cancelled_def by (cases "beat w") auto

text \<open>
  What the statements answer over a side whose rows do not change while they are read: a page is
  the next rows after its cursor, in the order of a key whose values are distinct.
\<close>

locale pg_snapshot =
  fixes conn :: "'w pg_conn" and t :: source_table and key :: "string list"
    and snap :: "'w \<Rightarrow> bool" and rows :: "side_row list"
  assumes distinct_keys: "distinct (map fst rows)"
    and key_page: "\<And>w pk cols page cursor. snap w \<Longrightarrow> key = [pk] \<Longrightarrow>
      \<exists>w'. pg_key_page conn t pk cols page cursor w =
          (Inr (map (\<lambda>(k, token, nonnull). (hd k, map nonnull cols))
                 (take page (after (map_option (\<lambda>k. [k]) cursor) rows))), w') \<and> snap w'"
    and single_key: "\<And>row pk. key = [pk] \<Longrightarrow> row \<in> set rows \<Longrightarrow> length (fst row) = 1"
    and composite_page: "\<And>w checksum nonnull page cursor. snap w \<Longrightarrow>
      \<exists>p w'. pg_composite_page conn t key checksum nonnull page cursor w = (Inr (Some p), w') \<and> snap w'
        \<and> (let pg = take page (after cursor rows)
           in none_zero (row_sum p) = (if checksum then tokens_of pg else 0)
              \<and> row_count p = Some (int (length pg)) \<and> (pg \<noteq> [] \<longrightarrow> row_last p = fst (last pg))
              \<and> map none_zero (row_flags p) = exact_counts nonnull pg)"
    and checksum_page: "\<And>w pk page cursor. snap w \<Longrightarrow> key = [pk] \<Longrightarrow>
      \<exists>sub lastk w'. pg_checksum_page conn t pk page cursor w =
          (Inr (Some (sub, lastk, Some (int (length (take page (after (map_option (\<lambda>k. [k]) cursor) rows)))))), w')
        \<and> snap w'
        \<and> (let pg = take page (after (map_option (\<lambda>k. [k]) cursor) rows)
           in none_zero sub = tokens_of pg \<and> (pg \<noteq> [] \<longrightarrow> lastk = Some (hd (fst (last pg)))))"
    and one_count: "\<And>w cols. snap w \<Longrightarrow>
      \<exists>flags w'. pg_count conn (src_name t) cols w = (Inr (Some (Some (int (length rows)), flags)), w') \<and> snap w'
        \<and> map none_zero flags = exact_counts cols rows"
    and one_checksum: "\<And>w. snap w \<Longrightarrow>
      \<exists>v w'. pg_checksum conn t w = (Inr v, w') \<and> snap w' \<and> none_zero v = tokens_of rows"
begin

text \<open>
  A cursor stands after the rows \<open>read\<close> when it leaves the others: at first, and after every full
  page. Every pager below is this one induction over the rows that are left.
\<close>

definition stands :: "string list option \<Rightarrow> side_row list \<Rightarrow> side_row list \<Rightarrow> bool" where
  "stands cursor read left = (rows = read @ left \<and> after cursor rows = left
     \<and> (case cursor of None \<Rightarrow> True | Some k \<Rightarrow> k \<in> fst ` set read))"

lemma stands_first: "stands None [] rows"
  by (simp add: stands_def)

lemma stands_next:
  assumes "stands cursor read left" "take page left \<noteq> []"
  shows "stands (Some (fst (last (take page left)))) (read @ take page left) (drop page left)"
proof -
  from assms(1) have "rows = read @ take page left @ drop page left" by (simp add: stands_def)
  from after_last [OF distinct_keys this assms(2)] this show ?thesis
    using last_in_set [OF assms(2)] unfolding stands_def by simp
qed

lemma stands_moves:
  assumes "stands cursor read left" "take page left \<noteq> []"
  shows "Some (fst (last (take page left))) \<noteq> cursor"
proof -
  from assms have "last (take page left) \<in> set left" by (meson in_set_takeD last_in_set)
  with assms(1) distinct_keys show ?thesis by (auto simp: stands_def split: option.splits)
qed

end

lemma exact_counts_Nil: "exact_counts cols [] = replicate (length cols) 0"
  by (simp add: exact_counts_def map_replicate_const)

lemma add_page_exact:
  assumes "counts p = exact_counts (proof_columns p) read"
  shows "add_page (map (\<lambda>(k, token, nonnull). (f k, map nonnull (proof_columns p))) pg) p
    = p\<lparr>counts := exact_counts (proof_columns p) (read @ pg)\<rparr>"
proof -
  have "flagged i (map (\<lambda>(k, token, nonnull). (f k, map nonnull (proof_columns p))) pg)
      = nonnull_rows (proof_columns p ! i) pg" if "i < length (proof_columns p)" for i
    using that by (induction pg) (auto simp: flagged_def nonnull_rows_def)
  then have "map (\<lambda>i. counts p ! i + flagged i (map (\<lambda>(k, token, nonnull). (f k, map nonnull (proof_columns p))) pg))
      [0..<length (proof_columns p)] = exact_counts (proof_columns p) (read @ pg)"
    using assms by (intro nth_equalityI) (auto simp: exact_counts_def)
  then show ?thesis by (simp add: add_page_def)
qed

text \<open>A proof no page was added to yet.\<close>

definition fresh_proof :: "null_proof \<Rightarrow> bool" where
  "fresh_proof p = (counts p = exact_counts (proof_columns p) [] \<and> \<not> complete p)"

lemma fresh_new_proof [simp]: "fresh_proof (new_proof cols leg)" "fresh_proof (reset_proof p)"
  by (simp_all add: fresh_proof_def new_proof_def reset_proof_def exact_counts_Nil)

context pg_snapshot
begin

text \<open>What the proof holds once the rows \<open>read\<close> were paged.\<close>

definition proof_at :: "bool \<Rightarrow> null_proof \<Rightarrow> side_row list \<Rightarrow> null_proof" where
  "proof_at bearing p read = (if bearing then p\<lparr>counts := exact_counts (proof_columns p) read\<rparr> else p)"

lemma proof_at_first: "(bearing \<Longrightarrow> fresh_proof p) \<Longrightarrow> proof_at bearing p [] = p"
  by (simp add: proof_at_def fresh_proof_def)

lemma proof_at_simps [simp]:
  "proof_columns (proof_at bearing p read) = proof_columns p"
  "failed (proof_at bearing p read) = failed p"
  by (simp_all add: proof_at_def)

lemma pass_done_at: "pass_done bearing rows p
    (if bearing then (proof_at bearing p rows)\<lparr>complete := True\<rparr> else proof_at bearing p rows)"
  by (simp add: pass_done_def proof_at_def)

definition count_inv :: "bool \<Rightarrow> null_proof \<Rightarrow> int \<times> string option \<Rightarrow> 'w reading \<Rightarrow> bool" where
  "count_inv bearing p st r = (\<exists>read left. stands (map_option (\<lambda>k. [k]) (snd st)) read left
     \<and> fst st = int (length read) \<and> snap (db r) \<and> acc r = proof_at bearing p read)"

lemma hd_single: "key = [pk] \<Longrightarrow> row \<in> set rows \<Longrightarrow> [hd (fst row)] = fst row"
  using single_key [of pk row] by (cases "fst row") auto

lemma stands_single:
  assumes "key = [pk]" "stands cursor read left" "take page left \<noteq> []"
  shows "Some [hd (fst (last (take page left)))] = Some (fst (last (take page left)))"
proof -
  have "last (take page left) \<in> set rows"
    using assms(2) last_in_set [OF assms(3)] in_set_takeD [of _ page left] by (auto simp: stands_def)
  with hd_single [OF assms(1)] show ?thesis by simp
qed

lemma count_round_ok:
  assumes "key = [pk]" "beats snap beat" "0 < page" "count_inv bearing p st r"
  shows "round_ok (count_inv bearing p) (\<lambda>st r. length rows - nat (fst st))
      (pass_result snap bearing rows (\<lambda>n. n = int (length rows)) p) (length rows - nat (fst st))
      (count_round conn t pk page beat bearing st r)"
proof -
  obtain tot cursor where st: "st = (tot, cursor)" by force
  from assms(4) st obtain read left where inv: "stands (map_option (\<lambda>k. [k]) cursor) read left"
    "tot = int (length read)" "snap (db r)" "acc r = proof_at bearing p read"
    by (auto simp: count_inv_def)
  let ?pg = "take page left"
  let ?cols = "bearing_columns bearing r"
  let ?rows = "map (\<lambda>(k, token, nonnull). (hd k, map nonnull ?cols)) ?pg"
  from assms(2) inv(3) show ?thesis
  proof (cases rule: beats_cases)
    case (stopped e w')
    then show ?thesis
      by (simp add: st count_round_def on_db_def and_then_def pass_result_def inv(4))
  next
    case (going w1)
    let ?r1 = "r\<lparr>db := w1\<rparr>"
    from key_page [OF going(2) assms(1), of ?cols page cursor] inv(1)
    obtain w2 where page: "pg_key_page conn t pk ?cols page cursor w1 = (Inr ?rows, w2)" "snap w2"
      by (auto simp: stands_def)
    have rows_left: "rows = read @ left" using inv(1) by (simp add: stands_def)
    have upd: "(if bearing then add_page ?rows (acc r) else acc r) = proof_at bearing p (read @ ?pg)"
      using add_page_exact [of "acc r" read hd ?pg] inv(4)
      by (auto simp: proof_at_def bearing_columns_def)
    have run: "count_round conn t pk page beat bearing st r =
        (if length ?pg < page
         then Some (Inr (Inr (tot + int (length ?pg))), r\<lparr>db := w2, acc :=
                (if bearing then (proof_at bearing p (read @ ?pg))\<lparr>complete := True\<rparr>
                 else proof_at bearing p (read @ ?pg))\<rparr>)
         else Some (Inr (Inl (tot + int (length ?pg), Some (hd (fst (last ?pg))))),
                r\<lparr>db := w2, acc := proof_at bearing p (read @ ?pg)\<rparr>))"
      using going(1) page(1) upd assms(3)
      by (auto simp: st count_round_def exec_simps ret_def last_map case_prod_unfold
          split: if_splits)
    show ?thesis
    proof (cases "length ?pg < page")
      case True
      then have "?pg = left" by simp
      with True run page(2) inv(2) rows_left show ?thesis
        using pass_done_at [of bearing p] by (auto simp: pass_result_def st)
    next
      case False
      with assms(3) have ne: "?pg \<noteq> []" by auto
      have "stands (map_option (\<lambda>k. [k]) (Some (hd (fst (last ?pg))))) (read @ ?pg) (drop page left)"
        using stands_next [OF inv(1) ne] stands_single [OF assms(1) inv(1) ne] by simp
      then have "count_inv bearing p (tot + int (length ?pg), Some (hd (fst (last ?pg))))
          (r\<lparr>db := w2, acc := proof_at bearing p (read @ ?pg)\<rparr>)"
        using page(2) inv(2) by (auto simp: count_inv_def)
      moreover have "length rows - nat (tot + int (length ?pg)) < length rows - nat tot"
        using False ne inv(2) rows_left assms(3) by (cases left) (auto simp: nat_int_add)
      ultimately show ?thesis using run False by (simp add: st)
    qed
  qed
qed

text \<open>The paged count is the number of rows, and its proof counts every row.\<close>

lemma target_count_keyset_exact:
  assumes "key = [pk]" "beats snap beat" "0 < page" "snap (db r)" "bearing \<Longrightarrow> fresh_proof (acc r)"
  shows "\<exists>x r'. target_count_keyset conn t pk page beat bearing r = Some (x, r')
    \<and> pass_result snap bearing rows (\<lambda>n. n = int (length rows)) (acc r) x r'"
  unfolding target_count_keyset_def
proof (rule while_true_rule [where I = "count_inv bearing (acc r)" and m = "\<lambda>st r. length rows - nat (fst st)"])
  show "count_inv bearing (acc r) (0, None) r"
    using stands_first assms(4) proof_at_first [of bearing "acc r"] assms(5)
    by (fastforce simp: count_inv_def)
qed (rule count_round_ok [OF assms(1-3)])

end

lemma map2_exact_counts:
  "map2 (+) (exact_counts cols a) (exact_counts cols b) = exact_counts cols (a @ b)"
  by (induction cols) (auto simp: exact_counts_def)

context pg_snapshot
begin

definition composite_inv :: "bool \<Rightarrow> string list \<Rightarrow> null_proof \<Rightarrow> paged_totals \<times> string list option \<Rightarrow>
    'w reading \<Rightarrow> bool" where
  "composite_inv checksum nonnull p st r = (\<exists>read left. stands (snd st) read left
     \<and> fst st = \<lparr>tot_rows = int (length read), tot_checksum = (if checksum then tokens_of read else 0),
                 tot_flags = exact_counts nonnull read\<rparr>
     \<and> snap (db r) \<and> acc r = p)"

definition composite_totals :: "bool \<Rightarrow> string list \<Rightarrow> side_row list \<Rightarrow> paged_totals" where
  "composite_totals checksum nonnull read = \<lparr>tot_rows = int (length read),
     tot_checksum = (if checksum then tokens_of read else 0), tot_flags = exact_counts nonnull read\<rparr>"

lemma composite_round_ok:
  assumes "beats snap beat" "0 < page" "composite_inv checksum nonnull p st r"
    and exp: "expected = None \<or> expected = Some (int (length rows))"
    and bearing: "bearing \<Longrightarrow> nonnull = proof_columns p \<and> fresh_proof p"
  shows "round_ok (composite_inv checksum nonnull p) (\<lambda>st r. length rows - nat (tot_rows (fst st)))
      (pass_result snap bearing rows (\<lambda>v. v = composite_totals checksum nonnull rows) p)
      (length rows - nat (tot_rows (fst st)))
      (composite_round conn t key page checksum nonnull beat bearing side expected st r)"
proof -
  obtain tot cursor where st: "st = (tot, cursor)" by force
  from assms(3) st obtain read left where inv: "stands cursor read left"
    "tot = composite_totals checksum nonnull read" "snap (db r)" "acc r = p"
    by (auto simp: composite_inv_def composite_totals_def)
  let ?pg = "take page left"
  from assms(1) inv(3) show ?thesis
  proof (cases rule: beats_cases)
    case (stopped e w')
    then show ?thesis
      by (simp add: st composite_round_def on_db_def and_then_def pass_result_def inv(4))
  next
    case (going w1)
    have left: "after cursor rows = left" and rows_left: "rows = read @ left"
      using inv(1) unfolding stands_def by blast+
    from composite_page [OF going(2), of checksum nonnull page cursor] obtain q w2 where page:
      "pg_composite_page conn t key checksum nonnull page cursor w1 = (Inr (Some q), w2)" "snap w2"
      "none_zero (row_sum q) = (if checksum then tokens_of ?pg else 0)" "row_count q = Some (int (length ?pg))"
      "?pg \<noteq> [] \<longrightarrow> row_last q = fst (last ?pg)" "map none_zero (row_flags q) = exact_counts nonnull ?pg"
      by (auto simp: Let_def left)
    have add: "add_composite_row (Some q) tot = composite_totals checksum nonnull (read @ ?pg)"
      using inv(2) page by (auto simp: add_composite_row_def composite_totals_def map2_exact_counts)
    have fits: "\<not> overruns expected (tot_rows (composite_totals checksum nonnull (read @ ?pg)))"
      using exp rows_left by (auto simp: overruns_def composite_totals_def)
    show ?thesis
    proof (cases "length ?pg < page")
      case True
      then have all: "?pg = left" by simp
      have "bearing \<Longrightarrow> add_counts (exact_counts nonnull rows) p = p\<lparr>counts := exact_counts (proof_columns p) rows\<rparr>"
        using bearing map2_exact_counts [of "proof_columns p" "[]" rows]
        by (simp add: add_counts_def fresh_proof_def)
      with True page inv(4) add fits all rows_left going(1) show ?thesis
        by (auto simp: st composite_round_def exec_simps ret_def pass_result_def pass_done_def
            composite_totals_def)
    next
      case False
      with assms(2) have ne: "?pg \<noteq> []" by auto
      from stands_next [OF inv(1) ne] page(2) inv(4)
      have "composite_inv checksum nonnull p (composite_totals checksum nonnull (read @ ?pg), Some (fst (last ?pg)))
          (r\<lparr>db := w2\<rparr>)"
        by (auto simp: composite_inv_def composite_totals_def)
      moreover have "length rows - (length read + length ?pg) < length rows - length read"
        using ne rows_left assms(2) by (cases left) auto
      ultimately show ?thesis
        using False page ne stands_moves [OF inv(1) ne] add fits inv(2) going(1)
        by (auto simp: st composite_round_def exec_simps ret_def composite_totals_def nat_int_add)
    qed
  qed
qed

lemma composite_pages_exact:
  assumes "beats snap beat" "0 < page" "snap (db r)"
    and "expected = None \<or> expected = Some (int (length rows))"
    and "bearing \<Longrightarrow> nonnull = proof_columns (acc r) \<and> fresh_proof (acc r)"
  shows "\<exists>x r'. composite_pages_pg conn t key page checksum nonnull beat bearing side expected r = Some (x, r')
    \<and> pass_result snap bearing rows (\<lambda>v. v = composite_totals checksum nonnull rows) (acc r) x r'"
  unfolding composite_pages_pg_def
proof (rule while_true_rule [where I = "composite_inv checksum nonnull (acc r)"
      and m = "\<lambda>st r. length rows - nat (tot_rows (fst st))"])
  show "composite_inv checksum nonnull (acc r)
      (\<lparr>tot_rows = 0, tot_checksum = 0, tot_flags = replicate (length nonnull) 0\<rparr>, None) r"
    using stands_first assms(3) by (fastforce simp: composite_inv_def exact_counts_Nil)
qed (rule composite_round_ok [OF assms(1,2) _ assms(4,5)])

definition checksum_inv :: "null_proof \<Rightarrow> int \<times> int \<times> string option \<Rightarrow> 'w reading \<Rightarrow> bool" where
  "checksum_inv p st r = (\<exists>read left. stands (map_option (\<lambda>k. [k]) (snd (snd st))) read left
     \<and> fst st = tokens_of read \<and> fst (snd st) = int (length read) \<and> snap (db r) \<and> acc r = p)"

lemma checksum_round_ok:
  assumes "key = [pk]" "beats snap beat" "0 < page" "checksum_inv p st r"
    and exp: "expected = None \<or> expected = Some (int (length rows))"
  shows "round_ok (checksum_inv p) (\<lambda>st r. length rows - nat (fst (snd st)))
      (pass_result snap False rows (\<lambda>v. v = (tokens_of rows, int (length rows))) p)
      (length rows - nat (fst (snd st)))
      (checksum_round conn t pk page beat expected side st r)"
proof -
  obtain tot n cursor where st: "st = (tot, n, cursor)" by (cases st) auto
  from assms(4) st obtain read left where inv: "stands (map_option (\<lambda>k. [k]) cursor) read left"
    "tot = tokens_of read" "n = int (length read)" "snap (db r)" "acc r = p"
    by (auto simp: checksum_inv_def)
  let ?pg = "take page left"
  from assms(2) inv(4) show ?thesis
  proof (cases rule: beats_cases)
    case (stopped e w')
    then show ?thesis
      by (simp add: st checksum_round_def on_db_def and_then_def pass_result_def inv(5))
  next
    case (going w1)
    have left: "after (map_option (\<lambda>k. [k]) cursor) rows = left" and rows_left: "rows = read @ left"
      using inv(1) unfolding stands_def by blast+
    from checksum_page [OF going(2) assms(1), of page cursor] obtain sub lastk w2 where page:
      "pg_checksum_page conn t pk page cursor w1 = (Inr (Some (sub, lastk, Some (int (length ?pg)))), w2)"
      "snap w2" "none_zero sub = tokens_of ?pg" "?pg \<noteq> [] \<longrightarrow> lastk = Some (hd (fst (last ?pg)))"
      by (auto simp: Let_def left)
    have fits: "\<not> overruns expected (n + int (length ?pg))"
      using exp rows_left inv(3) by (auto simp: overruns_def)
    show ?thesis
    proof (cases "length ?pg < page")
      case True
      then have all: "?pg = left" by simp
      with True page inv fits rows_left going(1) show ?thesis
        by (auto simp: st checksum_round_def exec_simps ret_def pass_result_def pass_done_def Let_def)
    next
      case False
      with assms(3) have ne: "?pg \<noteq> []" by auto
      have next_key: "map_option (\<lambda>k. [k]) (Some (hd (fst (last ?pg)))) = Some (fst (last ?pg))"
        using stands_single [OF assms(1) inv(1) ne] by simp
      have "cursor \<noteq> Some (hd (fst (last ?pg)))"
        using stands_moves [OF inv(1) ne] next_key by auto
      moreover have "checksum_inv p (tot + tokens_of ?pg, n + int (length ?pg), Some (hd (fst (last ?pg)))) (r\<lparr>db := w2\<rparr>)"
        using stands_next [OF inv(1) ne] next_key page(2) inv by (auto simp: checksum_inv_def)
      moreover have "length rows - (length read + length ?pg) < length rows - length read"
        using ne rows_left assms(3) by (cases left) auto
      ultimately show ?thesis
        using False page ne fits inv(2,3) going(1)
        by (auto simp: st checksum_round_def exec_simps ret_def nat_int_add Let_def)
    qed
  qed
qed

lemma checksum_walk_exact:
  assumes "key = [pk]" "beats snap beat" "0 < page" "snap (db r)"
    and "expected = None \<or> expected = Some (int (length rows))"
  shows "\<exists>x r'. while_true (checksum_round conn t pk page beat expected side) (0, 0, None) r = Some (x, r')
    \<and> pass_result snap False rows (\<lambda>v. v = (tokens_of rows, int (length rows))) (acc r) x r'"
proof (rule while_true_rule [where I = "checksum_inv (acc r)" and m = "\<lambda>st r. length rows - nat (fst (snd st))"])
  show "checksum_inv (acc r) (0, 0, None) r"
    using stands_first assms(4) by (fastforce simp: checksum_inv_def)
qed (rule checksum_round_ok [OF assms(1-3) _ assms(5)])

end

text \<open>A pass followed by a pure step.\<close>

lemma pass_result_then:
  assumes "\<exists>x r'. m r = Some (x, r') \<and> pass_result snap bearing rows P p x r'"
    and "\<And>v r'. P v \<Longrightarrow> f v r' = Some (Inr (g v), r') \<and> Q (g v)"
  shows "\<exists>x r'. and_then m f r = Some (x, r') \<and> pass_result snap bearing rows Q p x r'"
proof -
  from assms(1) obtain x r' where x: "m r = Some (x, r')" "pass_result snap bearing rows P p x r'" by blast
  show ?thesis
  proof (cases x)
    case (Inl e)
    with x show ?thesis by (simp add: and_then_def pass_result_def)
  next
    case (Inr v)
    with x assms(2) [of v r'] show ?thesis by (auto simp: and_then_def pass_result_def)
  qed
qed

context pg_snapshot
begin

lemma target_count_exact:
  assumes "snap (db r)" "bearing \<Longrightarrow> fresh_proof (acc r)"
  shows "\<exists>x r'. target_count conn (src_name t) bearing r = Some (x, r')
    \<and> pass_result snap bearing rows (\<lambda>n. n = int (length rows)) (acc r) x r'"
proof -
  from one_count [OF assms(1)] obtain flags w' where w': "pg_count conn (src_name t) (bearing_columns bearing r) (db r)
      = (Inr (Some (Some (int (length rows)), flags)), w')" "snap w'"
      "map none_zero flags = exact_counts (bearing_columns bearing r) rows"
    by blast
  then show ?thesis
    by (cases bearing)
      (auto simp: target_count_def exec_simps ret_def pass_result_def pass_done_def bearing_columns_def)
qed

lemma bounded_target_count_exact:
  assumes "beats snap beat" "0 < page" "snap (db r)" "bearing \<Longrightarrow> fresh_proof (acc r)"
    and "(case k of None \<Rightarrow> pk_paging_columns t | Some k' \<Rightarrow> k') = key"
  shows "\<exists>x r'. bounded_target_count conn t k page beat bearing r = Some (x, r')
    \<and> pass_result snap bearing rows (\<lambda>n. n = int (length rows)) (acc r) x r'"
proof (cases key rule: remdups_adj.cases)
  case 1
  with target_count_exact [of r bearing] assms show ?thesis by (simp add: bounded_target_count_def)
next
  case (2 pk)
  with target_count_keyset_exact [of pk beat page r bearing] assms show ?thesis
    by (simp add: bounded_target_count_def)
next
  case (3 a b c)
  have "\<exists>x r'. target_count_composite conn t key page beat bearing r = Some (x, r')
    \<and> pass_result snap bearing rows (\<lambda>n. n = int (length rows)) (acc r) x r'"
    unfolding target_count_composite_def
  proof (rule pass_result_then)
    show "\<exists>x r'. composite_pages_pg conn t key page False (bearing_columns bearing r) beat bearing ''target'' None r
        = Some (x, r') \<and> pass_result snap bearing rows
            (\<lambda>v. v = composite_totals False (bearing_columns bearing r) rows) (acc r) x r'"
      by (rule composite_pages_exact) (use assms in \<open>auto simp: bearing_columns_def\<close>)
  qed (simp add: ret_def composite_totals_def)
  with 3 assms(5) show ?thesis by (simp add: bounded_target_count_def)
qed

lemma target_checksum_exact:
  assumes "beats snap beat" "0 < page" "snap (db r)"
    and "expected = None \<or> expected = Some (int (length rows))"
    and "(case k of None \<Rightarrow> pk_paging_columns t | Some k' \<Rightarrow> k') = key"
  shows "\<exists>x r'. target_checksum conn t page beat k expected side r = Some (x, r')
    \<and> pass_result snap False rows (\<lambda>v. v = tokens_of rows) (acc r) x r'"
proof (cases key rule: remdups_adj.cases)
  case 1
  with one_checksum [OF assms(3)] assms(5) show ?thesis
    by (auto simp: target_checksum_def exec_simps ret_def pass_result_def pass_done_def)
next
  case (2 pk)
  have "\<exists>x r'. target_checksum_keyset conn t pk page beat expected side r = Some (x, r')
    \<and> pass_result snap False rows (\<lambda>v. v = tokens_of rows) (acc r) x r'"
    unfolding target_checksum_keyset_def
    by (rule pass_result_then, rule checksum_walk_exact [OF 2 assms(1-4)])
      (use assms(4) in \<open>auto simp: held_to_count_def ret_def\<close>)
  with 2 assms(5) show ?thesis by (simp add: target_checksum_def)
next
  case (3 a b c)
  have "\<exists>x r'. and_then (composite_pages_pg conn t key page True [] beat False ''target'' None)
        (\<lambda>totals. ret (tot_checksum totals)) r = Some (x, r')
    \<and> pass_result snap False rows (\<lambda>v. v = tokens_of rows) (acc r) x r'"
    by (rule pass_result_then, rule composite_pages_exact)
      (use assms in \<open>auto simp: ret_def composite_totals_def\<close>)
  with 3 assms(5) show ?thesis by (simp add: target_checksum_def)
qed

lemma target_checksum_and_count_exact:
  assumes "beats snap beat" "0 < page" "snap (db r)" "bearing \<Longrightarrow> fresh_proof (acc r)"
  shows "\<exists>x r'. target_checksum_and_count conn t key page beat bearing r = Some (x, r')
    \<and> pass_result snap bearing rows (\<lambda>v. v = (tokens_of rows, int (length rows))) (acc r) x r'"
  unfolding target_checksum_and_count_def
  by (rule pass_result_then, rule composite_pages_exact)
    (use assms in \<open>auto simp: ret_def composite_totals_def bearing_columns_def\<close>)

end

end
