(* ===== verification/Reconcile.thy ===== *)
theory Reconcile
  imports Pages "HOL-Library.List_Lexorder" "HOL-Library.Char_ord"
begin

text \<open>
  \<^verbatim>\<open>core/validator.py\<close>: the record-level check of a table. Two generators (\<open>_iter_source_pks\<close>,
  \<open>_iter_target_pks\<close>) hand out the keys of a side in ascending order, page after page, and
  \<open>reconcile_pk_streams\<close> merges them into a \<open>ReconcileResult\<close>; \<open>_diff_pks\<close> explains a mismatch by a
  bounded sample. A generator is its frame (the rows of its page not yet yielded, its cursor and
  whether the page was short), a pull is a procedure on it.
\<close>

section \<open>The key generators\<close>

record 'row pk_gen =
  gen_rows :: "'row list"
  gen_last :: "string option"
  gen_short :: bool

definition new_gen :: "'row pk_gen" where
  "new_gen = \<lparr>gen_rows = [], gen_last = None, gen_short = False\<rparr>"

text \<open>
  \<open>_iter_target_pks\<close>, resumed: the next row of the page, the end after a short page (the proof is
  complete then), or the next page.
\<close>

definition target_pks_round :: "'w pg_conn \<Rightarrow> source_table \<Rightarrow> string \<Rightarrow> nat \<Rightarrow> ('w, unit) action \<Rightarrow> bool \<Rightarrow>
    (string \<times> bool list) pk_gen \<Rightarrow>
    ('w reading, (string \<times> bool list) pk_gen + int option \<times> (string \<times> bool list) pk_gen) proc" where
  "target_pks_round conn t pk page beat bearing g r =
     (case gen_rows g of
        (k, flags) # rest \<Rightarrow>
          (case pk_integer k of
             Inl e \<Rightarrow> Some (Inl e, r)
           | Inr n \<Rightarrow> Some (Inr (Inr (Some n, g\<lparr>gen_rows := rest, gen_last := Some k\<rparr>)), r))
      | [] \<Rightarrow>
          if gen_short g
          then and_then (update_proof bearing (\<lambda>p. p\<lparr>complete := True\<rparr>)) (\<lambda>_. ret (Inr (None, g))) r
          else and_then (on_db beat)
            (\<lambda>_. and_then (proof_statement bearing
                     (pg_key_page conn t pk (bearing_columns bearing r) page (gen_last g)))
              (\<lambda>rows. and_then (update_proof bearing (add_page rows))
                (\<lambda>_. ret (Inl (g\<lparr>gen_rows := rows, gen_short := length rows < page\<rparr>))))) r)"

definition next_target_pk :: "'w pg_conn \<Rightarrow> source_table \<Rightarrow> string \<Rightarrow> nat \<Rightarrow> ('w, unit) action \<Rightarrow> bool \<Rightarrow>
    (string \<times> bool list) pk_gen \<Rightarrow> ('w reading, int option \<times> (string \<times> bool list) pk_gen) proc" where
  "next_target_pk conn t pk page beat bearing = while_true (target_pks_round conn t pk page beat bearing)"

text \<open>
  \<open>_iter_source_pks\<close>, resumed. The pages of a MySQL source are their keys alone; \<open>my_key_page\<close> is
  the statement.
\<close>

record int_gen =
  int_rows :: "int list"
  int_last :: "int option"
  int_short :: bool

definition new_int_gen :: int_gen where
  "new_int_gen = \<lparr>int_rows = [], int_last = None, int_short = False\<rparr>"

type_synonym 'w key_pages = "source_table \<Rightarrow> string \<Rightarrow> nat \<Rightarrow> int option \<Rightarrow> ('w, int list) action"

definition source_pks_round :: "'w key_pages \<Rightarrow> source_table \<Rightarrow> string \<Rightarrow> nat \<Rightarrow> ('w, unit) action \<Rightarrow>
    int_gen \<Rightarrow> ('w reading, int_gen + int option \<times> int_gen) proc" where
  "source_pks_round my_key_page t pk page beat g r =
     (case int_rows g of
        k # rest \<Rightarrow> Some (Inr (Inr (Some k, g\<lparr>int_rows := rest, int_last := Some k\<rparr>)), r)
      | [] \<Rightarrow>
          if int_short g then Some (Inr (Inr (None, g)), r)
          else and_then (on_db beat)
            (\<lambda>_. and_then (on_db (my_key_page t pk page (int_last g)))
              (\<lambda>rows. ret (Inl (g\<lparr>int_rows := rows, int_short := length rows < page\<rparr>)))) r)"

definition next_source_pk :: "'w key_pages \<Rightarrow> source_table \<Rightarrow> string \<Rightarrow> nat \<Rightarrow> ('w, unit) action \<Rightarrow>
    int_gen \<Rightarrow> ('w reading, int option \<times> int_gen) proc" where
  "next_source_pk my_key_page t pk page beat = while_true (source_pks_round my_key_page t pk page beat)"

section \<open>The merge\<close>

definition RECONCILE_CANCEL_POLL_EVERY :: nat where
  "RECONCILE_CANCEL_POLL_EVERY = 4096"

definition RECONCILE_SAMPLE_CAP :: nat where
  "RECONCILE_SAMPLE_CAP = 50"

record reconcile_result =
  rec_pk_column :: string
  rec_source_count :: int
  rec_target_count :: int
  missing_on_target :: int
  extra_on_target :: int
  missing_sample :: "string list"
  extra_sample :: "string list"
  sample_truncated :: bool
  consistent :: bool

text \<open>The counters of the loop, and its two streams with the item of each it looks at.\<close>

record merge_counts =
  mc_source :: int
  mc_target :: int
  mc_missing :: int
  mc_extra :: int
  mc_missing_sample :: "string list"
  mc_extra_sample :: "string list"
  mc_steps :: nat

record ('g, 'h) merging =
  counters :: merge_counts
  at_source :: "int option"
  at_target :: "int option"
  source_gen :: 'g
  target_gen :: 'h

definition sampled :: "nat \<Rightarrow> int \<Rightarrow> string list \<Rightarrow> string list" where
  "sampled cap k sample = (if length sample < cap then sample @ [int_str k] else sample)"

definition count_missing :: "nat \<Rightarrow> int \<Rightarrow> merge_counts \<Rightarrow> merge_counts" where
  "count_missing cap k c = c\<lparr>mc_source := mc_source c + 1, mc_missing := mc_missing c + 1,
     mc_missing_sample := sampled cap k (mc_missing_sample c)\<rparr>"

definition count_extra :: "nat \<Rightarrow> int \<Rightarrow> merge_counts \<Rightarrow> merge_counts" where
  "count_extra cap k c = c\<lparr>mc_target := mc_target c + 1, mc_extra := mc_extra c + 1,
     mc_extra_sample := sampled cap k (mc_extra_sample c)\<rparr>"

definition count_both :: "merge_counts \<Rightarrow> merge_counts" where
  "count_both c = c\<lparr>mc_source := mc_source c + 1, mc_target := mc_target c + 1\<rparr>"

definition reconciled_counts :: "string \<Rightarrow> merge_counts \<Rightarrow> reconcile_result" where
  "reconciled_counts pk c =
     \<lparr>rec_pk_column = pk, rec_source_count = mc_source c, rec_target_count = mc_target c,
      missing_on_target = mc_missing c, extra_on_target = mc_extra c,
      missing_sample = mc_missing_sample c, extra_sample = mc_extra_sample c,
      sample_truncated = (int (length (mc_missing_sample c)) < mc_missing c
                          \<or> int (length (mc_extra_sample c)) < mc_extra c),
      consistent = (mc_missing c = 0 \<and> mc_extra c = 0)\<rparr>"

text \<open>One side is stepped: what it is looking at becomes what its generator yields next.\<close>

definition step_source :: "('g \<Rightarrow> ('s, int option \<times> 'g) proc) \<Rightarrow> ('g, 'h) merging \<Rightarrow> ('s, ('g, 'h) merging) proc" where
  "step_source pull m = and_then (pull (source_gen m)) (\<lambda>(k, g). ret (m\<lparr>at_source := k, source_gen := g\<rparr>))"

definition step_target :: "('h \<Rightarrow> ('s, int option \<times> 'h) proc) \<Rightarrow> ('g, 'h) merging \<Rightarrow> ('s, ('g, 'h) merging) proc" where
  "step_target pull m = and_then (pull (target_gen m)) (\<lambda>(k, g). ret (m\<lparr>at_target := k, target_gen := g\<rparr>))"

text \<open>The poll of every 4096th step.\<close>

definition merge_poll :: "('s, bool) proc \<Rightarrow> nat \<Rightarrow> ('s, unit) proc" where
  "merge_poll cancel steps =
     (if steps mod RECONCILE_CANCEL_POLL_EVERY = 0
      then and_then cancel
        (\<lambda>stop. if stop then raising (validation_cancelled ''Validation cancelled during record reconciliation.'')
                else ret ())
      else ret ())"

definition merge_round :: "string \<Rightarrow> nat \<Rightarrow> ('s, bool) proc \<Rightarrow> ('g \<Rightarrow> ('s, int option \<times> 'g) proc) \<Rightarrow>
    ('h \<Rightarrow> ('s, int option \<times> 'h) proc) \<Rightarrow> ('g, 'h) merging \<Rightarrow>
    ('s, ('g, 'h) merging + reconcile_result) proc" where
  "merge_round pk cap cancel pull_source pull_target m =
     (if at_source m = None \<and> at_target m = None then ret (Inr (reconciled_counts pk (counters m)))
      else let steps = Suc (mc_steps (counters m)); m' = m\<lparr>counters := (counters m)\<lparr>mc_steps := steps\<rparr>\<rparr>
      in and_then (merge_poll cancel steps)
        (\<lambda>_. and_then
           (case (at_source m, at_target m) of
              (Some s, None) \<Rightarrow> step_source pull_source (m'\<lparr>counters := count_missing cap s (counters m')\<rparr>)
            | (None, Some t) \<Rightarrow> step_target pull_target (m'\<lparr>counters := count_extra cap t (counters m')\<rparr>)
            | (Some s, Some t) \<Rightarrow>
                if s < t then step_source pull_source (m'\<lparr>counters := count_missing cap s (counters m')\<rparr>)
                else if t < s then step_target pull_target (m'\<lparr>counters := count_extra cap t (counters m')\<rparr>)
                else and_then (step_source pull_source (m'\<lparr>counters := count_both (counters m')\<rparr>))
                       (step_target pull_target)
            | (None, None) \<Rightarrow> ret m')
           (\<lambda>m'. ret (Inl m'))))"

definition reconcile_pk_streams :: "string \<Rightarrow> nat \<Rightarrow> ('s, bool) proc \<Rightarrow> ('g \<Rightarrow> ('s, int option \<times> 'g) proc) \<Rightarrow>
    ('h \<Rightarrow> ('s, int option \<times> 'h) proc) \<Rightarrow> 'g \<Rightarrow> 'h \<Rightarrow> ('s, reconcile_result) proc" where
  "reconcile_pk_streams pk cap cancel pull_source pull_target g h =
     and_then (step_source pull_source
         \<lparr>counters = \<lparr>mc_source = 0, mc_target = 0, mc_missing = 0, mc_extra = 0, mc_missing_sample = [],
            mc_extra_sample = [], mc_steps = 0\<rparr>,
          at_source = None, at_target = None, source_gen = g, target_gen = h\<rparr>)
       (\<lambda>m. and_then (step_target pull_target m)
         (\<lambda>m. while_true (merge_round pk cap cancel pull_source pull_target) m))"

section \<open>What the merge answers\<close>

text \<open>The keys of \<open>xs\<close> that are not in \<open>ys\<close>, and the result over two whole key lists.\<close>

definition lacking :: "int list \<Rightarrow> int list \<Rightarrow> int list" where
  "lacking ys xs = filter (\<lambda>k. k \<notin> set ys) xs"

definition exact_counts_of :: "nat \<Rightarrow> int list \<Rightarrow> int list \<Rightarrow> int list \<Rightarrow> int list \<Rightarrow> nat \<Rightarrow> merge_counts" where
  "exact_counts_of cap S T xs ys steps =
     \<lparr>mc_source = int (length xs), mc_target = int (length ys),
      mc_missing = int (length (lacking T xs)), mc_extra = int (length (lacking S ys)),
      mc_missing_sample = map int_str (take cap (lacking T xs)),
      mc_extra_sample = map int_str (take cap (lacking S ys)), mc_steps = steps\<rparr>"

definition exact_reconcile :: "string \<Rightarrow> nat \<Rightarrow> int list \<Rightarrow> int list \<Rightarrow> reconcile_result" where
  "exact_reconcile pk cap S T = reconciled_counts pk (exact_counts_of cap S T S T 0)"

lemma sampled_snoc: "sampled cap k (map int_str (take cap xs)) = map int_str (take cap (xs @ [k]))"
  by (cases "length xs < cap") (auto simp: sampled_def)

lemma lacking_snoc: "lacking ys (xs @ [k]) = lacking ys xs @ (if k \<in> set ys then [] else [k])"
  by (simp add: lacking_def)

lemma count_missing_exact:
  "s \<notin> set T \<Longrightarrow> count_missing cap s (exact_counts_of cap S T xs ys n) = exact_counts_of cap S T (xs @ [s]) ys n"
  by (simp add: count_missing_def exact_counts_of_def lacking_snoc sampled_snoc)

lemma count_extra_exact:
  "t \<notin> set S \<Longrightarrow> count_extra cap t (exact_counts_of cap S T xs ys n) = exact_counts_of cap S T xs (ys @ [t]) n"
  by (simp add: count_extra_def exact_counts_of_def lacking_snoc sampled_snoc)

lemma count_both_exact:
  "k \<in> set S \<Longrightarrow> k \<in> set T \<Longrightarrow>
   count_both (exact_counts_of cap S T xs ys n) = exact_counts_of cap S T (xs @ [k]) (ys @ [k]) n"
  by (simp add: count_both_def exact_counts_of_def lacking_snoc)

lemma exact_counts_steps: "(exact_counts_of cap S T xs ys n)\<lparr>mc_steps := k\<rparr> = exact_counts_of cap S T xs ys k"
  by (simp add: exact_counts_of_def)

lemma reconciled_steps: "reconciled_counts pk (exact_counts_of cap S T xs ys n) = reconciled_counts pk (exact_counts_of cap S T xs ys k)"
  by (simp add: exact_counts_of_def reconciled_counts_def)

lemma exact_reconcile_simps:
  "rec_source_count (exact_reconcile pk cap S T) = int (length S)"
  "rec_target_count (exact_reconcile pk cap S T) = int (length T)"
  "missing_on_target (exact_reconcile pk cap S T) = int (length (lacking T S))"
  "extra_on_target (exact_reconcile pk cap S T) = int (length (lacking S T))"
  "missing_sample (exact_reconcile pk cap S T) = map int_str (take cap (lacking T S))"
  "extra_sample (exact_reconcile pk cap S T) = map int_str (take cap (lacking S T))"
  by (simp_all add: exact_reconcile_def reconciled_counts_def exact_counts_of_def)

lemma exact_reconcile_consistent: "consistent (exact_reconcile pk cap S T) \<longleftrightarrow> set S = set T"
  by (auto simp: exact_reconcile_def reconciled_counts_def exact_counts_of_def lacking_def filter_empty_conv)

lemma exact_reconcile_truncated:
  "sample_truncated (exact_reconcile pk cap S T) \<longleftrightarrow> cap < length (lacking T S) \<or> cap < length (lacking S T)"
  by (auto simp: exact_reconcile_def reconciled_counts_def exact_counts_of_def)

text \<open>
  Two streams on one state. \<open>inv g xs h ys s\<close>: in state \<open>s\<close> the source generator \<open>g\<close> has \<open>xs\<close> still
  to yield and the target generator \<open>h\<close> has \<open>ys\<close> (\<open>None\<close> once it has ended); \<open>stopped\<close> is what holds
  when a pull or the poll stopped the run.
\<close>

locale two_streams =
  fixes pull_source :: "'g \<Rightarrow> ('s, int option \<times> 'g) proc"
    and pull_target :: "'h \<Rightarrow> ('s, int option \<times> 'h) proc"
    and cancel :: "('s, bool) proc"
    and inv :: "'g \<Rightarrow> int list option \<Rightarrow> 'h \<Rightarrow> int list option \<Rightarrow> 's \<Rightarrow> bool"
    and stopped :: "'s \<Rightarrow> bool"
  assumes pull_source: "\<And>g xs h ys s. inv g (Some xs) h ys s \<Longrightarrow> \<exists>x s'. pull_source g s = Some (x, s')
      \<and> (was_cancelled x \<and> stopped s' \<or> (case xs of
           [] \<Rightarrow> (\<exists>g'. x = Inr (None, g') \<and> inv g' None h ys s')
         | k # ks \<Rightarrow> (\<exists>g'. x = Inr (Some k, g') \<and> inv g' (Some ks) h ys s')))"
    and pull_target: "\<And>g xs h ys s. inv g xs h (Some ys) s \<Longrightarrow> \<exists>x s'. pull_target h s = Some (x, s')
      \<and> (was_cancelled x \<and> stopped s' \<or> (case ys of
           [] \<Rightarrow> (\<exists>h'. x = Inr (None, h') \<and> inv g xs h' None s')
         | k # ks \<Rightarrow> (\<exists>h'. x = Inr (Some k, h') \<and> inv g xs h' (Some ks) s')))"
    and cancel: "\<And>g xs h ys s. inv g xs h ys s \<Longrightarrow> \<exists>b s'. cancel s = Some (Inr b, s') \<and> inv g xs h ys s' \<and> stopped s'"
begin

text \<open>What a stream still holds: the item looked at and what its generator has to yield.\<close>

definition holding :: "int option \<Rightarrow> int list option \<Rightarrow> int list \<Rightarrow> bool" where
  "holding item to_come left = (case left of [] \<Rightarrow> item = None \<and> to_come = None
     | k # ks \<Rightarrow> item = Some k \<and> to_come = Some ks)"

lemma holding_simps [simp]:
  "holding item None left \<longleftrightarrow> left = [] \<and> item = None"
  "holding item (Some xs) left \<longleftrightarrow> (\<exists>k. left = k # xs \<and> item = Some k)"
  "holding None to_come left \<longleftrightarrow> left = [] \<and> to_come = None"
  "holding (Some k) to_come left \<longleftrightarrow> (\<exists>ks. left = k # ks \<and> to_come = Some ks)"
  by (auto simp: holding_def split: list.splits)

lemma step_source_ok:
  assumes "inv (source_gen m) (Some left) h ys s"
  shows "\<exists>x s'. step_source pull_source m s = Some (x, s') \<and> (was_cancelled x \<and> stopped s'
    \<or> (\<exists>m' to_come. x = Inr m' \<and> counters m' = counters m \<and> at_target m' = at_target m \<and> target_gen m' = target_gen m
       \<and> holding (at_source m') to_come left \<and> inv (source_gen m') to_come h ys s'))"
proof -
  from pull_source [OF assms] obtain x s' where x: "pull_source (source_gen m) s = Some (x, s')"
    "was_cancelled x \<and> stopped s' \<or> (case left of
           [] \<Rightarrow> (\<exists>g'. x = Inr (None, g') \<and> inv g' None h ys s')
         | k # ks \<Rightarrow> (\<exists>g'. x = Inr (Some k, g') \<and> inv g' (Some ks) h ys s'))" by blast
  then show ?thesis
    by (cases left) (auto simp: step_source_def and_then_def ret_def was_cancelled_def)
qed

lemma step_target_ok:
  assumes "inv g xs (target_gen m) (Some left) s"
  shows "\<exists>x s'. step_target pull_target m s = Some (x, s') \<and> (was_cancelled x \<and> stopped s'
    \<or> (\<exists>m' to_come. x = Inr m' \<and> counters m' = counters m \<and> at_source m' = at_source m \<and> source_gen m' = source_gen m
       \<and> holding (at_target m') to_come left \<and> inv g xs (target_gen m') to_come s'))"
proof -
  from pull_target [OF assms] obtain x s' where x: "pull_target (target_gen m) s = Some (x, s')"
    "was_cancelled x \<and> stopped s' \<or> (case left of
           [] \<Rightarrow> (\<exists>h'. x = Inr (None, h') \<and> inv g xs h' None s')
         | k # ks \<Rightarrow> (\<exists>h'. x = Inr (Some k, h') \<and> inv g xs h' (Some ks) s'))" by blast
  then show ?thesis
    by (cases left) (auto simp: step_target_def and_then_def ret_def was_cancelled_def)
qed

lemma merge_poll_ok:
  assumes "inv g xs h ys s"
  shows "\<exists>x s'. merge_poll cancel n s = Some (x, s')
    \<and> (was_cancelled x \<and> stopped s' \<or> x = Inr () \<and> inv g xs h ys s')"
  using cancel [OF assms] assms
  by (auto simp: merge_poll_def and_then_def ret_def raising_def)

text \<open>
  The loop invariant: the keys already merged are below those that are left on the other side, and
  the counters are exact for them.
\<close>

definition merge_inv :: "nat \<Rightarrow> int list \<Rightarrow> int list \<Rightarrow> int list \<Rightarrow> int list \<Rightarrow> ('g, 'h) merging \<Rightarrow> 's \<Rightarrow> bool" where
  "merge_inv cap S T xs ys m s = (\<exists>xd yd to_come_s to_come_t. S = xd @ xs \<and> T = yd @ ys
     \<and> (\<forall>a \<in> set xd. \<forall>b \<in> set ys. a < b) \<and> (\<forall>b \<in> set yd. \<forall>a \<in> set xs. b < a)
     \<and> counters m = exact_counts_of cap S T xd yd (mc_steps (counters m))
     \<and> holding (at_source m) to_come_s xs \<and> holding (at_target m) to_come_t ys
     \<and> inv (source_gen m) to_come_s (target_gen m) to_come_t s)"

end

context two_streams
begin

definition merge_result :: "string \<Rightarrow> nat \<Rightarrow> int list \<Rightarrow> int list \<Rightarrow> pyexc + reconcile_result \<Rightarrow> 's \<Rightarrow> bool" where
  "merge_result pk cap S T x s = (was_cancelled x \<and> stopped s
     \<or> x = Inr (exact_reconcile pk cap S T) \<and> (\<exists>g h. inv g None h None s))"

definition merge_rank :: "nat \<Rightarrow> int list \<Rightarrow> int list \<Rightarrow> nat \<Rightarrow> ('g, 'h) merging \<Rightarrow> 's \<Rightarrow> bool" where
  "merge_rank cap S T n m s = (\<exists>xs ys. merge_inv cap S T xs ys m s \<and> n = length xs + length ys)"

abbreviation merge_ok where
  "merge_ok pk cap S T n \<equiv> round_ok (\<lambda>m s. \<exists>k < n. merge_rank cap S T k m s) (\<lambda>m s. 0) (merge_result pk cap S T) 1"

lemma merge_ok_cancelled [simp]:
  "was_cancelled x \<Longrightarrow> stopped s \<Longrightarrow> x = Inl e \<Longrightarrow> merge_ok pk cap S T n (Some (Inl e, s))"
  by (simp add: merge_result_def)

lemma merge_source:
  assumes "merge_inv cap S T (k # xs) ys m s" "sorted_wrt (<) S" "sorted_wrt (<) T" "\<forall>b \<in> set ys. k < b"
  shows "merge_ok pk cap S T (length (k # xs) + length ys) (and_then
     (step_source pull_source (m\<lparr>counters := count_missing cap k (counters m)\<rparr>)) (\<lambda>m'. ret (Inl m')) s)"
proof -
  from assms(1) obtain xd yd tt where inv: "S = xd @ k # xs" "T = yd @ ys"
    "\<forall>a \<in> set xd. \<forall>b \<in> set ys. a < b" "\<forall>b \<in> set yd. \<forall>a \<in> set (k # xs). b < a"
    "counters m = exact_counts_of cap S T xd yd (mc_steps (counters m))"
    "at_source m = Some k" "holding (at_target m) tt ys"
    "inv (source_gen m) (Some xs) (target_gen m) tt s"
    by (fastforce simp: merge_inv_def holding_def)
  have fresh: "k \<notin> set T" using inv(2,4) assms(4) by auto
  let ?m = "m\<lparr>counters := count_missing cap k (counters m)\<rparr>"
  have cnt: "counters ?m = exact_counts_of cap S T (xd @ [k]) yd (mc_steps (counters m))"
    using inv(5) count_missing_exact [OF fresh] by simp metis
  from step_source_ok [of ?m xs "target_gen m" tt s] inv(8) obtain x s' where x:
    "step_source pull_source ?m s = Some (x, s')"
    "was_cancelled x \<and> stopped s' \<or> (\<exists>m' to_come. x = Inr m' \<and> counters m' = counters ?m
       \<and> at_target m' = at_target m \<and> target_gen m' = target_gen m
       \<and> holding (at_source m') to_come xs \<and> inv (source_gen m') to_come (target_gen m) tt s')" by auto
  from x(2) show ?thesis
  proof (elim disjE exE conjE)
    assume "was_cancelled x" "stopped s'"
    with x(1) show ?thesis by (auto simp: was_cancelled_def and_then_def merge_result_def)
  next
    fix m' to_come assume m': "x = Inr m'" "counters m' = counters ?m" "at_target m' = at_target m"
      "target_gen m' = target_gen m" "holding (at_source m') to_come xs" "inv (source_gen m') to_come (target_gen m) tt s'"
    have "mc_steps (counters m') = mc_steps (counters m)" using m'(2) cnt by (simp add: exact_counts_of_def)
    then have "merge_inv cap S T xs ys m' s'"
      unfolding merge_inv_def
      using inv m' cnt assms(4) by (intro exI [of _ "xd @ [k]"] exI [of _ yd] exI [of _ to_come] exI [of _ tt]) auto
    then have "merge_rank cap S T (length xs + length ys) m' s'" by (auto simp: merge_rank_def)
    with x(1) m'(1) show ?thesis by (auto simp: and_then_def ret_def)
  qed
qed

lemma merge_target:
  assumes "merge_inv cap S T xs (k # ys) m s" "sorted_wrt (<) S" "sorted_wrt (<) T" "\<forall>a \<in> set xs. k < a"
  shows "merge_ok pk cap S T (length xs + length (k # ys)) (and_then
     (step_target pull_target (m\<lparr>counters := count_extra cap k (counters m)\<rparr>)) (\<lambda>m'. ret (Inl m')) s)"
proof -
  from assms(1) obtain xd yd ss where inv: "S = xd @ xs" "T = yd @ k # ys"
    "\<forall>a \<in> set xd. \<forall>b \<in> set (k # ys). a < b" "\<forall>b \<in> set yd. \<forall>a \<in> set xs. b < a"
    "counters m = exact_counts_of cap S T xd yd (mc_steps (counters m))"
    "at_target m = Some k" "holding (at_source m) ss xs"
    "inv (source_gen m) ss (target_gen m) (Some ys) s"
    by (fastforce simp: merge_inv_def holding_def)
  have fresh: "k \<notin> set S" using inv(1,3) assms(4) by auto
  let ?m = "m\<lparr>counters := count_extra cap k (counters m)\<rparr>"
  have cnt: "counters ?m = exact_counts_of cap S T xd (yd @ [k]) (mc_steps (counters m))"
    using inv(5) count_extra_exact [OF fresh] by simp metis
  from step_target_ok [of "source_gen m" ss ?m ys s] inv(8) obtain x s' where x:
    "step_target pull_target ?m s = Some (x, s')"
    "was_cancelled x \<and> stopped s' \<or> (\<exists>m' to_come. x = Inr m' \<and> counters m' = counters ?m
       \<and> at_source m' = at_source m \<and> source_gen m' = source_gen m
       \<and> holding (at_target m') to_come ys \<and> inv (source_gen m) ss (target_gen m') to_come s')" by auto
  from x(2) show ?thesis
  proof (elim disjE exE conjE)
    assume "was_cancelled x" "stopped s'"
    with x(1) show ?thesis by (auto simp: was_cancelled_def and_then_def merge_result_def)
  next
    fix m' to_come assume m': "x = Inr m'" "counters m' = counters ?m" "at_source m' = at_source m"
      "source_gen m' = source_gen m" "holding (at_target m') to_come ys" "inv (source_gen m) ss (target_gen m') to_come s'"
    have "mc_steps (counters m') = mc_steps (counters m)" using m'(2) cnt by (simp add: exact_counts_of_def)
    then have "merge_inv cap S T xs ys m' s'"
      unfolding merge_inv_def
      using inv m' cnt assms(4) by (intro exI [of _ xd] exI [of _ "yd @ [k]"] exI [of _ ss] exI [of _ to_come]) auto
    then have "merge_rank cap S T (length xs + length ys) m' s'" by (auto simp: merge_rank_def)
    with x(1) m'(1) show ?thesis by (auto simp: and_then_def ret_def)
  qed
qed

lemma merge_both:
  assumes "merge_inv cap S T (k # xs) (k # ys) m s" "sorted_wrt (<) S" "sorted_wrt (<) T"
  shows "merge_ok pk cap S T (length (k # xs) + length (k # ys)) (and_then
     (and_then (step_source pull_source (m\<lparr>counters := count_both (counters m)\<rparr>)) (step_target pull_target))
     (\<lambda>m'. ret (Inl m')) s)"
proof -
  from assms(1) obtain xd yd where inv: "S = xd @ k # xs" "T = yd @ k # ys"
    "\<forall>a \<in> set xd. \<forall>b \<in> set (k # ys). a < b" "\<forall>b \<in> set yd. \<forall>a \<in> set (k # xs). b < a"
    "counters m = exact_counts_of cap S T xd yd (mc_steps (counters m))"
    "at_source m = Some k" "at_target m = Some k"
    "inv (source_gen m) (Some xs) (target_gen m) (Some ys) s"
    by (fastforce simp: merge_inv_def holding_def)
  let ?m = "m\<lparr>counters := count_both (counters m)\<rparr>"
  have below: "\<forall>a \<in> set xs. k < a" "\<forall>b \<in> set ys. k < b"
    using assms(2,3) inv(1,2) by (simp_all add: sorted_wrt_append)
  have cnt: "counters ?m = exact_counts_of cap S T (xd @ [k]) (yd @ [k]) (mc_steps (counters m))"
    using inv(1,2,5) count_both_exact [of k S T cap xd yd "mc_steps (counters m)"] by simp
  from step_source_ok [of ?m xs "target_gen m" "Some ys" s] inv(8) obtain x s' where x:
    "step_source pull_source ?m s = Some (x, s')"
    "was_cancelled x \<and> stopped s' \<or> (\<exists>m' ss. x = Inr m' \<and> counters m' = counters ?m
       \<and> at_target m' = at_target m \<and> target_gen m' = target_gen m
       \<and> holding (at_source m') ss xs \<and> inv (source_gen m') ss (target_gen m) (Some ys) s')" by auto
  from x(2) show ?thesis
  proof (elim disjE exE conjE)
    assume "was_cancelled x" "stopped s'"
    with x(1) show ?thesis by (auto simp: was_cancelled_def and_then_def merge_result_def)
  next
    fix m1 ss assume m1: "x = Inr m1" "counters m1 = counters ?m" "at_target m1 = at_target m"
      "target_gen m1 = target_gen m" "holding (at_source m1) ss xs" "inv (source_gen m1) ss (target_gen m) (Some ys) s'"
    from step_target_ok [of "source_gen m1" ss m1 ys s'] m1(4,6) obtain z s2 where z:
      "step_target pull_target m1 s' = Some (z, s2)"
      "was_cancelled z \<and> stopped s2 \<or> (\<exists>m' tt. z = Inr m' \<and> counters m' = counters m1
         \<and> at_source m' = at_source m1 \<and> source_gen m' = source_gen m1
         \<and> holding (at_target m') tt ys \<and> inv (source_gen m1) ss (target_gen m') tt s2)" by auto
    from z(2) show ?thesis
    proof (elim disjE exE conjE)
      assume "was_cancelled z" "stopped s2"
      with x(1) m1(1) z(1) show ?thesis by (auto simp: was_cancelled_def and_then_def merge_result_def)
    next
      fix m' tt assume m': "z = Inr m'" "counters m' = counters m1" "at_source m' = at_source m1"
        "source_gen m' = source_gen m1" "holding (at_target m') tt ys" "inv (source_gen m1) ss (target_gen m') tt s2"
      have "mc_steps (counters m') = mc_steps (counters m)"
        using m'(2) m1(2) cnt by (simp add: exact_counts_of_def)
      then have "merge_inv cap S T xs ys m' s2"
        unfolding merge_inv_def
        using inv m1 m' cnt below
        by (intro exI [of _ "xd @ [k]"] exI [of _ "yd @ [k]"] exI [of _ ss] exI [of _ tt]) auto
      then have "merge_rank cap S T (length xs + length ys) m' s2" by (auto simp: merge_rank_def)
      with x(1) m1(1) z(1) m'(1) show ?thesis
        by (auto simp: and_then_def ret_def intro!: exI [of _ "length xs + length ys"])
    qed
  qed
qed

end

context two_streams
begin

lemma merge_inv_poll:
  assumes "merge_inv cap S T xs ys m s"
  shows "\<exists>x s'. merge_poll cancel n s = Some (x, s')
    \<and> (was_cancelled x \<and> stopped s'
       \<or> x = Inr () \<and> merge_inv cap S T xs ys (m\<lparr>counters := (counters m)\<lparr>mc_steps := n\<rparr>\<rparr>) s')"
proof -
  from assms obtain xd yd ss tt where inv: "S = xd @ xs" "T = yd @ ys"
     "(\<forall>a \<in> set xd. \<forall>b \<in> set ys. a < b)" "(\<forall>b \<in> set yd. \<forall>a \<in> set xs. b < a)"
     "counters m = exact_counts_of cap S T xd yd (mc_steps (counters m))"
     "holding (at_source m) ss xs" "holding (at_target m) tt ys"
     "inv (source_gen m) ss (target_gen m) tt s"
    unfolding merge_inv_def by blast
  from merge_poll_ok [OF inv(8), of n] obtain x s' where x: "merge_poll cancel n s = Some (x, s')"
    "was_cancelled x \<and> stopped s' \<or> x = Inr () \<and> inv (source_gen m) ss (target_gen m) tt s'" by blast
  moreover have "merge_inv cap S T xs ys (m\<lparr>counters := (counters m)\<lparr>mc_steps := n\<rparr>\<rparr>) s'"
    if "inv (source_gen m) ss (target_gen m) tt s'"
  proof -
    have "(counters m)\<lparr>mc_steps := n\<rparr> = exact_counts_of cap S T xd yd n"
      using inv(5) exact_counts_steps by metis
    then show ?thesis
      unfolding merge_inv_def using inv that
      by (intro exI [of _ xd] exI [of _ yd] exI [of _ ss] exI [of _ tt]) (simp add: exact_counts_of_def)
  qed
  ultimately show ?thesis by blast
qed

lemma merge_round_ok:
  assumes sorted: "sorted_wrt (<) S" "sorted_wrt (<) T" and "merge_rank cap S T n m s"
  shows "merge_ok pk cap S T n (merge_round pk cap cancel pull_source pull_target m s)"
proof -
  from assms(3) obtain xs ys where inv: "merge_inv cap S T xs ys m s" and n: "n = length xs + length ys"
    by (auto simp: merge_rank_def)
  have at: "at_source m = (case xs of [] \<Rightarrow> None | k # ks \<Rightarrow> Some k)"
    "at_target m = (case ys of [] \<Rightarrow> None | k # ks \<Rightarrow> Some k)"
    using inv by (cases xs; cases ys; auto simp: merge_inv_def holding_def)+
  show ?thesis
  proof (cases "xs = [] \<and> ys = []")
    case True
    with inv at have "counters m = exact_counts_of cap S T S T (mc_steps (counters m))"
      "inv (source_gen m) None (target_gen m) None s"
      by (auto simp: merge_inv_def holding_def)
    with True at show ?thesis
      using reconciled_steps [of pk cap S T S T "mc_steps (counters m)" 0]
      by (auto simp: merge_round_def ret_def merge_result_def exact_reconcile_def)
  next
    case False
    let ?m = "m\<lparr>counters := (counters m)\<lparr>mc_steps := Suc (mc_steps (counters m))\<rparr>\<rparr>"
    from merge_inv_poll [OF inv, of "Suc (mc_steps (counters m))"] obtain x s1 where poll:
      "merge_poll cancel (Suc (mc_steps (counters m))) s = Some (x, s1)"
      "was_cancelled x \<and> stopped s1 \<or> x = Inr () \<and> merge_inv cap S T xs ys ?m s1" by blast
    from poll(2) show ?thesis
    proof (elim disjE conjE)
      assume "was_cancelled x" "stopped s1"
      with poll(1) False at show ?thesis
        by (auto simp: merge_round_def was_cancelled_def and_then_def merge_result_def Let_def split: list.splits)
    next
      assume x: "x = Inr ()" and inv1: "merge_inv cap S T xs ys ?m s1"
      from inv1 sorted have order: "sorted_wrt (<) xs" "sorted_wrt (<) ys"
        by (auto simp: merge_inv_def sorted_wrt_append)
      note run = merge_round_def and_then_Some(1) [of "merge_poll cancel (Suc (mc_steps (counters m)))" s "()" s1]
      show ?thesis
      proof (cases xs)
        case Nil
        with False obtain t ys' where ys: "ys = t # ys'" by (cases ys) auto
        from merge_target [of cap S T xs t ys' ?m s1 pk] inv1 ys Nil sorted poll(1) x at n show ?thesis
          by (simp add: run Let_def)
      next
        case (Cons k xs')
        note xs = Cons
        show ?thesis
        proof (cases ys)
          case Nil
          from merge_source [of cap S T k xs' ys ?m s1 pk] inv1 xs Nil sorted poll(1) x at n show ?thesis
            by (simp add: run Let_def)
        next
          case (Cons t ys')
          consider "k < t" | "t < k" | "k = t" by linarith
          then show ?thesis
          proof cases
            case 1
            with order Cons have "\<forall>b \<in> set ys. k < b" by auto
            with merge_source [of cap S T k xs' ys ?m s1 pk] 1 inv1 xs Cons sorted poll(1) x at n show ?thesis
              by (simp add: run Let_def)
          next
            case 2
            with order xs have "\<forall>a \<in> set xs. t < a" by auto
            with merge_target [of cap S T xs t ys' ?m s1 pk] 2 inv1 xs Cons sorted poll(1) x at n show ?thesis
              by (simp add: run Let_def)
          next
            case 3
            with merge_both [of cap S T k xs' ys' ?m s1 pk] inv1 xs Cons sorted poll(1) x at n show ?thesis
              by (simp add: run Let_def)
          qed
        qed
      qed
    qed
  qed
qed

text \<open>The merge of two streams of strictly ascending keys is exact, or the run was stopped.\<close>

lemma reconcile_exact:
  assumes "inv g (Some S) h (Some T) s" "sorted_wrt (<) S" "sorted_wrt (<) T"
  shows "\<exists>x s'. reconcile_pk_streams pk cap cancel pull_source pull_target g h s = Some (x, s')
    \<and> merge_result pk cap S T x s'"
proof -
  let ?m0 = "\<lparr>counters = \<lparr>mc_source = 0, mc_target = 0, mc_missing = 0, mc_extra = 0, mc_missing_sample = [],
     mc_extra_sample = [], mc_steps = 0\<rparr>, at_source = None, at_target = None, source_gen = g, target_gen = h\<rparr>"
  from step_source_ok [of ?m0 S h "Some T" s] assms(1) obtain x s1 where x: "step_source pull_source ?m0 s = Some (x, s1)"
    "was_cancelled x \<and> stopped s1 \<or> (\<exists>m' ss. x = Inr m' \<and> counters m' = counters ?m0
       \<and> at_target m' = None \<and> target_gen m' = h \<and> holding (at_source m') ss S \<and> inv (source_gen m') ss h (Some T) s1)"
    by auto
  from x(2) show ?thesis
  proof (elim disjE exE conjE)
    assume "was_cancelled x" "stopped s1"
    with x(1) show ?thesis
      by (auto simp: reconcile_pk_streams_def was_cancelled_def and_then_def merge_result_def)
  next
    fix m1 ss assume m1: "x = Inr m1" "counters m1 = counters ?m0" "target_gen m1 = h"
      "holding (at_source m1) ss S" "inv (source_gen m1) ss h (Some T) s1"
    from step_target_ok [of "source_gen m1" ss m1 T s1] m1(3,5) obtain z s2 where z:
      "step_target pull_target m1 s1 = Some (z, s2)"
      "was_cancelled z \<and> stopped s2 \<or> (\<exists>m' tt. z = Inr m' \<and> counters m' = counters m1
         \<and> at_source m' = at_source m1 \<and> source_gen m' = source_gen m1
         \<and> holding (at_target m') tt T \<and> inv (source_gen m1) ss (target_gen m') tt s2)" by auto
    from z(2) show ?thesis
    proof (elim disjE exE conjE)
      assume "was_cancelled z" "stopped s2"
      with x(1) m1(1) z(1) show ?thesis
        by (auto simp: reconcile_pk_streams_def was_cancelled_def and_then_def merge_result_def)
    next
      fix m2 tt assume m2: "z = Inr m2" "counters m2 = counters m1" "at_source m2 = at_source m1"
        "source_gen m2 = source_gen m1" "holding (at_target m2) tt T" "inv (source_gen m1) ss (target_gen m2) tt s2"
      have "counters m2 = exact_counts_of cap S T [] [] 0"
        using m2(2) m1(2) by (simp add: exact_counts_of_def lacking_def)
      then have "merge_inv cap S T S T m2 s2"
        unfolding merge_inv_def using m1 m2
        by (intro exI [of _ "[]"] exI [of _ ss] exI [of _ tt]) (auto simp: exact_counts_of_def)
      then have rank: "merge_rank cap S T (length S + length T) m2 s2" by (auto simp: merge_rank_def)
      have "\<exists>x s'. while_true (merge_round pk cap cancel pull_source pull_target) m2 s2 = Some (x, s')
          \<and> merge_result pk cap S T x s'"
        by (rule while_true_ranked [where I = "merge_rank cap S T", OF rank])
          (rule merge_round_ok [OF assms(2,3)])
      with x(1) m1(1) z(1) m2(1) show ?thesis
        by (simp add: reconcile_pk_streams_def and_then_def)
    qed
  qed
qed

end

section \<open>The generators over two sides\<close>

definition after_int :: "int option \<Rightarrow> int list \<Rightarrow> int list" where
  "after_int cursor ks = (case cursor of None \<Rightarrow> ks | Some c \<Rightarrow> filter (\<lambda>k. c < k) ks)"

lemma after_int_page:
  assumes "sorted_wrt (<) ks" "after_int cursor ks = pg @ left" "pg \<noteq> []"
  shows "after_int (Some (last pg)) ks = left"
proof -
  obtain zs z where pg: "pg = zs @ [z]" using assms(3) by (cases pg rule: rev_cases) auto
  have sub: "sorted_wrt (<) (after_int cursor ks)"
    using assms(1) by (auto simp: after_int_def sorted_wrt_filter split: option.splits)
  have "after_int (Some z) ks = filter (\<lambda>k. z < k) (after_int cursor ks)"
  proof (cases cursor)
    case (Some c)
    have "z \<in> set (filter (\<lambda>k. c < k) ks)" using assms(2) pg Some by (simp add: after_int_def)
    then have "c < z" by simp
    then show ?thesis using Some by (auto simp: after_int_def intro!: filter_cong)
  qed (simp add: after_int_def)
  also have "\<dots> = left"
    using sub assms(2) pg by (auto simp: sorted_wrt_append filter_empty_conv filter_id_conv)
  finally show ?thesis by (simp add: pg)
qed

text \<open>
  A table read on both sides without being written: the target as in \<open>pg_snapshot\<close>, paged by its one
  integer key, the source's pages the next keys after the cursor.
\<close>

locale reconciled_sides = pg_snapshot conn t key snap rows
  for conn :: "'w pg_conn" and t key snap rows +
  fixes key_pages :: "'w key_pages" and source_keys target_keys :: "int list" and pk :: string and page :: nat
    and beat :: "('w, unit) action" and cancel :: "('w, bool) action" and bearing :: bool and p0 :: null_proof
  assumes one_key: "key = [pk]" and page_pos: "0 < page" and beat: "beats snap beat"
    and source_sorted: "sorted_wrt (<) source_keys"
    and source_page: "\<And>w cursor. snap w \<Longrightarrow>
      \<exists>w'. key_pages t pk page cursor w = (Inr (take page (after_int cursor source_keys)), w') \<and> snap w'"
    and target_sorted: "sorted_wrt (<) target_keys"
    and target_ints: "map (\<lambda>row. pk_integer (hd (fst row))) rows = map Inr target_keys"
    and polled: "\<And>w. snap w \<Longrightarrow> \<exists>b w'. cancel w = (Inr b, w') \<and> snap w'"
    and proof_fresh: "bearing \<Longrightarrow> fresh_proof p0"
begin

definition source_at :: "int_gen \<Rightarrow> int list option \<Rightarrow> bool" where
  "source_at g xs = (case xs of None \<Rightarrow> True
     | Some ks \<Rightarrow> (\<exists>left. ks = int_rows g @ left \<and> (int_short g \<longrightarrow> left = [])
         \<and> (\<not> int_short g \<longrightarrow>
              left = after_int (if int_rows g = [] then int_last g else Some (last (int_rows g))) source_keys)))"

definition answer :: "side_row \<Rightarrow> string \<times> bool list" where
  "answer row = (hd (fst row), map (snd (snd row)) (if bearing then proof_columns p0 else []))"

definition target_run :: "side_row list \<Rightarrow> side_row list \<Rightarrow> side_row list \<Rightarrow> (string \<times> bool list) pk_gen \<Rightarrow>
    int list \<Rightarrow> 'w reading \<Rightarrow> bool" where
  "target_run read buf left h ks r = (rows = read @ buf @ left \<and> gen_rows h = map answer buf
     \<and> map (\<lambda>row. pk_integer (hd (fst row))) (buf @ left) = map Inr ks
     \<and> acc r = proof_at bearing p0 (read @ buf) \<and> (gen_short h \<longrightarrow> left = [])
     \<and> (\<not> gen_short h \<longrightarrow> stands (if buf = [] then map_option (\<lambda>k. [k]) (gen_last h)
                                 else Some (fst (last buf))) (read @ buf) left))"

definition target_at :: "(string \<times> bool list) pk_gen \<Rightarrow> int list option \<Rightarrow> 'w reading \<Rightarrow> bool" where
  "target_at h ys r = (case ys of None \<Rightarrow> pass_done bearing rows p0 (acc r)
     | Some ks \<Rightarrow> (\<exists>read buf left. target_run read buf left h ks r))"

lemma target_at_simps [simp]:
  "target_at h None r = pass_done bearing rows p0 (acc r)"
  "target_at h (Some ks) r = (\<exists>read buf left. target_run read buf left h ks r)"
  by (simp_all add: target_at_def)

definition sides :: "int_gen \<Rightarrow> int list option \<Rightarrow> (string \<times> bool list) pk_gen \<Rightarrow> int list option \<Rightarrow> 'w reading \<Rightarrow> bool" where
  "sides g xs h ys r = (snap (db r) \<and> source_at g xs \<and> target_at h ys r)"

definition halted :: "'w reading \<Rightarrow> bool" where
  "halted r = (snap (db r) \<and> failed (acc r) = failed p0)"

lemma target_at_failed: "target_at h ys r \<Longrightarrow> failed (acc r) = failed p0"
  by (cases ys) (auto simp: target_run_def pass_done_def)

lemma sides_halted: "sides g xs h ys r \<Longrightarrow> halted r"
  using target_at_failed [of h ys r] by (simp add: sides_def halted_def)

lemma sides_db: "sides g xs h ys r \<Longrightarrow> snap w \<Longrightarrow> sides g xs h ys (r\<lparr>db := w\<rparr>)"
  by (cases ys) (simp_all add: sides_def target_run_def)

lemma source_pull:
  assumes "sides g (Some xs) h ys r"
  shows "\<exists>x r'. next_source_pk key_pages t pk page beat g r = Some (x, r')
    \<and> (was_cancelled x \<and> halted r' \<or> (case xs of
         [] \<Rightarrow> (\<exists>g'. x = Inr (None, g') \<and> sides g' None h ys r')
       | k # ks \<Rightarrow> (\<exists>g'. x = Inr (Some k, g') \<and> sides g' (Some ks) h ys r')))"
proof -
  let ?round = "source_pks_round key_pages t pk page beat"
  have ready: "\<exists>x r'. while_true ?round g r = Some (x, r') \<and> (case xs of
         [] \<Rightarrow> (\<exists>g'. x = Inr (None, g') \<and> sides g' None h ys r')
       | k # ks \<Rightarrow> (\<exists>g'. x = Inr (Some k, g') \<and> sides g' (Some ks) h ys r'))"
    if "sides g (Some xs) h ys r" "int_rows g \<noteq> [] \<or> int_short g" for g xs r
  proof (cases "int_rows g")
    case Nil
    with that have "xs = []" "?round g r = Some (Inr (Inr (None, g)), r)"
      by (auto simp: sides_def source_at_def source_pks_round_def)
    moreover have "sides g None h ys r" using that(1) by (simp add: sides_def source_at_def)
    ultimately show ?thesis by (simp add: exec_simps)
  next
    case (Cons k rest)
    let ?g = "g\<lparr>int_rows := rest, int_last := Some k\<rparr>"
    have "?round g r = Some (Inr (Inr (Some k, ?g)), r)" using Cons by (simp add: source_pks_round_def)
    moreover from that(1) Cons obtain ks where "xs = k # ks" "source_at ?g (Some ks)"
      by (cases rest) (auto simp: sides_def source_at_def)
    moreover from this(2) that(1) have "sides ?g (Some ks) h ys r" by (simp add: sides_def)
    ultimately show ?thesis by (simp add: exec_simps)
  qed
  show ?thesis
  proof (cases "int_rows g \<noteq> [] \<or> int_short g")
    case True
    from ready [OF assms True] show ?thesis unfolding next_source_pk_def by blast
  next
    case False
    with assms have left: "xs = after_int (int_last g) source_keys" "int_rows g = []" "\<not> int_short g"
      by (auto simp: sides_def source_at_def)
    from assms have "snap (db r)" by (simp add: sides_def)
    with beat show ?thesis
    proof (cases rule: beats_cases)
      case (stopped e w')
      then have "?round g r = Some (Inl e, r\<lparr>db := w'\<rparr>)"
        using left by (simp add: source_pks_round_def on_db_def and_then_def)
      moreover have "halted (r\<lparr>db := w'\<rparr>)" using sides_halted [OF assms] stopped(2) by (simp add: halted_def)
      ultimately show ?thesis using stopped(3,4) by (simp add: next_source_pk_def exec_simps)
    next
      case (going w1)
      from source_page [OF going(2), of "int_last g"] left(1) obtain w2 where page:
        "key_pages t pk page (int_last g) w1 = (Inr (take page xs), w2)" "snap w2" by auto
      let ?g = "g\<lparr>int_rows := take page xs, int_short := length (take page xs) < page\<rparr>"
      have run: "?round g r = Some (Inr (Inl ?g), r\<lparr>db := w2\<rparr>)"
        using left going(1) page(1) by (simp add: source_pks_round_def exec_simps ret_def)
      have split: "after_int (Some (last (take page xs))) source_keys = drop page xs" if "take page xs \<noteq> []"
        using after_int_page [OF source_sorted, of "int_last g" "take page xs" "drop page xs"] left(1) that by simp
      have at: "source_at ?g (Some xs)"
        using split page_pos by (auto simp: source_at_def not_less intro!: exI [of _ "drop page xs"])
      have "sides ?g (Some xs) h ys (r\<lparr>db := w2\<rparr>)"
        using sides_db [OF assms page(2)] at by (simp add: sides_def)
      from ready [OF this] run page_pos show ?thesis
        by (cases xs) (auto simp: next_source_pk_def exec_simps not_less)
    qed
  qed
qed

lemma target_pull:
  assumes "sides g xs h (Some ys) r"
  shows "\<exists>x r'. next_target_pk conn t pk page beat bearing h r = Some (x, r')
    \<and> (was_cancelled x \<and> halted r' \<or> (case ys of
         [] \<Rightarrow> (\<exists>h'. x = Inr (None, h') \<and> sides g xs h' None r')
       | k # ks \<Rightarrow> (\<exists>h'. x = Inr (Some k, h') \<and> sides g xs h' (Some ks) r')))"
proof -
  let ?round = "target_pks_round conn t pk page beat bearing"
  have ready: "\<exists>x r'. while_true ?round h r = Some (x, r') \<and> (case ys of
         [] \<Rightarrow> (\<exists>h'. x = Inr (None, h') \<and> sides g xs h' None r')
       | k # ks \<Rightarrow> (\<exists>h'. x = Inr (Some k, h') \<and> sides g xs h' (Some ks) r'))"
    if sides: "sides g xs h (Some ys) r" and rdy: "gen_rows h \<noteq> [] \<or> gen_short h" for h ys r
  proof -
    from sides obtain read buf left where inv: "rows = read @ buf @ left" "gen_rows h = map answer buf"
         "map (\<lambda>row. pk_integer (hd (fst row))) (buf @ left) = map Inr ys"
         "acc r = proof_at bearing p0 (read @ buf)" "gen_short h \<longrightarrow> left = []"
         "\<not> gen_short h \<longrightarrow> stands (if buf = [] then map_option (\<lambda>k. [k]) (gen_last h)
                                     else Some (fst (last buf))) (read @ buf) left"
         "snap (db r)" "source_at g xs"
      unfolding sides_def target_at_simps target_run_def by blast
    show ?thesis
    proof (cases buf)
      case Nil
      with inv rdy have nil: "gen_rows h = []" "gen_short h" "ys = []" "rows = read" by auto
      let ?r = "if bearing then r\<lparr>acc := (acc r)\<lparr>complete := True\<rparr>\<rparr> else r"
      have "?round h r = Some (Inr (Inr (None, h)), ?r)"
        using nil by (auto simp: target_pks_round_def exec_simps ret_def)
      moreover have "acc ?r = (if bearing then (proof_at bearing p0 rows)\<lparr>complete := True\<rparr> else proof_at bearing p0 rows)"
        using inv(4) Nil nil(4) by simp
      then have "target_at h None ?r" using pass_done_at [of bearing p0] by (simp add: target_at_def)
      then have "sides g xs h None ?r" using inv(7,8) by (simp add: sides_def)
      ultimately show ?thesis using nil(3) by (simp add: exec_simps)
    next
      case (Cons row rest)
      with inv(3) obtain k ks where ys: "ys = k # ks" "pk_integer (hd (fst row)) = Inr k"
        "map (\<lambda>row. pk_integer (hd (fst row))) (rest @ left) = map Inr ks" by (cases ys) auto
      let ?h = "h\<lparr>gen_rows := map answer rest, gen_last := Some (hd (fst row))\<rparr>"
      have "?round h r = Some (Inr (Inr (Some k, ?h)), r)"
        using inv(2) Cons ys(2) by (simp add: target_pks_round_def answer_def)
      moreover have "[hd (fst row)] = fst row" using hd_single [OF one_key] inv(1) Cons by simp
      then have "target_run (read @ [row]) rest left ?h ks r"
        using inv Cons ys(3) unfolding target_run_def by (cases rest) simp_all
      then have "target_at ?h (Some ks) r" unfolding target_at_simps by blast
      then have "sides g xs ?h (Some ks) r" using inv(7,8) by (simp add: sides_def)
      ultimately show ?thesis using ys(1) by (simp add: exec_simps)
    qed
  qed
  show ?thesis
  proof (cases "gen_rows h \<noteq> [] \<or> gen_short h")
    case True
    from ready [OF assms True] show ?thesis unfolding next_target_pk_def by blast
  next
    case False
    with assms obtain read buf left where "target_run read buf left h ys r" "snap (db r)" "source_at g xs"
      unfolding sides_def target_at_simps by blast
    note at = this
    have nil: "gen_rows h = []" "\<not> gen_short h" "buf = []"
      using False at(1) by (auto simp: target_run_def)
    have inv: "rows = read @ left"
         "map (\<lambda>row. pk_integer (hd (fst row))) left = map Inr ys"
         "acc r = proof_at bearing p0 read" "stands (map_option (\<lambda>k. [k]) (gen_last h)) read left"
         "snap (db r)" "source_at g xs" "gen_rows h = []" "\<not> gen_short h"
      using at nil unfolding target_run_def nil(3) append_Nil append_Nil2 by (blast | argo)+
    from beat inv(5) show ?thesis
    proof (cases rule: beats_cases)
      case (stopped e w')
      then have "?round h r = Some (Inl e, r\<lparr>db := w'\<rparr>)"
        using inv(7,8) by (simp add: target_pks_round_def on_db_def and_then_def)
      moreover have "halted (r\<lparr>db := w'\<rparr>)" using sides_halted [OF assms] stopped(2) by (simp add: halted_def)
      ultimately show ?thesis using stopped(3,4) by (simp add: next_target_pk_def exec_simps)
    next
      case (going w1)
      let ?cols = "bearing_columns bearing r"
      let ?pg = "take page left"
      have cols: "?cols = (if bearing then proof_columns p0 else [])"
        using inv(3) by (simp add: bearing_columns_def)
      have left: "after (map_option (\<lambda>k. [k]) (gen_last h)) rows = left"
        using inv(4) unfolding stands_def by blast
      have answers: "map (\<lambda>(k, token, nonnull). (hd k, map nonnull ?cols)) ?pg = map answer ?pg"
        by (auto simp: answer_def cols)
      from key_page [OF going(2) one_key, of ?cols page "gen_last h"] left answers obtain w2 where page:
        "pg_key_page conn t pk ?cols page (gen_last h) w1 = (Inr (map answer ?pg), w2)" "snap w2" by auto
      have upd: "(if bearing then add_page (map answer ?pg) (acc r) else acc r) = proof_at bearing p0 (read @ ?pg)"
      proof (cases bearing)
        case True
        then have c: "counts (acc r) = exact_counts (proof_columns (acc r)) read"
          by (simp add: inv(3) proof_at_def)
        have m: "map (\<lambda>(k, token, nonnull). (hd k, map nonnull (proof_columns (acc r)))) ?pg = map answer ?pg"
          using answers True by (simp add: bearing_columns_def)
        from add_page_exact [OF c, of hd ?pg] have "add_page (map answer ?pg) (acc r)
            = (acc r)\<lparr>counts := exact_counts (proof_columns (acc r)) (read @ ?pg)\<rparr>" unfolding m .
        with True show ?thesis by (simp add: inv(3) proof_at_def)
      qed (simp add: inv(3) proof_at_def)
      let ?h = "h\<lparr>gen_rows := map answer ?pg, gen_short := length ?pg < page\<rparr>"
      let ?r = "r\<lparr>db := w2, acc := proof_at bearing p0 (read @ ?pg)\<rparr>"
      have run: "?round h r = Some (Inr (Inl ?h), ?r)"
        using inv(7,8) going(1) page(1) upd by (auto simp: target_pks_round_def exec_simps ret_def split: if_splits)
      have "stands (Some (fst (last ?pg))) (read @ ?pg) (drop page left)" if "?pg \<noteq> []"
        using stands_next [OF inv(4) that] .
      then have "target_run read ?pg (drop page left) ?h ys ?r"
        using inv(1,2) page_pos unfolding target_run_def by (auto simp: not_less min_def split: if_splits)
      then have "target_at ?h (Some ys) ?r" unfolding target_at_simps by blast
      then have "sides g xs ?h (Some ys) ?r" using page(2) inv(6) by (simp add: sides_def)
      from ready [OF this] run page_pos show ?thesis
        by (cases left) (auto simp: next_target_pk_def exec_simps not_less)
    qed
  qed
qed

lemma poll_keeps:
  assumes "sides g xs h ys r"
  shows "\<exists>b r'. on_db cancel r = Some (Inr b, r') \<and> sides g xs h ys r' \<and> halted r'"
proof -
  from assms have "snap (db r)" by (simp add: sides_def)
  from polled [OF this] obtain b w' where w': "cancel (db r) = (Inr b, w')" "snap w'" by blast
  with sides_db [OF assms w'(2)] sides_halted [OF sides_db [OF assms w'(2)]] show ?thesis
    by (simp add: on_db_def)
qed

end

sublocale reconciled_sides \<subseteq> streams: two_streams "next_source_pk key_pages t pk page beat"
    "next_target_pk conn t pk page beat bearing" "on_db cancel" sides halted
  by unfold_locales (fact source_pull target_pull poll_keeps)+

context reconciled_sides
begin

text \<open>
  The reconciliation of the two sides ends, and is exact unless the run was stopped: every count, the
  samples in key order, and the proof of the excluded columns when it rides on the target's stream.
\<close>

lemma reconcile_sides_exact:
  assumes "snap (db r)" "acc r = p0"
  shows "\<exists>x r'. reconcile_pk_streams pk cap (on_db cancel) (next_source_pk key_pages t pk page beat)
      (next_target_pk conn t pk page beat bearing) new_int_gen new_gen r = Some (x, r')
    \<and> pass_result snap bearing rows (\<lambda>v. v = exact_reconcile pk cap source_keys target_keys) p0 x r'"
proof -
  have "source_at new_int_gen (Some source_keys)"
    by (simp add: source_at_def new_int_gen_def after_int_def)
  moreover have "target_run [] [] rows new_gen target_keys r"
    using target_ints assms proof_at_first [OF proof_fresh] stands_first
    by (simp add: target_run_def new_gen_def)
  then have "target_at new_gen (Some target_keys) r" unfolding target_at_simps by blast
  ultimately have "sides new_int_gen (Some source_keys) new_gen (Some target_keys) r"
    using assms(1) by (simp add: sides_def)
  from streams.reconcile_exact [OF this source_sorted target_sorted] obtain x r' where
    "reconcile_pk_streams pk cap (on_db cancel) (next_source_pk key_pages t pk page beat)
      (next_target_pk conn t pk page beat bearing) new_int_gen new_gen r = Some (x, r')"
    "streams.merge_result pk cap source_keys target_keys x r'" by blast
  moreover from this(2) have "pass_result snap bearing rows (\<lambda>v. v = exact_reconcile pk cap source_keys target_keys) p0 x r'"
    unfolding streams.merge_result_def
    by (auto simp: was_cancelled_def halted_def pass_result_def sides_def)
  ultimately show ?thesis by blast
qed

lemma target_length: "length target_keys = length rows"
  using arg_cong [where f = length, OF target_ints] by simp

end

section \<open>The sample of a mismatch\<close>

datatype pk_value = PkInt int | PkText string

text \<open>\<open>_norm_pk\<close>: an integral value's plain digits, another value's text.\<close>

definition norm_pk :: "pk_value \<Rightarrow> string" where
  "norm_pk v =
     (case v of
        PkInt n \<Rightarrow> int_str n
      | PkText txt \<Rightarrow> (case py_int txt of Some n \<Rightarrow> int_str n | None \<Rightarrow> txt))"

lemma norm_pk_agrees: "norm_pk (PkText (int_str n)) = norm_pk (PkInt n)"
  by (simp add: norm_pk_def)

type_synonym tokens = "(string, string) pydict"

text \<open>\<open>_source_pk_tokens\<close>, \<open>_target_pk_tokens\<close>: the dictionary of the rows sampled.\<close>

definition pk_tokens :: "(pk_value \<times> string) list \<Rightarrow> tokens" where
  "pk_tokens rows = fold (\<lambda>(v, token) d. dict_set (norm_pk v) token d) rows []"

datatype row_diff_kind = MISSING_ON_TARGET | EXTRA_ON_TARGET | VALUE_MISMATCH

record row_diff_finding =
  rdf_pk :: string
  rdf_kind :: row_diff_kind
  source_checksum_token :: "string option"
  target_checksum_token :: "string option"

record row_diff_sample =
  rds_pk_column :: string
  rds_sample_size :: nat
  rds_truncated :: bool
  rds_findings :: "row_diff_finding list"

text \<open>The finding of one key, if it diverges.\<close>

definition diff_of :: "tokens \<Rightarrow> tokens \<Rightarrow> string \<Rightarrow> row_diff_finding option" where
  "diff_of src tgt pk =
     (case (map_of src pk, map_of tgt pk) of
        (Some a, None) \<Rightarrow> Some \<lparr>rdf_pk = pk, rdf_kind = MISSING_ON_TARGET, source_checksum_token = Some a,
                               target_checksum_token = None\<rparr>
      | (None, Some b) \<Rightarrow> Some \<lparr>rdf_pk = pk, rdf_kind = EXTRA_ON_TARGET, source_checksum_token = None,
                               target_checksum_token = Some b\<rparr>
      | (Some a, Some b) \<Rightarrow>
          if a \<noteq> b then Some \<lparr>rdf_pk = pk, rdf_kind = VALUE_MISMATCH, source_checksum_token = Some a,
                             target_checksum_token = Some b\<rparr>
          else None
      | (None, None) \<Rightarrow> None)"

fun diff_loop :: "nat \<Rightarrow> tokens \<Rightarrow> tokens \<Rightarrow> string list \<Rightarrow> row_diff_finding list \<Rightarrow> row_diff_finding list" where
  "diff_loop cap src tgt [] findings = findings"
| "diff_loop cap src tgt (pk # pks) findings =
     (if cap \<le> length findings then findings
      else diff_loop cap src tgt pks
        (case diff_of src tgt pk of None \<Rightarrow> findings | Some f \<Rightarrow> findings @ [f]))"

definition diff_tokens :: "string \<Rightarrow> nat \<Rightarrow> tokens \<Rightarrow> tokens \<Rightarrow> row_diff_sample" where
  "diff_tokens pk cap src tgt =
     (let findings = diff_loop cap src tgt (sort (remdups (map fst src @ map fst tgt))) []
      in \<lparr>rds_pk_column = pk, rds_sample_size = cap,
          rds_truncated = (cap \<le> length findings \<or> cap \<le> length src \<or> cap \<le> length tgt),
          rds_findings = findings\<rparr>)"

text \<open>\<open>_diff_pks\<close>: \<open>None\<close> for a composite or missing key, else two bounded reads.\<close>

definition diff_pks :: "(source_table \<Rightarrow> string \<Rightarrow> nat \<Rightarrow> ('w, (pk_value \<times> string) list) action) \<Rightarrow>
    (source_table \<Rightarrow> string \<Rightarrow> nat \<Rightarrow> ('w, (pk_value \<times> string) list) action) \<Rightarrow> source_table \<Rightarrow> nat \<Rightarrow>
    ('w reading, row_diff_sample option) proc" where
  "diff_pks source_tokens target_tokens t cap =
     (case src_primary_key t of
        [pk] \<Rightarrow>
          and_then (on_db (source_tokens t pk cap))
            (\<lambda>srows. and_then (on_db (target_tokens t pk cap))
              (\<lambda>trows. ret (Some (diff_tokens pk cap (pk_tokens srows) (pk_tokens trows)))))
      | _ \<Rightarrow> ret None)"

lemma diff_loop_take:
  "length findings \<le> cap \<Longrightarrow>
   diff_loop cap src tgt pks findings = take cap (findings @ List.map_filter (diff_of src tgt) pks)"
  by (induction pks arbitrary: findings) (auto simp: List.map_filter_simps take_Cons' split: option.splits)

lemma map_filter_ids:
  "map rdf_pk (List.map_filter (diff_of src tgt) pks) = filter (\<lambda>pk. diff_of src tgt pk \<noteq> None) pks"
  by (induction pks) (auto simp: List.map_filter_simps diff_of_def split: option.splits if_splits)

lemma diff_of_Some:
  assumes "diff_of src tgt pk = Some f"
  shows "rdf_pk f = pk \<and> map_of src pk \<noteq> map_of tgt pk
    \<and> source_checksum_token f = map_of src pk \<and> target_checksum_token f = map_of tgt pk
    \<and> (rdf_kind f = MISSING_ON_TARGET \<longleftrightarrow> map_of tgt pk = None)
    \<and> (rdf_kind f = EXTRA_ON_TARGET \<longleftrightarrow> map_of src pk = None)"
  using assms by (cases "map_of src pk"; cases "map_of tgt pk") (auto simp: diff_of_def split: if_splits)

lemma set_map_filter: "f \<in> set (List.map_filter g xs) \<longleftrightarrow> (\<exists>x \<in> set xs. g x = Some f)"
  by (force simp: map_filter_def)

lemma diff_of_None: "diff_of src tgt pk = None \<longleftrightarrow> map_of src pk = map_of tgt pk"
  by (auto simp: diff_of_def split: option.splits)

section \<open>Two sides in memory\<close>

text \<open>
  An executable database that answers every statement of a paged read as the documentation of the
  two engines states: a snapshot of one table's rows in key order on each side.
\<close>

record mem_sides =
  my_keys :: "int list"
  my_tokens :: int
  pg_rows :: "side_row list"

definition mem_pg :: "mem_sides pg_conn" where
  "mem_pg = \<lparr>pg_key_page = (\<lambda>t pk cols page cursor w.
        (Inr (map (\<lambda>(k, token, nonnull). (hd k, map nonnull cols))
                (take page (after (map_option (\<lambda>k. [k]) cursor) (pg_rows w)))), w)),
     pg_composite_page = (\<lambda>t key checksum nonnull page cursor w.
        let pg = take page (after cursor (pg_rows w))
        in (Inr (Some \<lparr>row_sum = Some (if checksum then tokens_of pg else 0), row_count = Some (int (length pg)),
              row_last = (if pg = [] then [] else fst (last pg)),
              row_flags = map Some (exact_counts nonnull pg)\<rparr>), w)),
     pg_count = (\<lambda>name cols w. (Inr (Some (Some (int (length (pg_rows w))),
        map Some (exact_counts cols (pg_rows w)))), w)),
     pg_checksum_page = (\<lambda>t pk page cursor w.
        let pg = take page (after (map_option (\<lambda>k. [k]) cursor) (pg_rows w))
        in (Inr (Some (Some (tokens_of pg), if pg = [] then None else Some (hd (fst (last pg))),
              Some (int (length pg)))), w)),
     pg_checksum = (\<lambda>t w. (Inr (if pg_rows w = [] then None else Some (tokens_of (pg_rows w))), w)),
     pg_orphan_page = (\<lambda>t fk pk page cursor w. (Inr None, w)),
     pg_composite_orphan_page = (\<lambda>t fk key page cursor w. (Inr None, w)),
     pg_orphans = (\<lambda>t fk w. (Inr None, w)),
     pg_primary_key = (\<lambda>t w. (Inr [''id''], w)),
     pg_tokens = (\<lambda>t pk n w. (Inr (map (\<lambda>(k, token, nonnull). (hd k, int_str token)) (take n (pg_rows w))), w)),
     pg_exists = (\<lambda>t w. (Inr True, w))\<rparr>"

definition mem_key_pages :: "mem_sides key_pages" where
  "mem_key_pages t pk page cursor w = (Inr (take page (after_int cursor (my_keys w))), w)"

lemma mem_pg_snapshot:
  assumes "distinct (map fst (pg_rows W))" "\<And>row. row \<in> set (pg_rows W) \<Longrightarrow> length (fst row) = length key"
  shows "pg_snapshot mem_pg t key (\<lambda>w. w = W) (pg_rows W)"
proof
  show "distinct (map fst (pg_rows W))" by (fact assms(1))
qed (use assms(2) in \<open>auto simp: mem_pg_def Let_def comp_def tokens_of_def\<close>)

lemma mem_reconciled_sides:
  assumes "distinct (map fst (pg_rows W))" "\<And>row. row \<in> set (pg_rows W) \<Longrightarrow> length (fst row) = 1"
    and "0 < page" "sorted_wrt (<) (my_keys W)" "sorted_wrt (<) target_keys"
    and "map (\<lambda>row. pk_integer (hd (fst row))) (pg_rows W) = map Inr target_keys"
    and "bearing \<Longrightarrow> fresh_proof p0"
  shows "reconciled_sides mem_pg t [pk] (\<lambda>w. w = W) (pg_rows W) mem_key_pages (my_keys W) target_keys pk page
    (\<lambda>w. (Inr (), w)) (\<lambda>w. (Inr False, w)) bearing p0"
proof -
  have "pg_snapshot mem_pg t [pk] (\<lambda>w. w = W) (pg_rows W)"
    using assms(1,2) by (intro mem_pg_snapshot) auto
  then show ?thesis
    using assms(3-7) by (intro reconciled_sides.intro reconciled_sides_axioms.intro)
      (auto simp: beats_def mem_key_pages_def)
qed

text \<open>The concrete pair the witnesses run on: key 3 is missing on the target, key 9 is extra.\<close>

definition demo_target :: "side_row list" where
  "demo_target = [([''1''], 10, \<lambda>c. True), ([''2''], 20, \<lambda>c. False), ([''9''], 90, \<lambda>c. False)]"

definition demo_sides :: mem_sides where
  "demo_sides = \<lparr>my_keys = [1, 2, 3], my_tokens = 60, pg_rows = demo_target\<rparr>"

definition demo_table :: source_table where
  "demo_table = \<lparr>src_name = ''s.t'', src_columns = [\<lparr>col_name = ''id'', col_type = ''int(11)''\<rparr>],
     src_primary_key = [''id'']\<rparr>"

interpretation demo: reconciled_sides mem_pg demo_table "[''id'']" "\<lambda>w. w = demo_sides" "pg_rows demo_sides"
    mem_key_pages "my_keys demo_sides" "[1, 2, 9]" "''id''" 2 "\<lambda>w. (Inr (), w)" "\<lambda>w. (Inr False, w)" True
    "new_proof [''blob''] []"
proof (rule mem_reconciled_sides)
  show "map (\<lambda>row. pk_integer (hd (fst row))) (pg_rows demo_sides) = map Inr [1, 2, 9]" by code_simp
qed (auto simp: demo_sides_def demo_target_def)

section \<open>Properties\<close>

text \<open>
  C6: the record-level check of a table is exact. Over two sides that are not written while they are
  read, the merge of the paged key streams ends; unless the run was stopped, the row counts are those
  of the two sides, the missing and the extra rows are exactly the keys one side lacks (the samples
  their first fifty in key order, with the cap announced), and the table is consistent exactly when both
  sides hold the same keys. The target stream that carries the proof has counted every row.
\<close>

theorem reconcile_is_exact:
  assumes "reconciled_sides conn t key snap rows key_pages S T pk page beat cancel bearing p0"
    and "snap (db r)" "acc r = p0"
  shows "\<exists>x r'. reconcile_pk_streams pk RECONCILE_SAMPLE_CAP (on_db cancel) (next_source_pk key_pages t pk page beat)
      (next_target_pk conn t pk page beat bearing) new_int_gen new_gen r = Some (x, r')
    \<and> (case x of
         Inl e \<Rightarrow> is_cancelled e
       | Inr v \<Rightarrow>
           rec_source_count v = int (length S) \<and> rec_target_count v = int (length T)
         \<and> missing_on_target v = int (card (set S - set T)) \<and> extra_on_target v = int (card (set T - set S))
         \<and> missing_sample v = map int_str (take 50 (filter (\<lambda>k. k \<notin> set T) S))
         \<and> extra_sample v = map int_str (take 50 (filter (\<lambda>k. k \<notin> set S) T))
         \<and> (sample_truncated v \<longleftrightarrow> 50 < card (set S - set T) \<or> 50 < card (set T - set S))
         \<and> (consistent v \<longleftrightarrow> set S = set T)
         \<and> (bearing \<longrightarrow> complete (acc r') \<and> counts (acc r') = exact_counts (proof_columns p0) rows))"
proof -
  note sides = assms(1)
  have cards: "card (set A - set B) = length (lacking B A)" if "sorted_wrt (<) A" for A B :: "int list"
  proof -
    have "distinct (lacking B A)" using that by (simp add: lacking_def strict_sorted_iff)
    moreover have "set (lacking B A) = set A - set B" by (auto simp: lacking_def)
    ultimately show ?thesis by (metis distinct_card)
  qed
  note sorted = reconciled_sides.source_sorted [OF sides] reconciled_sides.target_sorted [OF sides]
  from reconciled_sides.reconcile_sides_exact [OF sides assms(2,3), of RECONCILE_SAMPLE_CAP] obtain x r' where
    x: "reconcile_pk_streams pk RECONCILE_SAMPLE_CAP (on_db cancel) (next_source_pk key_pages t pk page beat)
      (next_target_pk conn t pk page beat bearing) new_int_gen new_gen r = Some (x, r')"
    "pass_result snap bearing rows (\<lambda>v. v = exact_reconcile pk RECONCILE_SAMPLE_CAP S T) p0 x r'" by blast
  show ?thesis
  proof (intro exI conjI)
    show "reconcile_pk_streams pk RECONCILE_SAMPLE_CAP (on_db cancel) (next_source_pk key_pages t pk page beat)
      (next_target_pk conn t pk page beat bearing) new_int_gen new_gen r = Some (x, r')" by (fact x(1))
  qed (use x(2) cards [OF sorted(1), of T] cards [OF sorted(2), of S] in
      \<open>auto simp: pass_result_def pass_done_def exact_reconcile_simps exact_reconcile_consistent
        exact_reconcile_truncated RECONCILE_SAMPLE_CAP_def lacking_def split: sum.splits\<close>)
qed

theorem reconcile_is_exact_witness:
  "\<exists>x r'. reconcile_pk_streams ''id'' RECONCILE_SAMPLE_CAP (on_db (\<lambda>w. (Inr False, w)))
      (next_source_pk mem_key_pages demo_table ''id'' 2 (\<lambda>w. (Inr (), w)))
      (next_target_pk mem_pg demo_table ''id'' 2 (\<lambda>w. (Inr (), w)) True) new_int_gen new_gen
      \<lparr>db = demo_sides, acc = new_proof [''blob''] [], live_keys = []\<rparr> = Some (x, r')
    \<and> (case x of Inl e \<Rightarrow> is_cancelled e
       | Inr v \<Rightarrow> missing_sample v = [''3''] \<and> extra_sample v = [''9''] \<and> \<not> consistent v)"
proof -
  have keys: "my_keys demo_sides = [1, 2, 3]" by (simp add: demo_sides_def)
  have strs: "int_str 3 = ''3''" "int_str 9 = ''9''" by code_simp+
  have "(9 :: int) \<in> set [1, 2, 9]" "9 \<notin> set (my_keys demo_sides)" by (simp_all add: keys)
  then have differ: "set (my_keys demo_sides) \<noteq> set [1, 2, 9]" by metis
  let ?r = "\<lparr>db = demo_sides, acc = new_proof [''blob''] [], live_keys = []\<rparr>"
  have "db ?r = demo_sides" "acc ?r = new_proof [''blob''] []" by simp_all
  from reconcile_is_exact [OF demo.reconciled_sides_axioms this] show ?thesis
  proof (elim exE conjE, goal_cases)
    case (1 x r')
    show ?case
    proof (intro exI conjI)
      show "case x of Inl e \<Rightarrow> is_cancelled e
         | Inr v \<Rightarrow> missing_sample v = [''3''] \<and> extra_sample v = [''9''] \<and> \<not> consistent v"
        using 1(2) differ by (cases x) (auto simp: strs keys)
    qed (rule 1(1))
  qed
qed

text \<open>
  The diagnostic sample of a mismatched table names exactly its diverging keys: those one side
  lacks or whose tokens differ, in the order of the key's text, the first \<open>sample_size\<close> of them, each
  with the kind of its divergence.
\<close>

theorem diff_sample_exact:
  assumes "dict_ok src" "dict_ok tgt"
  shows "rds_findings (diff_tokens pk cap src tgt) =
      take cap (List.map_filter (diff_of src tgt) (sort (remdups (map fst src @ map fst tgt))))
    \<and> (\<forall>f \<in> set (rds_findings (diff_tokens pk cap src tgt)).
         map_of src (rdf_pk f) \<noteq> map_of tgt (rdf_pk f)
         \<and> source_checksum_token f = map_of src (rdf_pk f) \<and> target_checksum_token f = map_of tgt (rdf_pk f)
         \<and> (rdf_kind f = MISSING_ON_TARGET \<longleftrightarrow> map_of tgt (rdf_pk f) = None)
         \<and> (rdf_kind f = EXTRA_ON_TARGET \<longleftrightarrow> map_of src (rdf_pk f) = None))
    \<and> (rds_truncated (diff_tokens pk cap src tgt)
       \<or> (\<forall>key. map_of src key \<noteq> map_of tgt key \<longrightarrow>
            key \<in> rdf_pk ` set (rds_findings (diff_tokens pk cap src tgt))))"
proof -
  let ?keys = "sort (remdups (map fst src @ map fst tgt))"
  let ?all = "List.map_filter (diff_of src tgt) ?keys"
  have findings: "rds_findings (diff_tokens pk cap src tgt) = take cap ?all"
    by (simp add: diff_tokens_def Let_def diff_loop_take)
  have each: "map_of src (rdf_pk f) \<noteq> map_of tgt (rdf_pk f)
         \<and> source_checksum_token f = map_of src (rdf_pk f) \<and> target_checksum_token f = map_of tgt (rdf_pk f)
         \<and> (rdf_kind f = MISSING_ON_TARGET \<longleftrightarrow> map_of tgt (rdf_pk f) = None)
         \<and> (rdf_kind f = EXTRA_ON_TARGET \<longleftrightarrow> map_of src (rdf_pk f) = None)" if "f \<in> set ?all" for f
  proof -
    from that obtain pk where "diff_of src tgt pk = Some f" unfolding set_map_filter by blast
    from diff_of_Some [OF this] show ?thesis by auto
  qed
  have "key \<in> rdf_pk ` set (take cap ?all)"
    if "\<not> rds_truncated (diff_tokens pk cap src tgt)" "map_of src key \<noteq> map_of tgt key" for key
  proof -
    from that(1) have "length (take cap ?all) < cap"
      using findings by (simp add: diff_tokens_def Let_def not_le)
    then have whole: "take cap ?all = ?all" by simp
    from that(2) have "key \<in> set ?keys"
      by (cases "map_of src key"; cases "map_of tgt key") (auto dest: map_of_SomeD intro: rev_image_eqI)
    with that(2) have "key \<in> set (map rdf_pk ?all)"
      by (simp add: map_filter_ids diff_of_None del: set_map)
    with whole show ?thesis by simp
  qed
  note complete_sample = this
  show ?thesis
  proof (intro conjI)
    show "\<forall>f \<in> set (rds_findings (diff_tokens pk cap src tgt)).
         map_of src (rdf_pk f) \<noteq> map_of tgt (rdf_pk f)
         \<and> source_checksum_token f = map_of src (rdf_pk f) \<and> target_checksum_token f = map_of tgt (rdf_pk f)
         \<and> (rdf_kind f = MISSING_ON_TARGET \<longleftrightarrow> map_of tgt (rdf_pk f) = None)
         \<and> (rdf_kind f = EXTRA_ON_TARGET \<longleftrightarrow> map_of src (rdf_pk f) = None)"
      unfolding findings using each by (meson in_set_takeD)
    show "rds_truncated (diff_tokens pk cap src tgt)
       \<or> (\<forall>key. map_of src key \<noteq> map_of tgt key \<longrightarrow>
            key \<in> rdf_pk ` set (rds_findings (diff_tokens pk cap src tgt)))"
      unfolding disj_imp
    proof (intro allI impI)
      fix key assume "\<not> rds_truncated (diff_tokens pk cap src tgt)" "map_of src key \<noteq> map_of tgt key"
      from complete_sample [OF this] show "key \<in> rdf_pk ` set (rds_findings (diff_tokens pk cap src tgt))"
        unfolding findings .
    qed
  qed (rule findings)
qed

theorem diff_sample_exact_witness:
  "rdf_pk ` set (rds_findings (diff_tokens ''id'' 5 [(''1'', ''a''), (''3'', ''c'')] [(''1'', ''b'')])) \<supseteq> {''1'', ''3''}"
proof -
  have "\<not> rds_truncated (diff_tokens ''id'' 5 [(''1'', ''a''), (''3'', ''c'')] [(''1'', ''b'')])" by code_simp
  moreover have "dict_ok [(''1'', ''a''), (''3'', ''c'')]" "dict_ok [(''1'', ''b'')]" by simp_all
  note diff_sample_exact [OF this, of "''id''" 5]
  ultimately have all: "\<forall>key. map_of [(''1'', ''a''), (''3'', ''c'')] key \<noteq> map_of [(''1'', ''b'')] key \<longrightarrow>
      key \<in> rdf_pk ` set (rds_findings (diff_tokens ''id'' 5 [(''1'', ''a''), (''3'', ''c'')] [(''1'', ''b'')]))"
    by blast
  have "''1'' \<in> rdf_pk ` set (rds_findings (diff_tokens ''id'' 5 [(''1'', ''a''), (''3'', ''c'')] [(''1'', ''b'')]))"
    by (rule all [THEN spec, THEN mp]) simp
  moreover have "''3'' \<in> rdf_pk ` set (rds_findings (diff_tokens ''id'' 5 [(''1'', ''a''), (''3'', ''c'')] [(''1'', ''b'')]))"
    by (rule all [THEN spec, THEN mp]) simp
  ultimately show ?thesis by blast
qed

text \<open>
  C29: every way of counting and checksumming a table that Aurora DSQL (or a PostgreSQL source) holds
  still gives the same numbers: the keyset pages of a one-column key, those of a composite key and the
  one statement of a key-less table read each row once, so the count is the number of rows, the checksum
  the sum of their tokens, and the NULL proof a complete count of the rows that hold a value.
\<close>

theorem target_reads_exact:
  assumes "pg_snapshot conn t key snap rows" "beats snap beat" "0 < page" "snap (db r)" "fresh_proof (acc r)"
  shows "(\<exists>x r'. bounded_target_count conn t (Some key) page beat True r = Some (x, r') \<and> (was_cancelled x
        \<or> x = Inr (int (length rows)) \<and> complete (acc r') \<and> counts (acc r') = exact_counts (proof_columns (acc r)) rows))
    \<and> (\<exists>x r'. target_checksum conn t page beat (Some key) None ''target'' r = Some (x, r') \<and> (was_cancelled x
        \<or> x = Inr (tokens_of rows)))
    \<and> (\<exists>x r'. target_checksum_and_count conn t key page beat True r = Some (x, r') \<and> (was_cancelled x
        \<or> x = Inr (tokens_of rows, int (length rows)) \<and> complete (acc r')
          \<and> counts (acc r') = exact_counts (proof_columns (acc r)) rows))"
proof -
  note side = assms(1)
  have split: "was_cancelled x \<or> (\<exists>v. x = Inr v \<and> P v \<and> pass_done bearing rows p (acc r'))"
    if "pass_result snap bearing rows P p x r'" for bearing P p and x :: "pyexc + 'c" and r'
    using that by (cases x) (auto simp: pass_result_def)
  show ?thesis
    using pg_snapshot.bounded_target_count_exact [OF side assms(2-4), of True "Some key"] assms(5)
      pg_snapshot.target_checksum_exact [OF side assms(2-4), of None "Some key" "''target''"]
      pg_snapshot.target_checksum_and_count_exact [OF side assms(2-4), of True]
    by (intro conjI) (force simp: pass_done_def dest: split)+
qed

theorem target_reads_exact_witness:
  "\<exists>x r'. bounded_target_count mem_pg demo_table (Some [''id'']) 2 (\<lambda>w. (Inr (), w)) True
      \<lparr>db = demo_sides, acc = new_proof [''blob''] [], live_keys = []\<rparr> = Some (x, r')
    \<and> (was_cancelled x \<or> x = Inr 3 \<and> complete (acc r') \<and> counts (acc r') = [1])"
proof -
  have "beats (\<lambda>w. w = demo_sides) (\<lambda>w. (Inr (), w))" by (simp add: beats_def)
  from target_reads_exact [OF demo.pg_snapshot_axioms this, of 2 "\<lparr>db = demo_sides, acc = new_proof [''blob''] [], live_keys = []\<rparr>"]
  show ?thesis
    by (simp add: demo_sides_def demo_target_def exact_counts_def nonnull_rows_def new_proof_def fresh_proof_def
        exact_counts_Nil)
qed

end
