(* ===== verification/MySource.thy ===== *)
theory MySource
  imports Reconcile
begin

text \<open>
  \<^verbatim>\<open>core/validator.py\<close>: what a MySQL source is asked for. Its checksum is added up over keyset pages
  of its primary key, whose rows are held to the snapshot's \<open>COUNT(*)\<close>; pages that cannot be trusted,
  and keys that cannot be paged, fall back to the one whole-table statement. A composite key is paged
  with the Full Load reader's own cursor, one member of a leading ENUM at a time.
\<close>

section \<open>The statements of a MySQL connection\<close>

text \<open>
  \<open>members\<close> and \<open>walk\<close> are the dialect's \<open>keyset_key_members\<close> and \<open>keyset_walk\<close>; a page starts at the
  beginning, at a member of the walk or after a key (\<open>keyset_after_sql\<close>, which may be unable to write
  the cursor). The binding of a key value (\<open>_cursor_value\<close>) is part of the statement.
\<close>

type_synonym key_members = "(string \<times> string \<times> string list) list"

datatype page_start = FromFirst | FromMember string | FromKey "string list"

record 'w my_conn =
  my_count :: "string \<Rightarrow> ('w, nat option) action"
  my_checksum :: "source_table \<Rightarrow> ('w, int option) action"
  my_key_page :: "'w key_pages"
  my_checksum_page :: "source_table \<Rightarrow> string \<Rightarrow> nat \<Rightarrow> string option \<Rightarrow>
    ('w, (int option \<times> string option \<times> nat option) option) action"
  my_primary_index :: "string option \<Rightarrow> string \<Rightarrow> ('w, (string \<times> string option \<times> nat option) list) action"
  my_members :: "source_table \<Rightarrow> ('w, key_members) action"
  my_walk :: "source_table \<Rightarrow> key_members \<Rightarrow> string list option"
  my_after_error :: "source_table \<Rightarrow> key_members \<Rightarrow> string list \<Rightarrow> pyexc option"
  my_page :: "source_table \<Rightarrow> key_members \<Rightarrow> page_start \<Rightarrow> nat \<Rightarrow> ('w, (int option \<times> nat option) option) action"
  my_boundary :: "source_table \<Rightarrow> key_members \<Rightarrow> page_start \<Rightarrow> nat \<Rightarrow> ('w, string list option) action"
  my_tokens_page :: "source_table \<Rightarrow> string \<Rightarrow> nat \<Rightarrow> ('w, (pk_value \<times> string) list) action"

definition none_zero_nat :: "nat option \<Rightarrow> int" where
  "none_zero_nat v = (case v of None \<Rightarrow> 0 | Some n \<Rightarrow> int n)"

lemma none_zero_nat_simps [simp]: "none_zero_nat None = 0" "none_zero_nat (Some n) = int n" "0 \<le> none_zero_nat v"
  by (simp_all add: none_zero_nat_def split: option.splits)

definition export_error :: "string \<Rightarrow> pyexc" where
  "export_error msg = runtime_error ''ExportError'' msg"

definition is_export_error :: "pyexc \<Rightarrow> bool" where
  "is_export_error e = (''ExportError'' \<in> set (mro e))"

lemma export_error_simps [simp]:
  "is_export_error (export_error m)" "\<not> is_paged_read_error (export_error m)"
  "\<not> is_export_error (stalled_read side)" "\<not> is_export_error (rows_disagree side p n)"
  "\<not> is_export_error (rows_overrun side p n)" "\<not> is_export_error boundary_unread"
  by (simp_all add: export_error_def is_export_error_def stalled_read_def rows_disagree_def rows_overrun_def
      boundary_unread_def)

section \<open>One exact statement\<close>

definition source_count :: "'w my_conn \<Rightarrow> string \<Rightarrow> ('w reading, int) proc" where
  "source_count conn name = and_then (on_db (my_count conn name)) (\<lambda>v. ret (none_zero_nat v))"

text \<open>\<open>_mysql_whole_table_checksum\<close>: the statement between two beats.\<close>

definition mysql_whole_table_checksum :: "'w my_conn \<Rightarrow> source_table \<Rightarrow> ('w, unit) action \<Rightarrow> ('w reading, int) proc" where
  "mysql_whole_table_checksum conn t beat =
     and_then (on_db beat)
       (\<lambda>_. and_then (on_db (my_checksum conn t))
         (\<lambda>v. and_then (on_db beat) (\<lambda>_. ret (none_zero v))))"

text \<open>The base type of a recorded column type; \<open>None\<close>: not recorded.\<close>

definition mysql_base_type :: "string option \<Rightarrow> pyexc + string" where
  "mysql_base_type ty =
     (case ty of
        None \<Rightarrow> Inr ''''
      | Some s \<Rightarrow>
          if py_strip s = '''' then Inr ''''
          else let word = takeWhile (\<lambda>c. \<not> py_space c)
                     (dropWhile py_space (hd (py_split (CHR ''('') (py_lower (py_strip s)))))
               in if word = [] then Inl (raise_named ''IndexError'' ''list index out of range'') else Inr word)"

text \<open>\<open>any(mysql_base_type(...) in _MYSQL_UNPAGED_KEY_TYPES for column in key)\<close>, left to right.\<close>

fun any_unpaged :: "(string \<Rightarrow> string option) \<Rightarrow> string list \<Rightarrow> pyexc + bool" where
  "any_unpaged recorded [] = Inr False"
| "any_unpaged recorded (c # cs) =
     (case mysql_base_type (recorded (py_lower c)) of
        Inl e \<Rightarrow> Inl e
      | Inr base \<Rightarrow> if base = ''float'' then Inr True else any_unpaged recorded cs)"

definition mysql_key_binds_exactly :: "source_table \<Rightarrow> string list \<Rightarrow> pyexc + bool" where
  "mysql_key_binds_exactly t key =
     (let recorded = map_of (rev (map (\<lambda>c. (py_lower (col_name c), col_type c)) (src_columns t)))
      in case any_unpaged recorded key of Inl e \<Rightarrow> Inl e | Inr b \<Rightarrow> Inr (\<not> b))"

section \<open>The pages of a one-column key\<close>

definition source_checksum_round :: "'w my_conn \<Rightarrow> source_table \<Rightarrow> string \<Rightarrow> nat \<Rightarrow> ('w, unit) action \<Rightarrow>
    int option \<Rightarrow> int \<times> int \<times> string option \<Rightarrow> ('w reading, int \<times> int \<times> string option + int \<times> int) proc" where
  "source_checksum_round conn t pk page beat expected st =
     (case st of
        (tot, rows, cursor) \<Rightarrow>
          and_then (on_db beat)
            (\<lambda>_. and_then (on_db (my_checksum_page conn t pk page cursor))
              (\<lambda>row. case row of
                  None \<Rightarrow> ret (Inr (tot, rows))
                | Some (sub, last_key, cnt) \<Rightarrow>
                    let tot' = tot + none_zero sub; rows' = rows + none_zero_nat cnt
                    in if overruns expected rows' then raising (rows_overrun ''source'' rows' (the expected))
                       else if cnt = None \<or> none_zero_nat cnt < int page then ret (Inr (tot', rows'))
                       else if last_key = None then raising boundary_unread
                       else if last_key = cursor then raising (stalled_read ''source'')
                       else ret (Inl (tot', rows', last_key)))))"

definition source_checksum_keyset :: "'w my_conn \<Rightarrow> source_table \<Rightarrow> string \<Rightarrow> nat \<Rightarrow> ('w, unit) action \<Rightarrow>
    int option \<Rightarrow> ('w reading, int) proc" where
  "source_checksum_keyset conn t pk page beat expected =
     and_then (while_true (source_checksum_round conn t pk page beat expected) (0, 0, None))
       (held_to_count ''source'' expected)"

section \<open>The pages of a composite key\<close>

text \<open>\<open>_mysql_key_pages_in_order\<close>: the live PRIMARY index is the recorded key, ascending and whole.\<close>

definition primary_index_of :: "'w my_conn \<Rightarrow> source_table \<Rightarrow> ('w, (string \<times> string option \<times> nat option) list) action" where
  "primary_index_of conn t =
     (let (schema, rest) = (takeWhile (\<lambda>c. c \<noteq> CHR ''.'') (src_name t), dropWhile (\<lambda>c. c \<noteq> CHR ''.'') (src_name t));
          name = drop 1 rest
      in if rest \<noteq> [] \<and> schema \<noteq> [] \<and> name \<noteq> [] then my_primary_index conn (Some schema) name
         else my_primary_index conn None (src_name t))"

definition mysql_key_pages_in_order :: "'w my_conn \<Rightarrow> source_table \<Rightarrow> ('w reading, bool) proc" where
  "mysql_key_pages_in_order conn t =
     and_then (on_db (primary_index_of conn t))
       (\<lambda>parts. ret (map (\<lambda>(c, order, sub). py_lower c) parts = map py_lower (src_primary_key t)
          \<and> list_all (\<lambda>(c, order, sub). (case order of None \<Rightarrow> False | Some d \<Rightarrow> d = ''A'' \<or> d = ''a'') \<and> sub = None)
              parts))"

record walk_state =
  wk_total :: int
  wk_rows :: int
  wk_last :: "string list option"
  wk_member :: "nat option"
  wk_member_start :: bool

fun index_of :: "'a \<Rightarrow> 'a list \<Rightarrow> nat" where
  "index_of x [] = 0"
| "index_of x (y # ys) = (if x = y then 0 else Suc (index_of x ys))"

text \<open>Where the next page starts, or the error of the cursor that cannot be written.\<close>

definition page_start_of :: "'w my_conn \<Rightarrow> source_table \<Rightarrow> key_members \<Rightarrow> string list option \<Rightarrow> walk_state \<Rightarrow>
    pyexc + page_start" where
  "page_start_of conn t members walk st =
     (if wk_member_start st then Inr (FromMember (the walk ! the (wk_member st)))
      else (case wk_last st of
              None \<Rightarrow> Inr FromFirst
            | Some k \<Rightarrow> (case my_after_error conn t members k of Some e \<Rightarrow> Inl e | None \<Rightarrow> Inr (FromKey k))))"

text \<open>
  What follows a page: \<open>boundary\<close> is its last key when the page was full. A short page ends a walk
  after its last member, a full one goes on after its boundary.
\<close>

definition after_composite_page :: "string list option \<Rightarrow> string list option \<Rightarrow> walk_state \<Rightarrow>
    pyexc + (walk_state + int \<times> int)" where
  "after_composite_page walk boundary st =
     (let ended = Inr (Inr (wk_total st, wk_rows st))
      in case walk of
           None \<Rightarrow> (case boundary of None \<Rightarrow> ended | Some k \<Rightarrow> Inr (Inl (st\<lparr>wk_last := Some k\<rparr>)))
         | Some names \<Rightarrow>
             (case (wk_member st, boundary) of
                (None, None) \<Rightarrow> ended
              | (None, Some k) \<Rightarrow>
                  if hd k \<notin> set names then Inl (export_error ''a key value is not one of the members'')
                  else Inr (Inl (st\<lparr>wk_member := Some (index_of (hd k) names), wk_member_start := False,
                                    wk_last := Some k\<rparr>))
              | (Some m, None) \<Rightarrow>
                  if Suc m = length names then ended
                  else Inr (Inl (st\<lparr>wk_member := Some (Suc m), wk_member_start := True\<rparr>))
              | (Some m, Some k) \<Rightarrow> Inr (Inl (st\<lparr>wk_member_start := False, wk_last := Some k\<rparr>))))"

text \<open>The last key of a full page, checked against the cursor and the member it was read in.\<close>

definition read_boundary :: "'w my_conn \<Rightarrow> source_table \<Rightarrow> key_members \<Rightarrow> string list option \<Rightarrow> nat \<Rightarrow> page_start \<Rightarrow>
    walk_state \<Rightarrow> ('w reading, string list option) proc" where
  "read_boundary conn t members walk page start st =
     and_then (on_db (my_boundary conn t members start (page - 1)))
       (\<lambda>boundary. case boundary of
           None \<Rightarrow> raising boundary_unread
         | Some k \<Rightarrow>
             if boundary = wk_last st then raising (stalled_read ''source'')
             else if wk_member st \<noteq> None \<and> hd k \<noteq> the walk ! the (wk_member st)
             then raising (export_error ''a member's page holds another member's rows'')
             else ret boundary)"

definition lift_result :: "pyexc + 'a \<Rightarrow> ('s, 'a) proc" where
  "lift_result x = (case x of Inl e \<Rightarrow> raising e | Inr a \<Rightarrow> ret a)"

definition composite_source_round :: "'w my_conn \<Rightarrow> source_table \<Rightarrow> key_members \<Rightarrow> string list option \<Rightarrow> nat \<Rightarrow>
    ('w, unit) action \<Rightarrow> int \<Rightarrow> walk_state \<Rightarrow> ('w reading, walk_state + int \<times> int) proc" where
  "composite_source_round conn t members walk page beat expected st =
     and_then (on_db beat)
       (\<lambda>_. and_then (lift_result (page_start_of conn t members walk st))
         (\<lambda>start. and_then (on_db (my_page conn t members start page))
           (\<lambda>row. let cnt = (case row of None \<Rightarrow> 0 | Some (_, n) \<Rightarrow> none_zero_nat n);
                      sub = (case row of None \<Rightarrow> 0 | Some (s, _) \<Rightarrow> none_zero s);
                      st' = st\<lparr>wk_total := wk_total st + sub, wk_rows := wk_rows st + cnt\<rparr>
                  in if expected < wk_rows st' then raising (rows_overrun ''source'' (wk_rows st') expected)
                     else and_then
                       (if cnt < int page then ret None else read_boundary conn t members walk page start st')
                       (\<lambda>boundary. lift_result (after_composite_page walk boundary st')))))"

definition mysql_composite_pages :: "'w my_conn \<Rightarrow> source_table \<Rightarrow> nat \<Rightarrow> key_members \<Rightarrow> ('w, unit) action \<Rightarrow> int \<Rightarrow>
    ('w reading, int) proc" where
  "mysql_composite_pages conn t page members beat expected =
     and_then
       (while_true (composite_source_round conn t members (my_walk conn t members) page beat expected)
          \<lparr>wk_total = 0, wk_rows = 0, wk_last = None, wk_member = None, wk_member_start = False\<rparr>)
       (held_to_count ''source'' (Some expected))"

text \<open>
  Pages that cannot be trusted are answered by the one exact statement: an \<open>ExportError\<close> of the
  dialect and a \<open>PagedReadError\<close> of the pages (the latter logged).
\<close>

definition or_whole_table :: "(pyexc \<Rightarrow> bool) \<Rightarrow> 'w my_conn \<Rightarrow> source_table \<Rightarrow> ('w, unit) action \<Rightarrow>
    ('w reading, int) proc \<Rightarrow> ('w reading, int) proc" where
  "or_whole_table caught conn t beat m s =
     (case m s of
        Some (Inl e, s') \<Rightarrow> if caught e then mysql_whole_table_checksum conn t beat s' else Some (Inl e, s')
      | r \<Rightarrow> r)"

definition source_checksum_composite_mysql :: "'w my_conn \<Rightarrow> source_table \<Rightarrow> nat \<Rightarrow> ('w, unit) action \<Rightarrow>
    int option \<Rightarrow> ('w reading, int) proc" where
  "source_checksum_composite_mysql conn t page beat expected =
     and_then (mysql_key_pages_in_order conn t)
       (\<lambda>in_order. if \<not> in_order then mysql_whole_table_checksum conn t beat
         else or_whole_table (\<lambda>e. is_export_error e \<or> is_paged_read_error e) conn t beat
           (and_then (on_db (my_members conn t))
             (\<lambda>members. and_then
                (case expected of None \<Rightarrow> source_count conn (src_name t) | Some n \<Rightarrow> ret n)
                (\<lambda>n. mysql_composite_pages conn t page members beat n))))"

definition source_checksum :: "'w my_conn \<Rightarrow> source_table \<Rightarrow> nat \<Rightarrow> ('w, unit) action \<Rightarrow> int option \<Rightarrow>
    ('w reading, int) proc" where
  "source_checksum conn t page beat expected =
     (let key = pk_paging_columns t
      in if key = [] then mysql_whole_table_checksum conn t beat
         else and_then (lift_result (mysql_key_binds_exactly t key))
           (\<lambda>exact. if \<not> exact then mysql_whole_table_checksum conn t beat
             else (case key of
                     [pk] \<Rightarrow> or_whole_table is_paged_read_error conn t beat
                               (source_checksum_keyset conn t pk page beat expected)
                   | _ \<Rightarrow> source_checksum_composite_mysql conn t page beat expected)))"

section \<open>Either engine\<close>

text \<open>A source connection, by its engine; a PostgreSQL one is read as the target is.\<close>

datatype 'w source_conn = MySQL "'w my_conn" | Postgres "'w pg_conn"

definition source_is_postgres :: "'w source_conn \<Rightarrow> bool" where
  "source_is_postgres src = (case src of MySQL _ \<Rightarrow> False | Postgres _ \<Rightarrow> True)"

definition source_row_count_live :: "'w source_conn \<Rightarrow> source_table \<Rightarrow> nat \<Rightarrow> ('w, unit) action \<Rightarrow>
    ('w reading, int) proc" where
  "source_row_count_live src t page beat =
     (case src of
        MySQL conn \<Rightarrow> source_count conn (src_name t)
      | Postgres conn \<Rightarrow>
          if 1 < length (pk_paging_columns t) then target_count conn (src_name t) False
          else bounded_target_count conn t None page beat False)"

definition source_checksum_for :: "'w source_conn \<Rightarrow> source_table \<Rightarrow> nat \<Rightarrow> ('w, unit) action \<Rightarrow> int option \<Rightarrow>
    ('w reading, int) proc" where
  "source_checksum_for src t page beat expected =
     (case src of
        MySQL conn \<Rightarrow> source_checksum conn t page beat expected
      | Postgres conn \<Rightarrow>
          (let key = pk_paging_columns t
           in if 1 < length key
              then and_then
                (case expected of None \<Rightarrow> target_count conn (src_name t) False | Some n \<Rightarrow> ret n)
                (\<lambda>n. and_then (composite_pages_pg conn t key page True [] beat False ''source'' (Some n))
                  (\<lambda>totals. held_to_count ''source'' (Some n) (tot_checksum totals, tot_rows totals)))
              else target_checksum conn t page beat (Some key) expected ''source''))"

section \<open>Every checksum ends\<close>

lemma lift_result_returns [returning, simp]: "returns (lift_result x)"
  by (simp add: lift_result_def split: sum.splits)

lemma held_to_count_returns [returning, simp]: "returns (held_to_count side expected read)"
  by (simp add: held_to_count_def split: option.splits)

lemma source_count_returns [returning, simp]: "returns (source_count conn name)"
  unfolding source_count_def by (intro returning)

lemma whole_table_returns [returning, simp]: "returns (mysql_whole_table_checksum conn t beat)"
  unfolding mysql_whole_table_checksum_def by (intro returning)

lemma in_order_returns [returning, simp]: "returns (mysql_key_pages_in_order conn t)"
  unfolding mysql_key_pages_in_order_def by (intro returning)

lemma or_whole_table_returns [returning]: "returns m \<Longrightarrow> returns (or_whole_table caught conn t beat m)"
  using whole_table_returns [of conn t beat]
  by (auto simp: returns_def or_whole_table_def split: option.splits prod.splits sum.splits)

lemma read_boundary_returns [returning, simp]: "returns (read_boundary conn t members walk page start st)"
  unfolding read_boundary_def by (intro returning) (auto split: option.splits)

text \<open>What a round hands on, whatever the database answered: it read a full page, within the count.\<close>

lemma and_then_InrE:
  assumes "and_then m f s = Some (Inr b, s')"
  obtains a s1 where "m s = Some (Inr a, s1)" "f a s1 = Some (Inr b, s')"
  using assms by (auto simp: and_then_def split: option.splits prod.splits sum.splits)

lemma source_checksum_round_continues:
  assumes "source_checksum_round conn t pk page beat (Some n) (tot, rows, cursor) s = Some (Inr (Inl st'), s')" "0 < page"
  shows "rows < fst (snd st') \<and> fst (snd st') \<le> n"
  using assms unfolding source_checksum_round_def case_prod_conv
  by (elim and_then_InrE)
    (auto simp: ret_def raising_def Let_def overruns_def split: option.splits prod.splits if_splits)

lemma source_checksum_round_returns [returning, simp]: "returns (source_checksum_round conn t pk page beat expected st)"
  unfolding source_checksum_round_def case_prod_unfold Let_def
  by (intro returning) (auto split: option.splits)

lemma source_checksum_keyset_returns:
  assumes "0 < page"
  shows "returns (source_checksum_keyset conn t pk page beat (Some n))"
  unfolding source_checksum_keyset_def
proof (intro returning)
  show "returns (while_true (source_checksum_round conn t pk page beat (Some n)) (0, 0, None))"
  proof (cases "0 \<le> n")
    case True
    show ?thesis
    proof (rule while_true_returns [where I = "\<lambda>k (tot, rows, cursor). k = nat (n - rows) \<and> rows \<le> n"])
      fix k a s a' s'
      assume "case a of (tot, rows, cursor) \<Rightarrow> k = nat (n - rows) \<and> rows \<le> n"
        and "source_checksum_round conn t pk page beat (Some n) a s = Some (Inr (Inl a'), s')"
      with assms show "\<exists>j < k. case a' of (tot, rows, cursor) \<Rightarrow> j = nat (n - rows) \<and> rows \<le> n"
        by (cases a; cases a') (auto dest: source_checksum_round_continues)
    qed (use True in auto)
  next
    case False
    show ?thesis
    proof (rule while_true_returns [where I = "\<lambda>k (tot, rows, cursor). 0 \<le> rows"])
      fix k :: nat and a s a' s'
      assume "case a of (tot, rows, cursor) \<Rightarrow> 0 \<le> rows"
        and "source_checksum_round conn t pk page beat (Some n) a s = Some (Inr (Inl a'), s')"
      with assms False show "\<exists>j < k. case a' of (tot, rows, cursor) \<Rightarrow> 0 \<le> rows"
        by (cases a; cases a') (auto dest: source_checksum_round_continues)
    qed auto
  qed
qed

text \<open>
  The rank of the composite walk: the rows that are left of the count, and the members that are left
  of the walk.
\<close>

definition walk_rank :: "string list option \<Rightarrow> int \<Rightarrow> walk_state \<Rightarrow> nat" where
  "walk_rank walk n st =
     (let L = (case walk of None \<Rightarrow> 0 | Some names \<Rightarrow> length names)
      in nat (n - wk_rows st) * (L + 2) + (case wk_member st of None \<Rightarrow> L + 1 | Some m \<Rightarrow> L - m))"

definition walk_ok :: "string list option \<Rightarrow> int \<Rightarrow> walk_state \<Rightarrow> bool" where
  "walk_ok walk n st = (wk_rows st \<le> n
     \<and> (case walk of None \<Rightarrow> wk_member st = None
        | Some names \<Rightarrow> (case wk_member st of None \<Rightarrow> True | Some m \<Rightarrow> m < length names)))"

lemma index_of_less: "x \<in> set xs \<Longrightarrow> index_of x xs < length xs"
  by (induction xs) auto

lemma nth_index_of [simp]: "x \<in> set xs \<Longrightarrow> xs ! index_of x xs = x"
  by (induction xs) auto

lemma after_page_continues:
  assumes "after_composite_page walk boundary st1 = Inr (Inl st')" "walk_ok walk n st"
    and "wk_rows st1 \<le> n" "wk_rows st \<le> wk_rows st1" "wk_member st1 = wk_member st"
    and "boundary \<noteq> None \<Longrightarrow> wk_rows st < wk_rows st1"
  shows "walk_ok walk n st' \<and> walk_rank walk n st' < walk_rank walk n st"
proof -
  have mono: "nat (n - wk_rows st1) * c \<le> nat (n - wk_rows st) * c" for c :: nat
    using assms(4) by (intro mult_right_mono) auto
  have drop: "nat (n - wk_rows st1) * Suc c + Suc c \<le> nat (n - wk_rows st) * Suc c" if "boundary \<noteq> None" for c :: nat
  proof -
    have "Suc (nat (n - wk_rows st1)) \<le> nat (n - wk_rows st)" using assms(3,6) that by auto
    then have "Suc (nat (n - wk_rows st1)) * Suc c \<le> nat (n - wk_rows st) * Suc c"
      by (rule mult_right_mono) simp
    then show ?thesis by (simp add: algebra_simps)
  qed
  show ?thesis
  proof (cases walk)
    case None
    with assms drop [of 1] show ?thesis
      by (auto simp: after_composite_page_def walk_ok_def walk_rank_def Let_def split: option.splits)
  next
    case (Some names)
    note walk = Some
    show ?thesis
    proof (cases "wk_member st")
      case None
      with assms walk drop [of "Suc (length names)"] show ?thesis
        by (auto simp: after_composite_page_def walk_ok_def walk_rank_def Let_def index_of_less
            split: option.splits if_splits; linarith)
    next
      case (Some m)
      with assms walk drop [of "Suc (length names)"] mono [of "Suc (Suc (length names))"] show ?thesis
        by (auto simp: after_composite_page_def walk_ok_def walk_rank_def Let_def
            split: option.splits if_splits; linarith)
    qed
  qed
qed

lemma composite_source_round_continues:
  assumes "composite_source_round conn t members walk page beat n st s = Some (Inr (Inl st'), s')"
    and "0 < page" "walk_ok walk n st"
  shows "walk_ok walk n st' \<and> walk_rank walk n st' < walk_rank walk n st"
proof -
  from assms(1) obtain cnt sub boundary where cnt: "0 \<le> cnt"
    "\<not> n < wk_rows st + cnt" "boundary \<noteq> None \<Longrightarrow> int page \<le> cnt"
    "after_composite_page walk boundary (st\<lparr>wk_total := wk_total st + sub, wk_rows := wk_rows st + cnt\<rparr>) = Inr (Inl st')"
    unfolding composite_source_round_def Let_def
  proof (elim and_then_InrE, goal_cases)
    case (1 a s1 start s2 row s3)
    let ?cnt = "case row of None \<Rightarrow> 0 | Some (_, k) \<Rightarrow> none_zero_nat k"
    let ?sub = "case row of None \<Rightarrow> 0 | Some (v, _) \<Rightarrow> none_zero v"
    let ?st = "st\<lparr>wk_total := wk_total st + ?sub, wk_rows := wk_rows st + ?cnt\<rparr>"
    have fits: "\<not> n < wk_rows st + ?cnt" using 1(5) by (auto simp: raising_def split: if_splits)
    with 1(5) obtain boundary s4 where b:
      "(if ?cnt < int page then ret None else read_boundary conn t members walk page start ?st) s3 = Some (Inr boundary, s4)"
      "lift_result (after_composite_page walk boundary ?st) s4 = Some (Inr (Inl st'), s')"
      by (auto elim: and_then_InrE)
    from b(2) have "after_composite_page walk boundary ?st = Inr (Inl st')"
      by (auto simp: lift_result_def raising_def ret_def split: sum.splits)
    moreover have "int page \<le> ?cnt" if "boundary \<noteq> None"
      using b(1) that by (auto simp: ret_def split: if_splits)
    moreover have "0 \<le> ?cnt" by (auto split: option.splits)
    ultimately show ?case using fits by (intro 1(1) [of ?cnt boundary ?sub]) auto
  qed
  from after_page_continues [OF cnt(4) assms(3)] cnt(1-3) assms(2) show ?thesis by fastforce
qed

lemma composite_source_round_returns [returning, simp]:
  "returns (composite_source_round conn t members walk page beat n st)"
  unfolding composite_source_round_def Let_def
  by (intro returning) (auto intro!: returning)

lemma mysql_composite_pages_returns:
  assumes "0 < page" "0 \<le> n"
  shows "returns (mysql_composite_pages conn t page members beat n)"
  unfolding mysql_composite_pages_def
proof (intro returning)
  let ?walk = "my_walk conn t members"
  let ?first = "\<lparr>wk_total = 0, wk_rows = 0, wk_last = None, wk_member = None, wk_member_start = False\<rparr>"
  show "returns (while_true (composite_source_round conn t members ?walk page beat n) ?first)"
  proof (rule while_true_returns [where I = "\<lambda>k st. k = walk_rank ?walk n st \<and> walk_ok ?walk n st"])
    show "walk_rank ?walk n ?first = walk_rank ?walk n ?first \<and> walk_ok ?walk n ?first"
      using assms(2) by (simp add: walk_ok_def split: option.splits)
    fix k a s a' s'
    assume "k = walk_rank ?walk n a \<and> walk_ok ?walk n a"
      and "composite_source_round conn t members ?walk page beat n a s = Some (Inr (Inl a'), s')"
    with composite_source_round_continues [OF this(2) assms(1)]
    show "\<exists>j < k. j = walk_rank ?walk n a' \<and> walk_ok ?walk n a'" by auto
  qed simp
qed

section \<open>Every checksum of a snapshot is the whole table's\<close>

text \<open>
  What MySQL answers over a table that is not written while it is read, its key not led by an ENUM (no
  walk). The dialect may be unable to place the cursor, or to read the members; the catalog may
  describe any index.
\<close>

locale my_snapshot =
  fixes conn :: "'w my_conn" and t :: source_table and key :: "string list"
    and snap :: "'w \<Rightarrow> bool" and rows :: "side_row list"
  assumes distinct_keys: "distinct (map fst rows)"
    and key_of_table: "pk_paging_columns t = key"
    and single_key: "\<And>row pk. key = [pk] \<Longrightarrow> row \<in> set rows \<Longrightarrow> length (fst row) = 1"
    and typed_key: "\<exists>b. mysql_key_binds_exactly t key = Inr b"
    and one_count: "\<And>w. snap w \<Longrightarrow> \<exists>w'. my_count conn (src_name t) w = (Inr (Some (length rows)), w') \<and> snap w'"
    and one_checksum: "\<And>w. snap w \<Longrightarrow>
      \<exists>v w'. my_checksum conn t w = (Inr v, w') \<and> snap w' \<and> none_zero v = tokens_of rows"
    and checksum_page: "\<And>w pk page cursor. snap w \<Longrightarrow> key = [pk] \<Longrightarrow>
      \<exists>sub lastk w'. my_checksum_page conn t pk page cursor w =
          (Inr (Some (sub, lastk, Some (length (take page (after (map_option (\<lambda>k. [k]) cursor) rows))))), w')
        \<and> snap w'
        \<and> (let pg = take page (after (map_option (\<lambda>k. [k]) cursor) rows)
           in none_zero sub = tokens_of pg \<and> (pg \<noteq> [] \<longrightarrow> lastk = Some (hd (fst (last pg)))))"
    and index: "\<And>w schema name. snap w \<Longrightarrow> \<exists>parts w'. my_primary_index conn schema name w = (Inr parts, w') \<and> snap w'"
    and members: "\<And>w. snap w \<Longrightarrow> \<exists>x w'. my_members conn t w = (x, w') \<and> snap w' \<and> (\<forall>e. x = Inl e \<longrightarrow> is_export_error e)"
    and no_walk: "\<And>ms. my_walk conn t ms = None"
    and cursor_error: "\<And>ms k e. my_after_error conn t ms k = Some e \<Longrightarrow> is_export_error e"
    and page_row: "\<And>w ms start page. snap w \<Longrightarrow> start = FromFirst \<or> (\<exists>k. start = FromKey k) \<Longrightarrow>
      \<exists>sub w'. my_page conn t ms start page w =
          (Inr (Some (sub, Some (length (take page (after (case start of FromKey k \<Rightarrow> Some k | _ \<Rightarrow> None) rows))))), w')
        \<and> snap w'
        \<and> none_zero sub = tokens_of (take page (after (case start of FromKey k \<Rightarrow> Some k | _ \<Rightarrow> None) rows))"
    and boundary_row: "\<And>w ms start off. snap w \<Longrightarrow> start = FromFirst \<or> (\<exists>k. start = FromKey k) \<Longrightarrow>
      off < length (after (case start of FromKey k \<Rightarrow> Some k | _ \<Rightarrow> None) rows) \<Longrightarrow>
      \<exists>w'. my_boundary conn t ms start off w =
          (Inr (Some (fst (after (case start of FromKey k \<Rightarrow> Some k | _ \<Rightarrow> None) rows ! off))), w') \<and> snap w'"
begin

definition sum_result :: "pyexc + int \<Rightarrow> 'w reading \<Rightarrow> null_proof \<Rightarrow> bool" where
  "sum_result x r p = (snap (db r) \<and> acc r = p \<and> (was_cancelled x \<or> x = Inr (tokens_of rows)))"

text \<open>The outcome of pages: the sum, a stop, or an error the one statement answers for.\<close>

definition paged_result :: "(pyexc \<Rightarrow> bool) \<Rightarrow> ('a \<Rightarrow> bool) \<Rightarrow> pyexc + 'a \<Rightarrow> 'w reading \<Rightarrow> null_proof \<Rightarrow> bool" where
  "paged_result caught P x r p = (snap (db r) \<and> acc r = p
     \<and> (case x of Inl e \<Rightarrow> caught e \<or> was_cancelled (Inl e :: pyexc + unit) | Inr v \<Rightarrow> P v))"

lemma whole_table_exact:
  assumes "beats snap beat" "snap (db r)"
  shows "\<exists>x r'. mysql_whole_table_checksum conn t beat r = Some (x, r') \<and> sum_result x r' (acc r)"
  using assms
proof (cases rule: beats_cases)
  case (stopped e w)
  then show ?thesis
    by (simp add: mysql_whole_table_checksum_def and_then_def on_db_def sum_result_def)
next
  case (going w1)
  from one_checksum [OF going(2)] obtain v w2 where v: "my_checksum conn t w1 = (Inr v, w2)" "snap w2"
    "none_zero v = tokens_of rows" by blast
  from assms(1) v(2) show ?thesis
    by (cases rule: beats_cases)
      (use going v in \<open>auto simp: mysql_whole_table_checksum_def and_then_def on_db_def sum_result_def ret_def\<close>)
qed

lemma or_whole_table_exact:
  assumes "beats snap beat" "\<exists>x r'. m r = Some (x, r') \<and> paged_result caught (\<lambda>v. v = tokens_of rows) x r' p"
  shows "\<exists>x r'. or_whole_table caught conn t beat m r = Some (x, r') \<and> sum_result x r' p"
proof -
  from assms(2) obtain x r1 where m: "m r = Some (x, r1)" "paged_result caught (\<lambda>v. v = tokens_of rows) x r1 p" by blast
  show ?thesis
  proof (cases x)
    case (Inl e)
    with m whole_table_exact [OF assms(1), of r1] show ?thesis
      by (cases "caught e") (auto simp: or_whole_table_def paged_result_def sum_result_def was_cancelled_def)
  next
    case (Inr v)
    with m show ?thesis by (simp add: or_whole_table_def paged_result_def sum_result_def)
  qed
qed

definition at_cursor :: "string list option \<Rightarrow> side_row list \<Rightarrow> side_row list \<Rightarrow> bool" where
  "at_cursor cursor read left = (rows = read @ left \<and> after cursor rows = left
     \<and> (case cursor of None \<Rightarrow> True | Some k \<Rightarrow> k \<in> fst ` set read))"

lemma at_cursor_next:
  assumes "at_cursor cursor read left" "take page left \<noteq> []"
  shows "at_cursor (Some (fst (last (take page left)))) (read @ take page left) (drop page left)"
    and "Some (fst (last (take page left))) \<noteq> cursor"
proof -
  from assms(1) have split: "rows = read @ take page left @ drop page left" by (simp add: at_cursor_def)
  show "at_cursor (Some (fst (last (take page left)))) (read @ take page left) (drop page left)"
    using after_last [OF distinct_keys split assms(2)] split last_in_set [OF assms(2)]
    unfolding at_cursor_def by simp
  have "last (take page left) \<in> set left" using assms(2) by (meson in_set_takeD last_in_set)
  with assms(1) distinct_keys show "Some (fst (last (take page left))) \<noteq> cursor"
    by (auto simp: at_cursor_def split: option.splits)
qed

lemma single_next:
  assumes "key = [pk]" "at_cursor cursor read left" "take page left \<noteq> []"
  shows "[hd (fst (last (take page left)))] = fst (last (take page left))"
proof -
  have "last (take page left) \<in> set rows"
    using assms(2) last_in_set [OF assms(3)] in_set_takeD [of _ page left] by (auto simp: at_cursor_def)
  with single_key [OF assms(1)] show ?thesis by (cases "fst (last (take page left))") fastforce+
qed

definition key_inv :: "null_proof \<Rightarrow> nat \<Rightarrow> int \<times> int \<times> string option \<Rightarrow> 'w reading \<Rightarrow> bool" where
  "key_inv p k st r = (\<exists>read left. at_cursor (map_option (\<lambda>k. [k]) (snd (snd st))) read left
     \<and> fst st = tokens_of read \<and> fst (snd st) = int (length read) \<and> snap (db r) \<and> acc r = p \<and> k = length left)"

lemma key_round_exact:
  assumes "key = [pk]" "beats snap beat" "0 < page" "key_inv p k st r"
    and exp: "expected = None \<or> expected = Some (int (length rows))"
  shows "round_ok (\<lambda>st r. \<exists>j < k. key_inv p j st r) (\<lambda>st r. 0)
      (\<lambda>x r. paged_result is_paged_read_error (\<lambda>v. v = (tokens_of rows, int (length rows))) x r p) 1
      (source_checksum_round conn t pk page beat expected st r)"
proof -
  obtain tot n cursor where st: "st = (tot, n, cursor)" by (cases st) auto
  from assms(4) st obtain read left where inv: "at_cursor (map_option (\<lambda>k. [k]) cursor) read left"
    "tot = tokens_of read" "n = int (length read)" "snap (db r)" "acc r = p" "k = length left"
    by (auto simp: key_inv_def)
  let ?pg = "take page left"
  from assms(2) inv(4) show ?thesis
  proof (cases rule: beats_cases)
    case (stopped e w')
    then show ?thesis
      by (simp add: st source_checksum_round_def on_db_def and_then_def paged_result_def inv(5))
  next
    case (going w1)
    have left: "after (map_option (\<lambda>k. [k]) cursor) rows = left" and rows_left: "rows = read @ left"
      using inv(1) unfolding at_cursor_def by blast+
    from checksum_page [OF going(2) assms(1), of page cursor] obtain sub lastk w2 where page:
      "my_checksum_page conn t pk page cursor w1 = (Inr (Some (sub, lastk, Some (length ?pg))), w2)"
      "snap w2" "none_zero sub = tokens_of ?pg" "?pg \<noteq> [] \<longrightarrow> lastk = Some (hd (fst (last ?pg)))"
      by (auto simp: Let_def left)
    have fits: "\<not> overruns expected (n + int (length ?pg))"
      using exp rows_left inv(3) by (auto simp: overruns_def)
    show ?thesis
    proof (cases "length ?pg < page")
      case True
      then have all: "?pg = left" by simp
      with True page inv fits rows_left going(1) show ?thesis
        by (auto simp: st source_checksum_round_def exec_simps ret_def paged_result_def Let_def)
    next
      case False
      with assms(3) have ne: "?pg \<noteq> []" by auto
      have next_key: "map_option (\<lambda>k. [k]) (Some (hd (fst (last ?pg)))) = Some (fst (last ?pg))"
        using single_next [OF assms(1) inv(1) ne] by simp
      have moved: "cursor \<noteq> Some (hd (fst (last ?pg)))"
        using at_cursor_next(2) [OF inv(1) ne] next_key by auto
      have "key_inv p (length (drop page left)) (tot + tokens_of ?pg, n + int (length ?pg), Some (hd (fst (last ?pg)))) (r\<lparr>db := w2\<rparr>)"
        unfolding key_inv_def using at_cursor_next(1) [OF inv(1) ne] next_key page(2) inv(2-5)
        by (intro exI [of _ "read @ ?pg"] exI [of _ "drop page left"]) simp
      moreover have "length (drop page left) < k" using ne inv(6) assms(3) by (cases left) auto
      moreover have "source_checksum_round conn t pk page beat expected st r
          = Some (Inr (Inl (tot + tokens_of ?pg, n + int (length ?pg), Some (hd (fst (last ?pg))))), r\<lparr>db := w2\<rparr>)"
        using False page ne fits going(1) moved
        by (auto simp: st source_checksum_round_def exec_simps ret_def Let_def)
      ultimately show ?thesis by auto
    qed
  qed
qed

definition walk_inv :: "null_proof \<Rightarrow> nat \<Rightarrow> walk_state \<Rightarrow> 'w reading \<Rightarrow> bool" where
  "walk_inv p k st r = (\<exists>read left. at_cursor (wk_last st) read left
     \<and> wk_total st = tokens_of read \<and> wk_rows st = int (length read) \<and> wk_member st = None \<and> \<not> wk_member_start st
     \<and> snap (db r) \<and> acc r = p \<and> k = length left)"

abbreviation (input) caught :: "pyexc \<Rightarrow> bool" where
  "caught \<equiv> \<lambda>e. is_export_error e \<or> is_paged_read_error e"

lemma walk_round_exact:
  assumes "beats snap beat" "0 < page" "walk_inv p k st r"
  shows "round_ok (\<lambda>st r. \<exists>j < k. walk_inv p j st r) (\<lambda>st r. 0)
      (\<lambda>x r. paged_result caught (\<lambda>v. v = (tokens_of rows, int (length rows))) x r p) 1
      (composite_source_round conn t ms None page beat (int (length rows)) st r)"
proof -
  from assms(3) obtain read left where inv: "at_cursor (wk_last st) read left"
    "wk_total st = tokens_of read" "wk_rows st = int (length read)" "wk_member st = None" "\<not> wk_member_start st"
    "snap (db r)" "acc r = p" "k = length left"
    by (auto simp: walk_inv_def)
  let ?pg = "take page left"
  from assms(1) inv(6) show ?thesis
  proof (cases rule: beats_cases)
    case (stopped e w')
    then show ?thesis
      by (simp add: composite_source_round_def on_db_def and_then_def paged_result_def inv(7))
  next
    case (going w1)
    show ?thesis
    proof (cases "page_start_of conn t ms None st")
      case (Inl e)
      then have "is_export_error e"
        using inv(5) cursor_error by (auto simp: page_start_of_def split: option.splits)
      with Inl going inv(7) show ?thesis
        by (simp add: composite_source_round_def exec_simps lift_result_def raising_def paged_result_def)
    next
      case (Inr start)
      have start: "start = FromFirst \<or> (\<exists>k. start = FromKey k)"
        "(case start of FromKey k \<Rightarrow> Some k | _ \<Rightarrow> None) = wk_last st"
        using Inr inv(5) by (auto simp: page_start_of_def split: option.splits)
      have left: "after (wk_last st) rows = left" and rows_left: "rows = read @ left"
        using inv(1) unfolding at_cursor_def by blast+
      from page_row [OF going(2) start(1), of ms page] obtain sub w2 where page:
        "my_page conn t ms start page w1 = (Inr (Some (sub, Some (length ?pg))), w2)"
        "snap w2" "none_zero sub = tokens_of ?pg" unfolding start(2) left by blast
      let ?st = "st\<lparr>wk_total := tokens_of (read @ ?pg), wk_rows := int (length (read @ ?pg))\<rparr>"
      have fits: "\<not> int (length rows) < int (length (read @ ?pg))" using rows_left by simp
      have run: "composite_source_round conn t ms None page beat (int (length rows)) st r =
          and_then (if length ?pg < page then ret None else read_boundary conn t ms None page start ?st)
            (\<lambda>boundary. lift_result (after_composite_page None boundary ?st)) (r\<lparr>db := w2\<rparr>)"
        using going(1) Inr page(1) fits
        by (simp add: composite_source_round_def exec_simps lift_result_def ret_def Let_def page(3) inv(2,3))
      show ?thesis
      proof (cases "length ?pg < page")
        case True
        then have "?pg = left" by simp
        with True run page(2) inv(7) rows_left show ?thesis
          by (simp add: lift_result_def after_composite_page_def ret_def paged_result_def)
      next
        case False
        with assms(2) have ne: "?pg \<noteq> []" "page - 1 < length left" by auto
        have last: "left ! (page - 1) = last ?pg"
          using ne False by (simp add: last_conv_nth)
        from boundary_row [OF page(2) start(1), of "page - 1" ms] ne(2) obtain w3 where b:
          "my_boundary conn t ms start (page - 1) w2 = (Inr (Some (fst (last ?pg))), w3)" "snap w3"
          unfolding start(2) left last by blast
        let ?st' = "?st\<lparr>wk_last := Some (fst (last ?pg))\<rparr>"
        have "composite_source_round conn t ms None page beat (int (length rows)) st r = Some (Inr (Inl ?st'), r\<lparr>db := w3\<rparr>)"
          using False run b(1) at_cursor_next(2) [OF inv(1) ne(1)] inv(4)
          by (simp add: read_boundary_def exec_simps ret_def lift_result_def after_composite_page_def)
        moreover have "walk_inv p (length (drop page left)) ?st' (r\<lparr>db := w3\<rparr>)"
          unfolding walk_inv_def using at_cursor_next(1) [OF inv(1) ne(1)] b(2) inv(4-7)
        by (intro exI [of _ "read @ ?pg"] exI [of _ "drop page left"]) simp
        moreover have "length (drop page left) < k" using ne inv(8) assms(2) by (cases left) auto
        ultimately show ?thesis by auto
      qed
    qed
  qed
qed

end

context my_snapshot
begin

lemma held_result:
  assumes "\<exists>x r'. m r = Some (x, r')
      \<and> paged_result c (\<lambda>v. v = (tokens_of rows, int (length rows))) x r' p"
    and "expected = None \<or> expected = Some (int (length rows))"
  shows "\<exists>x r'. and_then m (held_to_count ''source'' expected) r = Some (x, r')
      \<and> paged_result c (\<lambda>v. v = tokens_of rows) x r' p"
proof -
  from assms(1) obtain x r1 where m: "m r = Some (x, r1)"
    "paged_result c (\<lambda>v. v = (tokens_of rows, int (length rows))) x r1 p" by blast
  with assms(2) show ?thesis
    by (cases x) (auto simp: and_then_def held_to_count_def ret_def paged_result_def)
qed

lemma keyset_exact:
  assumes "key = [pk]" "beats snap beat" "0 < page" "snap (db r)"
    and exp: "expected = None \<or> expected = Some (int (length rows))"
  shows "\<exists>x r'. source_checksum_keyset conn t pk page beat expected r = Some (x, r')
      \<and> paged_result is_paged_read_error (\<lambda>v. v = tokens_of rows) x r' (acc r)"
  unfolding source_checksum_keyset_def
proof (rule held_result [OF _ exp])
  have "key_inv (acc r) (length rows) (0, 0, None) r"
    using assms(4) by (auto simp: key_inv_def at_cursor_def)
  then show "\<exists>x r'. while_true (source_checksum_round conn t pk page beat expected) (0, 0, None) r = Some (x, r')
      \<and> paged_result is_paged_read_error (\<lambda>v. v = (tokens_of rows, int (length rows))) x r' (acc r)"
    by (rule while_true_ranked [where I = "key_inv (acc r)"]) (rule key_round_exact [OF assms(1-3) _ exp])
qed

lemma composite_exact:
  assumes "beats snap beat" "0 < page" "snap (db r)"
  shows "\<exists>x r'. mysql_composite_pages conn t page ms beat (int (length rows)) r = Some (x, r')
      \<and> paged_result (\<lambda>e. is_export_error e \<or> is_paged_read_error e) (\<lambda>v. v = tokens_of rows) x r' (acc r)"
  unfolding mysql_composite_pages_def no_walk
proof (rule held_result)
  let ?first = "\<lparr>wk_total = 0, wk_rows = 0, wk_last = None, wk_member = None, wk_member_start = False\<rparr>"
  have "walk_inv (acc r) (length rows) ?first r"
    using assms(3) by (auto simp: walk_inv_def at_cursor_def)
  then show "\<exists>x r'. while_true (composite_source_round conn t ms None page beat (int (length rows))) ?first r = Some (x, r')
      \<and> paged_result (\<lambda>e. is_export_error e \<or> is_paged_read_error e)
          (\<lambda>v. v = (tokens_of rows, int (length rows))) x r' (acc r)"
    by (rule while_true_ranked [where I = "walk_inv (acc r)"]) (rule walk_round_exact [OF assms(1,2)])
qed simp

lemma primary_index_ok:
  assumes "snap w"
  obtains parts w' where "primary_index_of conn t w = (Inr parts, w')" "snap w'"
proof -
  have "\<exists>a b. primary_index_of conn t = my_primary_index conn a b"
    unfolding primary_index_of_def Let_def by auto
  with index [OF assms] that show thesis by metis
qed

lemma composite_checksum_exact:
  assumes "beats snap beat" "0 < page" "snap (db r)"
    and exp: "expected = None \<or> expected = Some (int (length rows))"
  shows "\<exists>x r'. source_checksum_composite_mysql conn t page beat expected r = Some (x, r') \<and> sum_result x r' (acc r)"
proof -
  from primary_index_ok [OF assms(3)] obtain parts w1 where parts: "primary_index_of conn t (db r) = (Inr parts, w1)" "snap w1" .
  then obtain in_order where ordered: "mysql_key_pages_in_order conn t r = Some (Inr in_order, r\<lparr>db := w1\<rparr>)"
    by (auto simp: mysql_key_pages_in_order_def exec_simps ret_def)
  let ?r1 = "r\<lparr>db := w1\<rparr>"
  show ?thesis
  proof (cases in_order)
    case False
    with ordered whole_table_exact [OF assms(1), of ?r1] parts(2) show ?thesis
      by (simp add: source_checksum_composite_mysql_def exec_simps)
  next
    case True
    let ?count = "case expected of None \<Rightarrow> source_count conn (src_name t) | Some n \<Rightarrow> ret n"
    let ?pages = "and_then (on_db (my_members conn t))
        (\<lambda>ms. and_then ?count (\<lambda>n. mysql_composite_pages conn t page ms beat n))"
    have "\<exists>x r'. ?pages ?r1 = Some (x, r')
      \<and> paged_result (\<lambda>e. is_export_error e \<or> is_paged_read_error e) (\<lambda>v. v = tokens_of rows) x r' (acc r)"
    proof -
      from members [OF parts(2)] obtain x w2 where x: "my_members conn t w1 = (x, w2)" "snap w2"
        "\<forall>e. x = Inl e \<longrightarrow> is_export_error e" by blast
      show ?thesis
      proof (cases x)
        case (Inl e)
        with x show ?thesis by (simp add: exec_simps paged_result_def)
      next
        case (Inr ms)
        from one_count [OF x(2)] obtain w3 where n: "my_count conn (src_name t) w2 = (Inr (Some (length rows)), w3)" "snap w3"
          by blast
        have "\<exists>w. ?count (r\<lparr>db := w2\<rparr>) = Some (Inr (int (length rows)), r\<lparr>db := w\<rparr>) \<and> snap w"
          using exp n x(2) by (auto simp: source_count_def exec_simps ret_def)
        then obtain w where w: "?count (r\<lparr>db := w2\<rparr>) = Some (Inr (int (length rows)), r\<lparr>db := w\<rparr>)" "snap w" by blast
        with composite_exact [OF assms(1,2), of "r\<lparr>db := w\<rparr>" ms] x(1) Inr show ?thesis
          by (simp add: exec_simps)
      qed
    qed
    then have "\<exists>x r'. or_whole_table (\<lambda>e. is_export_error e \<or> is_paged_read_error e) conn t beat ?pages ?r1 = Some (x, r')
        \<and> sum_result x r' (acc r)" by (rule or_whole_table_exact [OF assms(1)])
    with ordered True show ?thesis by (simp add: source_checksum_composite_mysql_def exec_simps)
  qed
qed

lemma source_checksum_whole:
  assumes "beats snap beat" "0 < page" "snap (db r)"
    and exp: "expected = None \<or> expected = Some (int (length rows))"
  shows "\<exists>x r'. source_checksum conn t page beat expected r = Some (x, r') \<and> sum_result x r' (acc r)"
proof -
  obtain exact where exact: "mysql_key_binds_exactly t key = Inr exact" using typed_key by blast
  note whole = whole_table_exact [OF assms(1,3)]
  show ?thesis
  proof (cases key rule: remdups_adj.cases)
    case 1
    with whole key_of_table show ?thesis by (simp add: source_checksum_def)
  next
    case (2 pk)
    have "\<exists>x r'. or_whole_table is_paged_read_error conn t beat
        (source_checksum_keyset conn t pk page beat expected) r = Some (x, r') \<and> sum_result x r' (acc r)"
      by (rule or_whole_table_exact [OF assms(1)]) (rule keyset_exact [OF 2 assms])
    with 2 whole key_of_table exact show ?thesis
      by (cases exact) (simp_all add: source_checksum_def lift_result_def)
  next
    case (3 a b c)
    with whole composite_checksum_exact [OF assms] key_of_table exact show ?thesis
      by (cases exact) (simp_all add: source_checksum_def lift_result_def)
  qed
qed

end

section \<open>A MySQL side in memory\<close>

definition mem_my :: "side_row list \<Rightarrow> 'w my_conn" where
  "mem_my rows = \<lparr>my_count = (\<lambda>name w. (Inr (Some (length rows)), w)),
     my_checksum = (\<lambda>t w. (Inr (Some (tokens_of rows)), w)),
     my_key_page = (\<lambda>t pk page cursor w. (Inr [], w)),
     my_checksum_page = (\<lambda>t pk page cursor w.
        let pg = take page (after (map_option (\<lambda>k. [k]) cursor) rows)
        in (Inr (Some (Some (tokens_of pg), if pg = [] then None else Some (hd (fst (last pg))), Some (length pg))), w)),
     my_primary_index = (\<lambda>schema name w. (Inr [(''a'', Some ''A'', None), (''b'', Some ''A'', None)], w)),
     my_members = (\<lambda>t w. (Inr [], w)), my_walk = (\<lambda>t ms. None), my_after_error = (\<lambda>t ms k. None),
     my_page = (\<lambda>t ms start page w.
        let pg = take page (after (case start of FromKey k \<Rightarrow> Some k | _ \<Rightarrow> None) rows)
        in (Inr (Some (Some (tokens_of pg), Some (length pg))), w)),
     my_boundary = (\<lambda>t ms start off w.
        let left = after (case start of FromKey k \<Rightarrow> Some k | _ \<Rightarrow> None) rows
        in (Inr (if off < length left then Some (fst (left ! off)) else None), w)),
     my_tokens_page = (\<lambda>t pk n w. (Inr [], w))\<rparr>"

lemma mem_my_snapshot:
  assumes "distinct (map fst rows)" "\<exists>b. mysql_key_binds_exactly t (pk_paging_columns t) = Inr b"
    and "\<And>row. row \<in> set rows \<Longrightarrow> length (fst row) = length (pk_paging_columns t)"
  shows "my_snapshot (mem_my rows) t (pk_paging_columns t) (\<lambda>w. w = W) rows"
proof
  show "\<And>row pk. pk_paging_columns t = [pk] \<Longrightarrow> row \<in> set rows \<Longrightarrow> length (fst row) = 1"
    using assms(3) by fastforce
qed (use assms in \<open>auto simp: mem_my_def Let_def\<close>)

text \<open>A table of a composite key, and two of its rows.\<close>

definition pair_table :: source_table where
  "pair_table = \<lparr>src_name = ''s.p'', src_columns = [\<lparr>col_name = ''a'', col_type = ''int''\<rparr>,
     \<lparr>col_name = ''b'', col_type = ''char(2)''\<rparr>], src_primary_key = [''a'', ''b'']\<rparr>"

definition pair_rows :: "side_row list" where
  "pair_rows = [([''1'', ''x''], 5, \<lambda>c. True), ([''1'', ''y''], 7, \<lambda>c. True), ([''2'', ''x''], 11, \<lambda>c. False)]"

interpretation pair: my_snapshot "mem_my pair_rows" pair_table "pk_paging_columns pair_table" "\<lambda>w. w = ()" pair_rows
proof (rule mem_my_snapshot)
  have "mysql_key_binds_exactly pair_table (pk_paging_columns pair_table) = Inr True" by code_simp
  then show "\<exists>b. mysql_key_binds_exactly pair_table (pk_paging_columns pair_table) = Inr b" by blast
  have "pk_paging_columns pair_table = [''a'', ''b'']" by code_simp
  then show "\<And>row. row \<in> set pair_rows \<Longrightarrow> length (fst row) = length (pk_paging_columns pair_table)"
    by (auto simp: pair_rows_def)
qed (simp add: pair_rows_def)

section \<open>Properties\<close>

text \<open>
  C27: the checksum of a MySQL source always ends, whatever the database answers: a cursor that goes
  back and forth is stopped by the count its rows are held to, the members of a walk run out, and a read
  that cannot be trusted is answered by one statement. A one-column key needs the count
  (\<open>expected_rows\<close>), which the caller passes whenever it read it live.
\<close>

theorem source_checksum_ends:
  assumes "0 < page" "length (pk_paging_columns t) = 1 \<Longrightarrow> expected \<noteq> None" "\<forall>n. expected = Some n \<longrightarrow> 0 \<le> n"
  shows "\<exists>x r'. source_checksum conn t page beat expected r = Some (x, r')"
proof -
  have ends: "\<exists>x s'. mysql_composite_pages conn t page ms beat n s = Some (x, s')" if "0 \<le> n" for ms n s
    using mysql_composite_pages_returns [OF assms(1) that, of conn t ms beat] by (auto simp: returns_def)
  have composite: "returns (source_checksum_composite_mysql conn t page beat expected)"
    unfolding source_checksum_composite_mysql_def
  proof (intro returning)
    fix in_order
    have "returns (and_then (on_db (my_members conn t)) (\<lambda>ms.
        and_then (case expected of None \<Rightarrow> source_count conn (src_name t) | Some n \<Rightarrow> ret n)
          (\<lambda>n. mysql_composite_pages conn t page ms beat n)))"
      unfolding returns_def
    proof (intro allI)
      fix s
      show "and_then (on_db (my_members conn t)) (\<lambda>ms.
        and_then (case expected of None \<Rightarrow> source_count conn (src_name t) | Some n \<Rightarrow> ret n)
          (\<lambda>n. mysql_composite_pages conn t page ms beat n)) s \<noteq> None"
        using assms(3) by (auto simp: and_then_def on_db_def source_count_def ret_def ends
            split: option.splits prod.splits sum.splits)
    qed
    then show "returns (if \<not> in_order then mysql_whole_table_checksum conn t beat
         else or_whole_table (\<lambda>e. is_export_error e \<or> is_paged_read_error e) conn t beat
           (and_then (on_db (my_members conn t)) (\<lambda>ms.
              and_then (case expected of None \<Rightarrow> source_count conn (src_name t) | Some n \<Rightarrow> ret n)
                (\<lambda>n. mysql_composite_pages conn t page ms beat n))))"
      by (auto intro!: or_whole_table_returns)
  qed
  have "returns (source_checksum conn t page beat expected)"
  proof (cases "pk_paging_columns t" rule: remdups_adj.cases)
    case 1
    then show ?thesis by (simp add: source_checksum_def)
  next
    case (2 pk)
    with assms(2) obtain n where n: "expected = Some n" by auto
    have "returns (or_whole_table is_paged_read_error conn t beat (source_checksum_keyset conn t pk page beat expected))"
      unfolding n by (intro or_whole_table_returns source_checksum_keyset_returns assms(1))
    with 2 show ?thesis unfolding source_checksum_def Let_def
      by (auto intro!: returns_and_then split: sum.splits)
  next
    case (3 a b c)
    with composite show ?thesis unfolding source_checksum_def Let_def
      by (auto intro!: returns_and_then)
  qed
  then show ?thesis by (auto simp: returns_def)
qed

text \<open>The witness is a database whose every page repeats the first one.\<close>

theorem source_checksum_ends_witness:
  "\<exists>x r'. source_checksum ((mem_my pair_rows :: unit my_conn)\<lparr>my_checksum_page := \<lambda>t pk page cursor w.
       (Inr (Some (Some 1, Some (if cursor = Some ''a'' then ''b'' else ''a''), Some page)), w)\<rparr>)
     demo_table 1 (\<lambda>w. (Inr (), w)) (Some 100) \<lparr>db = (), acc = new_proof [] [], live_keys = []\<rparr> = Some (x, r')"
  by (rule source_checksum_ends) simp_all



end
