(* ===== verification/Validate.thy ===== *)
theory Validate
  imports MySource Occ
begin

text \<open>
  \<^verbatim>\<open>core/validator.py\<close>: the comparison of one table (\<open>Validator._compare_table\<close>), its isolation
  (\<open>_validate_table\<close>), the NULL proof's fallback (\<open>_with_proof_fallback\<close>) and the stale-inventory gate.
  The classification of columns by the converter and the render scale of a numeric column are arguments
  of the record \<open>validator\<close>.
\<close>

section \<open>What is compared, and how\<close>

datatype validation_mode = ROW_COUNT | CHECKSUM

record watermark =
  row_counts_approximate :: bool
  table_row_counts :: "string \<Rightarrow> int option"
  gtid_executed :: "string option"
  binlog_file :: "string option"
  binlog_position :: "int option"

definition exact_watermark_count :: "watermark option \<Rightarrow> string \<Rightarrow> int option" where
  "exact_watermark_count wm name =
     (case wm of
        None \<Rightarrow> None
      | Some w \<Rightarrow> if \<not> row_counts_approximate w then table_row_counts w name else None)"

record 'w validator =
  v_source :: "'w source_conn"
  v_own_rows :: "'w pg_conn"
  v_target :: "'w pg_conn"
  v_reads_own_rows :: "string \<Rightarrow> ('w, bool) action"
  v_column_types :: "string \<Rightarrow> string \<Rightarrow> ('w, (string \<times> string) list) action"
  v_source_tokens :: "source_table \<Rightarrow> string \<Rightarrow> nat \<Rightarrow> ('w, (pk_value \<times> string) list) action"
  v_target_tokens :: "source_table \<Rightarrow> string \<Rightarrow> nat \<Rightarrow> ('w, (pk_value \<times> string) list) action"
  v_kind :: "source_column \<Rightarrow> string"
  v_scale :: "source_column \<Rightarrow> bool \<Rightarrow> int"
  v_omits :: "source_column \<Rightarrow> bool \<Rightarrow> bool"
  v_row_security_refusal :: "pyexc \<Rightarrow> bool"
  v_row_security_hint :: string
  v_hook :: "('w, unit) action"
  v_page :: nat
  v_row_diff_size :: nat
  v_null_proof_columns :: "string \<Rightarrow> string list"
  v_legacy_proof_columns :: "string \<Rightarrow> string list"
  v_migration_excluded :: "string \<Rightarrow> string list"
  v_proof_blocks_match :: bool

record table_result =
  tr_table :: string
  source_row_count :: int
  target_row_count :: int
  row_count_match :: bool
  source_checksum_text :: "int option"
  target_checksum_text :: "int option"
  checksum_match :: "bool option"
  matched :: bool
  checksum_excluded_columns :: "string list"
  row_diff_sample_of :: "row_diff_sample option"
  reconciled_with :: "reconcile_result option"
  reconcile_applicable :: bool
  tr_error :: "string option"
  orphan_check_error :: "string option"
  deep_checks_skipped :: bool
  rows_quarantined :: int
  excluded_nonnull_counts :: "(string \<times> int) list"
  legacy_nonnull_counts :: "(string \<times> int) list"
  proof_state :: "string option"
  proof_reason :: "string option"
  excluded_values_block :: bool

section \<open>The stale inventory\<close>

text \<open>\<open>_source_declared_column_types\<close>: one catalog read, none for an unqualified name.\<close>

definition source_declared_column_types :: "'w validator \<Rightarrow> string \<Rightarrow> ('w reading, (string \<times> string) list) proc" where
  "source_declared_column_types v name =
     (let (schema, rest) = (takeWhile (\<lambda>c. c \<noteq> CHR ''.'') name, dropWhile (\<lambda>c. c \<noteq> CHR ''.'') name)
      in if rest = [] \<or> schema = [] \<or> drop 1 rest = [] then ret []
         else on_db (v_column_types v schema (drop 1 rest)))"

definition uncompared_source_columns :: "source_table \<Rightarrow> (string \<times> string) list \<Rightarrow> string list \<Rightarrow> string list" where
  "uncompared_source_columns t fresh excluded =
     sort (remdups (filter (\<lambda>c. c \<notin> col_name ` set (src_columns t) \<and> c \<notin> set excluded) (map fst fresh)))"

definition has_numeric_checksum_column :: "'w validator \<Rightarrow> source_table \<Rightarrow> bool" where
  "has_numeric_checksum_column v t = list_ex (\<lambda>c. v_kind v c = ''numeric'') (src_columns t)"

definition stale_numeric_render_scales :: "'w validator \<Rightarrow> source_table \<Rightarrow> (string \<times> string) list \<Rightarrow> bool \<Rightarrow>
    (string \<times> string \<times> string) list" where
  "stale_numeric_render_scales v t fresh pg =
     List.map_filter (\<lambda>c.
       if v_kind v c \<noteq> ''numeric'' then None
       else (case map_of (rev fresh) (col_name c) of
               None \<Rightarrow> None
             | Some ty \<Rightarrow>
                 if ty = [] \<or> ty = col_type c then None
                 else if v_scale v c pg = v_scale v (c\<lparr>col_type := ty\<rparr>) pg then None
                 else Some (col_name c, col_type c, ty)))
       (src_columns t)"

definition stale_column_text :: "string list \<Rightarrow> string" where
  "stale_column_text names =
     ''The source has column(s) the Step 1 (Evaluation) inventory does not know '' @
     ''about, so NEITHER side compared them -- '' @
     concat (map2 (\<lambda>i c. (if i = (0 :: nat) then [] else '', '') @ [CHR 39] @ c @ [CHR 39]) [0..<length names] names) @
     ''. Both the source and the '' @
     ''target are rendered from the column list recorded at Evaluation, and a row '' @
     ''count cannot see an added column either, so a match here would be reported '' @
     ''over data that may differ entirely. Re-run Step 1 (Evaluation) to refresh '' @
     ''the inventory, make sure the target table has the column and its data, '' @
     ''then re-run Validation.''"

definition stale_scale_text :: "(string \<times> string \<times> string) list \<Rightarrow> string" where
  "stale_scale_text stale =
     ''The source column type changed since Step 1 (Evaluation), so the '' @
     ''checksum cannot be trusted for this table -- '' @
     concat (map2 (\<lambda>i (c, recorded, current). (if i = (0 :: nat) then [] else ''; '') @
         [CHR 39] @ c @ [CHR 39] @ '' was '' @ recorded @ '', is now '' @ current) [0..<length stale] stale) @
     ''. The checksum compares '' @
     ''both sides at the scale recorded at Evaluation, which would round the extra '' @
     ''digits away on BOTH ends and report a match over data that differs. Re-run '' @
     ''Step 1 (Evaluation) to refresh the inventory (and re-check the target column's '' @
     ''type in Step 2), then re-run Validation.''"

definition stale_inventory_error :: "'w validator \<Rightarrow> source_table \<Rightarrow> validation_mode \<Rightarrow> ('w reading, string option) proc" where
  "stale_inventory_error v t mode =
     and_then (source_declared_column_types v (src_name t))
       (\<lambda>fresh. ret (
          if fresh = [] then None
          else let uncompared = uncompared_source_columns t fresh (v_migration_excluded v (src_name t))
          in if uncompared \<noteq> [] then Some (stale_column_text uncompared)
             else if mode \<noteq> CHECKSUM \<or> \<not> has_numeric_checksum_column v t then None
             else let stale = stale_numeric_render_scales v t fresh (source_is_postgres (v_source v))
                  in if stale = [] then None else Some (stale_scale_text stale)))"

section \<open>The NULL proof of a table\<close>

definition proof_for :: "'w validator \<Rightarrow> string \<Rightarrow> null_proof option" where
  "proof_for v name =
     (let overlay = v_null_proof_columns v name;
          leg = filter (\<lambda>c. c \<notin> set overlay) (v_legacy_proof_columns v name)
      in if overlay = [] \<and> leg = [] then None else Some (new_proof (overlay @ leg) leg))"

definition is_dsql_statement_limit :: "pyexc \<Rightarrow> bool" where
  "is_dsql_statement_limit e = (sqlstate e \<in> {Some ''54000'', Some ''53200''})"

text \<open>
  \<open>_with_proof_fallback\<close>: one round is one run of the proof-bearing pass. A failure the proof did not
  cause is raised; a conflict or a lost connection runs the pass once more with the proof; any other
  failure runs it once without.
\<close>

definition proof_fallback_round :: "(bool \<Rightarrow> ('w reading, 'a) proc) \<Rightarrow> unit \<Rightarrow> ('w reading, unit + 'a) proc" where
  "proof_fallback_round run u r =
     (case run True r of
        None \<Rightarrow> None
      | Some (Inr v, r') \<Rightarrow> Some (Inr (Inr v), r')
      | Some (Inl e, r') \<Rightarrow>
          if is_cancelled e \<or> \<not> is_exception e \<or> failed (acc r') = None then Some (Inl e, r')
          else let transient = is_dropped_connection e \<or> is_server_unavailable e
          in if (is_occ_conflict e \<or> transient) \<and> \<not> proof_retried (acc r')
             then Some (Inr (Inl ()), r'\<lparr>acc := reset_proof ((acc r')\<lparr>proof_retried := True\<rparr>)\<rparr>)
             else if transient \<or> is_dsql_statement_limit e then Some (Inl e, r')
             else and_then (run False) (\<lambda>v. ret (Inr v))
                    (r'\<lparr>acc := (reset_proof (acc r'))\<lparr>reason := Some ''query_error''\<rparr>\<rparr>))"

definition with_proof_fallback :: "(bool \<Rightarrow> ('w reading, 'a) proc) \<Rightarrow> bool \<Rightarrow> ('w reading, 'a) proc" where
  "with_proof_fallback run has_proof =
     (if \<not> has_proof then run False else while_true (proof_fallback_round run) ())"

record proof_fields =
  pf_excluded :: "(string \<times> int) list"
  pf_legacy :: "(string \<times> int) list"
  pf_state :: "string option"
  pf_reason :: "string option"
  pf_block :: bool

definition no_proof_fields :: proof_fields where
  "no_proof_fields = \<lparr>pf_excluded = [], pf_legacy = [], pf_state = None, pf_reason = None, pf_block = False\<rparr>"

definition proof_fields_of :: "'w validator \<Rightarrow> bool \<Rightarrow> null_proof \<Rightarrow> proof_fields" where
  "proof_fields_of v has_proof p =
     (if \<not> has_proof then no_proof_fields
      else let why = (if reason p = None \<and> \<not> complete p then Some ''incomplete'' else reason p)
      in if why \<noteq> None
         then no_proof_fields\<lparr>pf_state := Some ''not_determined'', pf_reason := why\<rparr>
         else let counted = zip (proof_columns p) (counts p);
                  overlay = filter (\<lambda>(c, n). c \<notin> set (legacy p)) counted;
                  leg = filter (\<lambda>(c, n). c \<in> set (legacy p)) counted
              in \<lparr>pf_excluded = overlay, pf_legacy = leg, pf_state = Some ''complete'', pf_reason = None,
                  pf_block = (v_proof_blocks_match v \<and> list_ex (\<lambda>(c, n). 0 < n) overlay)\<rparr>)"

definition proof_not_determined :: "'w validator \<Rightarrow> string \<Rightarrow> string \<Rightarrow> proof_fields" where
  "proof_not_determined v name why =
     (if proof_for v name = None then no_proof_fields
      else no_proof_fields\<lparr>pf_state := Some ''not_determined'', pf_reason := Some why\<rparr>)"

text \<open>The result of a table that could not be compared.\<close>

definition errored_result :: "'w validator \<Rightarrow> string \<Rightarrow> string \<Rightarrow> table_result" where
  "errored_result v name err =
     (let f = proof_not_determined v name ''table_error''
      in \<lparr>tr_table = name, source_row_count = 0, target_row_count = 0, row_count_match = False,
          source_checksum_text = None, target_checksum_text = None, checksum_match = None, matched = False,
          checksum_excluded_columns = [], row_diff_sample_of = None, reconciled_with = None,
          reconcile_applicable = False, tr_error = Some err, orphan_check_error = None,
          deep_checks_skipped = False, rows_quarantined = 0,
          excluded_nonnull_counts = pf_excluded f, legacy_nonnull_counts = pf_legacy f,
          proof_state = pf_state f, proof_reason = pf_reason f, excluded_values_block = pf_block f\<rparr>)"

section \<open>One table\<close>

text \<open>The source as the readers of this table see it (\<open>_pg_source\<close>).\<close>

definition source_view :: "'w validator \<Rightarrow> bool \<Rightarrow> 'w source_conn" where
  "source_view v from_only =
     (case v_source v of
        MySQL c \<Rightarrow> MySQL c
      | Postgres c \<Rightarrow> Postgres (if from_only then v_own_rows v else c))"

definition source_row_count_of :: "'w validator \<Rightarrow> 'w source_conn \<Rightarrow> source_table \<Rightarrow> watermark option \<Rightarrow>
    ('w, unit) action \<Rightarrow> ('w reading, int) proc" where
  "source_row_count_of v src t wm beat =
     (case exact_watermark_count wm (src_name t) of
        Some n \<Rightarrow> ret n
      | None \<Rightarrow> source_row_count_live src t (v_page v) beat)"

text \<open>\<open>reconcile_pk_streams\<close> over this table's two sides (\<open>_iter_source_pks_for\<close>, \<open>_iter_target_pks\<close>).\<close>

definition reconcile_table :: "'w validator \<Rightarrow> 'w source_conn \<Rightarrow> source_table \<Rightarrow> string \<Rightarrow> ('w, unit) action \<Rightarrow>
    ('w, bool) action \<Rightarrow> bool \<Rightarrow> ('w reading, reconcile_result) proc" where
  "reconcile_table v src t pk beat cancel bearing =
     (let target = next_target_pk (v_target v) t pk (v_page v) beat bearing
      in case src of
           MySQL c \<Rightarrow> reconcile_pk_streams pk RECONCILE_SAMPLE_CAP (on_db cancel)
             (next_source_pk (my_key_page c) t pk (v_page v) beat) target new_int_gen new_gen
         | Postgres c \<Rightarrow> reconcile_pk_streams pk RECONCILE_SAMPLE_CAP (on_db cancel)
             (next_target_pk c t pk (v_page v) beat False) target new_gen new_gen)"

record comparison =
  c_source_rows :: int
  c_target_rows :: "int option"
  c_source_checksum :: "int option"
  c_target_checksum :: "int option"
  c_reconcile :: "reconcile_result option"

text \<open>The count that decides about the deep checks, read first when asked for.\<close>

definition upfront_count :: "'w validator \<Rightarrow> source_table \<Rightarrow> string list \<Rightarrow> ('w, unit) action \<Rightarrow> bool \<Rightarrow> bool \<Rightarrow>
    comparison \<Rightarrow> ('w reading, comparison) proc" where
  "upfront_count v t key beat has_proof deep_only c =
     (if deep_only
      then and_then (with_proof_fallback (bounded_target_count (v_target v) t (Some key) (v_page v) beat) has_proof)
             (\<lambda>n. ret (c\<lparr>c_target_rows := Some n\<rparr>))
      else ret c)"

text \<open>
  The two checksums. The composite pages of the target count its rows unless they were counted before.
\<close>

definition checksum_step :: "'w validator \<Rightarrow> 'w source_conn \<Rightarrow> source_table \<Rightarrow> string list \<Rightarrow> ('w, unit) action \<Rightarrow>
    bool \<Rightarrow> bool \<Rightarrow> comparison \<Rightarrow> ('w reading, comparison) proc" where
  "checksum_step v src t key beat has_proof count_live c =
     and_then (source_checksum_for src t (v_page v) beat (if count_live then Some (c_source_rows c) else None))
       (\<lambda>s. if 1 < length key \<and> c_target_rows c = None
         then and_then (with_proof_fallback (target_checksum_and_count (v_target v) t key (v_page v) beat) has_proof)
           (\<lambda>(tsum, n). ret (c\<lparr>c_source_checksum := Some s, c_target_checksum := Some tsum, c_target_rows := Some n\<rparr>))
         else and_then (target_checksum (v_target v) t (v_page v) beat (Some key) None ''target'')
           (\<lambda>tsum. ret (c\<lparr>c_source_checksum := Some s, c_target_checksum := Some tsum\<rparr>)))"

text \<open>
  The record-level merge, and then the target's row count: the count the merge streamed when the
  target enforces the same key, else one of its own pages.
\<close>

definition reconcile_step :: "'w validator \<Rightarrow> 'w source_conn \<Rightarrow> source_table \<Rightarrow> string list \<Rightarrow> ('w, unit) action \<Rightarrow>
    ('w, bool) action \<Rightarrow> bool \<Rightarrow> bool \<Rightarrow> string option \<Rightarrow> comparison \<Rightarrow> ('w reading, comparison) proc" where
  "reconcile_step v src t key beat cancel has_proof wanted pk c =
     (let reuse = (c_target_rows c = None \<and> (case pk of None \<Rightarrow> False | Some col \<Rightarrow> key = [col]))
      in and_then
           (case pk of
              Some col \<Rightarrow>
                if wanted
                then and_then (with_proof_fallback (reconcile_table v src t col beat cancel) (has_proof \<and> reuse))
                       (\<lambda>res. ret (c\<lparr>c_reconcile := Some res\<rparr>))
                else ret c
            | None \<Rightarrow> ret c)
           (\<lambda>c'. case (c_target_rows c', c_reconcile c') of
               (Some n, _) \<Rightarrow> ret c'
             | (None, Some res) \<Rightarrow>
                 if reuse then ret (c'\<lparr>c_target_rows := Some (rec_target_count res)\<rparr>)
                 else and_then (with_proof_fallback (bounded_target_count (v_target v) t (Some key) (v_page v) beat) has_proof)
                        (\<lambda>n. ret (c'\<lparr>c_target_rows := Some n\<rparr>))
             | (None, None) \<Rightarrow>
                 and_then (with_proof_fallback (bounded_target_count (v_target v) t (Some key) (v_page v) beat) has_proof)
                   (\<lambda>n. ret (c'\<lparr>c_target_rows := Some n\<rparr>))))"

text \<open>The verdict over what ran.\<close>

definition checksums_agree :: "comparison \<Rightarrow> bool option" where
  "checksums_agree c =
     (case (c_source_checksum c, c_target_checksum c) of
        (Some a, Some b) \<Rightarrow> Some (a = b)
      | _ \<Rightarrow> None)"

definition verdict :: "comparison \<Rightarrow> proof_fields \<Rightarrow> bool" where
  "verdict c f =
     (c_target_rows c = Some (c_source_rows c) \<and> checksums_agree c \<noteq> Some False
      \<and> (case c_reconcile c of None \<Rightarrow> True | Some res \<Rightarrow> consistent res) \<and> \<not> pf_block f)"

definition compared_result :: "'w validator \<Rightarrow> source_table \<Rightarrow> comparison \<Rightarrow> proof_fields \<Rightarrow> bool \<Rightarrow> bool \<Rightarrow> string option \<Rightarrow>
    row_diff_sample option \<Rightarrow> table_result" where
  "compared_result v t c f checksummed run_deep pk sample =
     \<lparr>tr_table = src_name t, source_row_count = c_source_rows c, target_row_count = the (c_target_rows c),
      row_count_match = (c_target_rows c = Some (c_source_rows c)),
      source_checksum_text = c_source_checksum c, target_checksum_text = c_target_checksum c,
      checksum_match = checksums_agree c, matched = verdict c f,
      checksum_excluded_columns = (if checksummed
        then map col_name (filter (\<lambda>col. v_omits v col (source_is_postgres (v_source v))) (src_columns t)) else []),
      row_diff_sample_of = sample, reconciled_with = c_reconcile c, reconcile_applicable = (pk \<noteq> None),
      tr_error = None, orphan_check_error = None, deep_checks_skipped = (\<not> run_deep), rows_quarantined = 0,
      excluded_nonnull_counts = pf_excluded f, legacy_nonnull_counts = pf_legacy f,
      proof_state = pf_state f, proof_reason = pf_reason f, excluded_values_block = pf_block f\<rparr>"

text \<open>
  The last part of \<open>_compare_table\<close>: the merge, the deferred count, the verdict and, for a table that
  did not match, the sample.
\<close>

definition finish_comparison :: "'w validator \<Rightarrow> 'w source_conn \<Rightarrow> source_table \<Rightarrow> string list \<Rightarrow> ('w, unit) action \<Rightarrow>
    ('w, bool) action \<Rightarrow> bool \<Rightarrow> bool \<Rightarrow> bool \<Rightarrow> bool \<Rightarrow> comparison \<Rightarrow> ('w reading, table_result) proc" where
  "finish_comparison v src t key beat cancel has_proof want_reconcile checksummed run_deep c =
     and_then (lift_result (integer_pk_column t))
       (\<lambda>pk. and_then (reconcile_step v src t key beat cancel has_proof (want_reconcile \<and> run_deep) pk c)
         (\<lambda>c r. let f = proof_fields_of v has_proof (acc r)
            in and_then
                 (if \<not> verdict c f \<and> 0 < v_row_diff_size v
                  then diff_pks (v_source_tokens v) (v_target_tokens v) t (v_row_diff_size v)
                  else ret None)
                 (\<lambda>sample. ret (compared_result v t c f checksummed run_deep pk sample)) r))"

text \<open>From the source's row count on: the count that may decide, the checksums, and the rest.\<close>

definition compare_rows :: "'w validator \<Rightarrow> 'w source_conn \<Rightarrow> source_table \<Rightarrow> string list \<Rightarrow> ('w, unit) action \<Rightarrow>
    ('w, bool) action \<Rightarrow> bool \<Rightarrow> validation_mode \<Rightarrow> bool \<Rightarrow> bool \<Rightarrow> bool \<Rightarrow> int \<Rightarrow> ('w reading, table_result) proc" where
  "compare_rows v src t key beat cancel has_proof mode count_live want_reconcile deep_only rows =
     and_then (upfront_count v t key beat has_proof deep_only
        \<lparr>c_source_rows = rows, c_target_rows = None, c_source_checksum = None, c_target_checksum = None,
         c_reconcile = None\<rparr>)
       (\<lambda>c. let run_deep = (\<not> (deep_only \<and> c_target_rows c = Some rows));
                checksummed = (mode = CHECKSUM \<and> run_deep)
         in and_then (if checksummed then checksum_step v src t key beat has_proof count_live c else ret c)
              (finish_comparison v src t key beat cancel has_proof want_reconcile checksummed run_deep))"

definition compare_table :: "'w validator \<Rightarrow> source_table \<Rightarrow> validation_mode \<Rightarrow> watermark option \<Rightarrow> bool \<Rightarrow>
    ('w, bool) action \<Rightarrow> bool \<Rightarrow> ('w reading, table_result) proc" where
  "compare_table v t mode wm want_reconcile cancel deep_only =
     and_then (stale_inventory_error v t mode)
       (\<lambda>stale. case stale of
          Some err \<Rightarrow> ret (errored_result v (src_name t) err)
        | None \<Rightarrow>
            and_then (if source_is_postgres (v_source v) then on_db (v_reads_own_rows v (src_name t)) else ret False)
              (\<lambda>from_only.
                 let src = source_view v from_only;
                     beat = page_or_stop (v_hook v) cancel;
                     start = proof_for v (src_name t)
                 in and_then (on_db (pg_primary_key (v_target v) (src_name t)))
                   (\<lambda>key. and_then (modify (\<lambda>r. r\<lparr>live_keys := dict_set (src_name t) key (live_keys r)\<rparr>))
                     (\<lambda>_. and_then (source_row_count_of v src t wm beat)
                       (\<lambda>rows. and_then (modify (\<lambda>r. case start of None \<Rightarrow> r | Some p \<Rightarrow> r\<lparr>acc := p\<rparr>))
                         (\<lambda>_. compare_rows v src t key beat cancel (start \<noteq> None) mode
                                (exact_watermark_count wm (src_name t) = None) want_reconcile deep_only rows))))))"

section \<open>What a verdict rests on\<close>

lemma upfront_count_keeps:
  assumes "upfront_count v t key beat has_proof deep_only c r = Some (Inr c', r')"
  shows "c_source_rows c' = c_source_rows c \<and> c_source_checksum c' = c_source_checksum c
    \<and> c_target_checksum c' = c_target_checksum c \<and> c_reconcile c' = c_reconcile c
    \<and> (\<not> deep_only \<longrightarrow> c' = c)"
  using assms by (auto simp: upfront_count_def ret_def elim!: and_then_InrE split: if_splits)

lemma checksum_step_keeps:
  assumes "checksum_step v src t key beat has_proof live c r = Some (Inr c', r')"
  shows "c_source_rows c' = c_source_rows c \<and> c_reconcile c' = c_reconcile c
    \<and> c_source_checksum c' \<noteq> None \<and> c_target_checksum c' \<noteq> None"
  using assms by (auto simp: checksum_step_def ret_def elim!: and_then_InrE split: if_splits prod.splits)

lemma reconcile_step_keeps:
  assumes "reconcile_step v src t key beat cancel has_proof wanted pk c r = Some (Inr c', r')" "c_reconcile c = None"
  shows "c_source_rows c' = c_source_rows c \<and> c_source_checksum c' = c_source_checksum c
    \<and> c_target_checksum c' = c_target_checksum c \<and> c_target_rows c' \<noteq> None
    \<and> (c_reconcile c' \<noteq> None \<longleftrightarrow> wanted \<and> pk \<noteq> None)"
  using assms
  by (auto simp: reconcile_step_def ret_def Let_def elim!: and_then_InrE split: if_splits option.splits)

text \<open>Every result is that of a table that could not be compared, or the verdict over what ran.\<close>

lemma compare_table_result:
  assumes "compare_table v t mode wm want cancel deep_only r = Some (Inr item, r')"
  shows "(\<exists>err. item = errored_result v (src_name t) err)
    \<or> (\<exists>c f run_deep pk sample. item = compared_result v t c f (mode = CHECKSUM \<and> run_deep) run_deep pk sample
         \<and> c_target_rows c \<noteq> None
         \<and> (mode = CHECKSUM \<and> run_deep \<longleftrightarrow> c_source_checksum c \<noteq> None)
         \<and> (mode = CHECKSUM \<and> run_deep \<longleftrightarrow> c_target_checksum c \<noteq> None)
         \<and> (c_reconcile c \<noteq> None \<longleftrightarrow> want \<and> run_deep \<and> pk \<noteq> None) \<and> integer_pk_column t = Inr pk
         \<and> (\<not> deep_only \<longrightarrow> run_deep))"
  using assms unfolding compare_table_def Let_def
proof (elim and_then_InrE, goal_cases)
  case (1 stale s1)
  show ?case
  proof (cases stale)
    case (Some err)
    with 1 show ?thesis by (auto simp: ret_def)
  next
    case None
    from 1(2) show ?thesis
      unfolding None option.case compare_rows_def finish_comparison_def Let_def
    proof (elim and_then_InrE, goal_cases)
      case (1 from_only s2 key s3 u s4 rows s5 u' s6 c1 s7 c2 s8 pk s9 c3 s10 sample s11)
      let ?deep = "\<not> (deep_only \<and> c_target_rows c1 = Some rows)"
      let ?f = "proof_fields_of v (proof_for v (src_name t) \<noteq> None) (acc s10)"
      from upfront_count_keeps [OF 1(6)] have c1: "c_source_checksum c1 = None" "c_target_checksum c1 = None"
        "c_reconcile c1 = None" by simp_all
      have c2: "c_reconcile c2 = None" "mode = CHECKSUM \<and> ?deep \<longleftrightarrow> c_source_checksum c2 \<noteq> None"
        "mode = CHECKSUM \<and> ?deep \<longleftrightarrow> c_target_checksum c2 \<noteq> None"
        using 1(7) c1 by (auto simp: ret_def dest: checksum_step_keeps split: if_splits)
      note c3 = reconcile_step_keeps [OF 1(9) c2(1)]
      from 1(8) have pk: "integer_pk_column t = Inr pk"
        by (auto simp: lift_result_def raising_def ret_def split: sum.splits)
      from 1(11) have "item = compared_result v t c3 ?f (mode = CHECKSUM \<and> ?deep) ?deep pk sample"
        by (simp add: ret_def)
      with c2 c3 pk show ?case
        by (intro disjI2 exI [of _ c3] exI [of _ ?f] exI [of _ ?deep] exI [of _ pk] exI [of _ sample]) simp
    qed
  qed
qed

lemma errored_not_matched [simp]:
  "\<not> matched (errored_result v name err)" "tr_error (errored_result v name err) = Some err"
  by (simp_all add: errored_result_def Let_def)

section \<open>The verdict over two unchanged sides\<close>

lemma page_or_stop_beats:
  assumes "\<And>w. snap w \<Longrightarrow> snap (snd (hook w)) \<and> (\<forall>e. fst (hook w) = Inl e \<longrightarrow> is_exception e)"
    and "\<And>w. snap w \<Longrightarrow> \<exists>b w'. cancel w = (Inr b, w') \<and> snap w'"
  shows "beats snap (page_or_stop hook cancel)"
  unfolding beats_def
proof (intro allI impI)
  fix w assume w: "snap w"
  obtain h w1 where h: "hook w = (h, w1)" by force
  with assms(1) [OF w] have w1: "snap w1" "\<forall>e. h = Inl e \<longrightarrow> is_exception e" by auto
  from assms(2) [OF w1(1)] obtain b w2 where "cancel w1 = (Inr b, w2)" "snap w2" by blast
  with h w1(2) show "snap (snd (page_or_stop hook cancel w))
      \<and> (fst (page_or_stop hook cancel w) = Inr () \<or> was_cancelled (fst (page_or_stop hook cancel w)))"
    by (cases h; cases b) (auto simp: page_or_stop_def cancel_answer_def Let_def)
qed

text \<open>A pass that does not fail is not run twice.\<close>

lemma fallback_of_pass:
  assumes "\<exists>x r'. run has_proof r = Some (x, r') \<and> pass_result snap has_proof rows P p x r'"
  shows "\<exists>x r'. with_proof_fallback run has_proof r = Some (x, r') \<and> pass_result snap has_proof rows P p x r'"
proof -
  from assms obtain x r' where x: "run has_proof r = Some (x, r')" "pass_result snap has_proof rows P p x r'" by blast
  show ?thesis
  proof (cases has_proof)
    case False
    with x show ?thesis by (simp add: with_proof_fallback_def)
  next
    case True
    have "with_proof_fallback run has_proof r = Some (x, r')"
    proof (cases x)
      case (Inl e)
      with x True have "proof_fallback_round run () r = Some (Inl e, r')"
        by (simp add: proof_fallback_round_def pass_result_def)
      with True Inl show ?thesis by (simp add: with_proof_fallback_def exec_simps)
    next
      case (Inr v)
      with x True have "proof_fallback_round run () r = Some (Inr (Inr v), r')"
        by (simp add: proof_fallback_round_def)
      with True Inr show ?thesis by (simp add: with_proof_fallback_def exec_simps)
    qed
    with x(2) show ?thesis by blast
  qed
qed

text \<open>
  One table with a single integer key, the same on both sides, neither written while it is compared:
  the MySQL side as in \<open>my_snapshot\<close>, the Aurora DSQL side as in \<open>reconciled_sides\<close>, the inventory not
  stale, the count read live.
\<close>

locale compared_sides =
  fixes v :: "'w validator" and t :: source_table and c :: "'w my_conn" and pk :: string
    and snap :: "'w \<Rightarrow> bool" and srows trows :: "side_row list" and S T :: "int list"
    and cancel :: "('w, bool) action"
  assumes mysql: "v_source v = MySQL c"
    and source_side: "my_snapshot c t [pk] snap srows"
    and sides: "\<And>bearing p0. (bearing \<Longrightarrow> fresh_proof p0) \<Longrightarrow>
      reconciled_sides (v_target v) t [pk] snap trows (my_key_page c) S T pk (v_page v)
        (page_or_stop (v_hook v) cancel) cancel bearing p0"
    and source_length: "length srows = length S"
    and integer_pk: "integer_pk_column t = Inr (Some pk)"
    and fresh_inventory: "\<And>mode r. snap (db r) \<Longrightarrow>
      \<exists>w. stale_inventory_error v t mode r = Some (Inr None, r\<lparr>db := w\<rparr>) \<and> snap w"
    and target_key: "\<And>w. snap w \<Longrightarrow> \<exists>w'. pg_primary_key (v_target v) (src_name t) w = (Inr [pk], w') \<and> snap w'"
    and no_samples: "v_row_diff_size v = 0"
begin

abbreviation (input) the_beat :: "('w, unit) action" where
  "the_beat \<equiv> page_or_stop (v_hook v) cancel"

lemma beating: "beats snap the_beat" and page_pos: "0 < v_page v"
  using reconciled_sides.beat [OF sides, of False] reconciled_sides.page_pos [OF sides, of False] by auto

lemma target_side: "pg_snapshot (v_target v) t [pk] snap trows"
  using reconciled_sides.axioms(1) [OF sides, of False] by simp

lemma target_length: "length trows = length T"
  using reconciled_sides.target_length [OF sides, of False] by simp

definition overlay_values :: "null_proof \<Rightarrow> bool" where
  "overlay_values p = (\<exists>col \<in> set (proof_columns p). col \<notin> set (legacy p) \<and> 0 < nonnull_rows col trows)"

text \<open>Whether values in an excluded column keep the table from matching.\<close>

definition blocked :: bool where
  "blocked = (case proof_for v (src_name t) of None \<Rightarrow> False
     | Some p \<Rightarrow> v_proof_blocks_match v \<and> overlay_values p)"

lemma proof_fields_block:
  assumes "proof_for v (src_name t) = Some p" "pass_done True trows p q"
  shows "pf_block (proof_fields_of v True q) \<longleftrightarrow> v_proof_blocks_match v \<and> overlay_values p"
proof -
  have p: "reason p = None" using assms(1) by (auto simp: proof_for_def new_proof_def Let_def split: if_splits)
  have "list_ex (\<lambda>(c, n). 0 < n) (filter (\<lambda>(c, n). c \<notin> set (legacy p)) (zip cols (exact_counts cols trows)))
    \<longleftrightarrow> (\<exists>col \<in> set cols. col \<notin> set (legacy p) \<and> 0 < nonnull_rows col trows)" for cols
    by (induction cols) (auto simp: exact_counts_def)
  with assms(2) p show ?thesis
    by (simp add: proof_fields_of_def pass_done_def overlay_values_def Let_def)
qed

lemma proof_for_fresh: "proof_for v (src_name t) = Some p \<Longrightarrow> fresh_proof p"
  by (auto simp: proof_for_def Let_def split: if_splits)

text \<open>The deferred steps of a comparison without the fast path.\<close>

lemma checksum_step_exact:
  assumes "snap (db r)" "c_target_rows cmp = None" "c_source_rows cmp = int (length S)"
  shows "\<exists>x r'. checksum_step v (MySQL c) t [pk] the_beat has_proof True cmp r = Some (x, r') \<and> snap (db r')
    \<and> (was_cancelled x \<or> acc r' = acc r
       \<and> x = Inr (cmp\<lparr>c_source_checksum := Some (tokens_of srows), c_target_checksum := Some (tokens_of trows)\<rparr>))"
proof -
  have "Some (c_source_rows cmp) = None \<or> Some (c_source_rows cmp) = Some (int (length srows))"
    using assms(3) source_length by simp
  from my_snapshot.source_checksum_whole [OF source_side beating page_pos assms(1) this] obtain x r1 where s:
    "source_checksum c t (v_page v) the_beat (Some (c_source_rows cmp)) r = Some (x, r1)"
    "my_snapshot.sum_result snap srows x r1 (acc r)" by blast
  from s(2) have s1: "snap (db r1)" "acc r1 = acc r" "was_cancelled x \<or> x = Inr (tokens_of srows)"
    by (auto simp: my_snapshot.sum_result_def [OF source_side])
  from s1(3) show ?thesis
  proof
    assume "was_cancelled x"
    with s(1) s1 show ?thesis
      by (auto simp: checksum_step_def source_checksum_for_def exec_simps was_cancelled_def)
  next
    assume x: "x = Inr (tokens_of srows)"
    from pg_snapshot.target_checksum_exact [OF target_side beating page_pos s1(1), of None "Some [pk]" "''target''"]
    obtain z r2 where z: "target_checksum (v_target v) t (v_page v) the_beat (Some [pk]) None ''target'' r1 = Some (z, r2)"
      "pass_result snap False trows (\<lambda>v. v = tokens_of trows) (acc r1) z r2" by auto
    with s x s1 show ?thesis
      by (cases z) (auto simp: checksum_step_def source_checksum_for_def exec_simps ret_def pass_result_def pass_done_def)
  qed
qed

lemma reconcile_step_exact:
  assumes "snap (db r)" "c_target_rows cmp = None" "has_proof \<Longrightarrow> fresh_proof (acc r)"
  shows "\<exists>x r'. reconcile_step v (MySQL c) t [pk] the_beat cancel has_proof True (Some pk) cmp r = Some (x, r')
    \<and> snap (db r')
    \<and> (was_cancelled x \<or> pass_done has_proof trows (acc r) (acc r')
       \<and> x = Inr (cmp\<lparr>c_reconcile := Some (exact_reconcile pk RECONCILE_SAMPLE_CAP S T), c_target_rows := Some (int (length T))\<rparr>))"
proof -
  have "\<exists>x r'. with_proof_fallback (reconcile_table v (MySQL c) t pk the_beat cancel) has_proof r = Some (x, r')
      \<and> pass_result snap has_proof trows (\<lambda>res. res = exact_reconcile pk RECONCILE_SAMPLE_CAP S T) (acc r) x r'"
  proof (rule fallback_of_pass)
    show "\<exists>x r'. reconcile_table v (MySQL c) t pk the_beat cancel has_proof r = Some (x, r')
      \<and> pass_result snap has_proof trows (\<lambda>res. res = exact_reconcile pk RECONCILE_SAMPLE_CAP S T) (acc r) x r'"
      using reconciled_sides.reconcile_sides_exact [OF sides [OF assms(3)] assms(1) refl]
      by (simp add: reconcile_table_def Let_def)
  qed
  then obtain x r' where x: "with_proof_fallback (reconcile_table v (MySQL c) t pk the_beat cancel) has_proof r = Some (x, r')"
    "pass_result snap has_proof trows (\<lambda>res. res = exact_reconcile pk RECONCILE_SAMPLE_CAP S T) (acc r) x r'" by blast
  with assms(2) show ?thesis
    by (cases x) (auto simp: reconcile_step_def exec_simps ret_def pass_result_def Let_def exact_reconcile_simps)
qed

text \<open>The comparison itself.\<close>

definition exact_verdict :: "validation_mode \<Rightarrow> bool" where
  "exact_verdict mode = (S = T \<and> (mode = CHECKSUM \<longrightarrow> tokens_of srows = tokens_of trows) \<and> \<not> blocked)"

lemma same_keys: "set S = set T \<longleftrightarrow> S = T"
  using reconciled_sides.source_sorted [OF sides, of False] reconciled_sides.target_sorted [OF sides, of False]
    strict_sorted_equal by blast

lemma compare_exact:
  assumes "snap (db r)"
  shows "\<exists>x r'. compare_table v t mode None True cancel False r = Some (x, r') \<and> snap (db r')
    \<and> (was_cancelled x \<or> (\<exists>item. x = Inr item \<and> tr_error item = None \<and> (matched item \<longleftrightarrow> exact_verdict mode)
        \<and> source_row_count item = int (length S) \<and> target_row_count item = int (length T)
        \<and> reconciled_with item = Some (exact_reconcile pk RECONCILE_SAMPLE_CAP S T)))"
proof -
  from fresh_inventory [OF assms] obtain w1 where w1: "stale_inventory_error v t mode r = Some (Inr None, r\<lparr>db := w1\<rparr>)"
    "snap w1" by blast
  from target_key [OF w1(2)] obtain w2 where w2: "pg_primary_key (v_target v) (src_name t) w1 = (Inr [pk], w2)" "snap w2"
    by blast
  from my_snapshot.one_count [OF source_side w2(2)] obtain w3 where w3:
    "my_count c (src_name t) w2 = (Inr (Some (length srows)), w3)" "snap w3" by blast
  let ?p = "case proof_for v (src_name t) of None \<Rightarrow> acc r | Some p \<Rightarrow> p"
  let ?has = "proof_for v (src_name t) \<noteq> None"
  let ?r = "\<lparr>db = w3, acc = ?p, live_keys = dict_set (src_name t) [pk] (live_keys r)\<rparr>"
  let ?cmp = "\<lparr>c_source_rows = int (length S), c_target_rows = None, c_source_checksum = None,
    c_target_checksum = None, c_reconcile = None\<rparr>"
  let ?tail = "finish_comparison v (MySQL c) t [pk] the_beat cancel ?has True (mode = CHECKSUM) True"
  have head: "compare_table v t mode None True cancel False r
      = compare_rows v (MySQL c) t [pk] the_beat cancel ?has mode True True False (int (length S)) ?r"
    using w1(1) w2(1) w3(1)
    by (cases r; cases "proof_for v (src_name t)")
      (simp_all add: compare_table_def exec_simps Let_def source_is_postgres_def mysql source_view_def ret_def
        modify_def source_row_count_of_def exact_watermark_count_def source_row_count_live_def source_count_def
        source_length)
  have rows: "compare_rows v (MySQL c) t [pk] the_beat cancel ?has mode True True False (int (length S))
      = and_then (if mode = CHECKSUM then checksum_step v (MySQL c) t [pk] the_beat ?has True ?cmp else ret ?cmp) ?tail"
    by (simp add: compare_rows_def upfront_count_def Let_def)
  note head = head [unfolded rows]
  have tail: "\<exists>x r'. ?tail cmp r1 = Some (x, r') \<and> snap (db r')
      \<and> (was_cancelled x \<or> (\<exists>item. x = Inr item \<and> tr_error item = None \<and> (matched item \<longleftrightarrow> exact_verdict mode)
        \<and> source_row_count item = int (length S) \<and> target_row_count item = int (length T)
        \<and> reconciled_with item = Some (exact_reconcile pk RECONCILE_SAMPLE_CAP S T)))"
    if cmp: "cmp = ?cmp \<and> mode \<noteq> CHECKSUM
        \<or> cmp = ?cmp\<lparr>c_source_checksum := Some (tokens_of srows), c_target_checksum := Some (tokens_of trows)\<rparr> \<and> mode = CHECKSUM"
      and r1: "snap (db r1)" "acc r1 = ?p" for cmp r1
  proof -
    have fresh: "?has \<Longrightarrow> fresh_proof (acc r1)" using r1(2) proof_for_fresh by auto
    have none: "c_target_rows cmp = None" using cmp by auto
    from reconcile_step_exact [OF r1(1) none fresh] obtain x r2 where x:
      "reconcile_step v (MySQL c) t [pk] the_beat cancel ?has True (Some pk) cmp r1 = Some (x, r2)" "snap (db r2)"
      "was_cancelled x \<or> pass_done ?has trows (acc r1) (acc r2)
       \<and> x = Inr (cmp\<lparr>c_reconcile := Some (exact_reconcile pk RECONCILE_SAMPLE_CAP S T), c_target_rows := Some (int (length T))\<rparr>)"
      by blast
    from x(3) show ?thesis
    proof
      assume "was_cancelled x"
      with x(1,2) show ?thesis
        by (auto simp: finish_comparison_def integer_pk lift_result_def exec_simps was_cancelled_def)
    next
      assume passed: "pass_done ?has trows (acc r1) (acc r2)
       \<and> x = Inr (cmp\<lparr>c_reconcile := Some (exact_reconcile pk RECONCILE_SAMPLE_CAP S T), c_target_rows := Some (int (length T))\<rparr>)"
      have block: "pf_block (proof_fields_of v ?has (acc r2)) \<longleftrightarrow> blocked"
      proof (cases "proof_for v (src_name t)")
        case None
        then show ?thesis by (simp add: blocked_def proof_fields_of_def no_proof_fields_def)
      next
        case (Some p)
        with passed r1(2) have "pass_done True trows p (acc r2)" by simp
        with proof_fields_block [OF Some this] Some show ?thesis by (simp add: blocked_def)
      qed
      have "length S = length T" if "set S = set T" using that same_keys by simp
      with passed x(1,2) cmp block show ?thesis
        by (auto simp: finish_comparison_def integer_pk lift_result_def exec_simps ret_def Let_def no_samples compared_result_def verdict_def
            exact_verdict_def checksums_agree_def exact_reconcile_consistent same_keys)
    qed
  qed
  show ?thesis
  proof (cases "mode = CHECKSUM")
    case False
    with tail [of ?cmp ?r] w3(2) head show ?thesis by (simp add: ret_def exec_simps)
  next
    case True
    from checksum_step_exact [of ?r ?cmp ?has] w3(2) obtain x r1 where x:
      "checksum_step v (MySQL c) t [pk] the_beat ?has True ?cmp ?r = Some (x, r1)" "snap (db r1)"
      "was_cancelled x \<or> acc r1 = ?p
       \<and> x = Inr (?cmp\<lparr>c_source_checksum := Some (tokens_of srows), c_target_checksum := Some (tokens_of trows)\<rparr>)"
      by auto
    from x(3) show ?thesis
    proof
      assume "was_cancelled x"
      with x(1,2) True head show ?thesis by (auto simp: exec_simps was_cancelled_def)
    next
      assume "acc r1 = ?p
       \<and> x = Inr (?cmp\<lparr>c_source_checksum := Some (tokens_of srows), c_target_checksum := Some (tokens_of trows)\<rparr>)"
      with x(1,2) True head tail [OF disjI2, of "?cmp\<lparr>c_source_checksum := Some (tokens_of srows), c_target_checksum := Some (tokens_of trows)\<rparr>" r1]
      show ?thesis by (simp add: exec_simps)
    qed
  qed
qed

end

section \<open>A run of one table in memory\<close>

text \<open>The demonstration table over the two sides of \<open>demo_sides\<close>; the excluded column is empty.\<close>

definition demo_source_rows :: "side_row list" where
  "demo_source_rows = [([''1''], 10, \<lambda>c. True), ([''2''], 20, \<lambda>c. True), ([''3''], 30, \<lambda>c. True)]"

definition demo_my :: "mem_sides my_conn" where
  "demo_my = (mem_my demo_source_rows)\<lparr>my_key_page := mem_key_pages\<rparr>"

definition demo_validator :: "mem_sides validator" where
  "demo_validator = \<lparr>v_source = MySQL demo_my, v_own_rows = mem_pg, v_target = mem_pg,
     v_reads_own_rows = (\<lambda>n w. (Inr False, w)),
     v_column_types = (\<lambda>s n w. (Inr [(''id'', ''int(11)'')], w)),
     v_source_tokens = (\<lambda>t pk n w. (Inr [], w)), v_target_tokens = (\<lambda>t pk n w. (Inr [], w)),
     v_kind = (\<lambda>c. ''plain''), v_scale = (\<lambda>c pg. 0), v_omits = (\<lambda>c pg. False),
     v_row_security_refusal = (\<lambda>e. False), v_row_security_hint = [],
     v_hook = (\<lambda>w. (Inr (), w)), v_page = 2, v_row_diff_size = 0,
     v_null_proof_columns = (\<lambda>n. [''blob'']), v_legacy_proof_columns = (\<lambda>n. []),
     v_migration_excluded = (\<lambda>n. []), v_proof_blocks_match = True\<rparr>"

lemma demo_beat: "page_or_stop (\<lambda>w. (Inr (), w)) (\<lambda>w. (Inr False, w)) = (\<lambda>w. (Inr (), w))"
  by (simp add: fun_eq_iff page_or_stop_def cancel_answer_def)

interpretation demo_run: compared_sides demo_validator demo_table demo_my "''id''" "\<lambda>w. w = demo_sides"
    demo_source_rows "pg_rows demo_sides" "my_keys demo_sides" "[1, 2, 9]" "\<lambda>w. (Inr False, w)"
proof (rule compared_sides.intro)
  show "v_source demo_validator = MySQL demo_my" by (simp add: demo_validator_def)
  have key: "pk_paging_columns demo_table = [''id'']" by code_simp
  have "\<exists>b. mysql_key_binds_exactly demo_table [''id''] = Inr b"
    using exI [of "\<lambda>b. mysql_key_binds_exactly demo_table [''id''] = Inr b" True] by code_simp
  moreover have "distinct (map fst demo_source_rows)" "\<And>row. row \<in> set demo_source_rows \<Longrightarrow> length (fst row) = length [''id'']"
    by (auto simp: demo_source_rows_def)
  ultimately have "my_snapshot (mem_my demo_source_rows) demo_table [''id''] (\<lambda>w. w = demo_sides) demo_source_rows"
    using mem_my_snapshot [of demo_source_rows demo_table demo_sides, unfolded key] by blast
  then show "my_snapshot demo_my demo_table [''id''] (\<lambda>w. w = demo_sides) demo_source_rows"
    unfolding demo_my_def my_snapshot_def by simp
  show "length demo_source_rows = length (my_keys demo_sides)"
    by (simp add: demo_source_rows_def demo_sides_def)
  show "integer_pk_column demo_table = Inr (Some ''id'')" by code_simp
  show "v_row_diff_size demo_validator = 0" by (simp add: demo_validator_def)
next
  fix bearing p0 assume "bearing \<Longrightarrow> fresh_proof p0"
  then have "reconciled_sides mem_pg demo_table [''id''] (\<lambda>w. w = demo_sides) (pg_rows demo_sides) mem_key_pages
      (my_keys demo_sides) [1, 2, 9] ''id'' 2 (\<lambda>w. (Inr (), w)) (\<lambda>w. (Inr False, w)) bearing p0"
  proof (intro mem_reconciled_sides)
    show "map (\<lambda>row. pk_integer (hd (fst row))) (pg_rows demo_sides) = map Inr [1, 2, 9]" by code_simp
  qed (auto simp: demo_sides_def demo_target_def)
  then show "reconciled_sides (v_target demo_validator) demo_table [''id''] (\<lambda>w. w = demo_sides) (pg_rows demo_sides)
      (my_key_page demo_my) (my_keys demo_sides) [1, 2, 9] ''id'' (v_page demo_validator)
      (page_or_stop (v_hook demo_validator) (\<lambda>w. (Inr False, w))) (\<lambda>w. (Inr False, w)) bearing p0"
    by (simp add: demo_validator_def demo_my_def demo_beat)
next
  fix mode and r :: "mem_sides reading" assume "db r = demo_sides"
  have "source_declared_column_types demo_validator ''s.t'' r = Some (Inr [(''id'', ''int(11)'')], r)"
    by (cases r) (simp add: source_declared_column_types_def Let_def on_db_def demo_validator_def)
  moreover have "uncompared_source_columns demo_table [(''id'', ''int(11)'')] [] = []" by code_simp
  ultimately have "stale_inventory_error demo_validator demo_table mode r = Some (Inr None, r)"
    by (simp add: stale_inventory_error_def exec_simps ret_def demo_table_def demo_validator_def Let_def
        has_numeric_checksum_column_def)
  with \<open>db r = demo_sides\<close> show "\<exists>w. stale_inventory_error demo_validator demo_table mode r = Some (Inr None, r\<lparr>db := w\<rparr>)
      \<and> w = demo_sides" by (cases r) simp
qed (simp_all add: demo_validator_def mem_pg_def)

text \<open>An answer that the fallback may give.\<close>

definition proof_answer :: "(bool \<Rightarrow> ('w reading, 'a) proc) \<Rightarrow> pyexc + 'a \<Rightarrow> 'w reading \<Rightarrow> bool" where
  "proof_answer run x r =
     (case x of
        Inr a \<Rightarrow> (\<exists>s. run True s = Some (Inr a, r))
          \<or> (\<exists>s. run False s = Some (Inr a, r) \<and> reason (acc s) = Some ''query_error'')
      | Inl e \<Rightarrow> is_cancelled e \<or> \<not> is_exception e \<or> failed (acc r) = None \<or> is_dropped_connection e
          \<or> is_server_unavailable e \<or> is_dsql_statement_limit e \<or> (\<exists>s. run False s = Some (Inl e, r)))"

abbreviation fallback_answers :: "(bool \<Rightarrow> ('w reading, 'a) proc) \<Rightarrow> 'w reading \<Rightarrow> bool" where
  "fallback_answers run s \<equiv>
     (\<exists>x s'. proof_fallback_round run () s = Some (map_sum id Inr x, s') \<and> proof_answer run x s')"

lemma fallback_once:
  assumes "\<And>b s. \<exists>x s'. run b s = Some (x, s') \<and> (proof_retried (acc s) \<longrightarrow> proof_retried (acc s'))"
  shows "fallback_answers run s
    \<or> \<not> proof_retried (acc s) \<and> (\<exists>s'. proof_fallback_round run () s = Some (Inr (Inl ()), s') \<and> proof_retried (acc s'))"
proof -
  obtain x s1 where x: "run True s = Some (x, s1)" "proof_retried (acc s) \<longrightarrow> proof_retried (acc s1)"
    using assms by blast
  let ?plain = "s1\<lparr>acc := (reset_proof (acc s1))\<lparr>reason := Some ''query_error''\<rparr>\<rparr>"
  obtain y s2 where y: "run False ?plain = Some (y, s2)" using assms by blast
  have why: "reason (acc ?plain) = Some ''query_error''" by simp
  show ?thesis
  proof (cases x)
    case (Inr a)
    with x(1) have "fallback_answers run s"
      by (intro exI [of _ x] exI [of _ s1]) (auto simp: proof_fallback_round_def proof_answer_def)
    then show ?thesis ..
  next
    case (Inl e)
    let ?transient = "is_dropped_connection e \<or> is_server_unavailable e"
    let ?again = "(is_occ_conflict e \<or> ?transient) \<and> \<not> proof_retried (acc s1)"
    consider (raised) "is_cancelled e \<or> \<not> is_exception e \<or> failed (acc s1) = None"
      | (again) "\<not> (is_cancelled e \<or> \<not> is_exception e \<or> failed (acc s1) = None)" ?again
      | (limit) "\<not> (is_cancelled e \<or> \<not> is_exception e \<or> failed (acc s1) = None)" "\<not> ?again"
          "?transient \<or> is_dsql_statement_limit e"
      | (without) "\<not> (is_cancelled e \<or> \<not> is_exception e \<or> failed (acc s1) = None)" "\<not> ?again"
          "\<not> (?transient \<or> is_dsql_statement_limit e)"
      by argo
    then show ?thesis
    proof cases
      case raised
      with x(1) Inl have "fallback_answers run s"
        by (intro exI [of _ x] exI [of _ s1]) (auto simp: proof_fallback_round_def proof_answer_def)
      then show ?thesis ..
    next
      case again
      with x Inl show ?thesis by (intro disjI2) (auto simp: proof_fallback_round_def Let_def reset_proof_def)
    next
      case limit
      with x(1) Inl have "fallback_answers run s"
        by (intro exI [of _ x] exI [of _ s1]) (auto simp: proof_fallback_round_def proof_answer_def Let_def)
      then show ?thesis ..
    next
      case without
      with x(1) Inl y why have "fallback_answers run s"
        by (intro exI [of _ y] exI [of _ s2], cases y)
          (auto simp: proof_fallback_round_def proof_answer_def Let_def and_then_def ret_def)
      then show ?thesis ..
    qed
  qed
qed

lemma fallback_ends:
  "fallback_answers run s \<Longrightarrow> \<exists>x s'. while_true (proof_fallback_round run) () s = Some (x, s') \<and> proof_answer run x s'"
proof (elim exE conjE)
  fix x s' assume "proof_fallback_round run () s = Some (map_sum id Inr x, s')" "proof_answer run x s'"
  then show ?thesis
    by (cases x) (simp_all add: while_true.simps [of "proof_fallback_round run" "()" s])
qed

text \<open>A pass that fails whenever it carries the proof.\<close>

definition demo_pass :: "bool \<Rightarrow> (unit reading, int) proc" where
  "demo_pass bearing r =
     (if bearing
      then Some (Inl (raise_named ''UndefinedColumn'' []), r\<lparr>acc := (acc r)\<lparr>failed := Some (raise_named ''UndefinedColumn'' [])\<rparr>\<rparr>)
      else Some (Inr 7, r))"

section \<open>Properties\<close>

text \<open>
  C5: the verdict over a table is exact. For a MySQL table with one integer key that Aurora DSQL holds
  under the same key, both sides unchanged while they are read and reconciliation on, the comparison ends
  and, unless the run was stopped, reports the two row counts and matches exactly when both sides hold
  the same keys, their checksums agree (in CHECKSUM mode) and no excluded column that must be empty holds
  a value.
\<close>

theorem verdict_exact:
  assumes "compared_sides v t c pk snap srows trows S T cancel" "snap (db r)"
  shows "\<exists>x r'. compare_table v t mode None True cancel False r = Some (x, r')
    \<and> (was_cancelled x \<or> (\<exists>item. x = Inr item \<and> tr_error item = None
        \<and> source_row_count item = int (length S) \<and> target_row_count item = int (length T)
        \<and> (matched item \<longleftrightarrow> S = T \<and> (mode = CHECKSUM \<longrightarrow> tokens_of srows = tokens_of trows)
            \<and> \<not> (\<exists>p. proof_for v (src_name t) = Some p \<and> v_proof_blocks_match v
                  \<and> (\<exists>col \<in> set (proof_columns p). col \<notin> set (legacy p) \<and> 0 < nonnull_rows col trows)))))"
proof -
  have blocked: "compared_sides.blocked v t trows \<longleftrightarrow> (\<exists>p. proof_for v (src_name t) = Some p \<and> v_proof_blocks_match v
      \<and> (\<exists>col \<in> set (proof_columns p). col \<notin> set (legacy p) \<and> 0 < nonnull_rows col trows))"
    by (simp add: compared_sides.blocked_def [OF assms(1)] compared_sides.overlay_values_def [OF assms(1)]
        split: option.splits)
  from compared_sides.compare_exact [OF assms, of mode] obtain x r' where
    "compare_table v t mode None True cancel False r = Some (x, r')"
    "was_cancelled x \<or> (\<exists>item. x = Inr item \<and> tr_error item = None
      \<and> (matched item \<longleftrightarrow> compared_sides.exact_verdict v t srows trows S T mode)
      \<and> source_row_count item = int (length S) \<and> target_row_count item = int (length T))" by blast
  then show ?thesis
    unfolding compared_sides.exact_verdict_def [OF assms(1)] blocked by blast
qed

theorem verdict_exact_witness:
  "\<exists>x r'. compare_table demo_validator demo_table CHECKSUM None True (\<lambda>w. (Inr False, w)) False
      \<lparr>db = demo_sides, acc = new_proof [] [], live_keys = []\<rparr> = Some (x, r')
    \<and> (was_cancelled x \<or> (\<exists>item. x = Inr item \<and> source_row_count item = 3 \<and> \<not> matched item))"
proof -
  have "(9 :: int) \<in> set [1, 2, 9]" "(9 :: int) \<notin> set (my_keys demo_sides)" by (simp_all add: demo_sides_def)
  then have differ: "my_keys demo_sides \<noteq> [1, 2, 9]" by metis
  have len: "length (my_keys demo_sides) = 3" by (simp add: demo_sides_def)
  have "db \<lparr>db = demo_sides, acc = new_proof [] [], live_keys = []\<rparr> = demo_sides" by simp
  from verdict_exact [OF demo_run.compared_sides_axioms this, of CHECKSUM] show ?thesis
    using differ len by (elim exE conjE) (intro exI conjI; auto)
qed



end
