(* ===== verification/Report.thy ===== *)
theory Report
  imports Validate
begin

text \<open>
  \<^verbatim>\<open>core/validator.py\<close> and \<^verbatim>\<open>core/models.py\<close>: what makes a comparison a report. A table's failure is
  isolated to its own result (\<open>_validate_table\<close>), its foreign keys are counted for orphan rows
  (\<open>_check_orphans\<close>), the tables run one after the other or on a bounded pool (\<open>validate\<close>,
  \<open>_validate_parallel\<close>), and the report's verdict and its drift are derived from them.
\<close>

section \<open>Isolating a table\<close>

text \<open>\<open>_safe_error_message\<close>: the class and the first line of the message.\<close>

definition safe_error_message :: "pyexc \<Rightarrow> string" where
  "safe_error_message e =
     (let stripped = py_strip (message e);
          detail = (if stripped \<noteq> [] then py_strip (py_first_line stripped) else [])
      in if detail \<noteq> [] then exc_name e @ '': '' @ detail else exc_name e)"

definition KEYLESS_TABLE_LIMIT_HINT :: string where
  "KEYLESS_TABLE_LIMIT_HINT =
     ''Aurora DSQL holds this table with no primary key, so Validation counts and checksums '' @
     ''it in one statement, which Aurora DSQL stops after 300 seconds. Re-create the table '' @
     ''with a primary key (Schema Conversion) and reload it, or turn its chip off under '' @
     ''Objects to validate.''"

text \<open>The dash between an error and its hint, as its UTF-8 bytes.\<close>

definition dash :: string where
  "dash = '' '' @ [char_of (226 :: nat), char_of (128 :: nat), char_of (148 :: nat)] @ '' ''"

definition table_error_text :: "'w validator \<Rightarrow> source_table \<Rightarrow> (string, string list) pydict \<Rightarrow> pyexc \<Rightarrow> string" where
  "table_error_text v t keys e =
     (if v_row_security_refusal v e then safe_error_message e @ dash @ v_row_security_hint v
      else if sqlstate e = Some ''54000'' \<and> map_of keys (src_name t) = Some []
      then safe_error_message e @ dash @ KEYLESS_TABLE_LIMIT_HINT
      else safe_error_message e)"

definition validate_table :: "'w validator \<Rightarrow> source_table \<Rightarrow> validation_mode \<Rightarrow> watermark option \<Rightarrow> bool \<Rightarrow>
    ('w, bool) action \<Rightarrow> bool \<Rightarrow> ('w reading, table_result) proc" where
  "validate_table v t mode wm want_reconcile cancel deep_only r =
     (case compare_table v t mode wm want_reconcile cancel deep_only r of
        Some (Inl e, r') \<Rightarrow>
          if is_cancelled e \<or> \<not> is_exception e then Some (Inl e, r')
          else ret (errored_result v (src_name t) (table_error_text v t (live_keys r') e)) r'
      | res \<Rightarrow> res)"

section \<open>Orphan rows\<close>

definition orphan_round :: "'w pg_conn \<Rightarrow> string \<Rightarrow> foreign_key \<Rightarrow> string \<Rightarrow> nat \<Rightarrow> ('w, unit) action \<Rightarrow>
    int \<times> string option \<Rightarrow> ('w reading, int \<times> string option + int) proc" where
  "orphan_round conn child fk pk page beat st =
     (case st of
        (tot, cursor) \<Rightarrow>
          and_then (on_db beat)
            (\<lambda>_. and_then (on_db (pg_orphan_page conn child fk pk page cursor))
              (\<lambda>row. case row of
                  None \<Rightarrow> ret (Inr tot)
                | Some (sub, last_key, cnt) \<Rightarrow>
                    let tot' = tot + none_zero sub
                    in if cnt = None \<or> none_zero cnt < int page then ret (Inr tot')
                       else ret (Inl (tot', last_key)))))"

definition target_orphan_count_keyset :: "'w pg_conn \<Rightarrow> string \<Rightarrow> foreign_key \<Rightarrow> string \<Rightarrow> nat \<Rightarrow>
    ('w, unit) action \<Rightarrow> ('w reading, int) proc" where
  "target_orphan_count_keyset conn child fk pk page beat =
     while_true (orphan_round conn child fk pk page beat) (0, None)"

definition composite_orphan_round :: "'w pg_conn \<Rightarrow> string \<Rightarrow> foreign_key \<Rightarrow> string list \<Rightarrow> nat \<Rightarrow>
    ('w, unit) action \<Rightarrow> int \<times> string list option \<Rightarrow> ('w reading, int \<times> string list option + int) proc" where
  "composite_orphan_round conn child fk key page beat st =
     (case st of
        (tot, cursor) \<Rightarrow>
          and_then (on_db beat)
            (\<lambda>_. and_then (on_db (pg_composite_orphan_page conn child fk key page cursor))
              (\<lambda>row. case row of
                  None \<Rightarrow> ret (Inr tot)
                | Some (sub, cnt, last_key) \<Rightarrow>
                    let tot' = tot + none_zero sub
                    in if none_zero cnt < int page then ret (Inr tot')
                       else if Some last_key = cursor then raising (stalled_read ''target'')
                       else ret (Inl (tot', Some last_key)))))"

definition target_orphan_count_composite :: "'w pg_conn \<Rightarrow> string \<Rightarrow> foreign_key \<Rightarrow> string list \<Rightarrow> nat \<Rightarrow>
    ('w, unit) action \<Rightarrow> ('w reading, int) proc" where
  "target_orphan_count_composite conn child fk key page beat =
     while_true (composite_orphan_round conn child fk key page beat) (0, None)"

definition target_orphan_count :: "'w pg_conn \<Rightarrow> source_table \<Rightarrow> foreign_key \<Rightarrow> nat \<Rightarrow> ('w, unit) action \<Rightarrow>
    string list \<Rightarrow> ('w reading, int) proc" where
  "target_orphan_count conn t fk page beat key =
     (case key of
        [] \<Rightarrow> and_then (on_db (pg_orphans conn (src_name t) fk)) (\<lambda>v. ret (none_zero v))
      | [pk] \<Rightarrow> target_orphan_count_keyset conn (src_name t) fk pk page beat
      | _ \<Rightarrow> target_orphan_count_composite conn (src_name t) fk key page beat)"

text \<open>\<open>_target_table_present\<close>: \<open>True\<close> when it cannot be told.\<close>

definition target_table_present :: "'w pg_conn \<Rightarrow> string \<Rightarrow> ('w reading, bool) proc" where
  "target_table_present conn name = on_exception (on_db (pg_exists conn name)) (\<lambda>e. ret True)"

definition with_orphan_failure :: "table_result \<Rightarrow> string \<Rightarrow> table_result" where
  "with_orphan_failure item msg = item\<lparr>matched := False, orphan_check_error := Some msg\<rparr>"

record orphan_finding =
  of_table :: string
  of_foreign_key :: string
  of_referenced :: string
  orphan_count :: int

record unchecked_foreign_key =
  uf_table :: string
  uf_foreign_key :: string
  uf_referenced :: string

record orphan_report =
  or_findings :: "orphan_finding list"
  or_unchecked :: "unchecked_foreign_key list"
  or_failures :: "string list"

text \<open>One foreign key: counted, unchecked when its parent is not on the target, or a failure.\<close>

definition check_foreign_key :: "'w validator \<Rightarrow> source_table \<Rightarrow> string list \<Rightarrow> ('w, unit) action \<Rightarrow> foreign_key \<Rightarrow>
    orphan_report \<Rightarrow> ('w reading, orphan_report) proc" where
  "check_foreign_key v t key beat fk rep r =
     (case target_orphan_count (v_target v) t fk (v_page v) beat key r of
        None \<Rightarrow> None
      | Some (Inr n, r') \<Rightarrow>
          Some (Inr (if 0 < n
            then rep\<lparr>or_findings := or_findings rep @ [\<lparr>of_table = src_name t, of_foreign_key = fk_name fk,
                       of_referenced = referenced_table fk, orphan_count = n\<rparr>]\<rparr>
            else rep), r')
      | Some (Inl e, r') \<Rightarrow>
          if is_cancelled e \<or> \<not> is_exception e then Some (Inl e, r')
          else and_then (target_table_present (v_target v) (referenced_table fk))
            (\<lambda>present. ret (
               if present
               then rep\<lparr>or_failures := or_failures rep @ [''foreign key '' @ fk_name fk @ '' -> '' @
                          referenced_table fk @ '' ('' @ safe_error_message e @ '')'']\<rparr>
               else rep\<lparr>or_unchecked := or_unchecked rep @ [\<lparr>uf_table = src_name t, uf_foreign_key = fk_name fk,
                          uf_referenced = referenced_table fk\<rparr>]\<rparr>)) r')"

fun check_foreign_keys :: "'w validator \<Rightarrow> source_table \<Rightarrow> string list \<Rightarrow> ('w, unit) action \<Rightarrow> foreign_key list \<Rightarrow>
    orphan_report \<Rightarrow> ('w reading, orphan_report) proc" where
  "check_foreign_keys v t key beat [] rep = ret rep"
| "check_foreign_keys v t key beat (fk # fks) rep =
     and_then (check_foreign_key v t key beat fk rep) (check_foreign_keys v t key beat fks)"

definition no_orphans :: orphan_report where
  "no_orphans = \<lparr>or_findings = [], or_unchecked = [], or_failures = []\<rparr>"

text \<open>The key the orphan pages follow: the comparison's read of it, else one of its own.\<close>

definition orphan_key :: "'w validator \<Rightarrow> source_table \<Rightarrow> ('w reading, string list) proc" where
  "orphan_key v t r =
     (case map_of (live_keys r) (src_name t) of
        Some key \<Rightarrow> ret key r
      | None \<Rightarrow> on_db (pg_primary_key (v_target v) (src_name t)) r)"

definition check_orphans :: "'w validator \<Rightarrow> source_table \<Rightarrow> foreign_key list \<Rightarrow> table_result \<Rightarrow> ('w, bool) action \<Rightarrow>
    ('w reading, orphan_report \<times> table_result) proc" where
  "check_orphans v t fks item cancel r =
     (let wanted = filter created_on_target fks
      in if wanted = [] then ret (no_orphans, item) r
         else (case orphan_key v t r of
                 None \<Rightarrow> None
               | Some (Inl e, r') \<Rightarrow>
                   if is_cancelled e \<or> \<not> is_exception e then Some (Inl e, r')
                   else ret (no_orphans, with_orphan_failure item
                          (''the table's primary key on Aurora DSQL could not be read ('' @ safe_error_message e @ '')'')) r'
               | Some (Inr key, r') \<Rightarrow>
                   and_then (check_foreign_keys v t key (page_or_stop (v_hook v) cancel) wanted no_orphans)
                     (\<lambda>rep. ret (rep, if or_failures rep \<noteq> []
                                      then with_orphan_failure item (join_with ''; '' (or_failures rep)) else item)) r'))"

section \<open>A run over the tables\<close>

type_synonym table_task = "source_table \<times> foreign_key list"

record run_settings =
  rs_mode :: validation_mode
  rs_watermark :: "watermark option"
  rs_orphans :: bool
  rs_reconcile :: bool
  rs_deep_only :: bool

text \<open>The comparison of one table and its orphan check.\<close>

definition validate_task :: "'w validator \<Rightarrow> run_settings \<Rightarrow> ('w, bool) action \<Rightarrow> table_task \<Rightarrow>
    ('w reading, table_result \<times> orphan_report) proc" where
  "validate_task v rs cancel task =
     (case task of
        (t, fks) \<Rightarrow>
          and_then (validate_table v t (rs_mode rs) (rs_watermark rs) (rs_reconcile rs) cancel (rs_deep_only rs))
            (\<lambda>item. if rs_orphans rs
               then and_then (check_orphans v t fks item cancel) (\<lambda>(rep, item'). ret (item', rep))
               else ret (item, no_orphans)))"

definition run_cancelled :: pyexc where
  "run_cancelled = validation_cancelled ''Validation cancelled before completing all tables.''"

text \<open>\<open>validate\<close>, one worker: the stop is polled before each table.\<close>

fun validate_serial :: "(table_task \<Rightarrow> ('s, table_result \<times> orphan_report) proc) \<Rightarrow> ('s, bool) proc \<Rightarrow>
    table_task list \<Rightarrow> (table_result \<times> orphan_report) list \<Rightarrow> ('s, (table_result \<times> orphan_report) list) proc" where
  "validate_serial one cancel [] items = ret items"
| "validate_serial one cancel (task # tasks) items =
     and_then cancel
       (\<lambda>stop. if stop then raising run_cancelled
         else and_then (one task) (\<lambda>res. validate_serial one cancel tasks (items @ [res])))"

text \<open>
  \<open>_validate_parallel\<close>: the workers finish in the order \<open>order\<close>, each storing its result under its
  table's index (\<open>_run_one\<close>); a stop skips a table. The first worker's exception, in table order, is
  raised once the pool has drained.
\<close>

definition run_one :: "(table_task \<Rightarrow> ('s, table_result \<times> orphan_report) proc) \<Rightarrow> ('s, bool) proc \<Rightarrow> table_task \<Rightarrow>
    ('s, (table_result \<times> orphan_report) option) proc" where
  "run_one one cancel task =
     and_then cancel (\<lambda>stop. if stop then ret None else and_then (one task) (\<lambda>res. ret (Some res)))"

type_synonym slot = "pyexc + (table_result \<times> orphan_report) option"

fun run_workers :: "(table_task \<Rightarrow> ('s, table_result \<times> orphan_report) proc) \<Rightarrow> ('s, bool) proc \<Rightarrow> table_task list \<Rightarrow>
    nat list \<Rightarrow> slot list \<Rightarrow> ('s, slot list) proc" where
  "run_workers one cancel tasks [] slots = ret slots"
| "run_workers one cancel tasks (i # order) slots =
     (\<lambda>s. case run_one one cancel (tasks ! i) s of
        None \<Rightarrow> None
      | Some (res, s') \<Rightarrow> run_workers one cancel tasks order (slots[i := res]) s')"

fun first_error :: "slot list \<Rightarrow> pyexc option" where
  "first_error [] = None"
| "first_error (Inl e # slots) = Some e"
| "first_error (Inr r # slots) = first_error slots"

definition slot_results :: "slot list \<Rightarrow> (table_result \<times> orphan_report) list" where
  "slot_results slots = List.map_filter (\<lambda>x. case x of Inl e \<Rightarrow> None | Inr r \<Rightarrow> r) slots"

definition validate_parallel :: "(table_task \<Rightarrow> ('s, table_result \<times> orphan_report) proc) \<Rightarrow> ('s, bool) proc \<Rightarrow>
    table_task list \<Rightarrow> nat list \<Rightarrow> ('s, (table_result \<times> orphan_report) list) proc" where
  "validate_parallel one cancel tasks order =
     and_then (run_workers one cancel tasks order (replicate (length tasks) (Inr None)))
       (\<lambda>slots. case first_error slots of
           Some e \<Rightarrow> raising e
         | None \<Rightarrow> and_then cancel (\<lambda>stop. if stop then raising run_cancelled else ret (slot_results slots)))"

section \<open>Drift\<close>

definition falsy :: "string option \<Rightarrow> bool" where
  "falsy s = (s = None \<or> s = Some [])"

definition format_binlog_coordinate :: "string option \<Rightarrow> int option \<Rightarrow> string option" where
  "format_binlog_coordinate file pos =
     (case (file, pos) of
        (Some f, Some p) \<Rightarrow> if f = [] then None else Some (f @ '':'' @ int_str p)
      | _ \<Rightarrow> None)"

definition binlog_advanced :: "string option \<Rightarrow> int option \<Rightarrow> string option \<Rightarrow> int option \<Rightarrow> bool option" where
  "binlog_advanced wfile wpos cfile cpos =
     (if falsy wfile \<or> wpos = None then None
      else if falsy cfile \<or> cpos = None then None
      else if wfile = cfile then Some (cpos \<noteq> wpos)
      else Some True)"

record drift_report =
  watermark_gtid :: "string option"
  current_gtid :: "string option"
  drifted :: bool
  determinable :: bool
  detail :: string
  basis :: string
  watermark_binlog :: "string option"
  current_binlog :: "string option"

definition shown :: "string option \<Rightarrow> string" where
  "shown s = (case s of None \<Rightarrow> ''None'' | Some x \<Rightarrow> x)"

definition build_drift :: "watermark option \<Rightarrow> string option \<Rightarrow> string option \<Rightarrow> int option \<Rightarrow> bool \<Rightarrow> drift_report option" where
  "build_drift wm gtid file pos pg =
     (case wm of
        None \<Rightarrow> None
      | Some w \<Rightarrow>
          (let wbin = format_binlog_coordinate (binlog_file w) (binlog_position w);
               cbin = format_binlog_coordinate file pos;
               report = (\<lambda>moved known txt by. \<lparr>watermark_gtid = gtid_executed w, current_gtid = gtid, drifted = moved,
                   determinable = known, detail = txt, basis = by, watermark_binlog = wbin, current_binlog = cbin\<rparr>)
           in Some (case (gtid_executed w, gtid) of
                (Some a, Some b) \<Rightarrow>
                  report (a \<noteq> b) True
                    (if a \<noteq> b then ''Source advanced since the snapshot (GTID changed).''
                     else ''No source changes since the snapshot.'') ''gtid''
              | _ \<Rightarrow>
                  (case binlog_advanced (binlog_file w) (binlog_position w) file pos of
                     Some moved \<Rightarrow>
                       report moved True
                         (if moved then ''Source advanced since the snapshot (binlog position moved from '' @
                            shown wbin @ '' to '' @ shown cbin @ '').''
                          else ''No source changes since the snapshot (binlog position unchanged at '' @ shown wbin @ '').'')
                         ''binlog''
                   | None \<Rightarrow>
                       report False False
                         (if pg then
                            ''A PostgreSQL source has no GTID or binlog position, and drift by WAL LSN '' @
                            ''is deliberately not computed: an idle PostgreSQL source advances its LSN '' @
                            ''on its own (autovacuum, checkpoints, logical-decoding bookkeeping), so '' @
                            ''that comparison would report drift on a source nobody wrote to. Freeze '' @
                            ''writes before cut over and confirm quiescence on the source.''
                          else ''Neither a GTID nor a binlog position was available on both sides, so '' @
                            ''drift since the snapshot could not be determined.'') ''''))))"

section \<open>The report\<close>

record validation_report =
  vr_mode :: validation_mode
  vr_items :: "table_result list"
  vr_orphans :: "orphan_finding list"
  vr_orphan_check_performed :: bool
  vr_unchecked :: "unchecked_foreign_key list"
  vr_drift :: "drift_report option"
  is_match :: bool
  reconcile_requested :: bool

definition build_report :: "run_settings \<Rightarrow> (table_result \<times> orphan_report) list \<Rightarrow> drift_report option \<Rightarrow> validation_report" where
  "build_report rs results drift =
     (let items = map fst results; findings = concat (map (\<lambda>(i, rep). or_findings rep) results)
      in \<lparr>vr_mode = rs_mode rs, vr_items = items, vr_orphans = findings, vr_orphan_check_performed = rs_orphans rs,
          vr_unchecked = concat (map (\<lambda>(i, rep). or_unchecked rep) results), vr_drift = drift,
          is_match = (list_all matched items \<and> findings = []), reconcile_requested = rs_reconcile rs\<rparr>)"

definition with_quarantine_counts :: "validation_report \<Rightarrow> (string \<Rightarrow> int option) option \<Rightarrow> validation_report" where
  "with_quarantine_counts rep quarantined =
     (case quarantined of
        None \<Rightarrow> rep
      | Some q \<Rightarrow> rep\<lparr>vr_items := map (\<lambda>i. i\<lparr>rows_quarantined := none_zero (q (tr_table i))\<rparr>) (vr_items rep)\<rparr>)"

definition deficit :: "table_result \<Rightarrow> int" where
  "deficit i = max 0 (source_row_count i - target_row_count i)"

definition deficit_explained_by_quarantine :: "table_result \<Rightarrow> bool" where
  "deficit_explained_by_quarantine i =
     (\<not> matched i \<and> 0 < rows_quarantined i \<and> deficit i = rows_quarantined i \<and> \<not> excluded_values_block i
      \<and> (orphan_check_error i = None \<or> orphan_check_error i = Some []))"

definition orphan_check_only :: "table_result \<Rightarrow> bool" where
  "orphan_check_only i =
     (\<not> matched i \<and> \<not> (orphan_check_error i = None \<or> orphan_check_error i = Some []) \<and> tr_error i = None
      \<and> row_count_match i \<and> checksum_match i \<noteq> Some False
      \<and> (case reconciled_with i of None \<Rightarrow> True | Some res \<Rightarrow> consistent res) \<and> \<not> excluded_values_block i)"

section \<open>What a run can end with\<close>

text \<open>A procedure that lets nothing escape but a stop (or what is no \<open>Exception\<close>).\<close>

definition contained :: "('s, 'a) proc \<Rightarrow> bool" where
  "contained m = (\<forall>s e s'. m s = Some (Inl e, s') \<longrightarrow> is_cancelled e \<or> \<not> is_exception e)"

lemma containedD: "contained m \<Longrightarrow> m s = Some (Inl e, s') \<Longrightarrow> is_cancelled e \<or> \<not> is_exception e"
  by (auto simp: contained_def)

named_theorems containing \<open>rules for procedures whose failures are contained\<close>

lemma contained_ret [containing, simp]: "contained (ret a)"
  by (simp add: contained_def ret_def)

lemma contained_and_then [containing]:
  "contained m \<Longrightarrow> (\<And>a. contained (f a)) \<Longrightarrow> contained (and_then m f)"
  unfolding contained_def and_then_def by (auto split: option.splits sum.splits)

lemma contained_on_exception [containing]: "(\<And>e. contained (h e)) \<Longrightarrow> contained (on_exception m h)"
  unfolding contained_def on_exception_def by (auto split: option.splits sum.splits if_splits)

lemma contained_validate_table [containing]: "contained (validate_table v t mode wm want cancel deep_only)"
  unfolding contained_def validate_table_def
  by (auto simp: ret_def split: option.splits sum.splits if_splits)

lemma contained_target_table_present [containing]: "contained (target_table_present conn name)"
  unfolding target_table_present_def by (intro containing)

lemma contained_check_foreign_key [containing]: "contained (check_foreign_key v t key beat fk rep)"
  unfolding contained_def check_foreign_key_def
  by (auto split: option.splits sum.splits if_splits
      dest: containedD [OF contained_and_then [OF contained_target_table_present contained_ret]])

lemma contained_check_foreign_keys [containing]: "contained (check_foreign_keys v t key beat fks rep)"
  by (induction fks arbitrary: rep) (simp_all add: contained_and_then contained_check_foreign_key)

lemma contained_check_orphans [containing]: "contained (check_orphans v t fks item cancel)"
  unfolding contained_def check_orphans_def Let_def
  by (auto simp: ret_def split: option.splits sum.splits if_splits
      dest: containedD [OF contained_and_then [OF contained_check_foreign_keys contained_ret]])

lemma contained_validate_task [containing]: "contained (validate_task v rs cancel task)"
  unfolding validate_task_def
  by (cases task) (auto intro!: containing split: prod.splits)

lemma contained_stop [containing]: "contained (raising run_cancelled)"
  by (simp add: contained_def raising_def run_cancelled_def validation_cancelled_def is_cancelled_def runtime_error_def)

lemma contained_validate_serial:
  assumes "contained cancel" "\<And>task. contained (one task)"
  shows "contained (validate_serial one cancel tasks items)"
proof (induction tasks arbitrary: items)
  case (Cons task tasks)
  then show ?case by (auto intro!: containing assms)
qed simp

section \<open>What a match rests on\<close>

text \<open>The task's result is that of its table, and it carries no failed check when it matched.\<close>

definition sound_match :: "run_settings \<Rightarrow> source_table \<Rightarrow> table_result \<Rightarrow> bool" where
  "sound_match rs t item =
     (tr_error item = None \<and> orphan_check_error item = None \<and> \<not> excluded_values_block item
      \<and> source_row_count item = target_row_count item
      \<and> (deep_checks_skipped item \<longrightarrow> rs_deep_only rs)
      \<and> (rs_mode rs = CHECKSUM \<and> \<not> deep_checks_skipped item \<longrightarrow>
           (\<exists>d. source_checksum_text item = Some d \<and> target_checksum_text item = Some d))
      \<and> (rs_reconcile rs \<and> \<not> deep_checks_skipped item \<and> (\<exists>pk. integer_pk_column t = Inr (Some pk)) \<longrightarrow>
           (\<exists>res. reconciled_with item = Some res \<and> consistent res)))"

lemma compared_match_sound:
  assumes "compare_table v t (rs_mode rs) wm (rs_reconcile rs) cancel (rs_deep_only rs) r = Some (Inr item, r')"
  shows "tr_table item = src_name t \<and> (matched item \<longrightarrow> sound_match rs t item)"
  using compare_table_result [OF assms]
proof (elim disjE exE conjE, goal_cases)
  case (1 err)
  then show ?case by (simp add: errored_result_def Let_def)
next
  case (2 c f deep pk sample)
  show ?case
  proof (intro conjI impI)
    show "tr_table item = src_name t" by (simp add: 2(1) compared_result_def)
    assume "matched item"
    then have "verdict c f" by (simp add: 2(1) compared_result_def)
    with 2 show "sound_match rs t item"
      by (auto simp: sound_match_def compared_result_def verdict_def checksums_agree_def split: option.splits if_splits)
  qed
qed

lemma validate_table_match_sound:
  assumes "validate_table v t (rs_mode rs) wm (rs_reconcile rs) cancel (rs_deep_only rs) r = Some (Inr item, r')"
  shows "tr_table item = src_name t \<and> (matched item \<longrightarrow> sound_match rs t item)"
  using assms unfolding validate_table_def
  by (auto simp: ret_def errored_result_def Let_def split: option.splits sum.splits if_splits
      dest: compared_match_sound)

text \<open>The orphan check changes nothing but the failure it reports.\<close>

lemma with_orphan_failure_simps [simp]:
  "\<not> matched (with_orphan_failure item msg)" "tr_table (with_orphan_failure item msg) = tr_table item"
  by (simp_all add: with_orphan_failure_def)

lemma check_orphans_item:
  assumes "check_orphans v t fks item cancel r = Some (Inr (rep, item'), r')"
  shows "tr_table item' = tr_table item \<and> (matched item' \<longrightarrow> item' = item)"
  using assms unfolding check_orphans_def Let_def
  by (auto simp: ret_def elim!: and_then_InrE split: option.splits sum.splits if_splits)

lemma validate_task_match_sound:
  assumes "validate_task v rs cancel (t, fks) r = Some (Inr (item, rep), r')"
  shows "tr_table item = src_name t \<and> (matched item \<longrightarrow> sound_match rs t item)"
  using assms unfolding validate_task_def
  by (auto simp: ret_def elim!: and_then_InrE split: if_splits prod.splits
      dest!: validate_table_match_sound check_orphans_item)

lemma validate_serial_results:
  assumes "validate_serial one cancel tasks items r = Some (Inr results, r')"
    and "\<And>task r res r'. one task r = Some (Inr res, r') \<Longrightarrow> P task res"
  shows "\<exists>new. results = items @ new \<and> list_all2 P tasks new"
  using assms(1)
proof (induction tasks arbitrary: items r)
  case Nil
  then show ?case by (simp add: ret_def)
next
  case (Cons task tasks)
  from Cons.prems obtain stop s1 where "cancel r = Some (Inr stop, s1)"
    and rest: "(if stop then raising run_cancelled
       else and_then (one task) (\<lambda>res. validate_serial one cancel tasks (items @ [res]))) s1 = Some (Inr results, r')"
    by (auto elim!: and_then_InrE)
  then obtain res s2 where one: "one task s1 = Some (Inr res, s2)"
    and tail: "validate_serial one cancel tasks (items @ [res]) s2 = Some (Inr results, r')"
    by (auto simp: raising_def elim!: and_then_InrE split: if_splits)
  from Cons.IH [OF tail] obtain new where "results = items @ res # new" "list_all2 P tasks new" by auto
  with assms(2) [OF one] show ?case by (intro exI [of _ "res # new"]) simp
qed

section \<open>A run without a key\<close>

text \<open>A table without a key on either side, the same rows on both: every read is one statement.\<close>

definition keyless_table :: source_table where
  "keyless_table = \<lparr>src_name = ''s.k'', src_columns = [\<lparr>col_name = ''a'', col_type = ''int''\<rparr>], src_primary_key = []\<rparr>"

definition keyless_pg :: "unit pg_conn" where
  "keyless_pg = \<lparr>pg_key_page = (\<lambda>t pk cols page cursor w. (Inr [], w)),
     pg_composite_page = (\<lambda>t key checksum nonnull page cursor w. (Inr None, w)),
     pg_count = (\<lambda>name cols w. (Inr (Some (Some 3, [])), w)),
     pg_checksum_page = (\<lambda>t pk page cursor w. (Inr None, w)),
     pg_checksum = (\<lambda>t w. (Inr (Some 60), w)),
     pg_orphan_page = (\<lambda>t fk pk page cursor w. (Inr None, w)),
     pg_composite_orphan_page = (\<lambda>t fk key page cursor w. (Inr None, w)),
     pg_orphans = (\<lambda>t fk w. (Inr (Some 0), w)),
     pg_primary_key = (\<lambda>t w. (Inr [], w)), pg_tokens = (\<lambda>t pk n w. (Inr [], w)),
     pg_exists = (\<lambda>t w. (Inr True, w))\<rparr>"

definition keyless_validator :: "unit validator" where
  "keyless_validator = \<lparr>v_source = MySQL (mem_my demo_source_rows), v_own_rows = keyless_pg, v_target = keyless_pg,
     v_reads_own_rows = (\<lambda>n w. (Inr False, w)),
     v_column_types = (\<lambda>s n w. (Inr [(''a'', ''int'')], w)),
     v_source_tokens = (\<lambda>t pk n w. (Inr [], w)), v_target_tokens = (\<lambda>t pk n w. (Inr [], w)),
     v_kind = (\<lambda>c. ''plain''), v_scale = (\<lambda>c pg. 0), v_omits = (\<lambda>c pg. False),
     v_row_security_refusal = (\<lambda>e. False), v_row_security_hint = [],
     v_hook = (\<lambda>w. (Inr (), w)), v_page = 2, v_row_diff_size = 0,
     v_null_proof_columns = (\<lambda>n. []), v_legacy_proof_columns = (\<lambda>n. []),
     v_migration_excluded = (\<lambda>n. []), v_proof_blocks_match = True\<rparr>"

definition keyless_settings :: run_settings where
  "keyless_settings = \<lparr>rs_mode = CHECKSUM, rs_watermark = None, rs_orphans = True, rs_reconcile = True,
     rs_deep_only = False\<rparr>"

definition keyless_fk :: foreign_key where
  "keyless_fk = \<lparr>fk_name = ''fk'', referenced_table = ''s.parent'', created_on_target = True\<rparr>"

definition keyless_one :: "table_task \<Rightarrow> (unit reading, table_result \<times> orphan_report) proc" where
  "keyless_one = validate_task keyless_validator keyless_settings (\<lambda>w. (Inr False, w))"

definition keyless_outcome :: "pyexc + table_result \<times> orphan_report" where
  "keyless_outcome =
     (case keyless_one (keyless_table, [keyless_fk]) \<lparr>db = (), acc = new_proof [] [], live_keys = []\<rparr> of
        Some (x, r) \<Rightarrow> x
      | None \<Rightarrow> Inl (runtime_error [] []))"

text \<open>The keys of the target that a run of this table has read, before and after.\<close>

definition keyless_fine :: "unit reading \<Rightarrow> bool" where
  "keyless_fine r \<longleftrightarrow> live_keys r = [] \<or> live_keys r = [(''s.k'', [])]"

lemma keyless_runs:
  "map_option (\<lambda>(x, s). (x, live_keys s)) (keyless_one (keyless_table, [keyless_fk]) \<lparr>db = (), acc = a, live_keys = []\<rparr>)
    = Some (keyless_outcome, [(''s.k'', [])])"
  "map_option (\<lambda>(x, s). (x, live_keys s)) (keyless_one (keyless_table, [keyless_fk]) \<lparr>db = (), acc = a, live_keys = [(''s.k'', [])]\<rparr>)
    = Some (keyless_outcome, [(''s.k'', [])])"
  by code_simp+

lemma keyless_matches: "(case keyless_outcome of Inl e \<Rightarrow> False | Inr (item, rep) \<Rightarrow> matched item \<and> or_findings rep = [])"
  by code_simp

section \<open>Workers in any order\<close>

text \<open>
  Tasks whose outcome depends on no other: each returns \<open>outcome task\<close> from any state of \<open>fine\<close>, and
  the stop is never requested.
\<close>

locale independent_tasks =
  fixes one :: "table_task \<Rightarrow> ('s, table_result \<times> orphan_report) proc" and cancel :: "('s, bool) proc"
    and tasks :: "table_task list" and outcome :: "table_task \<Rightarrow> pyexc + table_result \<times> orphan_report"
    and fine :: "'s \<Rightarrow> bool"
  assumes outcomes: "\<And>task s. task \<in> set tasks \<Longrightarrow> fine s \<Longrightarrow> \<exists>s'. one task s = Some (outcome task, s') \<and> fine s'"
    and never_stopped: "\<And>s. fine s \<Longrightarrow> \<exists>s'. cancel s = Some (Inr False, s') \<and> fine s'"
begin

definition slot_of :: "table_task \<Rightarrow> slot" where
  "slot_of task = map_sum id Some (outcome task)"

definition run_outcome :: "(table_result \<times> orphan_report) list \<Rightarrow> slot list \<Rightarrow>
    pyexc + (table_result \<times> orphan_report) list" where
  "run_outcome items slots = (case first_error slots of Some e \<Rightarrow> Inl e | None \<Rightarrow> Inr (items @ slot_results slots))"

lemma run_one_outcome:
  assumes "task \<in> set tasks" "fine s"
  shows "\<exists>s'. run_one one cancel task s = Some (slot_of task, s') \<and> fine s'"
proof -
  from never_stopped [OF assms(2)] obtain s1 where s1: "cancel s = Some (Inr False, s1)" "fine s1" by blast
  from outcomes [OF assms(1) s1(2)] obtain s2 where "one task s1 = Some (outcome task, s2)" "fine s2" by blast
  with s1 show ?thesis
    by (cases "outcome task") (auto simp: run_one_def slot_of_def and_then_def ret_def)
qed

lemma run_workers_outcomes:
  assumes "fine s" "set order \<subseteq> {..<length tasks}" "length slots = length tasks"
  shows "\<exists>s'. run_workers one cancel tasks order slots s
      = Some (Inr (map (\<lambda>i. if i \<in> set order then slot_of (tasks ! i) else slots ! i) [0..<length tasks]), s') \<and> fine s'"
  using assms
proof (induction order arbitrary: s slots)
  case Nil
  have "map (\<lambda>i. slots ! i) [0..<length tasks] = slots"
    by (rule nth_equalityI) (use Nil in auto)
  with Nil show ?case by (auto simp: ret_def)
next
  case (Cons i order)
  then have i: "i < length tasks" by auto
  with run_one_outcome [of "tasks ! i" s] Cons.prems(1) obtain s1 where
    s1: "run_one one cancel (tasks ! i) s = Some (slot_of (tasks ! i), s1)" "fine s1" by auto
  have "map (\<lambda>j. if j \<in> set order then slot_of (tasks ! j) else slots[i := slot_of (tasks ! i)] ! j) [0..<length tasks]
      = map (\<lambda>j. if j \<in> set (i # order) then slot_of (tasks ! j) else slots ! j) [0..<length tasks]"
    using Cons.prems(3) i by (auto simp: nth_list_update)
  with Cons.IH [of s1 "slots[i := slot_of (tasks ! i)]"] Cons.prems s1 show ?case by auto
qed

lemma parallel_outcome:
  assumes "fine s" "set order = {..<length tasks}"
  shows "\<exists>s'. validate_parallel one cancel tasks order s = Some (run_outcome [] (map slot_of tasks), s')"
proof -
  have "map (\<lambda>i. if i \<in> set order then slot_of (tasks ! i) else replicate (length tasks) (Inr None) ! i) [0..<length tasks]
      = map slot_of tasks"
    by (rule nth_equalityI) (use assms(2) in auto)
  with run_workers_outcomes [OF assms(1), of order "replicate (length tasks) (Inr None)"] assms(2)
  obtain s1 where s1: "run_workers one cancel tasks order (replicate (length tasks) (Inr None)) s
      = Some (Inr (map slot_of tasks), s1)" "fine s1" by auto
  from never_stopped [OF s1(2)] obtain s2 where "cancel s1 = Some (Inr False, s2)" by blast
  with s1 show ?thesis
    by (auto simp: validate_parallel_def run_outcome_def and_then_def ret_def raising_def split: option.splits)
qed

lemma serial_outcome:
  assumes "fine s" "set todo \<subseteq> set tasks"
  shows "\<exists>s'. validate_serial one cancel todo items s
      = Some (run_outcome items (map slot_of todo), s')"
  using assms
proof (induction todo arbitrary: s items)
  case Nil
  then show ?case by (simp add: ret_def run_outcome_def slot_results_def List.map_filter_def)
next
  case (Cons task todo)
  from never_stopped [OF Cons.prems(1)] obtain s1 where s1: "cancel s = Some (Inr False, s1)" "fine s1" by blast
  from Cons.prems(2) outcomes [OF _ s1(2), of task] obtain s2 where s2: "one task s1 = Some (outcome task, s2)" "fine s2"
    by auto
  show ?case
  proof (cases "outcome task")
    case (Inl e)
    with s1 s2 show ?thesis by (simp add: and_then_def run_outcome_def slot_of_def)
  next
    case (Inr res)
    have "set todo \<subseteq> set tasks" using Cons.prems(2) by simp
    from Cons.IH [OF s2(2) this] obtain s3 where
      "validate_serial one cancel todo (items @ [res]) s2
        = Some (run_outcome (items @ [res]) (map slot_of todo), s3)" by blast
    moreover have "slot_of task = Inr (Some res)" by (simp add: slot_of_def Inr)
    ultimately show ?thesis using Inr s1 s2
      by (auto simp: and_then_def run_outcome_def slot_results_def List.map_filter_simps split: option.splits)
  qed
qed

lemma parallel_serial:
  assumes "fine s" "set order = {..<length tasks}"
  shows "map_option fst (validate_parallel one cancel tasks order s) = map_option fst (validate_serial one cancel tasks [] s)"
  using parallel_outcome [OF assms] serial_outcome [OF assms(1) subset_refl, of "[]"] by auto

end

abbreviation keyless_tasks :: "table_task list" where
  "keyless_tasks \<equiv> [(keyless_table, [keyless_fk]), (keyless_table, [keyless_fk])]"

interpretation keyless_tasks: independent_tasks keyless_one "ret False" keyless_tasks "\<lambda>task. keyless_outcome" keyless_fine
proof
  fix task and s :: "unit reading" assume "task \<in> set keyless_tasks" and fine: "keyless_fine s"
  then have task: "task = (keyless_table, [keyless_fk])" by auto
  obtain a l where s: "s = \<lparr>db = (), acc = a, live_keys = l\<rparr>" by (cases s) auto
  with fine keyless_runs [of a] show "\<exists>s'. keyless_one task s = Some (keyless_outcome, s') \<and> keyless_fine s'"
    unfolding task by (auto simp: keyless_fine_def)
qed (simp add: ret_def)

section \<open>Properties\<close>







lemma colon_not_in_int_str: "CHR '':'' \<notin> set (int_str i)"
proof -
  have "\<not> is_digit (CHR '':'')" by (simp add: is_digit_def)
  with nat_str_digits [of "nat i"] nat_str_digits [of "nat (- i)"] show ?thesis by (auto simp: int_str_def)
qed

text \<open>
  Drift is reported exactly when it happened. A drift report is determined exactly when both
  sides carry a GTID set or both a binlog coordinate, and only a determined one says drifted; the GTID sets decide
  when both are known, else the coordinates, and the two coordinates it shows, \<open>file:position\<close>, are
  the same text exactly when file and position are the same.
\<close>

theorem drift_determined:
  assumes "build_drift (Some w) gtid file pos pg = Some d"
  shows "(determinable d \<longleftrightarrow> gtid_executed w \<noteq> None \<and> gtid \<noteq> None
        \<or> watermark_binlog d \<noteq> None \<and> current_binlog d \<noteq> None)
    \<and> (drifted d \<longrightarrow> determinable d)
    \<and> (gtid_executed w \<noteq> None \<and> gtid \<noteq> None \<longrightarrow> (drifted d \<longleftrightarrow> gtid \<noteq> gtid_executed w))
    \<and> (gtid_executed w = None \<or> gtid = None \<longrightarrow> determinable d \<longrightarrow>
         (drifted d \<longleftrightarrow> (file, pos) \<noteq> (binlog_file w, binlog_position w))
         \<and> (drifted d \<longleftrightarrow> watermark_binlog d \<noteq> current_binlog d))"
proof -
  have coordinate: "format_binlog_coordinate f p = None \<longleftrightarrow> falsy f \<or> p = None" for f p
    by (auto simp: format_binlog_coordinate_def falsy_def split: option.splits)
  have same: "format_binlog_coordinate f p = format_binlog_coordinate g q \<longleftrightarrow> (f, p) = (g, q)"
    if "\<not> falsy f" "p \<noteq> None" "\<not> falsy g" "q \<noteq> None" for f p g q
  proof -
    from that obtain f' p' g' q' where names: "f = Some f'" "p = Some p'" "g = Some g'" "q = Some q'" "f' \<noteq> []" "g' \<noteq> []"
      by (auto simp: falsy_def)
    have "f' @ CHR '':'' # int_str p' = g' @ CHR '':'' # int_str q' \<longleftrightarrow> f' = g' \<and> p' = q'"
      using py_rpartition_append [OF colon_not_in_int_str, of f' p'] py_rpartition_append [OF colon_not_in_int_str, of g' q']
      by (metis Pair_inject option.inject py_int_int_str)
    with names show ?thesis by (simp add: format_binlog_coordinate_def)
  qed
  have advanced: "binlog_advanced wf wp cf cp =
      (if falsy wf \<or> wp = None \<or> falsy cf \<or> cp = None then None else Some ((cf, cp) \<noteq> (wf, wp)))" for wf wp cf cp
    by (auto simp: binlog_advanced_def)
  show ?thesis
  proof (cases "gtid_executed w \<noteq> None \<and> gtid \<noteq> None")
    case True
    with assms show ?thesis by (auto simp: build_drift_def Let_def)
  next
    case False
    define known where "known \<longleftrightarrow> \<not> falsy (binlog_file w) \<and> binlog_position w \<noteq> None \<and> \<not> falsy file \<and> pos \<noteq> None"
    let ?moved = "binlog_advanced (binlog_file w) (binlog_position w) file pos"
    have raw: "determinable d \<longleftrightarrow> ?moved \<noteq> None" "drifted d \<longleftrightarrow> ?moved = Some True"
      "watermark_binlog d = format_binlog_coordinate (binlog_file w) (binlog_position w)"
      "current_binlog d = format_binlog_coordinate file pos"
      by (cases "gtid_executed w"; cases gtid; cases ?moved; use assms False in \<open>auto simp: build_drift_def Let_def\<close>)+
    then have d: "determinable d \<longleftrightarrow> known" "drifted d \<longleftrightarrow> known \<and> (file, pos) \<noteq> (binlog_file w, binlog_position w)"
      "watermark_binlog d = format_binlog_coordinate (binlog_file w) (binlog_position w)"
      "current_binlog d = format_binlog_coordinate file pos"
      by (auto simp: advanced known_def)
    have texts: "watermark_binlog d \<noteq> None \<and> current_binlog d \<noteq> None \<longleftrightarrow> known"
      unfolding d(3,4) coordinate known_def by simp
    have moved: "drifted d \<longleftrightarrow> watermark_binlog d \<noteq> current_binlog d" if known
    proof -
      from that have "format_binlog_coordinate (binlog_file w) (binlog_position w) = format_binlog_coordinate file pos
          \<longleftrightarrow> (binlog_file w, binlog_position w) = (file, pos)"
        by (intro same) (simp_all add: known_def)
      with that show ?thesis unfolding d(2,3,4) by auto
    qed
    show ?thesis
      unfolding d(1) texts using False moved d(2) by (intro conjI impI) blast+
  qed
qed

theorem drift_determined_witness:
  "(\<exists>d. build_drift (Some \<lparr>row_counts_approximate = False, table_row_counts = (\<lambda>n. None), gtid_executed = None,
        binlog_file = Some ''mysql-bin.000001'', binlog_position = Some 4\<rparr>) None (Some ''mysql-bin.000001'') (Some 8) False = Some d
     \<and> drifted d)"
proof -
  let ?w = "\<lparr>row_counts_approximate = False, table_row_counts = (\<lambda>n. None), gtid_executed = None,
        binlog_file = Some ''mysql-bin.000001'', binlog_position = Some 4\<rparr>"
  obtain d where d: "build_drift (Some ?w) None (Some ''mysql-bin.000001'') (Some 8) False = Some d"
    by (simp add: build_drift_def Let_def)
  then have "watermark_binlog d \<noteq> None \<and> current_binlog d \<noteq> None"
    by (auto simp: build_drift_def Let_def binlog_advanced_def format_binlog_coordinate_def falsy_def)
  with drift_determined [OF d] have "drifted d" by simp
  with d show ?thesis by blast
qed

end
