(* ===== verification/Ledger.thy ===== *)
theory Ledger
  imports Occ PyString "HOL-Library.List_Lexorder" "HOL-Library.Char_ord"
begin

text \<open>
  \<^verbatim>\<open>core/overlay_ledger.py\<close>: the record of what the column-exclusion overlay changed on the target. The pure
  rules (\<open>plan_ledger_record\<close> and the append predicates), the verified merge of the two kinds of stores,
  and one run's view of the ledger. \<open>hashlib.sha256\<close> and the reader of a DDL's constraints (sqlglot) are
  fields of \<open>ledger_env\<close>; times are texts; JSON is the identity on the records.
\<close>

section \<open>Records\<close>

datatype recorded_ddl_state = Declared | NoDefault | Unreadable

record ledger_column =
  lc_column :: string
  original_default :: "string option"
  recorded_ddl_digest :: "string option"
  recorded_state :: recorded_ddl_state
  recorded_ddl_default :: "string option"
  dropped_not_null :: bool
  restored_at :: "string option"
  restore_error :: "string option"

record ledger_table =
  lt_table :: string
  lt_digest :: string
  lt_set_columns :: "string list"
  empty_when_applied :: bool
  applied_at :: string
  lt_columns :: "ledger_column list"

definition ledger_column_of :: "ledger_table \<Rightarrow> string \<Rightarrow> ledger_column option" where
  "ledger_column_of r name = find (\<lambda>c. lc_column c = name) (lt_columns r)"

text \<open>A live column as the overlay sees it, and a live table.\<close>

record null_facts =
  not_null :: bool
  default_expr :: "string option"
  is_identity :: bool
  is_generated :: bool

definition computed :: "null_facts \<Rightarrow> bool" where
  "computed f = (is_identity f \<or> is_generated f)"

record table_facts =
  tf_exists :: bool
  tf_has_rows :: "bool option"
  tf_columns :: "string \<Rightarrow> null_facts option"

record ledger_env =
  sha256 :: "string \<Rightarrow> string"
  ddl_constraints :: "string \<Rightarrow> string \<Rightarrow> (bool \<times> string option) option"

text \<open>\<open>set_digest\<close>: the NUL-joined sorted distinct names, hashed.\<close>

definition digest_text :: "string list \<Rightarrow> string" where
  "digest_text cols = ''v1|'' @ join_with [char_of (0 :: nat)] (sort (remdups cols))"

definition set_digest :: "ledger_env \<Rightarrow> string list \<Rightarrow> string" where
  "set_digest env cols = sha256 env (digest_text cols)"

definition ddl_digest :: "ledger_env \<Rightarrow> string option \<Rightarrow> string option" where
  "ddl_digest env ddl = (case ddl of None \<Rightarrow> None | Some d \<Rightarrow> if d = [] then None else Some (sha256 env d))"

definition recorded_ddl_fields :: "ledger_env \<Rightarrow> string option \<Rightarrow> string \<Rightarrow>
    string option \<times> recorded_ddl_state \<times> string option" where
  "recorded_ddl_fields env ddl column =
     (case ddl of
        None \<Rightarrow> (None, Unreadable, None)
      | Some d \<Rightarrow>
          if d = [] then (None, Unreadable, None)
          else (case ddl_constraints env d column of
                  None \<Rightarrow> (ddl_digest env ddl, Unreadable, None)
                | Some (nn, None) \<Rightarrow> (ddl_digest env ddl, NoDefault, None)
                | Some (nn, Some dflt) \<Rightarrow> (ddl_digest env ddl, Declared, Some dflt)))"

section \<open>What a table's record becomes\<close>

datatype ledger_decision = LWrite ledger_table | LDelete | LUnchanged "ledger_table option"

text \<open>\<open>{c.column: c for c in existing.columns}\<close>.\<close>

definition entries_by_name :: "ledger_table option \<Rightarrow> (string, ledger_column) pydict" where
  "entries_by_name existing =
     (case existing of
        None \<Rightarrow> []
      | Some r \<Rightarrow> fold (\<lambda>c d. dict_set (lc_column c) c d) (lt_columns r) [])"

text \<open>The entry of one overlaid column, if it gets one.\<close>

definition plan_entry :: "ledger_env \<Rightarrow> string option \<Rightarrow> ledger_column option \<Rightarrow> string \<Rightarrow> null_facts \<Rightarrow>
    ledger_column option" where
  "plan_entry env ddl prior name f =
     (case default_expr f of
        Some d \<Rightarrow>
          (case recorded_ddl_fields env ddl name of
             (digest, st, dflt) \<Rightarrow>
               Some \<lparr>lc_column = name, original_default = Some d, recorded_ddl_digest = digest, recorded_state = st,
                 recorded_ddl_default = dflt,
                 dropped_not_null = ((case prior of Some p \<Rightarrow> dropped_not_null p | None \<Rightarrow> False) \<or> not_null f),
                 restored_at = None, restore_error = None\<rparr>)
      | None \<Rightarrow>
          (case prior of
             Some p \<Rightarrow> Some (p\<lparr>dropped_not_null := dropped_not_null p \<or> not_null f\<rparr>)
           | None \<Rightarrow>
               if not_null f
               then Some \<lparr>lc_column = name, original_default = None, recorded_ddl_digest = None,
                      recorded_state = Unreadable, recorded_ddl_default = None, dropped_not_null = True,
                      restored_at = None, restore_error = None\<rparr>
               else None))"

text \<open>One round of the loop over the overlaid columns.\<close>

definition entry_step :: "ledger_env \<Rightarrow> string option \<Rightarrow> (string, null_facts) pydict \<Rightarrow> (string \<Rightarrow> ledger_column option) \<Rightarrow>
    string \<Rightarrow> (string, ledger_column) pydict \<Rightarrow> (string, ledger_column) pydict" where
  "entry_step env ddl facts prior name cols =
     (case map_of facts name of
        None \<Rightarrow> cols
      | Some f \<Rightarrow> (case plan_entry env ddl (prior name) name f of None \<Rightarrow> cols | Some e \<Rightarrow> dict_set name e cols))"

definition plan_columns :: "ledger_env \<Rightarrow> ledger_table option \<Rightarrow> (string, null_facts) pydict \<Rightarrow> bool \<Rightarrow>
    string option \<Rightarrow> (string, ledger_column) pydict" where
  "plan_columns env existing facts recreated ddl =
     (let old = entries_by_name existing;
          kept = filter (\<lambda>(n, e). n \<notin> fst ` set facts \<and> \<not> recreated) old
      in fold (entry_step env ddl facts (\<lambda>name. if recreated then None else map_of old name))
          (sort (map fst facts)) kept)"

text \<open>The column set of a written record, its digest, and whether every row is written under it.\<close>

definition plan_set :: "ledger_env \<Rightarrow> ledger_table option \<Rightarrow> string list \<Rightarrow> bool \<Rightarrow> bool \<Rightarrow> string list \<times> string \<times> bool" where
  "plan_set env existing current has_rows recreated =
     (let digest_now = set_digest env current
      in if recreated \<or> \<not> has_rows then (current, digest_now, True)
         else case existing of
                Some r \<Rightarrow> if lt_digest r = digest_now then (lt_set_columns r, lt_digest r, empty_when_applied r)
                          else (current, digest_now, False)
              | None \<Rightarrow> (current, digest_now, False))"

definition plan_ledger_record :: "ledger_env \<Rightarrow> ledger_table option \<Rightarrow> string \<Rightarrow> (string, null_facts) pydict \<Rightarrow> bool \<Rightarrow>
    bool \<Rightarrow> string option \<Rightarrow> string \<Rightarrow> string list \<Rightarrow> ledger_decision" where
  "plan_ledger_record env existing table facts has_rows recreated ddl now reincluded =
     (if facts = [] \<and> existing \<noteq> None \<and> has_rows \<and> \<not> recreated
      then (if reincluded \<noteq> [] \<and> empty_when_applied (the existing)
            then LWrite ((the existing)\<lparr>empty_when_applied := False, applied_at := now\<rparr>)
            else LUnchanged existing)
      else let columns = plan_columns env existing facts recreated ddl;
               current = sort (map fst facts);
               s = plan_set env existing current has_rows recreated
           in if columns = [] \<and> current = []
              then (if existing = None then LUnchanged None else LDelete)
              else LWrite \<lparr>lt_table = table, lt_digest = fst (snd s), lt_set_columns = fst s,
                     empty_when_applied = snd (snd s), applied_at = now,
                     lt_columns = map (\<lambda>c. the (map_of columns c)) (sort (map fst columns))\<rparr>)"

section \<open>Whether an append keeps the contract\<close>

definition append_accepted :: "ledger_env \<Rightarrow> ledger_table option \<Rightarrow> string list \<Rightarrow> bool" where
  "append_accepted env rec present =
     (case rec of None \<Rightarrow> False | Some r \<Rightarrow> lt_digest r = set_digest env present \<and> empty_when_applied r)"

definition reincluded_columns :: "ledger_table option \<Rightarrow> string list \<Rightarrow> string list \<Rightarrow> string list" where
  "reincluded_columns rec present_live omitted =
     (case rec of
        None \<Rightarrow> []
      | Some r \<Rightarrow> sort (filter (\<lambda>c. c \<in> set present_live \<and> c \<notin> set omitted) (lt_set_columns r)))"

datatype append_refusal = OverlayRefusal "string list" | ReincludedRefusal "string list"

definition append_refusal_of :: "ledger_env \<Rightarrow> ledger_table option \<Rightarrow> bool \<Rightarrow> bool \<Rightarrow> string list \<Rightarrow> string list \<Rightarrow>
    string list \<Rightarrow> append_refusal option" where
  "append_refusal_of env rec has_rows exempt overlay_present present_live omitted =
     (if \<not> has_rows \<or> exempt then None
      else if overlay_present \<noteq> [] \<and> \<not> append_accepted env rec overlay_present
      then Some (OverlayRefusal (sort overlay_present))
      else let back = reincluded_columns rec present_live omitted
           in if back \<noteq> [] then Some (ReincludedRefusal back) else None)"

definition append_verdict :: "ledger_env \<Rightarrow> ledger_table option \<Rightarrow> table_facts \<Rightarrow> string list \<Rightarrow> string list \<Rightarrow>
    string list \<Rightarrow> string list \<Rightarrow> append_refusal option \<times> string list" where
  "append_verdict env rec tf overlay_live computed_cols excluded source_columns =
     (let recorded = (case rec of None \<Rightarrow> [] | Some r \<Rightarrow> lt_set_columns r);
          not_written = filter (\<lambda>c. c \<notin> set source_columns
             \<or> (case tf_columns tf c of None \<Rightarrow> False | Some f \<Rightarrow> computed f)) recorded;
          present_live = filter (\<lambda>c. tf_columns tf c \<noteq> None) recorded;
          omitted = sort (remdups (excluded @ computed_cols @ not_written))
      in (append_refusal_of env rec (tf_has_rows tf = Some True) False (sort overlay_live) present_live omitted,
          reincluded_columns rec present_live omitted))"

text \<open>\<open>_live_overlay\<close>: the overlay columns present and not computed, and those Aurora DSQL computes.\<close>

definition live_overlay :: "table_facts \<Rightarrow> string list \<Rightarrow> (string, null_facts) pydict \<times> string list" where
  "live_overlay tf overlay =
     (let present = List.map_filter (\<lambda>c. map_option (Pair c) (tf_columns tf c)) (sort (remdups overlay))
      in (filter (\<lambda>(c, f). \<not> computed f) present, map fst (filter (\<lambda>(c, f). computed f) present)))"

text \<open>\<open>recorded_default_mismatches\<close> and the record after a cut-over restore.\<close>

definition recorded_default_mismatches :: "(string \<Rightarrow> null_facts option) \<Rightarrow> string list \<Rightarrow> (string \<Rightarrow> string option) \<Rightarrow>
    string list" where
  "recorded_default_mismatches facts cols recorded =
     sort (filter (\<lambda>c. case facts c of
         None \<Rightarrow> False
       | Some f \<Rightarrow> default_expr f \<noteq> None \<and> default_expr f \<noteq> recorded c) cols)"

datatype restore_status = Restored | RestoreDone | Gone | OtherStatus string

definition restored_entry :: "(string \<Rightarrow> (restore_status \<times> string option) option) \<Rightarrow> string \<Rightarrow> ledger_column \<Rightarrow>
    ledger_column option" where
  "restored_entry results now e =
     (case results (lc_column e) of
        None \<Rightarrow> Some e
      | Some (Gone, err) \<Rightarrow> None
      | Some (Restored, err) \<Rightarrow> Some (e\<lparr>restored_at := Some now, restore_error := None\<rparr>)
      | Some (RestoreDone, err) \<Rightarrow> Some (e\<lparr>restored_at := Some now, restore_error := None\<rparr>)
      | Some (OtherStatus st, err) \<Rightarrow>
          Some (e\<lparr>restore_error := Some (case err of None \<Rightarrow> st | Some m \<Rightarrow> if m = [] then st else m)\<rparr>))"

definition apply_restore_results :: "ledger_table \<Rightarrow> (string \<Rightarrow> (restore_status \<times> string option) option) \<Rightarrow> string \<Rightarrow>
    ledger_table" where
  "apply_restore_results r results now = r\<lparr>lt_columns := List.map_filter (restored_entry results now) (lt_columns r)\<rparr>"

section \<open>The planned record\<close>

definition named_dict :: "(string, ledger_column) pydict \<Rightarrow> bool" where
  "named_dict d = (dict_ok d \<and> (\<forall>p \<in> set d. lc_column (snd p) = fst p))"

lemma named_dict_ok: "named_dict d \<Longrightarrow> dict_ok d"
  by (simp add: named_dict_def)

lemma named_dictD: "named_dict d \<Longrightarrow> map_of d n = Some e \<Longrightarrow> lc_column e = n"
  unfolding named_dict_def by (force dest: map_of_SomeD)

lemma named_dictI: "dict_ok d \<Longrightarrow> (\<And>n e. map_of d n = Some e \<Longrightarrow> lc_column e = n) \<Longrightarrow> named_dict d"
  unfolding named_dict_def by (metis map_of_is_SomeI prod.collapse)

lemma named_dict_set: "named_dict d \<Longrightarrow> named_dict (dict_set (lc_column c) c d)"
  unfolding named_dict_def by (auto simp: set_dict_set)

lemma named_fold: "named_dict d \<Longrightarrow> named_dict (fold (\<lambda>c d. dict_set (lc_column c) c d) cs d)"
  by (induction cs arbitrary: d) (simp_all add: named_dict_set)

lemma entries_by_name_ok: "named_dict (entries_by_name existing)"
proof (cases existing)
  case (Some r)
  have "named_dict []" by (simp add: named_dict_def)
  from named_fold [OF this] show ?thesis by (simp add: entries_by_name_def Some)
qed (simp add: entries_by_name_def named_dict_def)

lemma map_of_filter_key: "map_of (filter (\<lambda>(n, e). P n) d) n = (if P n then map_of d n else None)"
  by (induction d) auto

text \<open>The entries of a record, and the entries of the record written from them.\<close>

definition entries :: "ledger_table option \<Rightarrow> string \<Rightarrow> ledger_column option" where
  "entries existing = map_of (entries_by_name existing)"

lemma entries_None [simp]: "entries None = Map.empty"
  by (simp add: entries_def entries_by_name_def)

lemma map_of_fold_entries:
  "distinct (map lc_column cs) \<Longrightarrow> map_of (fold (\<lambda>c d. dict_set (lc_column c) c d) cs d)
    = map_of d ++ map_of (map (\<lambda>c. (lc_column c, c)) cs)"
proof (induction cs arbitrary: d)
  case (Cons c cs)
  then have "lc_column c \<notin> dom (map_of (map (\<lambda>c. (lc_column c, c)) cs))" by (auto simp: dom_map_of_conv_image_fst)
  with Cons show ?case by (auto simp: fun_eq_iff map_add_def split: option.splits)
qed simp

lemma entries_of_dict:
  assumes "named_dict d" "lt_columns r = map (\<lambda>c. the (map_of d c)) (sort (map fst d))"
  shows "entries (Some r) = map_of d"
proof -
  let ?cs = "sort (map fst d)"
  have val: "\<exists>e. map_of d c = Some e \<and> lc_column e = c" if "c \<in> set ?cs" for c
  proof -
    from that have "c \<in> fst ` set d" by simp
    then have "c \<in> dom (map_of d)" by (simp add: dom_map_of_conv_image_fst)
    then obtain e where "map_of d c = Some e" by auto
    with named_dictD [OF assms(1)] show ?thesis by blast
  qed
  have named: "lc_column (the (map_of d c)) = c" if "c \<in> set ?cs" for c
    using val [OF that] by auto
  then have names: "map lc_column (lt_columns r) = ?cs"
    unfolding assms(2) map_map by - (rule map_idI, simp only: comp_apply named)
  then have "distinct (map lc_column (lt_columns r))" using named_dict_ok [OF assms(1)] by simp
  from map_of_fold_entries [OF this, of "[]"]
  have e: "entries (Some r) = map_of (map (\<lambda>c. (lc_column c, c)) (lt_columns r))"
    by (simp add: entries_def entries_by_name_def)
  have "map (\<lambda>c. (lc_column c, c)) (lt_columns r) = map (\<lambda>c. (c, the (map_of d c))) ?cs"
    unfolding assms(2) map_map by (rule map_cong [OF refl]) (simp only: comp_apply named)
  moreover have "map_of (map (\<lambda>c. (c, the (map_of d c))) ?cs) n = map_of d n" for n
  proof (cases "n \<in> set ?cs")
    case True
    with val show ?thesis by (fastforce simp: map_of_map_restrict)
  next
    case False
    then have "map_of d n = None" by (simp add: map_of_eq_None_iff)
    with False show ?thesis by (simp add: map_of_map_restrict)
  qed
  ultimately show ?thesis unfolding e by auto
qed

text \<open>The entry of a column after the plan.\<close>

definition planned :: "ledger_env \<Rightarrow> ledger_table option \<Rightarrow> (string, null_facts) pydict \<Rightarrow> bool \<Rightarrow> string option \<Rightarrow> string \<Rightarrow>
    ledger_column option" where
  "planned env existing facts recreated ddl n =
     (let prior = (if recreated then None else entries existing n)
      in case map_of facts n of None \<Rightarrow> prior | Some f \<Rightarrow> plan_entry env ddl prior n f)"

lemma plan_entry_name:
  "(case prior of None \<Rightarrow> True | Some p \<Rightarrow> lc_column p = n) \<Longrightarrow> plan_entry env ddl prior n f = Some e \<Longrightarrow> lc_column e = n"
  by (auto simp: plan_entry_def split: option.splits if_splits prod.splits)

lemma plan_fold:
  assumes "distinct names" "set names \<inter> fst ` set cols = {}" "dict_ok cols"
    and "\<And>n. n \<in> set names \<Longrightarrow> map_of facts n \<noteq> None"
  shows "dict_ok (fold (entry_step env ddl facts prior) names cols) \<and> map_of (fold (entry_step env ddl facts prior) names cols)
    = (\<lambda>n. if n \<in> set names then plan_entry env ddl (prior n) n (the (map_of facts n)) else map_of cols n)"
  using assms
proof (induction names arbitrary: cols)
  case (Cons name names)
  let ?step = "entry_step env ddl facts prior"
  from Cons.prems(4) obtain f where f: "map_of facts name = Some f" by fastforce
  have step: "?step name cols = (case plan_entry env ddl (prior name) name f of None \<Rightarrow> cols | Some e \<Rightarrow> dict_set name e cols)"
    by (simp add: entry_step_def f)
  have "set names \<inter> fst ` set (?step name cols) = {}" "dict_ok (?step name cols)"
    using Cons.prems by (auto simp: step split: option.splits)
  from Cons.IH [OF _ this] Cons.prems have IH: "dict_ok (fold ?step names (?step name cols))"
    "map_of (fold ?step names (?step name cols))
      = (\<lambda>n. if n \<in> set names then plan_entry env ddl (prior n) n (the (map_of facts n)) else map_of (?step name cols) n)"
    by auto
  have "map_of cols name = None" using Cons.prems(2) by (auto simp: map_of_eq_None_iff)
  then have "map_of (?step name cols) = (map_of cols)(name := plan_entry env ddl (prior name) name f)"
    by (auto simp: step split: option.splits)
  with IH f show ?case by (auto simp: fun_eq_iff)
qed simp

lemma plan_columns_ok:
  assumes "dict_ok facts"
  shows "named_dict (plan_columns env existing facts recreated ddl)
    \<and> map_of (plan_columns env existing facts recreated ddl) = planned env existing facts recreated ddl"
proof -
  let ?old = "entries_by_name existing"
  let ?kept = "filter (\<lambda>(n, e). n \<notin> fst ` set facts \<and> \<not> recreated) ?old"
  let ?prior = "\<lambda>n. if recreated then None else map_of ?old n"
  note old = entries_by_name_ok [of existing]
  have ok: "dict_ok ?kept" using named_dict_ok [OF old] by (auto simp: distinct_map_filter)
  have kept: "map_of ?kept n = (if n \<in> fst ` set facts \<or> recreated then None else map_of ?old n)" for n
    by (simp only: map_of_filter_key [of "\<lambda>n. n \<notin> fst ` set facts \<and> \<not> recreated"] de_Morgan_conj split: if_split) simp
  have "dict_ok (plan_columns env existing facts recreated ddl)
    \<and> map_of (plan_columns env existing facts recreated ddl)
      = (\<lambda>n. if n \<in> set (sort (map fst facts)) then plan_entry env ddl (?prior n) n (the (map_of facts n)) else map_of ?kept n)"
    unfolding plan_columns_def Let_def using assms
    by (intro plan_fold ok) (force simp: map_of_eq_None_iff)+
  then have cols: "dict_ok (plan_columns env existing facts recreated ddl)"
    and at: "map_of (plan_columns env existing facts recreated ddl) n
      = (if n \<in> fst ` set facts then plan_entry env ddl (?prior n) n (the (map_of facts n)) else map_of ?kept n)" for n
    by simp_all
  have main: "map_of (plan_columns env existing facts recreated ddl) n = planned env existing facts recreated ddl n" for n
  proof (cases "map_of facts n")
    case None
    then have "n \<notin> fst ` set facts" by (simp add: map_of_eq_None_iff)
    with None show ?thesis by (simp add: at kept planned_def entries_def)
  next
    case (Some f)
    then have "n \<in> fst ` set facts" by (metis map_of_eq_None_iff option.distinct(1))
    with Some show ?thesis by (simp add: at planned_def entries_def)
  qed
  have "lc_column e = n" if p: "planned env existing facts recreated ddl n = Some e" for n e
  proof -
    let ?p = "if recreated then None else entries existing n"
    have prior: "case ?p of None \<Rightarrow> True | Some p \<Rightarrow> lc_column p = n"
      using named_dictD [OF old] by (auto simp: entries_def split: option.splits)
    from p show ?thesis
    proof (cases "map_of facts n")
      case None
      with p prior show ?thesis by (simp add: planned_def Let_def split: if_splits)
    next
      case (Some f)
      with p have "plan_entry env ddl ?p n f = Some e" by (simp add: planned_def Let_def)
      with prior show ?thesis by (rule plan_entry_name)
    qed
  qed
  then have "named_dict (plan_columns env existing facts recreated ddl)"
    using cols main by (intro named_dictI) auto
  with main show ?thesis by auto
qed

definition decided :: "ledger_table option \<Rightarrow> ledger_decision \<Rightarrow> ledger_table option" where
  "decided existing d = (case d of LWrite r \<Rightarrow> Some r | LDelete \<Rightarrow> None | LUnchanged e \<Rightarrow> existing)"

lemma decided_simps [simp]:
  "decided existing (LWrite r) = Some r" "decided existing LDelete = None" "decided existing (LUnchanged e) = existing"
  by (simp_all add: decided_def)

lemma plan_columns_empty:
  assumes "dict_ok facts"
  shows "plan_columns env existing facts recreated ddl = [] \<longleftrightarrow> planned env existing facts recreated ddl = Map.empty"
  using plan_columns_ok [OF assms, of env existing recreated ddl] by (metis map_of_eq_empty_iff)

lemma entries_plan:
  assumes "dict_ok facts"
  shows "entries (decided existing (plan_ledger_record env existing t facts has_rows recreated ddl now back))
    = planned env existing facts recreated ddl"
proof (cases "facts = [] \<and> existing \<noteq> None \<and> has_rows \<and> \<not> recreated")
  case True
  then obtain r where r: "existing = Some r" by auto
  have "planned env existing facts recreated ddl = entries existing"
    using True by (simp add: planned_def fun_eq_iff)
  moreover have "entries (Some (r\<lparr>empty_when_applied := False, applied_at := now\<rparr>)) = entries (Some r)"
    by (simp add: entries_def entries_by_name_def)
  ultimately show ?thesis using True r by (simp add: plan_ledger_record_def)
next
  case False
  let ?cols = "plan_columns env existing facts recreated ddl"
  note cols = plan_columns_ok [OF assms, of env existing recreated ddl]
  show ?thesis
  proof (cases "?cols = [] \<and> sort (map fst facts) = []")
    case True
    with cols have "planned env existing facts recreated ddl = Map.empty" by simp
    with False True show ?thesis by (auto simp: plan_ledger_record_def)
  next
    case nonempty: False
    then obtain r where plan: "plan_ledger_record env existing t facts has_rows recreated ddl now back = LWrite r"
      "lt_columns r = map (\<lambda>c. the (map_of ?cols c)) (sort (map fst ?cols))"
      unfolding plan_ledger_record_def Let_def if_not_P [OF False] if_not_P [OF nonempty] by simp
    from entries_of_dict [OF conjunct1 [OF cols] plan(2)] cols plan(1) show ?thesis by simp
  qed
qed

lemma plan_entry_idem:
  assumes "plan_entry env ddl prior n f = p"
  shows "plan_entry env ddl p n f = p"
  using assms by (auto simp: plan_entry_def split: option.splits prod.splits if_splits)

lemma planned_idem:
  assumes "entries existing' = planned env existing facts recreated ddl"
  shows "planned env existing' facts recreated ddl = planned env existing facts recreated ddl"
proof
  fix n
  show "planned env existing' facts recreated ddl n = planned env existing facts recreated ddl n"
    by (cases "map_of facts n"; cases recreated)
      (simp_all add: planned_def assms plan_entry_idem [OF refl])
qed

lemma plan_set_idem:
  assumes "lt_set_columns r = fst (plan_set env existing cur has_rows recreated)"
    "lt_digest r = fst (snd (plan_set env existing cur has_rows recreated))"
    "empty_when_applied r = snd (snd (plan_set env existing cur has_rows recreated))"
  shows "plan_set env (Some r) cur has_rows recreated = plan_set env existing cur has_rows recreated"
  using assms by (auto simp: plan_set_def Let_def split: option.splits if_splits)

lemma sorted_keys_eq:
  assumes "dict_ok d" "dict_ok d'" "map_of d = map_of d'"
  shows "sort (map fst d) = sort (map fst (d' :: (string, 'v) pydict))"
proof -
  have sorted: "sort xs = sorted_list_of_set (set xs)" if "distinct xs" for xs :: "string list"
    using that by (simp add: sorted_list_of_set_sort_remdups distinct_remdups_id)
  have "set (map fst d) = set (map fst d')" using assms(3) by (metis dom_map_of_conv_image_fst list.set_map)
  with assms(1,2) show ?thesis by (simp only: sorted)
qed

text \<open>Planned again on its own outcome, a record stays as it is.\<close>

lemma plan_stable:
  assumes "dict_ok facts"
    and "existing' = decided existing (plan_ledger_record env existing t facts has_rows recreated ddl now back)"
  shows "decided existing' (plan_ledger_record env existing' t facts has_rows recreated ddl now back) = existing'"
proof (cases "facts = [] \<and> existing \<noteq> None \<and> has_rows \<and> \<not> recreated")
  case True
  then obtain r where "existing = Some r" by auto
  with True assms(2) show ?thesis by (cases "empty_when_applied r"; cases "back = []") (auto simp: plan_ledger_record_def)
next
  case False
  let ?cols = "plan_columns env existing facts recreated ddl"
  let ?cols' = "plan_columns env existing' facts recreated ddl"
  have "entries existing' = planned env existing facts recreated ddl"
    unfolding assms(2) by (rule entries_plan [OF assms(1)])
  from planned_idem [OF this] have same: "map_of ?cols' = map_of ?cols"
    using plan_columns_ok [OF assms(1)] by metis
  have keys: "sort (map fst ?cols') = sort (map fst ?cols)"
    by (rule sorted_keys_eq) (use plan_columns_ok [OF assms(1)] same named_dict_ok in auto)
  show ?thesis
  proof (cases "?cols = [] \<and> sort (map fst facts) = []")
    case True
    with False assms(2) have none: "existing' = None" by (auto simp: plan_ledger_record_def)
    have "facts = []" using True by (metis map_is_Nil_conv set_empty2 set_sort)
    then have "?cols' = []" using none by (simp add: plan_columns_def entries_by_name_def)
    with none \<open>facts = []\<close> show ?thesis by (simp add: plan_ledger_record_def)
  next
    case nonempty: False
    let ?s = "plan_set env existing (sort (map fst facts)) has_rows recreated"
    obtain r where r: "existing' = Some r"
      "r = \<lparr>lt_table = t, lt_digest = fst (snd ?s), lt_set_columns = fst ?s,
            empty_when_applied = snd (snd ?s), applied_at = now,
            lt_columns = map (\<lambda>c. the (map_of ?cols c)) (sort (map fst ?cols))\<rparr>"
      unfolding assms(2) plan_ledger_record_def Let_def if_not_P [OF False] if_not_P [OF nonempty] by simp
    have path: "\<not> (facts = [] \<and> existing' \<noteq> None \<and> has_rows \<and> \<not> recreated)"
    proof
      assume b: "facts = [] \<and> existing' \<noteq> None \<and> has_rows \<and> \<not> recreated"
      with False have "existing = None" by blast
      with b have "?cols = []" by (simp add: plan_columns_def entries_by_name_def)
      with b nonempty show False by simp
    qed
    have nonempty': "\<not> (?cols' = [] \<and> sort (map fst facts) = [])"
      using nonempty keys by (metis map_is_Nil_conv set_empty2 set_sort)
    have "plan_set env existing' (sort (map fst facts)) has_rows recreated = ?s"
      unfolding r(1) by (rule plan_set_idem) (simp_all add: r(2))
    with r show ?thesis
      unfolding plan_ledger_record_def Let_def if_not_P [OF path] if_not_P [OF nonempty'] same keys by simp
  qed
qed

text \<open>
  \<open>_plan_record_merge\<close> of the Full Load engine: a plan that would only move \<open>applied_at\<close> writes nothing.
\<close>

definition plan_record_merge :: "ledger_env \<Rightarrow> string \<Rightarrow> (string, null_facts) pydict \<Rightarrow> bool \<Rightarrow> bool \<Rightarrow> string option \<Rightarrow>
    string \<Rightarrow> string list \<Rightarrow> ledger_table option \<Rightarrow> ledger_decision" where
  "plan_record_merge env t facts has_rows recreated ddl now reincluded existing =
     (let decision = plan_ledger_record env existing t facts has_rows recreated ddl now reincluded
      in case decision of
           LWrite r \<Rightarrow>
             (case existing of
                None \<Rightarrow> decision
              | Some x \<Rightarrow> if r\<lparr>applied_at := applied_at x\<rparr> = x then LUnchanged existing else decision)
         | _ \<Rightarrow> decision)"

lemma applied_at_same: "applied_at_update (\<lambda>a. a) r = r"
  by (cases r) simp

lemma applied_at_id: "applied_at_update (\<lambda>a. a) = id"
  by (simp add: fun_eq_iff applied_at_same)

lemma merge_decided:
  "\<exists>g. decided x (plan_record_merge env t facts has_rows recreated ddl now back x)
    = map_option (applied_at_update g) (decided x (plan_ledger_record env x t facts has_rows recreated ddl now back))"
proof (cases "plan_ledger_record env x t facts has_rows recreated ddl now back")
  case (LWrite r)
  show ?thesis
  proof (cases "\<exists>y. x = Some y \<and> r\<lparr>applied_at := applied_at y\<rparr> = y")
    case True
    then obtain y where y: "x = Some y" "r\<lparr>applied_at := applied_at y\<rparr> = y" by blast
    with LWrite show ?thesis
      by (intro exI [of _ "\<lambda>a. applied_at y"]) (simp add: plan_record_merge_def)
  next
    case False
    with LWrite show ?thesis
      by (intro exI [of _ "\<lambda>a. a"]) (auto simp: applied_at_same plan_record_merge_def Let_def split: option.split)
  qed
qed (auto simp: plan_record_merge_def applied_at_id option.map_id0 intro!: exI [of _ "\<lambda>a. a"] split: option.split)

lemma entries_applied_at: "entries (map_option (applied_at_update g) x) = entries x"
  by (cases x) (simp_all add: entries_def entries_by_name_def)

lemma entries_merge:
  "dict_ok facts \<Longrightarrow> entries (decided x (plan_record_merge env t facts has_rows recreated ddl now back x))
    = planned env x facts recreated ddl"
  using merge_decided [of x env t facts has_rows recreated ddl now "back"] by (metis entries_applied_at entries_plan)

lemma merge_stable:
  assumes "dict_ok facts" "x' = decided x (plan_record_merge env t facts has_rows recreated ddl now back x)"
  shows "decided x' (plan_record_merge env t facts has_rows recreated ddl now back x') = x'"
proof (cases "\<exists>y. x = Some y \<and> x' = x \<and> plan_record_merge env t facts has_rows recreated ddl now back x = LUnchanged x")
  case True
  then show ?thesis by auto
next
  case False
  with assms(2) have "x' = decided x (plan_ledger_record env x t facts has_rows recreated ddl now back)"
    by (auto simp: plan_record_merge_def Let_def split: ledger_decision.splits option.splits if_splits)
  from plan_stable [OF assms(1) this]
  have "decided x' (plan_ledger_record env x' t facts has_rows recreated ddl now back) = x'" .
  then show ?thesis
    by (auto simp: plan_record_merge_def Let_def split: ledger_decision.splits option.splits)
qed

section \<open>One column set, one digest\<close>

definition name_ok :: "string \<Rightarrow> bool" where
  "name_ok c = (c \<noteq> [] \<and> char_of (0 :: nat) \<notin> set c)"

lemma join_with_Cons: "xs \<noteq> [] \<Longrightarrow> join_with sep (x # xs) = x @ sep @ join_with sep xs"
  by (cases xs) auto

lemma first_piece: "z \<notin> set a \<Longrightarrow> takeWhile (\<lambda>c. c \<noteq> z) (a @ z # u) = a"
  by (induction a) auto

lemma same_first_piece:
  assumes "z \<notin> set a" "z \<notin> set b" "a @ z # u = b @ z # v"
  shows "a = b \<and> u = v"
proof -
  have "a = b" using first_piece [OF assms(1), of u] first_piece [OF assms(2), of v] assms(3) by metis
  with assms(3) show ?thesis by simp
qed

lemma join_with_inj:
  assumes "\<forall>x \<in> set xs. x \<noteq> [] \<and> z \<notin> set x" "\<forall>y \<in> set ys. y \<noteq> [] \<and> z \<notin> set y"
    and "join_with [z] xs = join_with [z] ys"
  shows "xs = ys"
  using assms
proof (induction xs arbitrary: ys)
  case Nil
  then show ?case by (cases ys; cases "tl ys") auto
next
  case (Cons x xs)
  from Cons.prems obtain y ys' where ys: "ys = y # ys'" by (cases ys; cases xs) auto
  consider "xs = []" "ys' = []" | "xs = []" "ys' \<noteq> []" | "xs \<noteq> []" "ys' = []" | "xs \<noteq> []" "ys' \<noteq> []" by blast
  then show ?case
  proof cases
    case 1
    with Cons.prems ys show ?thesis by simp
  next
    case 2
    with Cons.prems ys have "x = y @ z # join_with [z] ys'" by (simp add: join_with_Cons)
    then have "z \<in> set x" by simp
    with Cons.prems(1) show ?thesis by simp
  next
    case 3
    with Cons.prems ys have "y = x @ z # join_with [z] xs" by (simp add: join_with_Cons)
    then have "z \<in> set y" by simp
    with Cons.prems(2) ys show ?thesis by simp
  next
    case 4
    with Cons.prems(3) ys have joined: "x @ z # join_with [z] xs = y @ z # join_with [z] ys'" by (simp add: join_with_Cons)
    have "z \<notin> set x" "z \<notin> set y" using Cons.prems(1,2) ys by simp_all
    from same_first_piece [OF this joined] have eq: "x = y" "join_with [z] xs = join_with [z] ys'" by simp_all
    have "xs = ys'" by (rule Cons.IH) (use Cons.prems(1,2) ys eq(2) in simp_all)
    with eq(1) ys show ?thesis by simp
  qed
qed

text \<open>No collision among the column sets over \<open>C\<close>.\<close>

definition collision_free :: "ledger_env \<Rightarrow> string set \<Rightarrow> bool" where
  "collision_free env C = ((\<forall>c \<in> C. name_ok c) \<and> inj_on (sha256 env) (digest_text ` {cs. set cs \<subseteq> C}))"

lemma set_digest_inj:
  assumes "collision_free env C" "set a \<subseteq> C" "set b \<subseteq> C" "set_digest env a = set_digest env b"
  shows "set a = set b"
proof -
  have "digest_text a = digest_text b"
  proof (rule inj_onD)
    show "inj_on (sha256 env) (digest_text ` {cs. set cs \<subseteq> C})" using assms(1) by (simp add: collision_free_def)
  qed (use assms(2-4) in \<open>simp_all add: set_digest_def\<close>)
  then have "join_with [char_of (0 :: nat)] (sort (remdups a)) = join_with [char_of (0 :: nat)] (sort (remdups b))"
    by (simp add: digest_text_def)
  moreover have "\<forall>c \<in> set a. name_ok c" "\<forall>c \<in> set b. name_ok c"
    using assms(1-3) by (auto simp: collision_free_def)
  ultimately have "sort (remdups a) = sort (remdups b)"
    by (intro join_with_inj [of _ "char_of (0 :: nat)"]) (auto simp: name_ok_def)
  then show ?thesis by (metis set_remdups set_sort)
qed

section \<open>Runs over one table\<close>

text \<open>
  A table over its runs: for every row the columns it was loaded without a value in, the ledger's
  record, and the live columns. A run writes every source column that it neither excludes nor leaves to
  Aurora DSQL. It appends, when the verdict lets it (or CDC streams into the table, \<open>exempt\<close>), or
  recreates the table; the record is the plan's, the overlaid columns become nullable with no DEFAULT.
\<close>

record table_state =
  ts_rows :: "string set list"
  ts_record :: "ledger_table option"
  ts_columns :: "string \<Rightarrow> null_facts option"

record run_plan =
  rp_source :: "string list"
  rp_excluded :: "string list"
  rp_overlay :: "string list"
  rp_ddl :: "string option"
  rp_now :: string

definition unwritten :: "run_plan \<Rightarrow> (string \<Rightarrow> null_facts option) \<Rightarrow> string set" where
  "unwritten p cols = {c. c \<notin> set (rp_source p) \<or> c \<in> set (rp_excluded p)
     \<or> (\<exists>f. cols c = Some f \<and> computed f)}"

definition overlaid :: "(string, null_facts) pydict \<Rightarrow> (string \<Rightarrow> null_facts option) \<Rightarrow> string \<Rightarrow> null_facts option" where
  "overlaid live cols c =
     (if c \<in> fst ` set live then map_option (\<lambda>f. f\<lparr>not_null := False, default_expr := None\<rparr>) (cols c) else cols c)"

definition append_run :: "ledger_env \<Rightarrow> string \<Rightarrow> bool \<Rightarrow> run_plan \<Rightarrow> nat \<Rightarrow> table_state \<Rightarrow> table_state option" where
  "append_run env t exempt p n s =
     (let tf = \<lparr>tf_exists = True, tf_has_rows = Some (ts_rows s \<noteq> []), tf_columns = ts_columns s\<rparr>;
          live = fst (live_overlay tf (rp_overlay p));
          verdict = append_verdict env (ts_record s) tf (map fst live) (snd (live_overlay tf (rp_overlay p)))
            (rp_excluded p) (rp_source p)
      in if fst verdict \<noteq> None \<and> \<not> exempt then None
         else Some \<lparr>ts_rows = ts_rows s @ replicate n (unwritten p (ts_columns s)),
                ts_record = decided (ts_record s) (plan_record_merge env t live (ts_rows s \<noteq> []) False
                  (rp_ddl p) (rp_now p) (snd verdict) (ts_record s)),
                ts_columns = overlaid live (ts_columns s)\<rparr>)"

definition recreate_run :: "ledger_env \<Rightarrow> string \<Rightarrow> run_plan \<Rightarrow> nat \<Rightarrow> (string \<Rightarrow> null_facts option) \<Rightarrow> table_state \<Rightarrow> table_state" where
  "recreate_run env t p n cols s =
     (let tf = \<lparr>tf_exists = True, tf_has_rows = None, tf_columns = cols\<rparr>;
          live = fst (live_overlay tf (rp_overlay p))
      in \<lparr>ts_rows = replicate n (unwritten p cols),
          ts_record = decided (ts_record s) (plan_record_merge env t live False True
            (rp_ddl p) (rp_now p) [] (ts_record s)),
          ts_columns = overlaid live cols\<rparr>)"

definition plan_ok :: "string set \<Rightarrow> run_plan \<Rightarrow> bool" where
  "plan_ok C p = (set (rp_overlay p) \<subseteq> set (rp_excluded p) \<and> set (rp_overlay p) \<subseteq> C)"

inductive table_reached :: "ledger_env \<Rightarrow> string \<Rightarrow> string set \<Rightarrow> table_state \<Rightarrow> bool" for env t C where
  found: "table_reached env t C \<lparr>ts_rows = rows, ts_record = None, ts_columns = cols\<rparr>"
| appended: "table_reached env t C s \<Longrightarrow> plan_ok C p \<Longrightarrow> append_run env t exempt p n s = Some s' \<Longrightarrow> table_reached env t C s'"
| recreated: "table_reached env t C s \<Longrightarrow> plan_ok C p \<Longrightarrow> table_reached env t C (recreate_run env t p n cols s)"

inductive_cases table_reachedE: "table_reached env t C s"

text \<open>What \<open>empty_when_applied\<close> promises.\<close>

definition promise_kept :: "string set \<Rightarrow> ledger_env \<Rightarrow> table_state \<Rightarrow> bool" where
  "promise_kept C env s =
     (\<forall>r. ts_record s = Some r \<longrightarrow>
        lt_digest r = set_digest env (lt_set_columns r) \<and> set (lt_set_columns r) \<subseteq> C
        \<and> (empty_when_applied r \<longrightarrow> (\<forall>row \<in> set (ts_rows s). \<forall>c \<in> set (lt_set_columns r). ts_columns s c \<noteq> None \<longrightarrow> c \<in> row)))"

lemma live_overlay_names:
  fixes tf overlay
  defines "live \<equiv> fst (live_overlay tf overlay)" and "owned \<equiv> snd (live_overlay tf overlay)"
  shows "fst ` set live = {c \<in> set overlay. \<exists>f. tf_columns tf c = Some f \<and> \<not> computed f}"
    and "set owned = {c \<in> set overlay. \<exists>f. tf_columns tf c = Some f \<and> computed f}"
    and "dict_ok live"
proof -
  let ?names = "sort (remdups overlay)"
  let ?present = "List.map_filter (\<lambda>c. map_option (Pair c) (tf_columns tf c)) ?names"
  have set: "set ?present = {(c, f). c \<in> set overlay \<and> tf_columns tf c = Some f}"
  proof (rule set_eqI, clarify)
    fix c f
    show "(c, f) \<in> set ?present \<longleftrightarrow> (c, f) \<in> {(c, f). c \<in> set overlay \<and> tf_columns tf c = Some f}"
      unfolding map_filter_def by (cases "tf_columns tf c") (auto simp: image_iff intro!: exI [of _ c])
  qed
  show "fst ` set live = {c \<in> set overlay. \<exists>f. tf_columns tf c = Some f \<and> \<not> computed f}"
    "set owned = {c \<in> set overlay. \<exists>f. tf_columns tf c = Some f \<and> computed f}"
    unfolding live_def owned_def live_overlay_def Let_def using set by force+
  have "distinct (map fst (List.map_filter (\<lambda>c. map_option (Pair c) (g c)) xs))"
    if "distinct xs" for g :: "string \<Rightarrow> null_facts option" and xs
    using that by (induction xs) (auto simp: map_filter_simps map_filter_def image_iff split: option.splits)
  then show "dict_ok live"
    unfolding live_def live_overlay_def Let_def by (simp add: distinct_map_filter)
qed

lemma plan_fields:
  assumes "decided existing (plan_ledger_record env existing t facts has_rows recreated ddl now back) = Some r'"
  shows "(\<exists>r. existing = Some r \<and> facts = [] \<and> has_rows \<and> \<not> recreated \<and> lt_digest r' = lt_digest r
      \<and> lt_set_columns r' = lt_set_columns r \<and> (empty_when_applied r' \<longrightarrow> empty_when_applied r \<and> back = []))
    \<or> lt_set_columns r' = sort (map fst facts) \<and> lt_digest r' = set_digest env (sort (map fst facts))
      \<and> (empty_when_applied r' \<longrightarrow> recreated \<or> \<not> has_rows)
    \<or> (\<exists>r. existing = Some r \<and> has_rows \<and> \<not> recreated \<and> lt_digest r = set_digest env (sort (map fst facts))
      \<and> lt_digest r' = lt_digest r \<and> lt_set_columns r' = lt_set_columns r \<and> empty_when_applied r' = empty_when_applied r)"
proof (cases "facts = [] \<and> existing \<noteq> None \<and> has_rows \<and> \<not> recreated")
  case True
  with assms show ?thesis by (auto simp: plan_ledger_record_def split: if_splits)
next
  case False
  let ?s = "plan_set env existing (sort (map fst facts)) has_rows recreated"
  from assms have "lt_set_columns r' = fst ?s \<and> lt_digest r' = fst (snd ?s) \<and> empty_when_applied r' = snd (snd ?s)"
    unfolding plan_ledger_record_def Let_def if_not_P [OF False] by (auto split: if_splits)
  then show ?thesis by (auto simp: plan_set_def Let_def split: option.splits if_splits)
qed

lemma merge_fields:
  assumes "decided existing (plan_record_merge env t facts has_rows recreated ddl now back existing) = Some r'"
  shows "(\<exists>r. existing = Some r \<and> facts = [] \<and> has_rows \<and> \<not> recreated \<and> lt_digest r' = lt_digest r
      \<and> lt_set_columns r' = lt_set_columns r \<and> (empty_when_applied r' \<longrightarrow> empty_when_applied r \<and> back = []))
    \<or> lt_set_columns r' = sort (map fst facts) \<and> lt_digest r' = set_digest env (sort (map fst facts))
      \<and> (empty_when_applied r' \<longrightarrow> recreated \<or> \<not> has_rows)
    \<or> (\<exists>r. existing = Some r \<and> has_rows \<and> \<not> recreated \<and> lt_digest r = set_digest env (sort (map fst facts))
      \<and> lt_digest r' = lt_digest r \<and> lt_set_columns r' = lt_set_columns r \<and> empty_when_applied r' = empty_when_applied r)"
proof -
  from merge_decided [of existing env t facts has_rows recreated ddl now "back"] assms obtain g where
    "Some r' = map_option (applied_at_update g)
      (decided existing (plan_ledger_record env existing t facts has_rows recreated ddl now back))" by auto
  then obtain r'' where
    g: "decided existing (plan_ledger_record env existing t facts has_rows recreated ddl now back) = Some r''"
       "r' = applied_at_update g r''" by (auto simp: map_option_eq_Some dest!: sym [of "Some r'"])
  from plan_fields [OF g(1)] show ?thesis unfolding g(2) by simp
qed

lemma recreate_keeps_promise:
  assumes "plan_ok C p"
  shows "promise_kept C env (recreate_run env t p n cols s)"
  unfolding promise_kept_def
proof (intro allI impI)
  let ?tf = "\<lparr>tf_exists = True, tf_has_rows = None, tf_columns = cols\<rparr>"
  let ?live = "fst (live_overlay ?tf (rp_overlay p))"
  fix r assume "ts_record (recreate_run env t p n cols s) = Some r"
  then have "decided (ts_record s) (plan_record_merge env t ?live False True (rp_ddl p) (rp_now p) [] (ts_record s)) = Some r"
    by (simp add: recreate_run_def Let_def)
  from merge_fields [OF this] have r: "lt_set_columns r = sort (map fst ?live)" "lt_digest r = set_digest env (sort (map fst ?live))"
    by auto
  moreover have "fst ` set ?live \<subseteq> set (rp_overlay p)" using live_overlay_names(1) [of ?tf "rp_overlay p"] by auto
  ultimately show "lt_digest r = set_digest env (lt_set_columns r) \<and> set (lt_set_columns r) \<subseteq> C
      \<and> (empty_when_applied r \<longrightarrow> (\<forall>row \<in> set (ts_rows (recreate_run env t p n cols s)). \<forall>c \<in> set (lt_set_columns r).
            ts_columns (recreate_run env t p n cols s) c \<noteq> None \<longrightarrow> c \<in> row))"
    using assms by (auto simp: recreate_run_def Let_def plan_ok_def unwritten_def)
qed

lemma append_keeps_promise:
  assumes "collision_free env C" "plan_ok C p" "promise_kept C env s" "append_run env t exempt p n s = Some s'"
  shows "promise_kept C env s'"
proof -
  define tf where "tf = \<lparr>tf_exists = True, tf_has_rows = Some (ts_rows s \<noteq> []), tf_columns = ts_columns s\<rparr>"
  define live where "live = fst (live_overlay tf (rp_overlay p))"
  define owned where "owned = snd (live_overlay tf (rp_overlay p))"
  define verdict where "verdict = append_verdict env (ts_record s) tf (map fst live) owned (rp_excluded p) (rp_source p)"
  let ?un = "unwritten p (ts_columns s)"
  have names: "fst ` set live = {c \<in> set (rp_overlay p). \<exists>f. ts_columns s c = Some f \<and> \<not> computed f}"
    "set owned = {c \<in> set (rp_overlay p). \<exists>f. ts_columns s c = Some f \<and> computed f}"
    unfolding live_def owned_def live_overlay_names by (simp_all add: tf_def)
  have s': "ts_rows s' = ts_rows s @ replicate n ?un"
    "ts_record s' = decided (ts_record s) (plan_record_merge env t live (ts_rows s \<noteq> []) False
        (rp_ddl p) (rp_now p) (snd verdict) (ts_record s))"
    "ts_columns s' c \<noteq> None \<longleftrightarrow> ts_columns s c \<noteq> None" for c
    using assms(4) unfolding append_run_def Let_def
    by (auto simp: overlaid_def tf_def live_def owned_def verdict_def split: if_splits)
  have live: "fst ` set live \<subseteq> ?un" "fst ` set live \<subseteq> C"
    using names(1) assms(2) by (auto simp: plan_ok_def unwritten_def)
  show ?thesis
    unfolding promise_kept_def
  proof (intro allI impI)
    fix r' assume r': "ts_record s' = Some r'"
    have old: "lt_digest r = set_digest env (lt_set_columns r) \<and> set (lt_set_columns r) \<subseteq> C
        \<and> (empty_when_applied r \<longrightarrow> (\<forall>row \<in> set (ts_rows s). \<forall>c \<in> set (lt_set_columns r). ts_columns s c \<noteq> None \<longrightarrow> c \<in> row))"
      if "ts_record s = Some r" for r using assms(3) that by (simp add: promise_kept_def)
    from merge_fields [OF r' [unfolded s'(2)]]
    consider (kept) r where "ts_record s = Some r" "lt_digest r' = lt_digest r" "lt_set_columns r' = lt_set_columns r"
        "empty_when_applied r' \<longrightarrow> empty_when_applied r \<and> snd verdict = []"
      | (fresh) "lt_set_columns r' = sort (map fst live)" "lt_digest r' = set_digest env (sort (map fst live))"
        "empty_when_applied r' \<longrightarrow> ts_rows s = []"
      | (same) r where "ts_record s = Some r" "lt_digest r = set_digest env (sort (map fst live))"
        "lt_digest r' = lt_digest r" "lt_set_columns r' = lt_set_columns r" "empty_when_applied r' = empty_when_applied r"
      by blast
    then show "lt_digest r' = set_digest env (lt_set_columns r') \<and> set (lt_set_columns r') \<subseteq> C
        \<and> (empty_when_applied r' \<longrightarrow> (\<forall>row \<in> set (ts_rows s'). \<forall>c \<in> set (lt_set_columns r'). ts_columns s' c \<noteq> None \<longrightarrow> c \<in> row))"
    proof cases
      case kept
      have "c \<in> ?un" if "snd verdict = []" "c \<in> set (lt_set_columns r)" "ts_columns s c \<noteq> None" for c
      proof (rule ccontr)
        assume "c \<notin> ?un"
        then have "c \<in> set (snd verdict)" using that(2,3) names(2) kept(1)
          by (auto simp: verdict_def tf_def append_verdict_def Let_def reincluded_columns_def unwritten_def split: option.splits)
        with that(1) show False by simp
      qed
      with kept old [OF kept(1)] show ?thesis unfolding s'(1,3) by auto
    next
      case fresh
      with live show ?thesis unfolding s'(1,3) by auto
    next
      case same
      have "set (lt_set_columns r) = fst ` set live"
        using set_digest_inj [OF assms(1), of "lt_set_columns r" "sort (map fst live)"] old [OF same(1)] same(2) live(2) by auto
      then have "\<forall>c \<in> set (lt_set_columns r). c \<in> ?un" using live(1) by blast
      with same(3-5) old [OF same(1)] show ?thesis unfolding s'(1,3) by auto
    qed
  qed
qed

lemma reached_keeps_promise:
  "table_reached env t C s \<Longrightarrow> collision_free env C \<Longrightarrow> promise_kept C env s"
proof (induction rule: table_reached.induct)
  case (found rows cols)
  then show ?case by (simp add: promise_kept_def)
next
  case (appended s p exempt n s')
  then show ?case using append_keeps_promise by blast
next
  case (recreated s p n cols)
  then show ?case by (intro recreate_keeps_promise)
qed

text \<open>
  C7: the NULL contract over any history of one table. Whatever runs a table went through (appends the
  verdict let through or CDC exempted, re-creations, with any plans), a run that appends without the
  exemption leaves a table in which every row, old or new, was loaded without a value in every live
  column the run overlays: no earlier row holds a source value in a column that the overlay made
  nullable for this run. And over existing rows it writes none of the columns recorded for them.
\<close>
theorem null_contract:
  assumes "table_reached env t C s" "collision_free env C" "plan_ok C p" "append_run env t False p n s = Some s'"
  shows "(\<forall>c f row. c \<in> set (rp_overlay p) \<and> ts_columns s c = Some f \<and> \<not> computed f \<and> row \<in> set (ts_rows s') \<longrightarrow> c \<in> row)
    \<and> (\<forall>r c. ts_rows s \<noteq> [] \<and> ts_record s = Some r \<and> c \<in> set (lt_set_columns r) \<and> ts_columns s c \<noteq> None
      \<longrightarrow> c \<in> unwritten p (ts_columns s))"
proof -
  define tf where "tf = \<lparr>tf_exists = True, tf_has_rows = Some (ts_rows s \<noteq> []), tf_columns = ts_columns s\<rparr>"
  define live where "live = fst (live_overlay tf (rp_overlay p))"
  define owned where "owned = snd (live_overlay tf (rp_overlay p))"
  define verdict where "verdict = append_verdict env (ts_record s) tf (map fst live) owned (rp_excluded p) (rp_source p)"
  let ?un = "unwritten p (ts_columns s)"
  have names: "fst ` set live = {c \<in> set (rp_overlay p). \<exists>f. ts_columns s c = Some f \<and> \<not> computed f}"
    "set owned = {c \<in> set (rp_overlay p). \<exists>f. ts_columns s c = Some f \<and> computed f}"
    unfolding live_def owned_def live_overlay_names by (simp_all add: tf_def)
  from assms(4) have ok: "fst verdict = None" and rows: "ts_rows s' = ts_rows s @ replicate n ?un"
    unfolding append_run_def Let_def by (auto simp: tf_def live_def owned_def verdict_def split: if_splits)
  have new: "fst ` set live \<subseteq> ?un" "fst ` set live \<subseteq> C" using names(1) assms(3) by (auto simp: plan_ok_def unwritten_def)
  note promise = reached_keeps_promise [OF assms(1,2), unfolded promise_kept_def]
  have old: "fst ` set live \<subseteq> row" if row: "row \<in> set (ts_rows s)" for row
  proof (cases "live = []")
    case False
    then have "sort (map fst live) \<noteq> []" by (metis length_0_conv length_map length_sort)
    with row ok have "append_accepted env (ts_record s) (sort (map fst live))"
      by (auto simp: verdict_def append_verdict_def append_refusal_of_def tf_def Let_def split: if_splits)
    then obtain r where r: "ts_record s = Some r" "lt_digest r = set_digest env (sort (map fst live))" "empty_when_applied r"
      by (auto simp: append_accepted_def split: option.splits)
    with promise have cols: "set_digest env (lt_set_columns r) = set_digest env (sort (map fst live))" "set (lt_set_columns r) \<subseteq> C"
      and kept: "\<forall>c \<in> set (lt_set_columns r). ts_columns s c \<noteq> None \<longrightarrow> c \<in> row" using row by auto
    have "set (lt_set_columns r) = fst ` set live"
      using set_digest_inj [OF assms(2) cols(2) _ cols(1)] new(2) by auto
    with kept names(1) show ?thesis by auto
  qed simp
  have old_columns: "\<forall>c f row. c \<in> set (rp_overlay p) \<and> ts_columns s c = Some f \<and> \<not> computed f \<and> row \<in> set (ts_rows s') \<longrightarrow> c \<in> row"
  proof (intro allI impI, elim conjE)
    fix c f row assume c: "c \<in> set (rp_overlay p)" "ts_columns s c = Some f" "\<not> computed f" and row: "row \<in> set (ts_rows s')"
    from c names(1) have "c \<in> fst ` set live" by simp
    with row rows old new(1) show "c \<in> row" by auto
  qed
  have "\<forall>r c. ts_rows s \<noteq> [] \<and> ts_record s = Some r \<and> c \<in> set (lt_set_columns r) \<and> ts_columns s c \<noteq> None \<longrightarrow> c \<in> ?un"
  proof (intro allI impI, elim conjE, rule ccontr)
    fix r c assume r: "ts_rows s \<noteq> []" "ts_record s = Some r" "c \<in> set (lt_set_columns r)" "ts_columns s c \<noteq> None" "c \<notin> ?un"
    define omitted where "omitted = sort (remdups (rp_excluded p @ owned @ filter (\<lambda>c. c \<notin> set (rp_source p)
      \<or> (case tf_columns tf c of None \<Rightarrow> False | Some f \<Rightarrow> computed f)) (lt_set_columns r)))"
    from r(5) names(2) have "c \<notin> set omitted" by (auto simp: omitted_def unwritten_def tf_def split: option.splits)
    with r have "c \<in> set (reincluded_columns (ts_record s) (filter (\<lambda>c. tf_columns tf c \<noteq> None) (lt_set_columns r)) omitted)"
      by (simp add: reincluded_columns_def tf_def)
    then have "reincluded_columns (ts_record s) (filter (\<lambda>c. tf_columns tf c \<noteq> None) (lt_set_columns r)) omitted \<noteq> []" by auto
    then have "fst verdict \<noteq> None"
      using r(1,2) unfolding verdict_def append_verdict_def append_refusal_of_def Let_def omitted_def
      by (auto simp: tf_def)
    with ok show False by simp
  qed
  with old_columns show ?thesis by blast
qed

definition demo_env :: ledger_env where
  "demo_env = \<lparr>sha256 = (\<lambda>x. x), ddl_constraints = (\<lambda>ddl c. Some (True, None))\<rparr>"

definition demo_columns :: "string \<Rightarrow> null_facts option" where
  "demo_columns = [''id'' \<mapsto> \<lparr>not_null = True, default_expr = None, is_identity = False, is_generated = False\<rparr>,
     ''secret'' \<mapsto> \<lparr>not_null = True, default_expr = Some ''0'', is_identity = False, is_generated = False\<rparr>]"

definition demo_plan :: run_plan where
  "demo_plan = \<lparr>rp_source = [''id'', ''secret''], rp_excluded = [''secret''], rp_overlay = [''secret''],
     rp_ddl = Some ''ddl'', rp_now = ''t0''\<rparr>"

text \<open>A run that re-creates the table with two rows, and one that appends a third.\<close>

definition demo_first :: table_state where
  "demo_first = recreate_run demo_env ''t'' demo_plan 2 demo_columns
     \<lparr>ts_rows = [{}], ts_record = None, ts_columns = demo_columns\<rparr>"

definition demo_second :: "table_state option" where
  "demo_second = append_run demo_env ''t'' False demo_plan 1 demo_first"

lemma demo_second_appends: "demo_second \<noteq> None \<and> ts_columns demo_first ''secret'' = Some \<lparr>not_null = False,
    default_expr = None, is_identity = False, is_generated = False\<rparr>"
  by (simp add: demo_second_def demo_first_def append_run_def recreate_run_def demo_plan_def demo_env_def demo_columns_def
      live_overlay_def append_verdict_def append_refusal_of_def append_accepted_def reincluded_columns_def
      plan_record_merge_def plan_ledger_record_def plan_columns_def plan_set_def entries_by_name_def entry_step_def plan_entry_def
      recorded_ddl_fields_def ddl_digest_def overlaid_def computed_def unwritten_def map_filter_simps Let_def) auto

lemma null_contract_witness:
  "\<exists>s'. demo_second = Some s' \<and> (\<nexists>row. row \<in> set (ts_rows s') \<and> ''secret'' \<notin> row)"
proof -
  obtain s' where s': "demo_second = Some s'" using demo_second_appends by auto
  have plan: "plan_ok {''secret''} demo_plan" by (simp add: plan_ok_def demo_plan_def)
  have "table_reached demo_env ''t'' {''secret''} demo_first"
    unfolding demo_first_def by (intro table_reached.recreated [OF table_reached.found plan])
  moreover have "collision_free demo_env {''secret''}"
    by (simp add: collision_free_def demo_env_def name_ok_def inj_on_def char_of_def)
  ultimately show ?thesis
    using null_contract [OF _ _ plan s' [unfolded demo_second_def]] s' demo_second_appends
    by (auto simp: demo_plan_def computed_def)
qed

section \<open>No DEFAULT is lost\<close>

text \<open>The DEFAULT a column still has, or is owed by the record; and a series of appending runs.\<close>

definition owed :: "table_state \<Rightarrow> string \<Rightarrow> string option" where
  "owed s c = (case entries (ts_record s) c of None \<Rightarrow> None | Some e \<Rightarrow> original_default e)"

definition effective_default :: "table_state \<Rightarrow> string \<Rightarrow> string option" where
  "effective_default s c = (case ts_columns s c of
       None \<Rightarrow> None
     | Some f \<Rightarrow> (case default_expr f of Some d \<Rightarrow> Some d | None \<Rightarrow> owed s c))"

fun append_runs :: "ledger_env \<Rightarrow> string \<Rightarrow> (bool \<times> run_plan \<times> nat) list \<Rightarrow> table_state \<Rightarrow> table_state option" where
  "append_runs env t [] s = Some s"
| "append_runs env t ((exempt, p, n) # runs) s =
     (case append_run env t exempt p n s of None \<Rightarrow> None | Some s' \<Rightarrow> append_runs env t runs s')"

lemma live_overlay_at:
  "map_of (fst (live_overlay tf overlay)) c = (case tf_columns tf c of
      None \<Rightarrow> None
    | Some f \<Rightarrow> if c \<in> set overlay \<and> \<not> computed f then Some f else None)"
proof -
  let ?present = "List.map_filter (\<lambda>c. map_option (Pair c) (tf_columns tf c)) (sort (remdups overlay))"
  have "(d, f) \<in> set ?present \<longleftrightarrow> d \<in> set overlay \<and> tf_columns tf d = Some f" for d f
    unfolding map_filter_def by (cases "tf_columns tf d") (auto simp: image_iff intro!: exI [of _ d])
  then have "(d, f) \<in> set (fst (live_overlay tf overlay)) \<longleftrightarrow> d \<in> set overlay \<and> tf_columns tf d = Some f \<and> \<not> computed f" for d f
    unfolding live_overlay_def Let_def by auto
  then have at: "map_of (fst (live_overlay tf overlay)) c = Some f \<longleftrightarrow> c \<in> set overlay \<and> tf_columns tf c = Some f \<and> \<not> computed f" for f
    using map_of_eq_Some_iff [OF live_overlay_names(3) [of tf overlay]] by blast
  show ?thesis
  proof (cases "tf_columns tf c")
    case None
    with at have "map_of (fst (live_overlay tf overlay)) c \<noteq> Some f" for f by simp
    then have "map_of (fst (live_overlay tf overlay)) c = None" by (metis not_None_eq)
    with None show ?thesis by simp
  next
    case (Some f)
    show ?thesis
    proof (cases "c \<in> set overlay \<and> \<not> computed f")
      case True
      with at Some show ?thesis by simp
    next
      case False
      have "map_of (fst (live_overlay tf overlay)) c = None"
      proof (rule ccontr)
        assume "map_of (fst (live_overlay tf overlay)) c \<noteq> None"
        then obtain g where "map_of (fst (live_overlay tf overlay)) c = Some g" by blast
        with at [of g] Some False show False by simp
      qed
      with Some False show ?thesis by simp
    qed
  qed
qed

lemma append_keeps_effective:
  assumes "append_run env t exempt p n s = Some s'"
  shows "effective_default s' = effective_default s"
proof
  fix c
  define tf where "tf = \<lparr>tf_exists = True, tf_has_rows = Some (ts_rows s \<noteq> []), tf_columns = ts_columns s\<rparr>"
  define live where "live = fst (live_overlay tf (rp_overlay p))"
  define back' where "back' = snd (append_verdict env (ts_record s) tf (map fst live) (snd (live_overlay tf (rp_overlay p)))
    (rp_excluded p) (rp_source p))"
  have s': "ts_record s' = decided (ts_record s) (plan_record_merge env t live (ts_rows s \<noteq> []) False
      (rp_ddl p) (rp_now p) back' (ts_record s))" "ts_columns s' = overlaid live (ts_columns s)"
    using assms unfolding append_run_def Let_def by (auto simp: tf_def live_def back'_def split: if_splits)
  have ok: "dict_ok live" unfolding live_def by (rule live_overlay_names(3))
  have at: "map_of live c = (case ts_columns s c of None \<Rightarrow> None
      | Some f \<Rightarrow> if c \<in> set (rp_overlay p) \<and> \<not> computed f then Some f else None)"
    by (simp add: live_def live_overlay_at tf_def)
  have rec: "entries (ts_record s') c = (case map_of live c of None \<Rightarrow> entries (ts_record s) c
      | Some f \<Rightarrow> plan_entry env (rp_ddl p) (entries (ts_record s) c) c f)"
    unfolding s'(1) by (simp add: entries_merge [OF ok] planned_def Let_def)
  show "effective_default s' c = effective_default s c"
  proof (cases "map_of live c")
    case None
    then have "c \<notin> fst ` set live" by (simp add: map_of_eq_None_iff)
    moreover from None rec have "owed s' c = owed s c" by (simp add: owed_def)
    ultimately show ?thesis by (auto simp: effective_default_def s'(2) overlaid_def split: option.split)
  next
    case (Some f)
    then have c: "c \<in> fst ` set live" by (metis map_of_eq_None_iff option.distinct(1))
    from Some at have f: "ts_columns s c = Some f" by (simp split: option.splits if_splits)
    from Some rec have e: "entries (ts_record s') c = plan_entry env (rp_ddl p) (entries (ts_record s) c) c f" by simp
    show ?thesis
    proof (cases "default_expr f")
      case None
      with c f e show ?thesis
        by (cases "entries (ts_record s) c") (simp_all add: effective_default_def owed_def s'(2) overlaid_def plan_entry_def)
    next
      case d: (Some d)
      obtain a b g where "recorded_ddl_fields env (rp_ddl p) c = (a, b, g)" by (cases "recorded_ddl_fields env (rp_ddl p) c")
      with c f e d show ?thesis
        by (simp add: effective_default_def owed_def s'(2) overlaid_def plan_entry_def)
    qed
  qed
qed



end
