(* ===== verification/LedgerStore.thy ===== *)
theory LedgerStore
  imports Ledger Pages
begin

text \<open>
  The stores of \<^verbatim>\<open>core/overlay_ledger.py\<close> and one run's view. A write is a merge: read fresh, decide
  per table, write once, read back and verify, up to \<open>max_attempts\<close> times under the key's lock (so
  that no other writer acts in between). The blob stores (in memory, S3) keep one document per key, the
  SQLite store one row per table in one transaction. \<open>ledger_store\<close> is what both promise.
\<close>

type_synonym tables = "(string, ledger_table) pydict"
type_synonym ledger_merge = "ledger_table option \<Rightarrow> ledger_decision"
type_synonym merges = "(string, ledger_merge) pydict"
type_synonym updates = "(string, ledger_table option) pydict"

definition LEDGER_SCHEMA_VERSION :: nat where
  "LEDGER_SCHEMA_VERSION = 1"

definition ledger_error :: "string \<Rightarrow> pyexc" where
  "ledger_error msg = runtime_error ''OverlayLedgerError'' msg"

definition is_ledger_error :: "pyexc \<Rightarrow> bool" where
  "is_ledger_error e = (''OverlayLedgerError'' \<in> set (mro e))"

lemma ledger_error_simps [simp]: "is_ledger_error (ledger_error msg)" "is_exception (ledger_error msg)"
  by (simp_all add: ledger_error_def is_ledger_error_def runtime_error_def is_exception_def)

section \<open>Documents and merges\<close>

text \<open>A stored document (never an empty text): its version and tables, or one that does not parse.\<close>

datatype blob = Payload nat tables | Corrupt pyexc

definition decode_payload :: "blob \<Rightarrow> pyexc + tables option" where
  "decode_payload b =
     (case b of
        Corrupt e \<Rightarrow> Inl e
      | Payload v ts \<Rightarrow> if LEDGER_SCHEMA_VERSION < v then Inr None else Inr (Some ts))"

definition encode_payload :: "tables \<Rightarrow> blob" where
  "encode_payload ts = Payload LEDGER_SCHEMA_VERSION (map (\<lambda>n. (n, the (map_of ts n))) (sort (map fst ts)))"

definition constant_merges :: "updates \<Rightarrow> merges" where
  "constant_merges us = map (\<lambda>(n, r). (n, \<lambda>existing. case r of Some rec \<Rightarrow> LWrite rec | None \<Rightarrow> LDelete)) us"

definition resolve_merges :: "tables \<Rightarrow> merges \<Rightarrow> updates" where
  "resolve_merges current ms =
     List.map_filter (\<lambda>(n, m). case m (map_of current n) of
         LWrite r \<Rightarrow> Some (n, Some r)
       | LDelete \<Rightarrow> Some (n, None)
       | LUnchanged e \<Rightarrow> None) ms"

definition apply_updates :: "tables \<Rightarrow> updates \<Rightarrow> tables" where
  "apply_updates current us =
     fold (\<lambda>(n, r) d. case r of None \<Rightarrow> dict_pop n d | Some rec \<Rightarrow> dict_set n rec d) us current"

fun verify_updates :: "updates \<Rightarrow> tables \<Rightarrow> pyexc + updates" where
  "verify_updates [] back = Inr []"
| "verify_updates ((n, r) # us) back =
     (if r = None \<and> map_of back n \<noteq> None
      then Inl (ledger_error (''ledger delete of '' @ n @ '' did not land''))
      else if r \<noteq> None \<and> map_of back n \<noteq> r
      then Inl (ledger_error (''ledger write of '' @ n @ '' did not read back as written''))
      else case verify_updates us back of
             Inl e \<Rightarrow> Inl e
           | Inr vs \<Rightarrow> Inr ((n, map_of back n) # vs))"

definition NEWER_VERSION :: string where
  "NEWER_VERSION = ''the ledger was written by a newer version; refusing to overwrite it''"

text \<open>What the caller gets for every table it named.\<close>

definition merge_answer :: "merges \<Rightarrow> tables \<Rightarrow> updates \<Rightarrow> updates" where
  "merge_answer ms current verified =
     map (\<lambda>(n, m). (n, case map_of verified n of Some r \<Rightarrow> r | None \<Rightarrow> map_of current n)) ms"

section \<open>The blob stores\<close>

record 's blob_ops =
  get_blob :: "('s, blob option) action"
  put_blob :: "blob \<Rightarrow> ('s, unit) action"
  pause :: "real \<Rightarrow> 's \<Rightarrow> 's"
  ledger_attempts :: int

definition blob_tables :: "blob option \<Rightarrow> pyexc + tables option" where
  "blob_tables raw = (case raw of None \<Rightarrow> Inr (Some []) | Some b \<Rightarrow> decode_payload b)"

definition blob_merge_once :: "'s blob_ops \<Rightarrow> merges \<Rightarrow> ('s, updates) action" where
  "blob_merge_once ops ms s =
     (case get_blob ops s of
        (Inl e, s1) \<Rightarrow> (Inl e, s1)
      | (Inr raw, s1) \<Rightarrow>
          (case blob_tables raw of
             Inl e \<Rightarrow> (Inl e, s1)
           | Inr None \<Rightarrow> (Inl (ledger_error NEWER_VERSION), s1)
           | Inr (Some current) \<Rightarrow>
               let us = resolve_merges current ms
               in if us = [] then (Inr (merge_answer ms current []), s1)
                  else (case put_blob ops (encode_payload (apply_updates current us)) s1 of
                          (Inl e, s2) \<Rightarrow> (Inl e, s2)
                        | (Inr _, s2) \<Rightarrow>
                            (case get_blob ops s2 of
                               (Inl e, s3) \<Rightarrow> (Inl e, s3)
                             | (Inr back, s3) \<Rightarrow>
                                 (case blob_tables back of
                                    Inl e \<Rightarrow> (Inl e, s3)
                                  | Inr readback \<Rightarrow>
                                      (case verify_updates us (case readback of None \<Rightarrow> [] | Some ts \<Rightarrow> ts) of
                                         Inl e \<Rightarrow> (Inl e, s3)
                                       | Inr verified \<Rightarrow> (Inr (merge_answer ms current verified), s3)))))))"

text \<open>The bounded retry that both stores share: a ledger error is final, another \<open>Exception\<close> is not.\<close>

fun merge_attempts :: "('s, updates) action \<Rightarrow> (real \<Rightarrow> 's \<Rightarrow> 's) \<Rightarrow> nat \<Rightarrow> nat \<Rightarrow> ('s, updates) action" where
  "merge_attempts once wait attempt 0 s = (Inl (ledger_error ''''), s)"
| "merge_attempts once wait attempt (Suc left) s =
     (case once s of
        (Inr res, s1) \<Rightarrow> (Inr res, s1)
      | (Inl e, s1) \<Rightarrow>
          if is_ledger_error e \<or> \<not> is_exception e then (Inl e, s1)
          else if left = 0
          then (Inl (ledger_error (''ledger write failed: '' @ exc_name e @ '': '' @ message e)), s1)
          else merge_attempts once wait (Suc attempt) left (wait (1 / 5 * real (Suc attempt)) s1))"

definition blob_merge :: "'s blob_ops \<Rightarrow> merges \<Rightarrow> ('s, updates) action" where
  "blob_merge ops ms s =
     (if ms = [] then (Inr [], s)
      else merge_attempts (blob_merge_once ops ms) (pause ops) 0 (nat (max 1 (ledger_attempts ops))) s)"

definition blob_put :: "'s blob_ops \<Rightarrow> updates \<Rightarrow> ('s, updates) action" where
  "blob_put ops us = blob_merge ops (constant_merges us)"

text \<open>Reads never raise for a store's error.\<close>

datatype read_status = LedgerPresent | LedgerAbsent | LedgerUnreadable

record ledger_read =
  lr_status :: read_status
  lr_tables :: tables
  lr_error :: "string option"

definition unreadable :: "string \<Rightarrow> ledger_read" where
  "unreadable why = \<lparr>lr_status = LedgerUnreadable, lr_tables = [], lr_error = Some why\<rparr>"

definition read_of :: "tables \<Rightarrow> ledger_read" where
  "read_of ts = \<lparr>lr_status = (if ts = [] then LedgerAbsent else LedgerPresent), lr_tables = ts, lr_error = None\<rparr>"

fun get_retrying :: "'s blob_ops \<Rightarrow> nat \<Rightarrow> nat \<Rightarrow> ('s, blob option) action" where
  "get_retrying ops attempt 0 s = (Inl (raise_named ''TypeError'' ''''), s)"
| "get_retrying ops attempt (Suc left) s =
     (case get_blob ops s of
        (Inr raw, s1) \<Rightarrow> (Inr raw, s1)
      | (Inl e, s1) \<Rightarrow>
          if \<not> is_exception e \<or> left = 0 then (Inl e, s1)
          else get_retrying ops (Suc attempt) left (pause ops (1 / 5 * real (Suc attempt)) s1))"

definition blob_read :: "'s blob_ops \<Rightarrow> ('s, ledger_read) action" where
  "blob_read ops s =
     (case get_retrying ops 0 (nat (max 1 (ledger_attempts ops))) s of
        (Inl e, s1) \<Rightarrow>
          if is_exception e then (Inr (unreadable (exc_name e @ '': '' @ message e)), s1) else (Inl e, s1)
      | (Inr None, s1) \<Rightarrow> (Inr (read_of []), s1)
      | (Inr (Some b), s1) \<Rightarrow>
          (case decode_payload b of
             Inl e \<Rightarrow> if is_exception e then (Inr (unreadable (''invalid ledger payload: '' @ message e)), s1) else (Inl e, s1)
           | Inr None \<Rightarrow> (Inr (unreadable ''the ledger was written by a newer version''), s1)
           | Inr (Some ts) \<Rightarrow> (Inr (read_of ts), s1)))"

text \<open>In memory, and S3: absent only for \<open>NoSuchKey\<close>.\<close>

definition memory_ledger :: "string \<Rightarrow> (string \<Rightarrow> blob option) blob_ops" where
  "memory_ledger key = \<lparr>get_blob = (\<lambda>s. (Inr (s key), s)), put_blob = (\<lambda>b s. (Inr (), s(key \<mapsto> b))),
     pause = (\<lambda>d s. s), ledger_attempts = 3\<rparr>"

record 's s3_client =
  get_object :: "string \<Rightarrow> ('s, blob) action"
  put_object :: "string \<Rightarrow> blob \<Rightarrow> ('s, unit) action"
  s3_error_code :: "pyexc \<Rightarrow> string option"
  s3_sleep :: "real \<Rightarrow> 's \<Rightarrow> 's"

definition s3_ledger :: "'s s3_client \<Rightarrow> string \<Rightarrow> int \<Rightarrow> string \<Rightarrow> 's blob_ops" where
  "s3_ledger client folder n key =
     (let object_key = folder @ key @ ''.json''
      in \<lparr>get_blob = (\<lambda>s. case get_object client object_key s of
              (Inr b, s1) \<Rightarrow> (Inr (Some b), s1)
            | (Inl e, s1) \<Rightarrow> if is_exception e \<and> s3_error_code client e = Some ''NoSuchKey'' then (Inr None, s1) else (Inl e, s1)),
          put_blob = put_object client object_key, pause = s3_sleep client, ledger_attempts = n\<rparr>)"

section \<open>The SQLite store\<close>

text \<open>A row: its table, schema version and record, or one that does not parse.\<close>

type_synonym sql_row = "string \<times> nat \<times> (pyexc + ledger_table)"

record 's sql_ops =
  sql_begin :: "('s, unit) action"
  sql_select :: "('s, sql_row list) action"
  sql_delete :: "string \<Rightarrow> ('s, unit) action"
  sql_upsert :: "string \<Rightarrow> ledger_table \<Rightarrow> ('s, unit) action"
  sql_commit :: "('s, unit) action"
  sql_rollback :: "('s, unit) action"
  in_transaction :: "'s \<Rightarrow> bool"
  sql_sleep :: "real \<Rightarrow> 's \<Rightarrow> 's"
  sql_attempts :: int

fun decode_rows :: "sql_row list \<Rightarrow> tables \<Rightarrow> pyexc + tables option" where
  "decode_rows [] ts = Inr (Some ts)"
| "decode_rows ((n, v, payload) # rows) ts =
     (if LEDGER_SCHEMA_VERSION < v then Inr None
      else case payload of Inl e \<Rightarrow> Inl e | Inr r \<Rightarrow> decode_rows rows (dict_set n r ts))"

fun sql_writes :: "'s sql_ops \<Rightarrow> updates \<Rightarrow> ('s, unit) action" where
  "sql_writes ops [] s = (Inr (), s)"
| "sql_writes ops ((n, r) # us) s =
     (case (case r of None \<Rightarrow> sql_delete ops n s | Some rec \<Rightarrow> sql_upsert ops n rec s) of
        (Inl e, s1) \<Rightarrow> (Inl e, s1)
      | (Inr _, s1) \<Rightarrow> sql_writes ops us s1)"

text \<open>What happens between \<open>BEGIN IMMEDIATE\<close> and \<open>COMMIT\<close>.\<close>

definition sql_body :: "'s sql_ops \<Rightarrow> merges \<Rightarrow> ('s, tables \<times> updates) action" where
  "sql_body ops ms s =
     (case sql_select ops s of
        (Inl e, s1) \<Rightarrow> (Inl e, s1)
      | (Inr rows, s1) \<Rightarrow>
          (case decode_rows rows [] of
             Inl e \<Rightarrow> (Inl e, s1)
           | Inr None \<Rightarrow> (Inl (ledger_error NEWER_VERSION), s1)
           | Inr (Some current) \<Rightarrow>
               let us = resolve_merges current ms
               in (case sql_writes ops us s1 of
                     (Inl e, s2) \<Rightarrow> (Inl e, s2)
                   | (Inr _, s2) \<Rightarrow>
                       (case sql_commit ops s2 of
                          (Inl e, s3) \<Rightarrow> (Inl e, s3)
                        | (Inr _, s3) \<Rightarrow> (Inr (current, us), s3)))))"

text \<open>Any failure rolls back; an \<open>Exception\<close> of the rollback itself is dropped.\<close>

definition sql_abort :: "'s sql_ops \<Rightarrow> pyexc \<Rightarrow> 's \<Rightarrow> pyexc \<times> 's" where
  "sql_abort ops e s =
     (if in_transaction ops s
      then (case sql_rollback ops s of
              (Inl e2, s1) \<Rightarrow> (if is_exception e2 then e else e2, s1)
            | (Inr _, s1) \<Rightarrow> (e, s1))
      else (e, s))"

definition sql_merge_once :: "'s sql_ops \<Rightarrow> merges \<Rightarrow> ('s, updates) action" where
  "sql_merge_once ops ms s =
     (case sql_begin ops s of
        (Inl e, s1) \<Rightarrow> (Inl e, s1)
      | (Inr _, s1) \<Rightarrow>
          (case sql_body ops ms s1 of
             (Inl e, s2) \<Rightarrow> (case sql_abort ops e s2 of (e', s3) \<Rightarrow> (Inl e', s3))
           | (Inr (current, us), s2) \<Rightarrow>
               if us = [] then (Inr (merge_answer ms current []), s2)
               else (case sql_select ops s2 of
                       (Inl e, s3) \<Rightarrow> (Inl e, s3)
                     | (Inr rows, s3) \<Rightarrow>
                         (case decode_rows rows [] of
                            Inl e \<Rightarrow> (Inl e, s3)
                          | Inr readback \<Rightarrow>
                              (case verify_updates us (case readback of None \<Rightarrow> [] | Some ts \<Rightarrow> ts) of
                                 Inl e \<Rightarrow> (Inl e, s3)
                               | Inr verified \<Rightarrow> (Inr (merge_answer ms current verified), s3))))))"

definition sql_merge :: "'s sql_ops \<Rightarrow> merges \<Rightarrow> ('s, updates) action" where
  "sql_merge ops ms s =
     (if ms = [] then (Inr [], s)
      else merge_attempts (sql_merge_once ops ms) (sql_sleep ops) 0 (nat (max 1 (sql_attempts ops))) s)"

fun sql_read_attempts :: "'s sql_ops \<Rightarrow> nat \<Rightarrow> nat \<Rightarrow> ('s, ledger_read) action" where
  "sql_read_attempts ops attempt 0 s = (Inr (unreadable ''''), s)"
| "sql_read_attempts ops attempt (Suc left) s =
     (let (res, s1) = (case sql_select ops s of
            (Inl e, s1) \<Rightarrow> (Inl e, s1)
          | (Inr rows, s1) \<Rightarrow> (decode_rows rows [], s1))
      in case res of
           Inr None \<Rightarrow> (Inr (unreadable ''the ledger was written by a newer version''), s1)
         | Inr (Some ts) \<Rightarrow> (Inr (read_of ts), s1)
         | Inl e \<Rightarrow>
             if \<not> is_exception e then (Inl e, s1)
             else if left = 0 then (Inr (unreadable (exc_name e @ '': '' @ message e)), s1)
             else sql_read_attempts ops (Suc attempt) left (sql_sleep ops (1 / 5 * real (Suc attempt)) s1))"

definition sql_read :: "'s sql_ops \<Rightarrow> ('s, ledger_read) action" where
  "sql_read ops = sql_read_attempts ops 0 (nat (max 1 (sql_attempts ops)))"

section \<open>One run's view\<close>

record ledger_view =
  lv_status :: read_status
  lv_error :: "string option"
  lv_tables :: tables

definition new_view :: "ledger_read \<Rightarrow> ledger_view" where
  "new_view r = \<lparr>lv_status = lr_status r, lv_error = lr_error r, lv_tables = lr_tables r\<rparr>"

definition LEDGER_UNAVAILABLE :: string where
  "LEDGER_UNAVAILABLE = ''cannot read the record of dropped DEFAULTs; nothing was changed on this table''"

text \<open>\<open>OverlayLedgerView.merge\<close> over the store's merge: a raise leaves the view as it is.\<close>

definition view_merge :: "(merges \<Rightarrow> ('s, updates) action) \<Rightarrow> merges \<Rightarrow> (ledger_view \<times> 's, unit) action" where
  "view_merge merge ms =
     (\<lambda>(v, s).
        if ms = [] then (Inr (), (v, s))
        else if lv_status v = LedgerUnreadable then (Inl (ledger_error LEDGER_UNAVAILABLE), (v, s))
        else (case merge ms s of
                (Inl e, s1) \<Rightarrow> (Inl e, (v, s1))
              | (Inr written, s1) \<Rightarrow>
                  let merged = apply_updates (lv_tables v) written
                  in (Inr (), (v\<lparr>lv_tables := merged, lv_status := (if merged = [] then LedgerAbsent else LedgerPresent)\<rparr>, s1))))"

definition view_write :: "(merges \<Rightarrow> ('s, updates) action) \<Rightarrow> updates \<Rightarrow> (ledger_view \<times> 's, unit) action" where
  "view_write merge us = view_merge merge (constant_merges us)"

section \<open>What a merge leaves\<close>

text \<open>The table map after each table's decision, and merges that are stable on their own outcome.\<close>

definition merged :: "merges \<Rightarrow> (string \<Rightarrow> ledger_table option) \<Rightarrow> string \<Rightarrow> ledger_table option" where
  "merged ms T n = (case map_of ms n of None \<Rightarrow> T n | Some m \<Rightarrow> decided (T n) (m (T n)))"

definition stable_merge :: "ledger_merge \<Rightarrow> bool" where
  "stable_merge m = (\<forall>x. decided (decided x (m x)) (m (decided x (m x))) = decided x (m x))"

definition merges_ok :: "merges \<Rightarrow> bool" where
  "merges_ok ms = (dict_ok ms \<and> (\<forall>p \<in> set ms. stable_merge (snd p)))"

lemma merged_merged: "merges_ok ms \<Longrightarrow> merged ms (merged ms T) = merged ms T"
  by (auto simp: merged_def fun_eq_iff merges_ok_def stable_merge_def split: option.splits dest: map_of_SomeD)

lemma constant_merges_ok: "dict_ok us \<Longrightarrow> merges_ok (constant_merges us)"
  by (auto simp: merges_ok_def constant_merges_def stable_merge_def comp_def split_def split: option.splits)

lemma apply_updates_simps [simp]:
  "apply_updates current [] = current"
  "apply_updates current ((n, r) # us) = apply_updates (case r of None \<Rightarrow> dict_pop n current | Some rec \<Rightarrow> dict_set n rec current) us"
  by (simp_all add: apply_updates_def)

lemma map_of_apply_updates:
  "dict_ok us \<Longrightarrow> map_of (apply_updates current us) n = (case map_of us n of None \<Rightarrow> map_of current n | Some r \<Rightarrow> r)"
proof (induction us arbitrary: current)
  case (Cons u us)
  obtain k r where u: "u = (k, r)" by force
  with Cons.prems have "map_of us k = None" by (auto simp: map_of_eq_None_iff)
  with Cons u show ?case by (auto split: option.splits)
qed simp

lemma dict_ok_apply_updates: "dict_ok current \<Longrightarrow> dict_ok (apply_updates current us)"
  by (induction us arbitrary: current) (auto split: option.splits)

lemma resolve_simps [simp]:
  "resolve_merges current [] = []"
  "resolve_merges current ((n, m) # ms) = (case m (map_of current n) of LWrite r \<Rightarrow> [(n, Some r)]
      | LDelete \<Rightarrow> [(n, None)] | LUnchanged e \<Rightarrow> []) @ resolve_merges current ms"
  by (auto simp: resolve_merges_def map_filter_simps split: ledger_decision.splits)

lemma resolve_subset: "fst ` set (resolve_merges current ms) \<subseteq> fst ` set ms"
proof (induction ms)
  case (Cons p ms)
  then show ?case by (cases p; cases "snd p (map_of current (fst p))") auto
qed simp

lemma dict_ok_resolve: "dict_ok ms \<Longrightarrow> dict_ok (resolve_merges current ms)"
proof (induction ms)
  case (Cons p ms)
  with resolve_subset [of current ms] show ?case
    by (cases p; cases "snd p (map_of current (fst p))") auto
qed simp

lemma map_of_resolve:
  "dict_ok ms \<Longrightarrow> map_of (resolve_merges current ms) n =
    (case map_of ms n of None \<Rightarrow> None
     | Some m \<Rightarrow> (case m (map_of current n) of LWrite r \<Rightarrow> Some (Some r) | LDelete \<Rightarrow> Some None | LUnchanged e \<Rightarrow> None))"
proof (induction ms)
  case (Cons p ms)
  obtain k m where p: "p = (k, m)" by force
  with Cons.prems have "k \<notin> fst ` set (resolve_merges current ms)" using resolve_subset [of current ms] by auto
  then have "map_of (resolve_merges current ms) k = None" by (simp add: map_of_eq_None_iff)
  with Cons p show ?case by (cases "m (map_of current k)") auto
qed simp

lemma map_of_applied:
  "dict_ok ms \<Longrightarrow> map_of (apply_updates current (resolve_merges current ms)) = merged ms (map_of current)"
  by (auto simp: fun_eq_iff map_of_apply_updates dict_ok_resolve map_of_resolve merged_def
      split: option.splits ledger_decision.splits)

lemma resolved_nothing:
  "dict_ok ms \<Longrightarrow> resolve_merges current ms = [] \<Longrightarrow> merged ms (map_of current) = map_of current"
  using map_of_applied [of ms current] by simp

text \<open>Read back as written, the updates verify.\<close>

lemma verify_applied:
  assumes "\<And>n r. (n, r) \<in> set us \<Longrightarrow> map_of back n = r"
  shows "verify_updates us back = Inr us"
  using assms
proof (induction us)
  case (Cons u us)
  obtain n r where u: "u = (n, r)" by force
  with Cons.prems have "map_of back n = r" by auto
  moreover have "verify_updates us back = Inr us" using Cons by auto
  ultimately show ?case by (cases r) (simp_all add: u)
qed simp

lemma verify_written:
  assumes "dict_ok ms" "map_of back = merged ms (map_of current)"
  shows "verify_updates (resolve_merges current ms) back = Inr (resolve_merges current ms)"
proof (rule verify_applied)
  fix n r assume "(n, r) \<in> set (resolve_merges current ms)"
  with dict_ok_resolve [OF assms(1)] have "map_of (resolve_merges current ms) n = Some r" by simp
  with map_of_apply_updates [OF dict_ok_resolve [OF assms(1)], of current current n] map_of_applied [OF assms(1)]
  show "map_of back n = r" by (simp add: assms(2))
qed

lemma answer_written:
  assumes "dict_ok ms" "us = resolve_merges current ms"
  shows "merge_answer ms current us = map (\<lambda>(n, m). (n, merged ms (map_of current) n)) ms"
proof -
  have "(case map_of us n of Some r \<Rightarrow> r | None \<Rightarrow> map_of current n) = merged ms (map_of current) n" for n
    using map_of_apply_updates [OF dict_ok_resolve [OF assms(1)], of current current n] map_of_applied [OF assms(1)]
    by (simp add: assms(2) split: option.splits)
  then show ?thesis by (simp add: merge_answer_def)
qed

section \<open>The contract\<close>

text \<open>
  A ledger's merge decides on what is stored, and stores all of it or nothing; when it returns, it has
  stored it and answers with the stored records. \<open>good\<close> is a ledger of a version this program reads.
\<close>

locale ledger_store =
  fixes merge :: "merges \<Rightarrow> ('s, updates) action" and stored :: "'s \<Rightarrow> string \<Rightarrow> ledger_table option"
    and good :: "'s \<Rightarrow> bool"
  assumes merge_law: "\<And>ms s r s'. merges_ok ms \<Longrightarrow> good s \<Longrightarrow> merge ms s = (r, s') \<Longrightarrow> good s'
    \<and> (case r of
         Inr answer \<Rightarrow> stored s' = merged ms (stored s) \<and> answer = map (\<lambda>(n, m). (n, stored s' n)) ms
       | Inl e \<Rightarrow> stored s' = stored s \<or> stored s' = merged ms (stored s))"

text \<open>The retry keeps what one attempt promises, when the merges are stable.\<close>

definition attempt_law :: "('s \<Rightarrow> string \<Rightarrow> ledger_table option) \<Rightarrow> ('s \<Rightarrow> bool) \<Rightarrow> merges \<Rightarrow> 's \<Rightarrow> pyexc + updates \<Rightarrow> 's \<Rightarrow> bool" where
  "attempt_law stored good ms s r s' = (good s'
    \<and> (case r of
         Inr answer \<Rightarrow> stored s' = merged ms (stored s) \<and> answer = map (\<lambda>(n, m). (n, stored s' n)) ms
       | Inl e \<Rightarrow> stored s' = stored s \<or> stored s' = merged ms (stored s)))"

lemma merge_attempts_law:
  assumes ok: "merges_ok ms"
    and one: "\<And>s r s'. good s \<Longrightarrow> once s = (r, s') \<Longrightarrow> attempt_law stored good ms s r s'"
    and wait: "\<And>d s. good s \<Longrightarrow> good (wait d s) \<and> stored (wait d s) = stored s"
    and "good s" "merge_attempts once wait a left s = (r, s')"
  shows "attempt_law stored good ms s r s'"
  using assms(4,5)
proof (induction left arbitrary: a s)
  case 0
  then show ?case by (auto simp: attempt_law_def)
next
  case (Suc left)
  obtain x s1 where x: "once s = (x, s1)" by force
  note law = one [OF Suc.prems(1) x]
  show ?case
  proof (cases x)
    case (Inr answer)
    with x Suc.prems(2) law show ?thesis by simp
  next
    case (Inl e)
    show ?thesis
    proof (cases "is_ledger_error e \<or> \<not> is_exception e \<or> left = 0")
      case True
      with x Inl Suc.prems(2) law show ?thesis by (auto simp: attempt_law_def split: if_splits)
    next
      case False
      let ?s2 = "wait (1 / 5 * real (Suc a)) s1"
      from law Inl have s1: "good s1" "stored s1 = stored s \<or> stored s1 = merged ms (stored s)"
        by (simp_all add: attempt_law_def)
      note s2 = wait [OF s1(1), of "1 / 5 * real (Suc a)"]
      from False x Inl Suc.prems(2) have "merge_attempts once wait (Suc a) left ?s2 = (r, s')" by simp
      from Suc.IH [OF conjunct1 [OF s2] this] have "attempt_law stored good ms ?s2 r s'" .
      moreover have "merged ms (stored ?s2) = merged ms (stored s)"
        using s1(2) s2 merged_merged [OF ok] by auto
      ultimately show ?thesis using s1(2) s2 by (auto simp: attempt_law_def split: sum.splits)
    qed
  qed
qed

section \<open>The blob stores keep the contract\<close>

lemma map_of_sorted_dict: "map_of (map (\<lambda>n. (n, the (map_of d n))) (sort (map fst d))) = map_of (d :: tables)"
proof
  fix n
  show "map_of (map (\<lambda>n. (n, the (map_of d n))) (sort (map fst d))) n = map_of d n"
  proof (cases "map_of d n")
    case None
    then have "n \<notin> fst ` set d" by (simp add: map_of_eq_None_iff)
    with None show ?thesis by (simp add: map_of_map_restrict)
  next
    case (Some r)
    then have "n \<in> fst ` set d" by (metis map_of_eq_None_iff option.distinct(1))
    with Some show ?thesis by (simp add: map_of_map_restrict)
  qed
qed

definition doc_tables :: "blob option \<Rightarrow> string \<Rightarrow> ledger_table option" where
  "doc_tables doc = (case doc of Some (Payload v ts) \<Rightarrow> map_of ts | _ \<Rightarrow> Map.empty)"

definition doc_good :: "blob option \<Rightarrow> bool" where
  "doc_good doc = (case doc of None \<Rightarrow> True | Some (Payload v ts) \<Rightarrow> v \<le> LEDGER_SCHEMA_VERSION | Some (Corrupt e) \<Rightarrow> False)"

lemma doc_good_tables:
  assumes "doc_good doc"
  shows "\<exists>ts. blob_tables doc = Inr (Some ts) \<and> map_of ts = doc_tables doc"
  using assms by (cases doc) (auto simp: doc_good_def blob_tables_def decode_payload_def doc_tables_def split: blob.splits)

lemma doc_good_encode [simp]: "doc_good (Some (encode_payload ts))" "doc_tables (Some (encode_payload ts)) = map_of ts"
  by (simp_all add: doc_good_def encode_payload_def doc_tables_def map_of_sorted_dict)

text \<open>A document store: a read is exact or fails, a write lands or not; a write that answers has landed.\<close>

locale blob_backend =
  fixes ops :: "'s blob_ops" and doc :: "'s \<Rightarrow> blob option"
  assumes get_law: "\<And>s r s'. get_blob ops s = (r, s') \<Longrightarrow> doc s' = doc s \<and> (\<forall>raw. r = Inr raw \<longrightarrow> raw = doc s)"
    and put_law: "\<And>b s r s'. put_blob ops b s = (r, s') \<Longrightarrow>
      doc s' = Some b \<or> doc s' = doc s \<and> (\<exists>e. r = Inl e)"
    and pause_law: "\<And>d s. doc (pause ops d s) = doc s"
begin

abbreviation stored :: "'s \<Rightarrow> string \<Rightarrow> ledger_table option" where
  "stored s \<equiv> doc_tables (doc s)"

abbreviation good :: "'s \<Rightarrow> bool" where
  "good s \<equiv> doc_good (doc s)"

lemma merge_once_law:
  assumes ok: "merges_ok ms" and "good s" "blob_merge_once ops ms s = (r, s')"
  shows "attempt_law stored good ms s r s'"
proof -
  from ok have ms: "dict_ok ms" by (simp add: merges_ok_def)
  obtain x s1 where x: "get_blob ops s = (x, s1)" by force
  note get1 = get_law [OF x]
  show ?thesis
  proof (cases x)
    case (Inl e)
    with x assms(2,3) get1 show ?thesis by (auto simp: blob_merge_once_def attempt_law_def)
  next
    case (Inr raw)
    with get1 assms(2) obtain ts where ts: "blob_tables raw = Inr (Some ts)" "map_of ts = stored s"
      using doc_good_tables by blast
    let ?us = "resolve_merges ts ms"
    let ?new = "apply_updates ts ?us"
    have new: "map_of ?new = merged ms (stored s)" using map_of_applied [OF ms, of ts] ts(2) by simp
    show ?thesis
    proof (cases "?us = []")
      case True
      with x Inr ts(1) assms(3) have "r = Inr (merge_answer ms ts [])" "s' = s1" by (auto simp: blob_merge_once_def)
      moreover have "merged ms (stored s) = stored s" using resolved_nothing [OF ms True] ts(2) by simp
      ultimately show ?thesis
        using answer_written [OF ms True [symmetric]] get1 assms(2) ts(2) by (simp add: attempt_law_def)
    next
      case False
      obtain y s2 where y: "put_blob ops (encode_payload ?new) s1 = (y, s2)" by force
      note put = put_law [OF y]
      show ?thesis
      proof (cases y)
        case (Inl e)
        with x Inr ts(1) False y assms(3) have "r = Inl e" "s' = s2" by (auto simp: blob_merge_once_def Let_def)
        with put get1 assms(2) new show ?thesis by (auto simp: attempt_law_def)
      next
        case ok2: (Inr u)
        with put have landed: "doc s2 = Some (encode_payload ?new)" by simp
        obtain z s3 where z: "get_blob ops s2 = (z, s3)" by force
        note get3 = get_law [OF z]
        have s3: "doc s3 = Some (encode_payload ?new)" using get3 landed by simp
        show ?thesis
        proof (cases z)
          case (Inl e)
          with x Inr ts(1) False y ok2 z assms(3) have "r = Inl e" "s' = s3" by (auto simp: blob_merge_once_def Let_def)
          with s3 new show ?thesis by (simp add: attempt_law_def)
        next
          case ok3: (Inr reread)
          with get3 landed have "reread = Some (encode_payload ?new)" by simp
          then obtain ts' where ts': "blob_tables reread = Inr (Some ts')" "map_of ts' = map_of ?new"
            using doc_good_tables [of reread] by auto
          with new have "map_of ts' = merged ms (map_of ts)" by (simp add: ts(2))
          from verify_written [OF ms this] have "verify_updates ?us ts' = Inr ?us" .
          with x Inr ts(1) False y ok2 z ok3 ts'(1) assms(3) have "r = Inr (merge_answer ms ts ?us)" "s' = s3"
            by (auto simp: blob_merge_once_def Let_def)
          with s3 new answer_written [OF ms refl] ts(2) show ?thesis by (simp add: attempt_law_def)
        qed
      qed
    qed
  qed
qed

lemma blob_merge_law:
  assumes "merges_ok ms" "good s" "blob_merge ops ms s = (r, s')"
  shows "attempt_law stored good ms s r s'"
proof (cases "ms = []")
  case True
  with assms show ?thesis by (auto simp: blob_merge_def attempt_law_def merged_def fun_eq_iff)
next
  case False
  with assms(3) have "merge_attempts (blob_merge_once ops ms) (pause ops) 0 (nat (max 1 (ledger_attempts ops))) s = (r, s')"
    by (simp add: blob_merge_def)
  from merge_attempts_law [where stored = stored and good = good, OF assms(1) merge_once_law [OF assms(1)] _ assms(2) this]
  show ?thesis by (simp add: pause_law)
qed

end

sublocale blob_backend \<subseteq> ledger: ledger_store "blob_merge ops" stored good
proof
  fix ms s r s' assume "merges_ok ms" "good s" "blob_merge ops ms s = (r, s')"
  from blob_merge_law [OF this] show "good s' \<and> (case r of
        Inr answer \<Rightarrow> stored s' = merged ms (stored s) \<and> answer = map (\<lambda>(n, m). (n, stored s' n)) ms
      | Inl e \<Rightarrow> stored s' = stored s \<or> stored s' = merged ms (stored s))"
    unfolding attempt_law_def .
qed

interpretation memory: blob_backend "memory_ledger key" "\<lambda>s. s key" for key
  by unfold_locales (auto simp: memory_ledger_def)

text \<open>
  S3: \<open>NoSuchKey\<close> exactly when the object is not there; every other failure says nothing about it.
\<close>

locale s3_backend =
  fixes client :: "'s s3_client" and object :: "'s \<Rightarrow> string \<Rightarrow> blob option"
  assumes get_object_law: "\<And>k s r s'. get_object client k s = (r, s') \<Longrightarrow> object s' = object s
      \<and> (\<forall>b. r = Inr b \<longrightarrow> object s k = Some b)
      \<and> (\<forall>e. r = Inl e \<longrightarrow> s3_error_code client e = Some ''NoSuchKey'' \<longrightarrow> object s k = None)"
    and put_object_law: "\<And>k b s r s'. put_object client k b s = (r, s') \<Longrightarrow>
      object s' = (object s)(k \<mapsto> b) \<or> object s' = object s \<and> (\<exists>e. r = Inl e)"
    and s3_sleep_law: "\<And>d s. object (s3_sleep client d s) = object s"

sublocale s3_backend \<subseteq> document: blob_backend "s3_ledger client folder n key" "\<lambda>s. object s (folder @ key @ ''.json'')"
  for folder n key
proof
  show "\<And>s r s'. get_blob (s3_ledger client folder n key) s = (r, s') \<Longrightarrow>
    object s' (folder @ key @ ''.json'') = object s (folder @ key @ ''.json'')
    \<and> (\<forall>raw. r = Inr raw \<longrightarrow> raw = object s (folder @ key @ ''.json''))"
    by (auto simp: s3_ledger_def Let_def split: prod.splits sum.splits if_splits dest!: get_object_law)
  show "\<And>b s r s'. put_blob (s3_ledger client folder n key) b s = (r, s') \<Longrightarrow>
    object s' (folder @ key @ ''.json'') = Some b
    \<or> object s' (folder @ key @ ''.json'') = object s (folder @ key @ ''.json'') \<and> (\<exists>e. r = Inl e)"
    by (auto simp: s3_ledger_def Let_def dest!: put_object_law)
  show "\<And>d s. object (pause (s3_ledger client folder n key) d s) (folder @ key @ ''.json'') = object s (folder @ key @ ''.json'')"
    by (simp add: s3_ledger_def Let_def s3_sleep_law)
qed

definition memory_client :: "(string \<Rightarrow> blob option) s3_client" where
  "memory_client = \<lparr>get_object = (\<lambda>k s. (case s k of None \<Rightarrow> Inl (raise_named ''NoSuchKey'' k) | Some b \<Rightarrow> Inr b, s)),
     put_object = (\<lambda>k b s. (Inr (), s(k \<mapsto> b))),
     s3_error_code = (\<lambda>e. if exc_name e = ''NoSuchKey'' then Some ''NoSuchKey'' else None),
     s3_sleep = (\<lambda>d s. s)\<rparr>"

interpretation bucket: s3_backend memory_client "\<lambda>s. s"
  by unfold_locales (auto simp: memory_client_def split: option.splits)

section \<open>The SQLite store keeps the contract\<close>

text \<open>
  A database file: what is committed, and inside a transaction what the transaction sees. A statement
  that fails changes nothing, or ends its transaction (a full disk); a \<open>COMMIT\<close> that fails commits nothing.
\<close>

type_synonym sql_rows = "string \<Rightarrow> (nat \<times> (pyexc + ledger_table)) option"

definition rows_good :: "sql_rows \<Rightarrow> bool" where
  "rows_good R = (\<forall>n v p. R n = Some (v, p) \<longrightarrow> v \<le> LEDGER_SCHEMA_VERSION \<and> (\<exists>r. p = Inr r))"

definition rows_tables :: "sql_rows \<Rightarrow> string \<Rightarrow> ledger_table option" where
  "rows_tables R n = (case R n of Some (v, Inr r) \<Rightarrow> Some r | _ \<Rightarrow> None)"

lemma rows_goodD: "rows_good R \<Longrightarrow> R n = Some (v, p) \<Longrightarrow> v \<le> LEDGER_SCHEMA_VERSION \<and> (\<exists>r. p = Inr r)"
  unfolding rows_good_def by blast

abbreviation row_map :: "sql_row list \<Rightarrow> sql_rows" where
  "row_map rows \<equiv> map_of rows"

locale sql_backend =
  fixes ops :: "'s sql_ops" and committed :: "'s \<Rightarrow> sql_rows" and open_rows :: "'s \<Rightarrow> sql_rows option"
  assumes begin_law: "\<And>s r s'. sql_begin ops s = (r, s') \<Longrightarrow> committed s' = committed s
      \<and> (case r of Inr u \<Rightarrow> open_rows s' = Some (committed s) | Inl e \<Rightarrow> open_rows s' = open_rows s)"
    and select_law: "\<And>s r s'. sql_select ops s = (r, s') \<Longrightarrow> committed s' = committed s \<and> open_rows s' = open_rows s
      \<and> (\<forall>rows. r = Inr rows \<longrightarrow> distinct (map fst rows)
           \<and> row_map rows = (case open_rows s of Some w \<Rightarrow> w | None \<Rightarrow> committed s))"
    and delete_law: "\<And>n w s r s'. sql_delete ops n s = (r, s') \<Longrightarrow> open_rows s = Some w \<Longrightarrow> committed s' = committed s
      \<and> (\<forall>u. r = Inr u \<longrightarrow> open_rows s' = Some (w(n := None)))"
    and upsert_law: "\<And>n rec w s r s'. sql_upsert ops n rec s = (r, s') \<Longrightarrow> open_rows s = Some w \<Longrightarrow> committed s' = committed s
      \<and> (\<forall>u. r = Inr u \<longrightarrow> open_rows s' = Some (w(n \<mapsto> (LEDGER_SCHEMA_VERSION, Inr rec))))"
    and commit_law: "\<And>w s r s'. sql_commit ops s = (r, s') \<Longrightarrow> open_rows s = Some w \<Longrightarrow>
      (case r of Inr u \<Rightarrow> committed s' = w \<and> open_rows s' = None | Inl e \<Rightarrow> committed s' = committed s)"
    and rollback_law: "\<And>s r s'. sql_rollback ops s = (r, s') \<Longrightarrow> committed s' = committed s"
    and sql_sleep_law: "\<And>d s. committed (sql_sleep ops d s) = committed s"

lemma decode_rows_good:
  assumes "rows_good (row_map rows)" "distinct (map fst rows)" "dict_ok ts" "fst ` set rows \<inter> fst ` set ts = {}"
  shows "\<exists>out. decode_rows rows ts = Inr (Some out) \<and> map_of out = (\<lambda>n. case map_of ts n of Some r \<Rightarrow> Some r | None \<Rightarrow> rows_tables (row_map rows) n)"
  using assms
proof (induction rows arbitrary: ts)
  case Nil
  then show ?case by (auto simp: rows_tables_def fun_eq_iff split: option.splits)
next
  case (Cons row rows)
  obtain n v p where row: "row = (n, v, p)" by (cases row) auto
  from rows_goodD [OF Cons.prems(1), of n v p] row have "v \<le> LEDGER_SCHEMA_VERSION \<and> (\<exists>r. p = Inr r)" by simp
  then obtain r where r: "v \<le> LEDGER_SCHEMA_VERSION" "p = Inr r" by blast
  have n: "n \<notin> fst ` set rows" "n \<notin> fst ` set ts" using Cons.prems(2,4) row by auto
  have "rows_good (row_map rows)"
    unfolding rows_good_def
  proof (intro allI impI)
    fix m v' p' assume m: "row_map rows m = Some (v', p')"
    with n(1) have "m \<noteq> n" by (metis domI dom_map_of_conv_image_fst)
    with m rows_goodD [OF Cons.prems(1), of m v' p'] row show "v' \<le> LEDGER_SCHEMA_VERSION \<and> (\<exists>r. p' = Inr r)" by simp
  qed
  moreover have "distinct (map fst rows)" "dict_ok (dict_set n r ts)" "fst ` set rows \<inter> fst ` set (dict_set n r ts) = {}"
    using Cons.prems n row by auto
  ultimately obtain out where out: "decode_rows rows (dict_set n r ts) = Inr (Some out)"
    "map_of out = (\<lambda>m. case map_of (dict_set n r ts) m of Some r \<Rightarrow> Some r | None \<Rightarrow> rows_tables (row_map rows) m)"
    using Cons.IH by blast
  have "map_of ts n = None" using n(2) by (simp add: map_of_eq_None_iff)
  then have "map_of out = (\<lambda>m. case map_of ts m of Some r \<Rightarrow> Some r | None \<Rightarrow> rows_tables (row_map (row # rows)) m)"
    using out(2) r row by (auto simp: fun_eq_iff rows_tables_def split: option.splits)
  with out(1) r row show ?case by simp
qed

lemma decode_rows_tables:
  assumes "rows_good (row_map rows)" "distinct (map fst rows)"
  shows "\<exists>out. decode_rows rows [] = Inr (Some out) \<and> map_of out = rows_tables (row_map rows)"
  using decode_rows_good [OF assms, of "[]"] by simp

text \<open>The rows of a database after the updates.\<close>

definition rows_after :: "updates \<Rightarrow> sql_rows \<Rightarrow> sql_rows" where
  "rows_after us R n = (case map_of us n of None \<Rightarrow> R n
     | Some None \<Rightarrow> None | Some (Some r) \<Rightarrow> Some (LEDGER_SCHEMA_VERSION, Inr r))"

lemma rows_after_good: "rows_good R \<Longrightarrow> rows_good (rows_after us R)"
  by (auto simp: rows_good_def rows_after_def split: option.splits)

lemma rows_after_tables:
  assumes "dict_ok ms" "map_of current = rows_tables R"
  shows "rows_tables (rows_after (resolve_merges current ms) R) = merged ms (rows_tables R)"
proof
  fix n
  have "merged ms (map_of current) n = (case map_of (resolve_merges current ms) n of None \<Rightarrow> map_of current n | Some r \<Rightarrow> r)"
    using map_of_apply_updates [OF dict_ok_resolve [OF assms(1)], of current current n] map_of_applied [OF assms(1)] by simp
  then show "rows_tables (rows_after (resolve_merges current ms) R) n = merged ms (rows_tables R) n"
    by (simp add: assms(2) rows_tables_def [of "rows_after _ R"] rows_after_def rows_tables_def [of R] split: option.splits)
qed

lemma rows_after_Cons:
  assumes "dict_ok ((n, r) # us)"
  shows "rows_after ((n, r) # us) R = rows_after us (R(n := map_option (\<lambda>rec. (LEDGER_SCHEMA_VERSION, Inr rec)) r))"
proof -
  from assms have "map_of us n = None" by (auto simp: map_of_eq_None_iff)
  then show ?thesis by (auto simp: rows_after_def fun_eq_iff split: option.splits)
qed

context sql_backend
begin

lemma sql_writes_law:
  assumes "dict_ok us" "open_rows s = Some w" "sql_writes ops us s = (r, s')"
  shows "committed s' = committed s \<and> (\<forall>u. r = Inr u \<longrightarrow> open_rows s' = Some (rows_after us w))"
  using assms
proof (induction us arbitrary: s w)
  case Nil
  then show ?case by (auto simp: rows_after_def)
next
  case (Cons u us)
  obtain n rec where u: "u = (n, rec)" by force
  obtain x s1 where x: "(case rec of None \<Rightarrow> sql_delete ops n s | Some rec \<Rightarrow> sql_upsert ops n rec s) = (x, s1)" by force
  have one: "committed s1 = committed s
      \<and> (\<forall>u. x = Inr u \<longrightarrow> open_rows s1 = Some (w(n := map_option (\<lambda>rec. (LEDGER_SCHEMA_VERSION, Inr rec)) rec)))"
  proof (cases rec)
    case None
    with x delete_law [of n s x s1 w] Cons.prems(2) show ?thesis by simp
  next
    case (Some r)
    with x upsert_law [of n r s x s1 w] Cons.prems(2) show ?thesis by simp
  qed
  show ?case
  proof (cases x)
    case (Inl e)
    with x u one Cons.prems(3) show ?thesis by auto
  next
    case (Inr y)
    with x u Cons.prems(3) have "sql_writes ops us s1 = (r, s')" by simp
    with Cons.IH [of s1] one Inr Cons.prems(1) u show ?thesis by (auto simp: rows_after_Cons)
  qed
qed

abbreviation stored :: "'s \<Rightarrow> string \<Rightarrow> ledger_table option" where
  "stored s \<equiv> rows_tables (committed s)"

abbreviation good :: "'s \<Rightarrow> bool" where
  "good s \<equiv> rows_good (committed s)"

lemma sql_body_law:
  assumes ms: "dict_ok ms" and s: "open_rows s = Some (committed s)" "good s" and body: "sql_body ops ms s = (r, s')"
  shows "case r of
      Inl e \<Rightarrow> committed s' = committed s
    | Inr (current, us) \<Rightarrow> map_of current = stored s \<and> us = resolve_merges current ms
        \<and> committed s' = rows_after us (committed s) \<and> open_rows s' = None"
proof -
  obtain x s1 where x: "sql_select ops s = (x, s1)" by force
  note sel = select_law [OF x]
  show ?thesis
  proof (cases x)
    case (Inl e)
    with x sel body show ?thesis by (auto simp: sql_body_def)
  next
    case (Inr rows)
    with sel s(1) have rows: "distinct (map fst rows)" "row_map rows = committed s" by simp_all
    with s(2) decode_rows_tables [of rows] obtain current where
      current: "decode_rows rows [] = Inr (Some current)" "map_of current = stored s" by auto
    let ?us = "resolve_merges current ms"
    obtain y s2 where y: "sql_writes ops ?us s1 = (y, s2)" by force
    have s1: "open_rows s1 = Some (committed s)" "committed s1 = committed s" using sel s(1) by simp_all
    note written = sql_writes_law [OF dict_ok_resolve [OF ms] s1(1) y]
    show ?thesis
    proof (cases y)
      case (Inl e)
      with x Inr current(1) y written s1 body show ?thesis by (auto simp: sql_body_def Let_def)
    next
      case ok: (Inr u)
      obtain z s3 where z: "sql_commit ops s2 = (z, s3)" by force
      from written ok s1 have "open_rows s2 = Some (rows_after ?us (committed s))" "committed s2 = committed s" by simp_all
      with commit_law [OF z] x Inr current y ok z body show ?thesis
        by (cases z) (auto simp: sql_body_def Let_def)
    qed
  qed
qed

lemma sql_abort_law: "sql_abort ops e s = (e', s') \<Longrightarrow> committed s' = committed s"
  by (auto simp: sql_abort_def split: if_splits prod.splits sum.splits dest: rollback_law)

lemma sql_once_law:
  assumes ok: "merges_ok ms" and good: "good s" and once: "sql_merge_once ops ms s = (r, s')"
  shows "attempt_law stored good ms s r s'"
proof -
  from ok have ms: "dict_ok ms" by (simp add: merges_ok_def)
  obtain x s1 where x: "sql_begin ops s = (x, s1)" by force
  note beg = begin_law [OF x]
  show ?thesis
  proof (cases x)
    case (Inl e)
    with x once beg good show ?thesis by (auto simp: sql_merge_once_def attempt_law_def)
  next
    case (Inr u)
    with beg have s1: "committed s1 = committed s" "open_rows s1 = Some (committed s1)" by simp_all
    obtain y s2 where y: "sql_body ops ms s1 = (y, s2)" by force
    have body: "case y of
        Inl e \<Rightarrow> committed s2 = committed s1
      | Inr (current, us) \<Rightarrow> map_of current = stored s1 \<and> us = resolve_merges current ms
          \<and> committed s2 = rows_after us (committed s1) \<and> open_rows s2 = None"
      by (rule sql_body_law [OF ms s1(2) _ y]) (simp add: s1(1) good)
    show ?thesis
    proof (cases y)
      case (Inl e)
      obtain e' s3 where a: "sql_abort ops e s2 = (e', s3)" by force
      with sql_abort_law [OF a] x Inr y Inl body s1 once good show ?thesis
        by (auto simp: sql_merge_once_def attempt_law_def)
    next
      case res: (Inr p)
      obtain current us where p: "p = (current, us)" by force
      with body res s1 have c: "map_of current = stored s" "us = resolve_merges current ms"
        "committed s2 = rows_after us (committed s)" "open_rows s2 = None" by simp_all
      have s2: "good s2" "stored s2 = merged ms (stored s)"
        using rows_after_good [OF good] rows_after_tables [OF ms c(1)] c(2,3) by simp_all
      note answer = answer_written [OF ms c(2), unfolded c(1), folded s2(2)]
      show ?thesis
      proof (cases "us = []")
        case True
        with x Inr y res p once have "r = Inr (merge_answer ms current us)" "s' = s2" by (auto simp: sql_merge_once_def)
        with answer s2 show ?thesis by (simp add: attempt_law_def)
      next
        case False
        obtain z s3 where z: "sql_select ops s2 = (z, s3)" by force
        note sel = select_law [OF z]
        show ?thesis
        proof (cases z)
          case (Inl e)
          with x Inr y res p False z once sel s2 show ?thesis by (auto simp: sql_merge_once_def attempt_law_def)
        next
          case ok3: (Inr rows)
          with sel c(4) have rows: "distinct (map fst rows)" "row_map rows = committed s2" by simp_all
          with s2(1) decode_rows_tables [of rows] obtain reread where
            again: "decode_rows rows [] = Inr (Some reread)" "map_of reread = stored s2" by auto
          with verify_written [OF ms, of reread current] again(2) s2(2) c(1,2) have "verify_updates us reread = Inr us" by simp
          with x Inr y res p False z ok3 again(1) once have "r = Inr (merge_answer ms current us)" "s' = s3"
            by (auto simp: sql_merge_once_def)
          with answer s2 sel show ?thesis by (simp add: attempt_law_def)
        qed
      qed
    qed
  qed
qed

lemma sql_merge_law:
  assumes "merges_ok ms" "good s" "sql_merge ops ms s = (r, s')"
  shows "attempt_law stored good ms s r s'"
proof (cases "ms = []")
  case True
  with assms show ?thesis by (auto simp: sql_merge_def attempt_law_def merged_def fun_eq_iff)
next
  case False
  with assms(3) have "merge_attempts (sql_merge_once ops ms) (sql_sleep ops) 0 (nat (max 1 (sql_attempts ops))) s = (r, s')"
    by (simp add: sql_merge_def)
  from merge_attempts_law [where stored = stored and good = good, OF assms(1) sql_once_law [OF assms(1)] _ assms(2) this]
  show ?thesis by (simp add: sql_sleep_law)
qed

end

sublocale sql_backend \<subseteq> ledger: ledger_store "sql_merge ops" stored good
proof
  fix ms s r s' assume "merges_ok ms" "good s" "sql_merge ops ms s = (r, s')"
  from sql_merge_law [OF this] show "good s' \<and> (case r of
        Inr answer \<Rightarrow> stored s' = merged ms (stored s) \<and> answer = map (\<lambda>(n, m). (n, stored s' n)) ms
      | Inl e \<Rightarrow> stored s' = stored s \<or> stored s' = merged ms (stored s))"
    unfolding attempt_law_def .
qed

text \<open>A database file in memory: the committed rows, and those of an open transaction.\<close>

record sqlite_db =
  db_rows :: "sql_row list"
  db_open :: "sql_row list option"

definition keyed_rows :: "sql_row list \<Rightarrow> sql_row list" where
  "keyed_rows rows = map (\<lambda>n. (n, the (map_of rows n))) (remdups (map fst rows))"

lemma keyed_rows: "distinct (map fst (keyed_rows rows))" "map_of (keyed_rows rows) = map_of rows"
proof -
  show "distinct (map fst (keyed_rows rows))" by (simp add: keyed_rows_def comp_def)
  show "map_of (keyed_rows rows) = map_of rows"
  proof
    fix n
    have "map_of (keyed_rows rows) n = (if n \<in> fst ` set rows then Some (the (map_of rows n)) else None)"
      by (simp add: keyed_rows_def map_of_map_restrict)
    moreover have "n \<in> fst ` set rows \<longleftrightarrow> map_of rows n \<noteq> None" by (simp add: map_of_eq_None_iff)
    ultimately show "map_of (keyed_rows rows) n = map_of rows n" by (metis option.exhaust_sel)
  qed
qed

definition on_rows :: "(sql_row list \<Rightarrow> sql_row list) \<Rightarrow> (sqlite_db, unit) action" where
  "on_rows f s = (case db_open s of None \<Rightarrow> (Inr (), s\<lparr>db_rows := f (db_rows s)\<rparr>) | Some w \<Rightarrow> (Inr (), s\<lparr>db_open := Some (f w)\<rparr>))"

definition memory_db :: "sqlite_db sql_ops" where
  "memory_db = \<lparr>
     sql_begin = (\<lambda>s. if db_open s = None then (Inr (), s\<lparr>db_open := Some (db_rows s)\<rparr>)
       else (Inl (raise_named ''OperationalError'' ''cannot start a transaction within a transaction''), s)),
     sql_select = (\<lambda>s. (Inr (keyed_rows (case db_open s of None \<Rightarrow> db_rows s | Some w \<Rightarrow> w)), s)),
     sql_delete = (\<lambda>n. on_rows (dict_pop n)),
     sql_upsert = (\<lambda>n r. on_rows (dict_set n (LEDGER_SCHEMA_VERSION, Inr r))),
     sql_commit = (\<lambda>s. case db_open s of
         None \<Rightarrow> (Inl (raise_named ''OperationalError'' ''no transaction is active''), s)
       | Some w \<Rightarrow> (Inr (), s\<lparr>db_rows := w, db_open := None\<rparr>)),
     sql_rollback = (\<lambda>s. (Inr (), s\<lparr>db_open := None\<rparr>)),
     in_transaction = (\<lambda>s. db_open s \<noteq> None), sql_sleep = (\<lambda>d s. s), sql_attempts = 3\<rparr>"

interpretation database: sql_backend memory_db "\<lambda>s. map_of (db_rows s)" "\<lambda>s. map_option map_of (db_open s)"
  by unfold_locales (auto simp: memory_db_def on_rows_def keyed_rows split: if_splits option.splits)

section \<open>The view keeps the contract\<close>

definition view_law :: "('s \<Rightarrow> string \<Rightarrow> ledger_table option) \<Rightarrow> merges \<Rightarrow> ledger_view \<Rightarrow> 's \<Rightarrow> pyexc + unit \<Rightarrow> ledger_view \<Rightarrow> 's \<Rightarrow> bool" where
  "view_law stored ms v s r v' s' =
     (case r of
        Inl e \<Rightarrow> v' = v \<and> (stored s' = stored s \<or> stored s' = merged ms (stored s))
      | Inr u \<Rightarrow> stored s' = merged ms (stored s)
          \<and> (\<forall>n. map_of (lv_tables v') n = (if n \<in> fst ` set ms then stored s' n else map_of (lv_tables v) n)))"

context ledger_store
begin

lemma view_merge_law:
  assumes "merges_ok ms" "good s" "view_merge merge ms (v, s) = (r, (v', s'))"
  shows "view_law stored ms v s r v' s' \<and> good s'"
proof (cases "ms = [] \<or> lv_status v = LedgerUnreadable")
  case True
  with assms show ?thesis
    by (auto simp: view_merge_def view_law_def merged_def fun_eq_iff split: if_splits)
next
  case False
  obtain x s1 where x: "merge ms s = (x, s1)" by force
  note law = merge_law [OF assms(1,2) x]
  show ?thesis
  proof (cases x)
    case (Inl e)
    with x False assms(3) law show ?thesis by (auto simp: view_merge_def view_law_def)
  next
    case (Inr written)
    let ?pairs = "map (\<lambda>(n, m). (n, stored s1 n)) ms"
    from law Inr have w: "stored s1 = merged ms (stored s)" "written = ?pairs" by simp_all
    have ok: "dict_ok ?pairs" using assms(1) by (simp add: merges_ok_def comp_def split_def)
    have at: "map_of ?pairs n = (if n \<in> fst ` set ms then Some (stored s1 n) else None)" for n
      by (induction ms) auto
    from x False Inr assms(3) have "r = Inr ()" "s' = s1" "lv_tables v' = apply_updates (lv_tables v) written"
      by (auto simp: view_merge_def Let_def)
    moreover have "map_of (apply_updates (lv_tables v) written) n
        = (if n \<in> fst ` set ms then stored s1 n else map_of (lv_tables v) n)" for n
      unfolding w(2) map_of_apply_updates [OF ok] at by simp
    ultimately show ?thesis using w law Inr by (auto simp: view_law_def)
  qed
qed

end

section \<open>Properties\<close>

lemma plan_merge_stable: "dict_ok facts \<Longrightarrow> stable_merge (plan_record_merge env t facts has_rows recreated ddl now reincluded)"
  unfolding stable_merge_def by (auto intro: merge_stable)

context s3_backend
begin

lemmas s3_view_law = document.ledger.view_merge_law

end

context sql_backend
begin

lemmas sql_view_law = ledger.view_merge_law

end

definition demo_merges :: merges where
  "demo_merges = [(''t'', plan_record_merge demo_env ''t'' [(''secret'', \<lparr>not_null = True, default_expr = Some ''0'',
     is_identity = False, is_generated = False\<rparr>)] False False (Some ''ddl'') ''t0'' [])]"

definition demo_view :: ledger_view where
  "demo_view = \<lparr>lv_status = LedgerAbsent, lv_error = None, lv_tables = []\<rparr>"

definition demo_store :: "ledger_view \<times> (string \<Rightarrow> blob option)" where
  "demo_store = (demo_view, \<lambda>k. None)"

definition demo_db :: "ledger_view \<times> sqlite_db" where
  "demo_db = (demo_view, \<lparr>db_rows = [], db_open = None\<rparr>)"

lemma demo_merges_ok: "merges_ok demo_merges"
  by (simp add: merges_ok_def demo_merges_def plan_merge_stable)

text \<open>
  C16: a write to the ledger in S3 is atomic and verified, whatever fails and however often it is retried
  (a read or a write of the object may fail, a failed write may still have landed). The run's view and
  the object change together: when the write returns, every table's decision, taken on the record that
  was stored, is stored, and the view holds the stored records; when it raises, the view is as it was
  and the object holds either the old records or all the new ones.
\<close>
theorem s3_ledger_atomic:
  assumes "s3_backend client object" "merges_ok ms" "doc_good (object s (folder @ key @ ''.json''))"
    and "view_merge (blob_merge (s3_ledger client folder n key)) ms (v, s) = (r, (v', s'))"
  shows "view_law (\<lambda>s. doc_tables (object s (folder @ key @ ''.json''))) ms v s r v' s'
    \<and> doc_good (object s' (folder @ key @ ''.json''))"
  using s3_backend.s3_view_law [OF assms] .

lemma s3_ledger_atomic_witness:
  "fst (view_merge (blob_merge (s3_ledger memory_client ''d/'' 3 ''k'')) demo_merges demo_store) = Inr ()
    \<and> (case snd (view_merge (blob_merge (s3_ledger memory_client ''d/'' 3 ''k'')) demo_merges demo_store) of
         (v', s') \<Rightarrow> view_law (\<lambda>s. doc_tables (s ''d/k.json'')) demo_merges (fst demo_store) (snd demo_store) (Inr ()) v' s')"
proof -
  let ?run = "view_merge (blob_merge (s3_ledger memory_client ''d/'' 3 ''k'')) demo_merges demo_store"
  have ok: "fst ?run = Inr ()" by code_simp
  obtain v s where vs: "demo_store = (v, s)" by force
  obtain v' s' where run: "?run = (Inr (), v', s')" using ok by (metis prod.collapse)
  have "doc_good (s (''d/'' @ ''k'' @ ''.json''))" using vs by (auto simp: demo_store_def doc_good_def)
  from s3_ledger_atomic [OF bucket.s3_backend_axioms demo_merges_ok this run [unfolded vs]]
  show ?thesis unfolding run unfolding vs by simp
qed

text \<open>
  C17: and so is a write to the ledger's SQLite table, for any database in which a statement that fails
  changes nothing or ends its transaction, and a \<open>COMMIT\<close> that fails commits nothing: even when the
  rollback fails too, or the transaction is left open and the next attempt cannot begin its own.
\<close>
theorem sqlite_ledger_atomic:
  assumes "sql_backend ops committed open_rows" "merges_ok ms" "rows_good (committed s)"
    and "view_merge (sql_merge ops) ms (v, s) = (r, (v', s'))"
  shows "view_law (\<lambda>s. rows_tables (committed s)) ms v s r v' s' \<and> rows_good (committed s')"
  using sql_backend.sql_view_law [OF assms] .

lemma sqlite_ledger_atomic_witness:
  "\<exists>v' s'. view_merge (sql_merge memory_db) demo_merges demo_db = (Inr (), v', s')
    \<and> view_law (\<lambda>s. rows_tables (map_of (db_rows s))) demo_merges (fst demo_db) (snd demo_db) (Inr ()) v' s'"
proof -
  let ?run = "view_merge (sql_merge memory_db) demo_merges demo_db"
  have ok: "fst ?run = Inr ()" by code_simp
  obtain v s where vs: "demo_db = (v, s)" by force
  obtain v' s' where run: "?run = (Inr (), v', s')" using ok by (metis prod.collapse)
  have "rows_good (map_of (db_rows s))" using vs by (auto simp: demo_db_def rows_good_def)
  from sqlite_ledger_atomic [OF database.sql_backend_axioms demo_merges_ok this run [unfolded vs]]
  show ?thesis unfolding run unfolding vs by simp
qed

end
