(* ===== verification/SqlExpr.thy ===== *)
theory SqlExpr
  imports PyString
begin

text \<open>
  \<open>is_single_sql_expression\<close> of \<^verbatim>\<open>core/schema_applier.py\<close>: the scan that decides whether a recorded
  DEFAULT may be spliced into a \<open>SET DEFAULT\<close>, and the grammar it decides.
\<close>

section \<open>The scan\<close>

abbreviation quote_mark :: char where "quote_mark \<equiv> char_of (39 :: nat)"
abbreviation double_mark :: char where "double_mark \<equiv> char_of (34 :: nat)"
abbreviation backslash :: char where "backslash \<equiv> char_of (92 :: nat)"

text \<open>\<open>str.isalnum\<close> below U+0100.\<close>

definition py_isalnum :: "char \<Rightarrow> bool" where
  "py_isalnum c =
     (let n = code c
      in 48 \<le> n \<and> n \<le> 57 \<or> 65 \<le> n \<and> n \<le> 90 \<or> 97 \<le> n \<and> n \<le> 122
         \<or> n \<in> {170, 178, 179, 181, 185, 186, 188, 189, 190} \<or> 192 \<le> n \<and> n \<noteq> 215 \<and> n \<noteq> 247)"

record scan =
  sc_quote :: "char option"
  sc_plain :: bool
  sc_closed :: "nat option"
  sc_closed_plain :: bool
  sc_depth :: int

definition scan_start :: scan where
  "scan_start = \<lparr>sc_quote = None, sc_plain = False, sc_closed = None, sc_closed_plain = False, sc_depth = 0\<rparr>"

text \<open>Whether a quote opened at \<open>i\<close> is a plain literal.\<close>

definition opens_plain :: "string \<Rightarrow> scan \<Rightarrow> nat \<Rightarrow> bool" where
  "opens_plain text st i =
     (let ch = text ! i;
          gap = map_option (\<lambda>p. drop p (take i text)) (sc_closed st)
      in if ch = quote_mark \<and> (case gap of None \<Rightarrow> False
            | Some g \<Rightarrow> py_strip g = [] \<and> (CHR 0x0A \<in> set g \<or> CHR 0x0D \<in> set g))
         then sc_closed_plain st
         else (let before = (if i = 0 then CHR '' '' else text ! (i - 1))
               in ch = quote_mark \<and> \<not> (py_isalnum before \<or> before \<in> set ''_&$'')))"

text \<open>One round of the loop: the text is refused, or the state after the character and the next position.\<close>

definition scan_step :: "string \<Rightarrow> scan \<Rightarrow> nat \<Rightarrow> (scan \<times> nat) option" where
  "scan_step text st i =
     (let ch = text ! i
      in case sc_quote st of
           Some q \<Rightarrow>
             if ch = backslash \<and> \<not> sc_plain st then None
             else if ch = q
             then if i + 1 < length text \<and> text ! (i + 1) = q then Some (st, i + 2)
                  else Some ((if q = quote_mark then st\<lparr>sc_closed := Some (i + 1), sc_closed_plain := sc_plain st\<rparr> else st)
                               \<lparr>sc_quote := None\<rparr>, i + 1)
             else Some (st, i + 1)
         | None \<Rightarrow>
             if ch = quote_mark \<or> ch = double_mark
             then Some (st\<lparr>sc_quote := Some ch, sc_plain := opens_plain text st i\<rparr>, i + 1)
             else if ch = backslash then None
             else if ch \<in> set ''(['' then Some (st\<lparr>sc_depth := sc_depth st + 1\<rparr>, i + 1)
             else if ch \<in> set '')]''
             then if sc_depth st - 1 < 0 then None else Some (st\<lparr>sc_depth := sc_depth st - 1\<rparr>, i + 1)
             else if ch \<in> set '';$'' \<or> ch = CHR '','' \<and> sc_depth st = 0 then None
             else if take 2 (drop i text) = ''--'' \<or> take 2 (drop i text) = ''/*'' then None
             else Some (st, i + 1))"

lemma scan_step_advances: "scan_step text st i = Some (st', i') \<Longrightarrow> i < i'"
  by (auto simp: scan_step_def Let_def split: option.splits if_splits)

function scan_sql :: "string \<Rightarrow> scan \<Rightarrow> nat \<Rightarrow> bool" where
  "scan_sql text st i =
     (if length text \<le> i then sc_quote st = None \<and> sc_depth st = 0
      else case scan_step text st i of None \<Rightarrow> False | Some (st', i') \<Rightarrow> scan_sql text st' i')"
  by pat_completeness auto

termination
  by (relation "measure (\<lambda>(text, st, i). length text - i)") (auto dest: scan_step_advances)

declare scan_sql.simps [simp del]

definition is_single_sql_expression :: "string \<Rightarrow> bool" where
  "is_single_sql_expression expr =
     (let text' = py_strip expr in text' \<noteq> [] \<and> scan_sql text' scan_start 0)"

lemma single_examples:
  "is_single_sql_expression ''now()''" "\<not> is_single_sql_expression ''0, x int''"
  "is_single_sql_expression (''('' @ [quote_mark, CHR '';'', quote_mark] @ '' || b)'')"
  "\<not> is_single_sql_expression ''0; DROP TABLE t''" "\<not> is_single_sql_expression ''E(''"
  by code_simp+

section \<open>The grammar\<close>

text \<open>
  What the scan accepts: a sequence of complete literals, quoted identifiers and single characters. A history
  is the list of the pieces read so far, the newest first.
\<close>

datatype piece = Lit string | Ident string | Ch char

definition doubled :: "char \<Rightarrow> string \<Rightarrow> string" where
  "doubled q s = concat (map (\<lambda>c. if c = q then [q, q] else [c]) s)"

fun render_piece :: "piece \<Rightarrow> string" where
  "render_piece (Lit s) = quote_mark # doubled quote_mark s @ [quote_mark]"
| "render_piece (Ident s) = double_mark # doubled double_mark s @ [double_mark]"
| "render_piece (Ch c) = [c]"

definition text_of :: "piece list \<Rightarrow> string" where
  "text_of h = concat (map render_piece (rev h))"

fun nesting :: "piece list \<Rightarrow> int" where
  "nesting [] = 0"
| "nesting (Ch c # h) = nesting h + (if c \<in> set ''(['' then 1 else if c \<in> set '')]'' then -1 else 0)"
| "nesting (p # h) = nesting h"

text \<open>The history before the last literal, and the text since.\<close>

fun since_literal :: "piece list \<Rightarrow> string \<Rightarrow> (piece list \<times> string) option" where
  "since_literal [] g = None"
| "since_literal (Lit s # h) g = Some (h, g)"
| "since_literal (p # h) g = since_literal h (render_piece p @ g)"

lemma since_literal_shorter: "since_literal h g = Some (h', g') \<Longrightarrow> length h' < length h"
  by (induction h g rule: since_literal.induct) auto

text \<open>
  A literal after this history is a plain one (no prefix such as \<open>E\<close> or \<open>U&\<close> can touch it): it continues
  the literal before it over a line break, or the character before it ends no word.
\<close>

definition ends_no_word :: "piece list \<Rightarrow> bool" where
  "ends_no_word h =
     (case h of [] \<Rightarrow> True
      | p # h' \<Rightarrow> \<not> (py_isalnum (last (render_piece p)) \<or> last (render_piece p) \<in> set ''_&$''))"

definition continues_line :: "string \<Rightarrow> bool" where
  "continues_line g = (py_strip g = [] \<and> (CHR 0x0A \<in> set g \<or> CHR 0x0D \<in> set g))"

function plain_after :: "piece list \<Rightarrow> bool" where
  "plain_after h =
     (case since_literal h [] of
        None \<Rightarrow> ends_no_word h
      | Some (h', g) \<Rightarrow> if continues_line g then plain_after h' else ends_no_word h)"
  by pat_completeness auto

termination
  by (relation "measure length") (auto dest: since_literal_shorter)

declare plain_after.simps [simp del]

fun piece_ok :: "piece list \<Rightarrow> piece \<Rightarrow> bool" where
  "piece_ok h (Lit s) = ((\<forall>u h'. h \<noteq> Lit u # h') \<and> (backslash \<in> set s \<longrightarrow> plain_after h))"
| "piece_ok h (Ident s) = ((\<forall>u h'. h \<noteq> Ident u # h') \<and> backslash \<notin> set s)"
| "piece_ok h (Ch c) =
     (c \<notin> {quote_mark, double_mark, backslash, CHR '';'', CHR ''$''}
      \<and> (c = CHR '','' \<longrightarrow> nesting h \<noteq> 0) \<and> (c \<in> set '')]'' \<longrightarrow> 0 < nesting h)
      \<and> \<not> (c = CHR ''-'' \<and> (\<exists>h'. h = Ch (CHR ''-'') # h')) \<and> \<not> (c = CHR ''*'' \<and> (\<exists>h'. h = Ch (CHR ''/'') # h')))"

fun grammatical :: "piece list \<Rightarrow> bool" where
  "grammatical [] = True"
| "grammatical (p # h) = (piece_ok h p \<and> grammatical h)"

section \<open>The scan by pieces\<close>

text \<open>The content of a quoted piece and the text after it, doubled quotes taken together.\<close>

fun split_quoted :: "char \<Rightarrow> string \<Rightarrow> (string \<times> string) option" where
  "split_quoted q [] = None"
| "split_quoted q [c] = (if c = q then Some ([], []) else None)"
| "split_quoted q (c # d # cs) =
     (if c \<noteq> q then map_option (\<lambda>(s, r). (c # s, r)) (split_quoted q (d # cs))
      else if d = q then map_option (\<lambda>(s, r). (q # s, r)) (split_quoted q cs)
      else Some ([], d # cs))"

lemma split_quoted_sound:
  "split_quoted q r = Some (s, r') \<Longrightarrow> r = doubled q s @ q # r' \<and> (\<forall>cs. r' \<noteq> q # cs)"
  by (induction q r arbitrary: s rule: split_quoted.induct) (auto simp: doubled_def split: if_splits)

lemma split_quoted_complete:
  "(\<forall>cs. r' \<noteq> q # cs) \<Longrightarrow> split_quoted q (doubled q s @ q # r') = Some (s, r')"
proof (induction s)
  case Nil
  then show ?case by (cases r') (auto simp: doubled_def)
next
  case (Cons c s)
  show ?case
  proof (cases "doubled q s @ q # r'")
    case (Cons d cs)
    with Cons.IH Cons.prems show ?thesis by (auto simp: doubled_def)
  qed simp
qed

text \<open>The scan inside a quote.\<close>

definition closed_quote :: "scan \<Rightarrow> char \<Rightarrow> nat \<Rightarrow> scan" where
  "closed_quote st q i =
     (if q = quote_mark then st\<lparr>sc_closed := Some i, sc_closed_plain := sc_plain st\<rparr> else st)\<lparr>sc_quote := None\<rparr>"

lemma scan_end: "length text \<le> i \<Longrightarrow> scan_sql text st i = (sc_quote st = None \<and> sc_depth st = 0)"
  by (simp add: scan_sql.simps)

lemma scan_go: "i < length text \<Longrightarrow> scan_sql text st i =
    (case scan_step text st i of None \<Rightarrow> False | Some (st', i') \<Rightarrow> scan_sql text st' i')"
  by (subst scan_sql.simps) simp

lemma scan_step_quoted:
  assumes "sc_quote st = Some q" "text = pre @ c # r"
  shows "scan_step text st (length pre) =
    (if c = backslash \<and> \<not> sc_plain st then None
     else if c = q then (if \<exists>cs. r = q # cs then Some (st, length pre + 2) else Some (closed_quote st q (length pre + 1), length pre + 1))
     else Some (st, length pre + 1))"
  using assms by (cases r) (auto simp: scan_step_def closed_quote_def nth_append)

lemma scan_quoted:
  assumes "sc_quote st = Some q" "text = pre @ r" "q \<noteq> backslash"
  shows "scan_sql text st (length pre) =
    (case split_quoted q r of None \<Rightarrow> False
     | Some (s, r') \<Rightarrow> (backslash \<in> set s \<longrightarrow> sc_plain st)
         \<and> scan_sql text (closed_quote st q (length text - length r')) (length text - length r'))"
  using assms(2)
proof (induction "length r" arbitrary: pre r rule: less_induct)
  case less
  show ?case
  proof (cases r)
    case Nil
    then show ?thesis using less.prems assms(1) by (simp add: scan_end)
  next
    case (Cons c r1)
    note step = scan_step_quoted [OF assms(1) less.prems [unfolded Cons]]
    have go: "scan_sql text st (length pre) =
        (case scan_step text st (length pre) of None \<Rightarrow> False | Some (st', i') \<Rightarrow> scan_sql text st' i')"
      by (rule scan_go) (simp add: less.prems Cons)
    show ?thesis
    proof (cases "c = q")
      case False
      have "scan_sql text st (length (pre @ [c])) =
          (case split_quoted q r1 of None \<Rightarrow> False
           | Some (s, r') \<Rightarrow> (backslash \<in> set s \<longrightarrow> sc_plain st)
               \<and> scan_sql text (closed_quote st q (length text - length r')) (length text - length r'))"
        by (rule less.hyps) (simp_all add: Cons less.prems)
      moreover have "split_quoted q r = map_option (\<lambda>(s, r). (c # s, r)) (split_quoted q r1)"
        using False Cons by (cases r1) auto
      ultimately show ?thesis
        unfolding go step using False by (auto simp: less.prems split: option.split)
    next
      case True
      show ?thesis
      proof (cases "\<exists>cs. r1 = q # cs")
        case True
        then obtain cs where cs: "r1 = q # cs" by blast
        have "scan_sql text st (length (pre @ [q, q])) =
            (case split_quoted q cs of None \<Rightarrow> False
             | Some (s, r') \<Rightarrow> (backslash \<in> set s \<longrightarrow> sc_plain st)
                 \<and> scan_sql text (closed_quote st q (length text - length r')) (length text - length r'))"
          by (rule less.hyps) (simp_all add: Cons less.prems cs \<open>c = q\<close>)
        then show ?thesis
          unfolding go step using \<open>c = q\<close> cs Cons assms(3) by (auto split: option.split)
      next
        case False
        with True Cons have "split_quoted q r = Some ([], r1)" by (cases r1) auto
        moreover have "length text - length r1 = Suc (length pre)" using less.prems Cons by simp
        ultimately show ?thesis unfolding go step using \<open>c = q\<close> False assms(3) by simp
      qed
    qed
  qed
qed

lemma marks: "quote_mark = CHR 0x27" "double_mark = CHR 0x22" "backslash = CHR 0x5C"
  by code_simp+

text \<open>The state after a history.\<close>

definition agrees :: "piece list \<Rightarrow> scan \<Rightarrow> bool" where
  "agrees h st = (sc_quote st = None \<and> sc_depth st = nesting h
     \<and> (case since_literal h [] of
          None \<Rightarrow> sc_closed st = None
        | Some (h', g) \<Rightarrow> sc_closed st = Some (length (text_of h) - length g) \<and> sc_closed_plain st = plain_after h'))"

lemma text_of_Cons [simp]: "text_of [] = []" "text_of (p # h) = text_of h @ render_piece p"
  by (simp_all add: text_of_def)

lemma text_of_append: "text_of (ps @ h) = text_of h @ text_of ps"
  by (simp add: text_of_def)

lemma render_nonempty [simp]: "render_piece p \<noteq> []"
  by (cases p) simp_all

lemma text_of_empty [simp]: "text_of h = [] \<longleftrightarrow> h = []"
  by (cases h) simp_all

lemma since_literal_text: "since_literal h g = Some (h', g') \<Longrightarrow> \<exists>s. text_of h @ g = text_of h' @ render_piece (Lit s) @ g'"
  by (induction h g rule: since_literal.induct) auto

lemma since_literal_gap: "since_literal h g = Some (h', g') \<Longrightarrow> since_literal h (g @ x) = Some (h', g' @ x)"
  by (induction h g rule: since_literal.induct) auto

lemma since_literal_None: "since_literal h g = None \<Longrightarrow> since_literal h x = None"
  by (induction h g arbitrary: x rule: since_literal.induct) auto

lemma opens_plain_after:
  assumes "agrees h st" "text = text_of h @ quote_mark # r"
  shows "opens_plain text st (length (text_of h)) = plain_after h"
proof -
  let ?i = "length (text_of h)"
  let ?b = "if ?i = 0 then CHR '' '' else text ! (?i - 1)"
  have before: "ends_no_word h = (\<not> (py_isalnum ?b \<or> ?b \<in> set ''_&$''))"
  proof (cases h)
    case Nil
    then show ?thesis by (simp add: ends_no_word_def py_isalnum_def code_def Let_def)
  next
    case (Cons p h')
    have "text_of h = (text_of h' @ butlast (render_piece p)) @ [last (render_piece p)]" using Cons by simp
    then have "text ! (?i - 1) = last (render_piece p)"
      using assms(2) by (metis append.assoc append_Cons append_Nil diff_Suc_1 length_append_singleton nth_append_length)
    with Cons show ?thesis by (simp add: ends_no_word_def)
  qed
  have q: "text ! ?i = quote_mark" "take ?i text = text_of h" using assms(2) by simp_all
  show ?thesis
  proof (cases "since_literal h []")
    case None
    then have "sc_closed st = None" using assms(1) by (simp add: agrees_def)
    then have "opens_plain text st ?i = ends_no_word h" by (simp add: opens_plain_def Let_def q before)
    moreover have "plain_after h = ends_no_word h" by (subst plain_after.simps) (simp add: None)
    ultimately show ?thesis by simp
  next
    case (Some hg)
    then obtain h' g where s: "since_literal h [] = Some (h', g)" by (cases hg) simp
    from since_literal_text [OF s] obtain u where u: "text_of h = text_of h' @ render_piece (Lit u) @ g" by auto
    then have gap: "drop (?i - length g) (text_of h) = g" by simp
    from assms(1) s have st: "sc_closed st = Some (?i - length g)" "sc_closed_plain st = plain_after h'"
      by (simp_all add: agrees_def)
    have "opens_plain text st ?i = (if continues_line g then plain_after h' else ends_no_word h)"
      unfolding opens_plain_def Let_def q st before continues_line_def by (simp add: gap) blast
    moreover have "plain_after h = (if continues_line g then plain_after h' else ends_no_word h)"
      by (subst plain_after.simps) (simp add: s)
    ultimately show ?thesis by simp
  qed
qed

text \<open>Which histories complete to an expression of the grammar with the text that is left.\<close>

definition completes :: "piece list \<Rightarrow> string \<Rightarrow> bool" where
  "completes h r = (\<exists>ps. text_of ps = r \<and> grammatical (ps @ h) \<and> nesting (ps @ h) = 0)"

definition fits :: "piece list \<Rightarrow> string \<Rightarrow> bool" where
  "fits h r =
     (case h of [] \<Rightarrow> True
      | Lit s # h' \<Rightarrow> (\<forall>cs. r \<noteq> quote_mark # cs)
      | Ident s # h' \<Rightarrow> (\<forall>cs. r \<noteq> double_mark # cs)
      | Ch c # h' \<Rightarrow> (\<forall>cs. \<not> (c = CHR ''-'' \<and> r = CHR ''-'' # cs) \<and> \<not> (c = CHR ''/'' \<and> r = CHR ''*'' # cs)))"

lemma completes_Nil: "completes h [] = (grammatical h \<and> nesting h = 0)"
  by (auto simp: completes_def)

lemma completes_step:
  assumes "r \<noteq> []"
  shows "completes h r = (\<exists>p r'. r = render_piece p @ r' \<and> completes (p # h) r')"
proof
  assume "completes h r"
  then obtain ps where ps: "text_of ps = r" "grammatical (ps @ h)" "nesting (ps @ h) = 0" by (auto simp: completes_def)
  with assms obtain qs p where "ps = qs @ [p]" by (metis rev_exhaust text_of_Cons(1))
  with ps show "\<exists>p r'. r = render_piece p @ r' \<and> completes (p # h) r'"
    by (auto simp: completes_def text_of_append)
next
  assume "\<exists>p r'. r = render_piece p @ r' \<and> completes (p # h) r'"
  then obtain p ps where "r = render_piece p @ text_of ps" "grammatical (ps @ p # h)" "nesting (ps @ p # h) = 0"
    by (auto simp: completes_def)
  then show "completes h r" unfolding completes_def by (intro exI [of _ "ps @ [p]"]) (simp add: text_of_append)
qed

lemma grammatical_suffix: "grammatical (ps @ h) \<Longrightarrow> grammatical h"
  by (induction ps) auto

lemma completes_grammatical: "completes h r \<Longrightarrow> grammatical h"
  using grammatical_suffix by (auto simp: completes_def)

lemma completes_fits:
  assumes "completes h r"
  shows "fits h r"
proof (cases "r = []")
  case True
  then show ?thesis by (simp add: fits_def split: list.split piece.split)
next
  case False
  with assms obtain p r' where p: "r = render_piece p @ r'" "completes (p # h) r'" by (auto simp: completes_step)
  from completes_grammatical [OF p(2)] have "piece_ok h p" by simp
  show ?thesis
  proof (cases h)
    case (Cons k h')
    with \<open>piece_ok h p\<close> p(1) show ?thesis by (cases k; cases p) (simp_all add: fits_def marks)
  qed (simp add: fits_def)
qed

lemma agrees_start: "agrees [] scan_start"
  by (simp add: agrees_def scan_start_def)

lemma agrees_Ch:
  assumes "agrees h st"
  shows "agrees (Ch c # h) (st\<lparr>sc_depth := nesting (Ch c # h)\<rparr>)"
proof (cases "since_literal h []")
  case None
  with since_literal_None [OF None, of "[c]"] assms show ?thesis by (simp add: agrees_def)
next
  case (Some hg)
  then obtain h' g where s: "since_literal h [] = Some (h', g)" by (cases hg) simp
  from since_literal_gap [OF s, of "[c]"] have s2: "since_literal h [c] = Some (h', g @ [c])" by simp
  with assms s show ?thesis by (simp add: agrees_def)
qed

lemma agrees_Lit:
  assumes "agrees h st" "sc_plain st' = plain_after h" "sc_depth st' = sc_depth st"
  shows "agrees (Lit s # h) (closed_quote st' quote_mark (length (text_of (Lit s # h))))"
  using assms by (simp add: agrees_def closed_quote_def)

lemma agrees_Ident:
  assumes "agrees h st" "st' = st\<lparr>sc_quote := Some double_mark, sc_plain := b\<rparr>"
  shows "agrees (Ident s # h) (closed_quote st' double_mark i)"
proof (cases "since_literal h []")
  case None
  with since_literal_None [OF None, of "render_piece (Ident s)"] assms show ?thesis
    by (simp add: agrees_def closed_quote_def marks)
next
  case (Some hg)
  then obtain h' g where s: "since_literal h [] = Some (h', g)" by (cases hg) simp
  from since_literal_gap [OF s, of "render_piece (Ident s)"]
  have s2: "since_literal h (render_piece (Ident s)) = Some (h', g @ render_piece (Ident s))" by simp
  from since_literal_text [OF s] have "length g \<le> length (text_of h)" by (metis append.right_neutral length_append le_add2 add.assoc)
  with assms s s2 show ?thesis by (simp add: agrees_def closed_quote_def marks)
qed

text \<open>The first piece of a text that starts with a quote, and of one that does not.\<close>

lemma completes_quoted:
  assumes "mk = Lit \<and> q = quote_mark \<or> mk = Ident \<and> q = double_mark"
  shows "completes h (q # r) =
    (case split_quoted q r of None \<Rightarrow> False | Some (s, r') \<Rightarrow> piece_ok h (mk s) \<and> completes (mk s # h) r')"
proof -
  have first: "\<exists>s r'. p = mk s \<and> split_quoted q r = Some (s, r') \<and> rr = r'"
    if p: "q # r = render_piece p @ rr" "completes (p # h) rr" for p rr
  proof -
    from completes_grammatical [OF p(2)] have "piece_ok h p" by simp
    with p(1) assms obtain s where s: "p = mk s" by (cases p) (auto simp: marks)
    with p(1) assms have "r = doubled q s @ q # rr" by auto
    moreover have "\<forall>cs. rr \<noteq> q # cs" using completes_fits [OF p(2)] s assms by (auto simp: fits_def)
    ultimately show ?thesis using s split_quoted_complete by blast
  qed
  have whole: "q # r = render_piece (mk s) @ r'" if "split_quoted q r = Some (s, r')" for s r'
    using split_quoted_sound [OF that] assms by auto
  show ?thesis
  proof (cases "split_quoted q r")
    case None
    have "\<not> completes h (q # r)"
    proof
      assume "completes h (q # r)"
      then obtain p rr where p: "q # r = render_piece p @ rr" "completes (p # h) rr" by (auto simp: completes_step)
      from first [OF p] None show False by auto
    qed
    with None show ?thesis by simp
  next
    case (Some sr)
    then obtain s r' where sr: "split_quoted q r = Some (s, r')" by (cases sr) simp
    have "completes (mk s # h) r'" if "completes h (q # r)"
    proof -
      from that obtain p rr where p: "q # r = render_piece p @ rr" "completes (p # h) rr" by (auto simp: completes_step)
      with first [OF p] sr show ?thesis by auto
    qed
    moreover have "completes h (q # r)" if "completes (mk s # h) r'"
      by (subst completes_step, simp) (use that whole [OF sr] in blast)
    moreover have "piece_ok h (mk s)" if "completes (mk s # h) r'"
      using completes_grammatical [OF that] by simp
    ultimately have "completes h (q # r) = (piece_ok h (mk s) \<and> completes (mk s # h) r')" by blast
    with sr show ?thesis by simp
  qed
qed

lemma completes_plain_char:
  assumes "c \<noteq> quote_mark" "c \<noteq> double_mark"
  shows "completes h (c # r) = (piece_ok h (Ch c) \<and> completes (Ch c # h) r)"
proof -
  have only: "p = Ch c \<and> rr = r" if "c # r = render_piece p @ rr" for p rr
    using that assms by (cases p) simp_all
  have iff: "completes h (c # r) = completes (Ch c # h) r"
  proof
    assume "completes h (c # r)"
    then obtain p rr where p: "c # r = render_piece p @ rr" "completes (p # h) rr"
      unfolding completes_step [OF list.distinct(2)] by blast
    from only [OF p(1)] p(2) show "completes (Ch c # h) r" by simp
  next
    assume r: "completes (Ch c # h) r"
    have "c # r = render_piece (Ch c) @ r" by simp
    with r show "completes h (c # r)" unfolding completes_step [OF list.distinct(2)] by blast
  qed
  have "piece_ok h (Ch c)" if "completes (Ch c # h) r"
    using completes_grammatical [OF that] by (simp only: grammatical.simps)
  with iff show ?thesis by blast
qed

text \<open>The step on a character outside a quote.\<close>

lemma scan_step_quote:
  assumes "agrees h st" "text = text_of h @ q # r" "q = quote_mark \<or> q = double_mark"
  shows "scan_step text st (length (text_of h)) =
    Some (st\<lparr>sc_quote := Some q, sc_plain := q = quote_mark \<and> plain_after h\<rparr>, Suc (length (text_of h)))"
proof -
  have "text ! length (text_of h) = q" using assms(2) by simp
  moreover have "opens_plain text st (length (text_of h)) = (q = quote_mark \<and> plain_after h)"
  proof (cases "q = quote_mark")
    case True
    with opens_plain_after [OF assms(1)] assms(2) show ?thesis by simp
  next
    case False
    with \<open>text ! length (text_of h) = q\<close> show ?thesis by (simp add: opens_plain_def Let_def)
  qed
  ultimately show ?thesis using assms(1,3) by (auto simp: scan_step_def agrees_def)
qed

definition starts_comment :: "char \<Rightarrow> string \<Rightarrow> bool" where
  "starts_comment c r = (\<exists>cs. c = CHR ''-'' \<and> r = CHR ''-'' # cs \<or> c = CHR ''/'' \<and> r = CHR ''*'' # cs)"

lemma take_comment:
  "(take 2 (c # r) = ''--'' \<or> take 2 (c # r) = ''/*'') = starts_comment c r"
  by (cases r) (auto simp: starts_comment_def)

lemma scan_step_char:
  assumes "agrees h st" "text = text_of h @ c # r" "c \<noteq> quote_mark" "c \<noteq> double_mark" "fits h (c # r)" "0 \<le> nesting h"
  shows "scan_step text st (length (text_of h)) =
    (if piece_ok h (Ch c) \<and> \<not> starts_comment c r
     then Some (st\<lparr>sc_depth := nesting (Ch c # h)\<rparr>, Suc (length (text_of h))) else None)"
proof -
  have c: "text ! length (text_of h) = c" "drop (length (text_of h)) text = c # r" using assms(2) by simp_all
  have st: "sc_quote st = None" "sc_depth st = nesting h" using assms(1) by (simp_all add: agrees_def)
  have hist: "\<not> (c = CHR ''-'' \<and> (\<exists>h'. h = Ch (CHR ''-'') # h'))" "\<not> (c = CHR ''*'' \<and> (\<exists>h'. h = Ch (CHR ''/'') # h'))"
    using assms(5) by (auto simp: fits_def)
  then have ok: "piece_ok h (Ch c) = (c \<notin> {backslash, CHR '';'', CHR ''$''}
      \<and> (c = CHR '','' \<longrightarrow> nesting h \<noteq> 0) \<and> (c \<in> set '')]'' \<longrightarrow> 0 < nesting h))"
    using assms(3,4) by simp
  have step: "scan_step text st (length (text_of h)) =
      (if c = backslash then None
       else if c \<in> set ''(['' then Some (st\<lparr>sc_depth := nesting h + 1\<rparr>, length (text_of h) + 1)
       else if c \<in> set '')]'' then if nesting h - 1 < 0 then None else Some (st\<lparr>sc_depth := nesting h - 1\<rparr>, length (text_of h) + 1)
       else if c \<in> set '';$'' \<or> c = CHR '','' \<and> nesting h = 0 then None
       else if starts_comment c r then None
       else Some (st, length (text_of h) + 1))"
    unfolding scan_step_def Let_def c st take_comment using assms(3,4) by simp
  have same: "st\<lparr>sc_depth := nesting h\<rparr> = st" using st by simp
  consider "c = backslash" | "c \<in> set ''([''" | "c \<in> set '')]''" | "c \<notin> set ''()[]''" "c \<noteq> backslash" by fastforce
  then show ?thesis
    unfolding step ok by cases (auto simp: marks same starts_comment_def)
qed

lemma grammatical_nesting: "grammatical h \<Longrightarrow> 0 \<le> nesting h"
proof (induction h)
  case (Cons p h)
  then show ?case by (cases p) auto
qed simp

text \<open>The scan accepts exactly the texts that complete the history.\<close>

lemma scan_completes:
  assumes "agrees h st" "grammatical h" "fits h r" "text = text_of h @ r"
  shows "scan_sql text st (length (text_of h)) = completes h r"
  using assms
proof (induction "length r" arbitrary: h st r rule: less_induct)
  case less
  show ?case
  proof (cases r)
    case Nil
    with less.prems show ?thesis by (simp add: scan_end completes_Nil agrees_def)
  next
    case (Cons c r1)
    note tx = less.prems(4) [unfolded Cons]
    have go: "scan_sql text st (length (text_of h)) = (case scan_step text st (length (text_of h)) of None \<Rightarrow> False
        | Some (st', i') \<Rightarrow> scan_sql text st' i')"
      by (rule scan_go) (simp add: tx)
    show ?thesis
    proof (cases "c = quote_mark \<or> c = double_mark")
      case False
      then have c: "c \<noteq> quote_mark" "c \<noteq> double_mark" by simp_all
      note step = scan_step_char [OF less.prems(1) tx c less.prems(3) [unfolded Cons] grammatical_nesting [OF less.prems(2)]]
      show ?thesis
      proof (cases "piece_ok h (Ch c) \<and> \<not> starts_comment c r1")
        case True
        have "scan_sql text (st\<lparr>sc_depth := nesting (Ch c # h)\<rparr>) (length (text_of (Ch c # h))) = completes (Ch c # h) r1"
        proof (rule less.hyps)
          show "agrees (Ch c # h) (st\<lparr>sc_depth := nesting (Ch c # h)\<rparr>)" by (rule agrees_Ch [OF less.prems(1)])
          show "fits (Ch c # h) r1" using True by (auto simp: fits_def starts_comment_def)
        qed (use Cons True less.prems(2) tx in simp_all)
        with True show ?thesis unfolding go step Cons completes_plain_char [OF c] by simp
      next
        case bad: False
        have "\<not> completes (Ch c # h) r1" if "starts_comment c r1"
          using completes_fits [of "Ch c # h" r1] that by (auto simp: fits_def starts_comment_def)
        with bad have "\<not> (piece_ok h (Ch c) \<and> completes (Ch c # h) r1)" by blast
        with bad show ?thesis unfolding go step Cons completes_plain_char [OF c] by (simp only: if_False option.case)
      qed
    next
      case True
      then obtain mk where mk: "mk = Lit \<and> c = quote_mark \<or> mk = Ident \<and> c = double_mark" by blast
      let ?st1 = "st\<lparr>sc_quote := Some c, sc_plain := c = quote_mark \<and> plain_after h\<rparr>"
      note step = scan_step_quote [OF less.prems(1) tx True]
      have pre: "text = (text_of h @ [c]) @ r1" using tx by simp
      have quoted: "scan_sql text ?st1 (length (text_of h @ [c])) = (case split_quoted c r1 of None \<Rightarrow> False
          | Some (s, r') \<Rightarrow> (backslash \<in> set s \<longrightarrow> sc_plain ?st1)
              \<and> scan_sql text (closed_quote ?st1 c (length text - length r')) (length text - length r'))"
        by (rule scan_quoted [OF _ pre]) (use True in \<open>auto simp: marks\<close>)
      show ?thesis
      proof (cases "split_quoted c r1")
        case None
        with quoted show ?thesis unfolding go step Cons completes_quoted [OF mk] by simp
      next
        case (Some sr)
        then obtain s r' where sr: "split_quoted c r1 = Some (s, r')" by (cases sr) simp
        from split_quoted_sound [OF sr] have r1: "r1 = doubled c s @ c # r'" "\<forall>cs. r' \<noteq> c # cs" by simp_all
        let ?h = "mk s # h"
        have th: "text = text_of ?h @ r'" using tx r1 mk by auto
        then have len: "length text - length r' = length (text_of ?h)" by simp
        have ok: "piece_ok h (mk s) = (backslash \<in> set s \<longrightarrow> sc_plain ?st1)"
          using mk less.prems(3) Cons by (cases h; cases "hd h") (auto simp: fits_def marks)
        have "scan_sql text (closed_quote ?st1 c (length (text_of ?h))) (length (text_of ?h)) = completes ?h r'" if "piece_ok h (mk s)"
        proof (rule less.hyps)
          show "agrees ?h (closed_quote ?st1 c (length (text_of ?h)))"
            using mk
          proof (elim disjE conjE)
            assume "mk = Lit" "c = quote_mark"
            with agrees_Lit [OF less.prems(1), of ?st1 s] show ?thesis by simp
          next
            assume "mk = Ident" "c = double_mark"
            with agrees_Ident [OF less.prems(1) refl] show ?thesis by simp
          qed
          show "fits ?h r'" using r1(2) mk by (auto simp: fits_def)
        qed (use Cons r1 that less.prems(2) th in simp_all)
        with ok quoted sr show ?thesis unfolding go step Cons completes_quoted [OF mk] by (auto simp: len)
      qed
    qed
  qed
qed

section \<open>Property\<close>

text \<open>
  C11: \<open>is_single_sql_expression\<close> accepts a DEFAULT exactly when it is, read from left to right, a non-empty
  sequence of complete string literals, complete quoted identifiers and single characters with every
  bracket closed, in which no comma stands outside brackets, no \<open>;\<close>, \<open>$\<close>, comment or backslash outside a
  literal, and a literal holds a backslash only when no prefix can make it an escape string: nothing that
  is spliced after \<open>SET DEFAULT\<close> can end the statement, open a comment or leave a quote open.
\<close>

theorem single_expression_grammar:
  "is_single_sql_expression e \<longleftrightarrow>
     py_strip e \<noteq> [] \<and> (\<exists>ps. concat (map render_piece ps) = py_strip e \<and> grammatical (rev ps) \<and> nesting (rev ps) = 0)"
proof -
  have "scan_sql (py_strip e) scan_start 0 = completes [] (py_strip e)"
    using scan_completes [OF agrees_start, of "py_strip e" "py_strip e"] by (simp add: fits_def)
  moreover have "completes [] r \<longleftrightarrow> (\<exists>ps. concat (map render_piece ps) = r \<and> grammatical (rev ps) \<and> nesting (rev ps) = 0)" for r
    unfolding completes_def text_of_def by (metis append_Nil2 rev_rev_ident)
  ultimately show ?thesis by (simp add: is_single_sql_expression_def Let_def)
qed

end
