(* ===== verification/Overlay.thy ===== *)
theory Overlay
  imports LedgerStore SqlExpr
begin

text \<open>
  The column-exclusion overlay: the catalog read (\<^verbatim>\<open>core/target_introspector.py\<close>), the reconnecting unit that
  makes the overlaid columns nullable with no DEFAULT and the cut-over restore
  (\<^verbatim>\<open>core/schema_applier.py\<close>). The target is a connection factory, one catalog statement, one ALTER per
  transaction and a setting, on a state of any type; \<open>overlay_target\<close> says what it guarantees.
\<close>

section \<open>Errors\<close>

definition overlay_error :: "string \<Rightarrow> string \<Rightarrow> pyexc" where
  "overlay_error cls msg = \<lparr>sqlstate = None,
     mro = [cls] @ (if cls = ''SchemaApplyError'' then [] else [''SchemaApplyError'']) @ [''ValueError'', ''Exception'', ''BaseException''],
     message = msg, diag_constraint = None\<rparr>"

definition is_schema_apply_error :: "pyexc \<Rightarrow> bool" where
  "is_schema_apply_error e = (''SchemaApplyError'' \<in> set (mro e))"

definition PERMANENT_CONNECT_SIGNATURES :: "string list" where
  "PERMANENT_CONNECT_SIGNATURES = [''could not translate host name'', ''nodename nor servname provided'',
     ''name or service not known'', ''no address associated with hostname'']"

definition is_permanent_connect_error :: "pyexc \<Rightarrow> bool" where
  "is_permanent_connect_error e = list_ex (\<lambda>sig. sublist sig (ascii_lower (message e))) PERMANENT_CONNECT_SIGNATURES"

definition is_schema_limit_exceeded :: "pyexc \<Rightarrow> bool" where
  "is_schema_limit_exceeded e =
     (let msg = ascii_lower (message e)
      in if sqlstate e = Some ''54000'' then sublist ''schema'' msg
         else sublist ''schemas not allowed'' msg \<or> sublist ''more than 10 schemas'' msg)"

definition is_dependent_objects_error :: "pyexc \<Rightarrow> bool" where
  "is_dependent_objects_error e =
     (if sqlstate e = Some ''2BP01'' then True else sublist ''depend on it'' (ascii_lower (message e)))"

definition COMPUTED_REFUSAL :: string where
  "COMPUTED_REFUSAL = ''Computed by Aurora DSQL; never written.''"

definition computed_refusal :: "string \<Rightarrow> string \<Rightarrow> pyexc" where
  "computed_refusal t c = overlay_error ''OverlayRefusedError'' (t @ ''.'' @ c @ '': '' @ COMPUTED_REFUSAL)"

section \<open>The target\<close>

datatype alter = DropNotNull string string | DropDefault string string | SetDefault string string string

text \<open>A row of the catalog statement.\<close>

record catalog_row =
  attname :: "string option"
  attnotnull :: bool
  attidentity :: "string option"
  attgenerated :: "string option"
  attdefault :: "string option"

text \<open>
  \<open>ov_close\<close> closes the connection and swallows what that raises; \<open>ov_hint\<close> is the wording of
  \<open>dependent_objects_hint\<close>.
\<close>

record 's overlay_ops =
  ov_connect :: "('s, unit) action"
  ov_close :: "'s \<Rightarrow> 's"
  ov_catalog :: "string \<Rightarrow> string list \<Rightarrow> ('s, catalog_row list) action"
  ov_execute :: "alter \<Rightarrow> ('s, unit) action"
  ov_strings :: "('s, string option) action"
  ov_hint :: "string \<Rightarrow> string"
  ov_retry :: "'s occ_config"

text \<open>\<open>pg_stored_name\<close>: a name's UTF-8 cut to 63 bytes on a character boundary.\<close>

fun utf8_cut :: "nat \<Rightarrow> string \<Rightarrow> string" where
  "utf8_cut n [] = []"
| "utf8_cut n (c # cs) = (let k = (if code c < 128 then 1 else 2) in if k \<le> n then c # utf8_cut (n - k) cs else [])"

definition pg_stored_name :: "string \<Rightarrow> string" where
  "pg_stored_name name = utf8_cut 63 name"

fun stored_names :: "string \<Rightarrow> string list \<Rightarrow> (string, string) pydict \<Rightarrow> pyexc + (string, string) pydict" where
  "stored_names t [] by_stored = Inr by_stored"
| "stored_names t (c # cs) by_stored =
     (case map_of by_stored (pg_stored_name c) of
        None \<Rightarrow> stored_names t cs (dict_set (pg_stored_name c) c by_stored)
      | Some c' \<Rightarrow>
          if c' \<noteq> c
          then Inl (raise_named ''ValueError'' (t @ '': columns '' @ c' @ '' and '' @ c @
            '' are the same column on Aurora DSQL (identifiers are cut to 63 bytes)''))
          else stored_names t cs by_stored)"

definition row_facts :: "catalog_row \<Rightarrow> null_facts" where
  "row_facts r =
     (let generated = (case attgenerated r of None \<Rightarrow> False | Some g \<Rightarrow> g \<noteq> [])
      in \<lparr>not_null = attnotnull r, default_expr = (if generated then None else attdefault r),
          is_identity = (attidentity r = Some ''a'' \<or> attidentity r = Some ''d''), is_generated = generated\<rparr>)"

definition row_into :: "(string, string) pydict \<Rightarrow> catalog_row \<Rightarrow> (string, null_facts option) pydict \<Rightarrow>
    (string, null_facts option) pydict" where
  "row_into by_stored r facts =
     (case attname r of
        None \<Rightarrow> facts
      | Some n \<Rightarrow> (case map_of by_stored n of None \<Rightarrow> facts | Some asked \<Rightarrow> dict_set asked (Some (row_facts r)) facts))"

definition read_overlay_column_facts :: "'s overlay_ops \<Rightarrow> string \<Rightarrow> string list \<Rightarrow>
    ('s, bool \<times> (string, null_facts option) pydict) action" where
  "read_overlay_column_facts ops t columns s =
     (case stored_names t columns [] of
        Inl e \<Rightarrow> (Inl e, s)
      | Inr by_stored \<Rightarrow>
          (case ov_catalog ops t (map fst by_stored) s of
             (Inl e, s1) \<Rightarrow> (Inl e, s1)
           | (Inr rows, s1) \<Rightarrow>
               let facts = fold (\<lambda>c d. dict_set c None d) columns []
               in if rows = [] then (Inr (False, facts), s1)
                  else (Inr (True, fold (row_into by_stored) rows facts), s1)))"

text \<open>\<open>_execute_single_ddl\<close> on an ALTER.\<close>

definition execute_single_ddl :: "'s overlay_ops \<Rightarrow> alter \<Rightarrow> ('s, unit) action" where
  "execute_single_ddl ops a s =
     (case ov_execute ops a s of
        (Inr u, s1) \<Rightarrow> (Inr u, s1)
      | (Inl e, s1) \<Rightarrow>
          if \<not> is_exception e then (Inl e, s1)
          else if is_schema_limit_exceeded e
          then (Inl (overlay_error ''SchemaApplyError'' (''Schema could not be created: the target already holds '' @
                 ''10 schemas, the Aurora DSQL limit (public not counted). Free schemas it no longer uses, '' @
                 ''or use another cluster.'')), s1)
          else if is_dependent_objects_error e
          then (Inl (overlay_error ''SchemaApplyError'' (ov_hint ops (message e))), s1)
          else (Inl e, s1))"

section \<open>The reconnecting unit\<close>

text \<open>The retry's configuration over a state that also carries what the unit remembers.\<close>

definition unit_config :: "'s occ_config \<Rightarrow> (pyexc \<Rightarrow> bool) \<Rightarrow> ('s \<times> 'i) occ_config" where
  "unit_config cfg retry =
     \<lparr>max_attempts = max_attempts cfg, base_delay = base_delay cfg, max_delay = max_delay cfg,
      sleep = (\<lambda>d (s, i). (sleep cfg d s, i)),
      jitter = (\<lambda>(s, i). case jitter cfg s of (j, s1) \<Rightarrow> (j, (s1, i))), retryable = retry\<rparr>"

definition statement_retry :: "'s overlay_ops \<Rightarrow> ('s, 'a) action \<Rightarrow> ('s, 'a) action" where
  "statement_retry ops = with_occ_retry ((ov_retry ops)\<lparr>retryable := is_occ_conflict\<rparr>)"

definition unit_retryable :: "pyexc \<Rightarrow> bool" where
  "unit_retryable e = (\<not> is_schema_apply_error e \<and> \<not> is_permanent_connect_error e
     \<and> (is_transient_connection_error e \<or> is_server_unavailable e))"

definition run_unit_reconnecting :: "'s overlay_ops \<Rightarrow> ('s \<times> 'i, 'a) action \<Rightarrow> ('s \<times> 'i, 'a) action" where
  "run_unit_reconnecting ops body =
     with_occ_retry (unit_config (ov_retry ops) unit_retryable)
       (\<lambda>(s, i). case ov_connect ops s of
          (Inl e, s1) \<Rightarrow> (Inl e, (s1, i))
        | (Inr u, s1) \<Rightarrow> (case body (s1, i) of (r, (s2, i2)) \<Rightarrow> (r, (ov_close ops s2, i2))))"

section \<open>The overlay\<close>

definition sorted_facts :: "(string, null_facts option) pydict \<Rightarrow> (string \<times> null_facts option) list" where
  "sorted_facts facts = map (\<lambda>c. (c, the (map_of facts c))) (sort (map fst facts))"

fun overlay_statements :: "string \<Rightarrow> (string \<times> null_facts option) list \<Rightarrow> pyexc + alter list" where
  "overlay_statements t [] = Inr []"
| "overlay_statements t ((c, None) # fs) = overlay_statements t fs"
| "overlay_statements t ((c, Some f) # fs) =
     (if computed f then Inl (computed_refusal t c)
      else case overlay_statements t fs of
             Inl e \<Rightarrow> Inl e
           | Inr out \<Rightarrow> Inr ((if not_null f then [DropNotNull t c] else []) @
               (if default_expr f \<noteq> None then [DropDefault t c] else []) @ out))"

definition build_overlay_statements :: "string \<Rightarrow> (string, null_facts option) pydict \<Rightarrow> pyexc + alter list" where
  "build_overlay_statements t facts = overlay_statements t (sorted_facts facts)"

fun backstop :: "string \<Rightarrow> (string, null_facts option) pydict \<Rightarrow> pyexc option" where
  "backstop t [] = None"
| "backstop t ((c, f) # fs) =
     (case f of
        Some g \<Rightarrow> if computed g then Some (computed_refusal t c) else backstop t fs
      | None \<Rightarrow> backstop t fs)"

text \<open>What the unit has issued, across its attempts.\<close>

record issued =
  is_not_null :: "string list"
  is_defaults :: "(string, string option) pydict"

definition nothing_issued :: issued where
  "nothing_issued = \<lparr>is_not_null = [], is_defaults = []\<rparr>"

definition live_default :: "(string, null_facts option) pydict \<Rightarrow> string \<Rightarrow> string option" where
  "live_default facts c = (case map_of facts c of Some (Some f) \<Rightarrow> default_expr f | _ \<Rightarrow> None)"

definition note_issued :: "(string, null_facts option) pydict \<Rightarrow> alter \<Rightarrow> issued \<Rightarrow> issued" where
  "note_issued facts a i =
     (case a of
        DropNotNull t c \<Rightarrow> i\<lparr>is_not_null := is_not_null i @ [c]\<rparr>
      | DropDefault t c \<Rightarrow> i\<lparr>is_defaults := dict_set c (live_default facts c) (is_defaults i)\<rparr>
      | SetDefault t c e \<Rightarrow> i)"

fun issue_statements :: "'s overlay_ops \<Rightarrow> (string, null_facts option) pydict \<Rightarrow> alter list \<Rightarrow> ('s \<times> issued, unit) action" where
  "issue_statements ops facts [] (s, i) = (Inr (), (s, i))"
| "issue_statements ops facts (a # as) (s, i) =
     (let i1 = note_issued facts a i
      in case statement_retry ops (execute_single_ddl ops a) s of
           (Inl e, s1) \<Rightarrow> (Inl e, (s1, i1))
         | (Inr u, s1) \<Rightarrow> issue_statements ops facts as (s1, i1))"

definition refuse_unrecorded_defaults :: "string \<Rightarrow> (string, null_facts option) pydict \<Rightarrow> (string \<Rightarrow> string option) \<Rightarrow>
    issued \<Rightarrow> pyexc option" where
  "refuse_unrecorded_defaults t facts expected i =
     (let mismatched = List.map_filter (\<lambda>(c, f). case f of
            Some g \<Rightarrow> (case default_expr g of
                Some d \<Rightarrow> if expected c \<noteq> Some d
                  then Some (c @ '' (live DEFAULT '' @ d @ '', recorded '' @ (case expected c of None \<Rightarrow> ''none'' | Some x \<Rightarrow> x) @ '')'')
                  else None
              | None \<Rightarrow> None)
          | None \<Rightarrow> None) (sorted_facts facts);
          earlier = map (\<lambda>c. c @ '' DROP NOT NULL'') (rev (remdups (rev (is_not_null i)))) @
            map (\<lambda>c. c @ '' DROP DEFAULT'') (map fst (is_defaults i));
          changed = (if earlier = [] then ''nothing was changed on this table''
            else ''an earlier attempt already issued '' @ join_with '', '' earlier)
      in if mismatched = [] then None
         else Some (overlay_error ''OverlayRefusedError'' (t @ '': the DEFAULT to drop is not the recorded one for '' @
                join_with '', '' mismatched @ ''; '' @ changed @ ''. Re-run to record the current DEFAULT first.'')))"

definition still_there :: "bool \<Rightarrow> (string, null_facts option) pydict \<Rightarrow> string \<Rightarrow> string option" where
  "still_there exists facts c =
     (case map_of facts c of
        Some (Some f) \<Rightarrow>
          if \<not> exists then Some (c @ '' (gone)'')
          else if not_null f then Some (c @ '' (still NOT NULL)'')
          else (case default_expr f of Some d \<Rightarrow> Some (c @ '' (still DEFAULT '' @ d @ '')'') | None \<Rightarrow> None)
      | _ \<Rightarrow> Some (c @ '' (gone)''))"

definition overlay_body :: "'s overlay_ops \<Rightarrow> string \<Rightarrow> string list \<Rightarrow> (string \<Rightarrow> string option) option \<Rightarrow> ('s \<times> issued, unit) action" where
  "overlay_body ops t present expected =
     (\<lambda>(s, i).
        case statement_retry ops (read_overlay_column_facts ops t present) s of
          (Inl e, s1) \<Rightarrow> (Inl e, (s1, i))
        | (Inr (_, facts), s1) \<Rightarrow>
            (case backstop t facts of
               Some e \<Rightarrow> (Inl e, (s1, i))
             | None \<Rightarrow>
                 (case (case expected of None \<Rightarrow> None | Some ex \<Rightarrow> refuse_unrecorded_defaults t facts ex i) of
                    Some e \<Rightarrow> (Inl e, (s1, i))
                  | None \<Rightarrow>
                      (case build_overlay_statements t facts of
                         Inl e \<Rightarrow> (Inl e, (s1, i))
                       | Inr statements \<Rightarrow>
                           (case issue_statements ops facts statements (s1, i) of
                              (Inl e, (s2, i2)) \<Rightarrow> (Inl e, (s2, i2))
                            | (Inr u, (s2, i2)) \<Rightarrow>
                                (case statement_retry ops (read_overlay_column_facts ops t present) s2 of
                                   (Inl e, s3) \<Rightarrow> (Inl e, (s3, i2))
                                 | (Inr (exists, facts'), s3) \<Rightarrow>
                                     let remaining = List.map_filter (still_there exists facts') present
                                     in if remaining = [] then (Inr (), (s3, i2))
                                        else (Inl (overlay_error ''OverlayVerifyError''
                                               (t @ '': the overlay did not take effect for '' @ join_with '', '' remaining)),
                                              (s3, i2))))))))"

record overlay_outcome =
  oo_not_null :: "string list"
  oo_defaults :: "(string, string option) pydict"
  oo_already :: "string list"

definition present_columns :: "(string, null_facts option) pydict \<Rightarrow> string list" where
  "present_columns wanted = sort (map fst (filter (\<lambda>(c, f). f \<noteq> None) wanted))"

definition apply_exclusion_overlay :: "'s overlay_ops \<Rightarrow> string \<Rightarrow> (string, null_facts option) pydict \<Rightarrow>
    (string \<Rightarrow> string option) option \<Rightarrow> ('s, overlay_outcome) action" where
  "apply_exclusion_overlay ops t wanted expected s =
     (case backstop t wanted of
        Some e \<Rightarrow> (Inl e, s)
      | None \<Rightarrow>
          let present = present_columns wanted
          in (case build_overlay_statements t wanted of
                Inl e \<Rightarrow> (Inl e, s)
              | Inr statements \<Rightarrow>
                  if statements = [] then (Inr \<lparr>oo_not_null = [], oo_defaults = [], oo_already = present\<rparr>, s)
                  else (case run_unit_reconnecting ops (overlay_body ops t present expected) (s, nothing_issued) of
                          (Inl e, (s1, i)) \<Rightarrow> (Inl e, s1)
                        | (Inr u, (s1, i)) \<Rightarrow>
                            (Inr \<lparr>oo_not_null = sort (remdups (is_not_null i)), oo_defaults = is_defaults i,
                               oo_already = filter (\<lambda>c. c \<notin> set (is_not_null i) \<and> c \<notin> fst ` set (is_defaults i)) present\<rparr>, s1))))"

section \<open>What the target guarantees\<close>

text \<open>
  A table's columns by their stored names. Nobody else alters the table meanwhile. A catalog read is
  exact or fails; an ALTER takes effect or not, and one that answers has taken effect; \<open>printed\<close> is
  what \<open>pg_get_expr\<close> prints of a DEFAULT once set.
\<close>

type_synonym catalog = "string \<Rightarrow> string \<Rightarrow> null_facts option"

definition set_column :: "string \<Rightarrow> string \<Rightarrow> (null_facts \<Rightarrow> null_facts) \<Rightarrow> catalog \<Rightarrow> catalog" where
  "set_column t c g C = C(t := (C t)(pg_stored_name c := map_option g (C t (pg_stored_name c))))"

definition altered :: "(string \<Rightarrow> string) \<Rightarrow> alter \<Rightarrow> catalog \<Rightarrow> catalog" where
  "altered printed a =
     (case a of
        DropNotNull t c \<Rightarrow> set_column t c (not_null_update (\<lambda>x. False))
      | DropDefault t c \<Rightarrow> set_column t c (default_expr_update (\<lambda>x. None))
      | SetDefault t c e \<Rightarrow> set_column t c (default_expr_update (\<lambda>x. Some (printed e))))"

definition rows_show :: "catalog_row list \<Rightarrow> string list \<Rightarrow> (string \<Rightarrow> null_facts option) \<Rightarrow> bool" where
  "rows_show rows names cols =
     (distinct (map attname (filter (\<lambda>r. attname r \<noteq> None) rows))
      \<and> (\<forall>n \<in> set names. \<forall>f. cols n = Some f \<longleftrightarrow> (\<exists>r \<in> set rows. attname r = Some n \<and> row_facts r = f))
      \<and> (\<forall>r \<in> set rows. case attname r of None \<Rightarrow> True | Some n \<Rightarrow> n \<in> set names))"

locale overlay_target =
  fixes ops :: "'s overlay_ops" and cols :: "'s \<Rightarrow> catalog" and printed :: "string \<Rightarrow> string"
  assumes connect_law: "\<And>s r s'. ov_connect ops s = (r, s') \<Longrightarrow> cols s' = cols s"
    and close_law: "\<And>s. cols (ov_close ops s) = cols s"
    and catalog_law: "\<And>t names s r s'. ov_catalog ops t names s = (r, s') \<Longrightarrow> cols s' = cols s
      \<and> (\<forall>rows. r = Inr rows \<longrightarrow> rows_show rows names (cols s t))"
    and execute_law: "\<And>a s r s'. ov_execute ops a s = (r, s') \<Longrightarrow>
      cols s' = altered printed a (cols s) \<or> cols s' = cols s \<and> (\<exists>e. r = Inl e)"
    and strings_law: "\<And>s r s'. ov_strings ops s = (r, s') \<Longrightarrow> cols s' = cols s"
    and waits_law: "\<And>a s. cols (occ_wait (ov_retry ops) a s) = cols s"
    and retry_ok: "occ_config_ok (ov_retry ops)"

lemma stored_names_law:
  "stored_names t cs d = Inr out \<Longrightarrow> (\<forall>n c. map_of d n = Some c \<longrightarrow> n = pg_stored_name c) \<Longrightarrow>
    (\<forall>n c. map_of out n = Some c \<longleftrightarrow> n = pg_stored_name c \<and> (c \<in> set cs \<or> map_of d n = Some c))"
proof (induction t cs d rule: stored_names.induct)
  case (1 t d)
  then show ?case by auto
next
  case (2 t c cs d)
  show ?case
  proof (cases "map_of d (pg_stored_name c)")
    case None
    let ?d = "dict_set (pg_stored_name c) c d"
    have out: "stored_names t cs ?d = Inr out" using 2(3) None by simp
    have ok: "\<forall>n c'. map_of ?d n = Some c' \<longrightarrow> n = pg_stored_name c'" using 2(4) by auto
    have IH: "\<forall>n c'. map_of out n = Some c' \<longleftrightarrow> n = pg_stored_name c' \<and> (c' \<in> set cs \<or> map_of ?d n = Some c')"
      by (rule 2(1) [OF None out ok])
    show ?thesis
    proof (intro allI)
      fix n c'
      show "map_of out n = Some c' \<longleftrightarrow> n = pg_stored_name c' \<and> (c' \<in> set (c # cs) \<or> map_of d n = Some c')"
        using IH None by (cases "n = pg_stored_name c") auto
    qed
  next
    case (Some c')
    with 2(3) have "c' = c" by (auto split: if_splits)
    with 2(3) Some have out: "stored_names t cs d = Inr out" by simp
    from 2(2) [OF Some _ out 2(4)] \<open>c' = c\<close>
    have IH: "\<forall>n c'. map_of out n = Some c' \<longleftrightarrow> n = pg_stored_name c' \<and> (c' \<in> set cs \<or> map_of d n = Some c')" by simp
    show ?thesis
    proof (intro allI)
      fix n x
      show "map_of out n = Some x \<longleftrightarrow> n = pg_stored_name x \<and> (x \<in> set (c # cs) \<or> map_of d n = Some x)"
        using IH Some \<open>c' = c\<close> 2(4) by auto
    qed
  qed
qed

lemma map_of_absent: "map_of (fold (\<lambda>c d. dict_set c None d) cs d) c = (if c \<in> set cs then Some None else map_of d c)"
  by (induction cs arbitrary: d) auto

lemma dict_ok_absent: "dict_ok d \<Longrightarrow> dict_ok (fold (\<lambda>c d. dict_set c None d) cs d)"
  by (induction cs arbitrary: d) auto

lemma dict_ok_row_into: "dict_ok d \<Longrightarrow> dict_ok (fold (row_into by_stored) rows d)"
  by (induction rows arbitrary: d) (auto simp: row_into_def split: option.splits)

lemma map_of_rows_into:
  assumes "\<forall>n m c. map_of by_stored n = Some c \<and> map_of by_stored m = Some c \<longrightarrow> n = m"
    "distinct (map attname (filter (\<lambda>r. attname r \<noteq> None) rows))" "map_of by_stored n = Some c"
  shows "map_of (fold (row_into by_stored) rows d) c
    = (case find (\<lambda>r. attname r = Some n) rows of None \<Rightarrow> map_of d c | Some r \<Rightarrow> Some (Some (row_facts r)))"
  using assms(2)
proof (induction rows arbitrary: d)
  case (Cons r rows)
  show ?case
  proof (cases "attname r = Some n")
    case True
    with Cons.prems have notin: "Some n \<notin> set (map attname (filter (\<lambda>r. attname r \<noteq> None) rows))" by simp
    have "\<forall>x \<in> set rows. attname x \<noteq> Some n"
    proof (intro ballI notI)
      fix x assume "x \<in> set rows" "attname x = Some n"
      then have "attname x \<in> attname ` set (filter (\<lambda>r. attname r \<noteq> None) rows)" by (intro imageI) simp
      with notin \<open>attname x = Some n\<close> show False by simp
    qed
    then have "find (\<lambda>r. attname r = Some n) rows = None" by (auto simp: find_None_iff)
    with Cons True assms(3) show ?thesis by (simp add: row_into_def)
  next
    case False
    have "map_of (row_into by_stored r d) c = map_of d c"
      using False assms(1,3) by (auto simp: row_into_def split: option.splits)
    moreover have "distinct (map attname (filter (\<lambda>r. attname r \<noteq> None) rows))" using Cons.prems by (auto split: if_splits)
    ultimately show ?thesis using Cons.IH [of "row_into by_stored r d"] False by (simp split: option.split)
  qed
qed simp

lemma find_row:
  assumes "rows_show rows names cols" "n \<in> set names"
  shows "map_option row_facts (find (\<lambda>r. attname r = Some n) rows) = cols n"
proof (cases "find (\<lambda>r. attname r = Some n) rows")
  case None
  then have none: "\<forall>r \<in> set rows. attname r \<noteq> Some n" by (auto simp: find_None_iff)
  have "cols n = None"
  proof (rule ccontr)
    assume "cols n \<noteq> None"
    then obtain f where "cols n = Some f" by blast
    with assms none show False unfolding rows_show_def by metis
  qed
  with None show ?thesis by simp
next
  case (Some r)
  then have "r \<in> set rows" "attname r = Some n" by (auto simp: find_Some_iff)
  with assms have "cols n = Some (row_facts r)" unfolding rows_show_def by metis
  with Some show ?thesis by simp
qed

context overlay_target
begin

text \<open>A catalog read answers exactly the asked columns' facts, and no two of them are one column.\<close>

definition shown :: "string \<Rightarrow> string list \<Rightarrow> 's \<Rightarrow> bool \<Rightarrow> (string, null_facts option) pydict \<Rightarrow> bool" where
  "shown t present s exists facts = (dict_ok facts \<and> inj_on pg_stored_name (set present)
     \<and> (\<forall>c. map_of facts c = (if c \<in> set present then Some (cols s t (pg_stored_name c)) else None))
     \<and> (exists \<or> (\<forall>c \<in> set present. cols s t (pg_stored_name c) = None)))"

lemma read_law:
  assumes "read_overlay_column_facts ops t present s = (r, s')"
  shows "cols s' = cols s \<and> (\<forall>exists facts. r = Inr (exists, facts) \<longrightarrow> shown t present s exists facts)"
proof (cases "stored_names t present []")
  case (Inl e)
  with assms show ?thesis by (auto simp: read_overlay_column_facts_def)
next
  case (Inr by_stored)
  have at: "\<forall>n c. map_of by_stored n = Some c \<longleftrightarrow> n = pg_stored_name c \<and> c \<in> set present"
    using stored_names_law [OF Inr] by simp
  then have inj: "inj_on pg_stored_name (set present)"
    by (intro inj_onI) (metis option.inject)
  have names: "pg_stored_name c \<in> set (map fst by_stored)" if "c \<in> set present" for c
    using at that by (metis dom_map_of_conv_image_fst domI list.set_map)
  obtain x s1 where x: "ov_catalog ops t (map fst by_stored) s = (x, s1)" by force
  note law = catalog_law [OF x]
  show ?thesis
  proof (cases x)
    case (Inl e)
    with x Inr assms law show ?thesis by (auto simp: read_overlay_column_facts_def)
  next
    case rows: (Inr rows)
    let ?none = "fold (\<lambda>c d. dict_set c None d) present []"
    let ?facts = "fold (row_into by_stored) rows ?none"
    from rows law have show_rows: "rows_show rows (map fst by_stored) (cols s t)" by simp
    have one: "\<forall>n m c. map_of by_stored n = Some c \<and> map_of by_stored m = Some c \<longrightarrow> n = m" using at by simp
    have dist: "distinct (map attname (filter (\<lambda>r. attname r \<noteq> None) rows))" using show_rows by (simp add: rows_show_def)
    have inside: "map_of ?facts c = Some (cols s t (pg_stored_name c))" if "c \<in> set present" for c
    proof -
      from at that have "map_of by_stored (pg_stored_name c) = Some c" by simp
      from map_of_rows_into [OF one dist this, of ?none] find_row [OF show_rows names [OF that], symmetric] that
      show ?thesis by (auto simp: map_of_absent split: option.splits)
    qed
    have outside: "map_of ?facts c = None" if "c \<notin> set present" for c
    proof -
      have "fst ` set (fold (row_into by_stored) rows d) \<subseteq> fst ` set d \<union> set present" for d
      proof (induction rows arbitrary: d)
        case (Cons r rows)
        have "fst ` set (row_into by_stored r d) \<subseteq> fst ` set d \<union> set present"
          using at by (auto simp: row_into_def split: option.splits)
        with Cons [of "row_into by_stored r d"] show ?case by auto
      qed simp
      moreover have "fst ` set ?none \<subseteq> set present"
        unfolding dom_map_of_conv_image_fst [symmetric] by (auto simp: map_of_absent split: if_splits)
      ultimately show ?thesis using that by (auto simp: map_of_eq_None_iff)
    qed
    have ok: "dict_ok ?facts" by (intro dict_ok_row_into dict_ok_absent) simp
    show ?thesis
    proof (cases "rows = []")
      case True
      with inside have gone: "cols s t (pg_stored_name c) = None" if "c \<in> set present" for c
        using that by (simp add: map_of_absent)
      from True x Inr rows assms have "r = Inr (False, ?none)" "s' = s1" by (simp_all add: read_overlay_column_facts_def)
      with True inside outside ok inj law gone show ?thesis by (auto simp: shown_def)
    next
      case False
      with x Inr rows assms have "r = Inr (True, ?facts)" "s' = s1" by (simp_all add: read_overlay_column_facts_def)
      with inside outside ok inj law show ?thesis by (auto simp: shown_def)
    qed
  qed
qed

end

section \<open>What the unit keeps\<close>

text \<open>
  A column after the unit's ALTERs: its constraint gone only when the unit issued it, its DEFAULT only
  when the unit noted that very DEFAULT and, where a record was expected, the record holds it.
\<close>

definition eased :: "(string \<Rightarrow> string option) option \<Rightarrow> issued \<Rightarrow> string \<Rightarrow> null_facts \<Rightarrow> null_facts \<Rightarrow> bool" where
  "eased E i c g0 g =
     (is_identity g = is_identity g0 \<and> is_generated g = is_generated g0
      \<and> (not_null g = not_null g0 \<or> \<not> not_null g \<and> c \<in> set (is_not_null i))
      \<and> (default_expr g = default_expr g0
         \<or> default_expr g = None \<and> map_of (is_defaults i) c = Some (default_expr g0)
           \<and> (\<forall>ex. E = Some ex \<longrightarrow> ex c = default_expr g0)))"

definition noted :: "catalog \<Rightarrow> string \<Rightarrow> string list \<Rightarrow> issued \<Rightarrow> bool" where
  "noted C0 t present i =
     (dict_ok (is_defaults i)
      \<and> (\<forall>c \<in> set (is_not_null i). c \<in> set present \<and> (\<exists>g0. C0 t (pg_stored_name c) = Some g0 \<and> not_null g0))
      \<and> (\<forall>c d. map_of (is_defaults i) c = Some d \<longrightarrow>
           c \<in> set present \<and> d \<noteq> None \<and> (\<exists>g0. C0 t (pg_stored_name c) = Some g0 \<and> default_expr g0 = d)))"

definition touched :: "catalog \<Rightarrow> string \<Rightarrow> string list \<Rightarrow> (string \<Rightarrow> string option) option \<Rightarrow> issued \<Rightarrow> catalog \<Rightarrow> bool" where
  "touched C0 t present E i C =
     (\<forall>u n. C u n = C0 u n \<or> u = t \<and> (\<exists>c \<in> set present. \<exists>g0 g. n = pg_stored_name c
        \<and> C0 u n = Some g0 \<and> C u n = Some g \<and> eased E i c g0 g))"

definition issuable :: "catalog \<Rightarrow> string \<Rightarrow> string list \<Rightarrow> (string \<Rightarrow> string option) option \<Rightarrow> (string, null_facts option) pydict \<Rightarrow>
    alter \<Rightarrow> bool" where
  "issuable C0 t present E facts a =
     (case a of
        DropNotNull u c \<Rightarrow> u = t \<and> c \<in> set present \<and> (\<exists>g0. C0 t (pg_stored_name c) = Some g0 \<and> not_null g0)
      | DropDefault u c \<Rightarrow> u = t \<and> c \<in> set present \<and> (\<exists>g0. C0 t (pg_stored_name c) = Some g0 \<and> default_expr g0 \<noteq> None
          \<and> live_default facts c = default_expr g0 \<and> (\<forall>ex. E = Some ex \<longrightarrow> ex c = default_expr g0))
      | SetDefault u c e \<Rightarrow> False)"

definition noted_alter :: "alter \<Rightarrow> issued \<Rightarrow> bool" where
  "noted_alter a i = (case a of DropNotNull u c \<Rightarrow> c \<in> set (is_not_null i)
     | DropDefault u c \<Rightarrow> map_of (is_defaults i) c \<noteq> None | SetDefault u c e \<Rightarrow> False)"

lemma touchedD:
  "touched C0 t present E i C \<Longrightarrow> C u n \<noteq> C0 u n \<Longrightarrow>
    u = t \<and> (\<exists>c \<in> set present. \<exists>g0 g. n = pg_stored_name c \<and> C0 u n = Some g0 \<and> C u n = Some g \<and> eased E i c g0 g)"
  unfolding touched_def by blast

lemma notedD:
  "noted C0 t present i \<Longrightarrow> map_of (is_defaults i) c = Some d \<Longrightarrow>
    c \<in> set present \<and> d \<noteq> None \<and> (\<exists>g0. C0 t (pg_stored_name c) = Some g0 \<and> default_expr g0 = d)"
  unfolding noted_def by blast

lemma eased_refl: "eased E i c g g"
  by (simp add: eased_def)

text \<open>What the catalog says of one of the unit's columns.\<close>

lemma touched_column:
  assumes "touched C0 t present E i C" "inj_on pg_stored_name (set present)" "c \<in> set present"
    "C t (pg_stored_name c) = Some g"
  shows "\<exists>g0. C0 t (pg_stored_name c) = Some g0 \<and> eased E i c g0 g"
proof (cases "C t (pg_stored_name c) = C0 t (pg_stored_name c)")
  case True
  with assms(4) show ?thesis using eased_refl by auto
next
  case False
  from touchedD [OF assms(1) False] obtain c' g0 g' where c': "c' \<in> set present" "pg_stored_name c = pg_stored_name c'"
    "C0 t (pg_stored_name c) = Some g0" "C t (pg_stored_name c) = Some g'" "eased E i c' g0 g'" by auto
  from inj_onD [OF assms(2) c'(2) assms(3) c'(1)] c' assms(4) show ?thesis by auto
qed

lemma eased_note:
  "eased E i c g0 g \<Longrightarrow> C0 t (pg_stored_name c) = Some g0 \<Longrightarrow> issuable C0 t present E facts a \<Longrightarrow>
    eased E (note_issued facts a i) c g0 g"
  by (auto simp: eased_def note_issued_def issuable_def split: alter.splits)

lemma touched_note:
  assumes "touched C0 t present E i C" "issuable C0 t present E facts a"
  shows "touched C0 t present E (note_issued facts a i) C"
  unfolding touched_def
proof (intro allI)
  fix u n
  show "C u n = C0 u n \<or> u = t \<and> (\<exists>c \<in> set present. \<exists>g0 g. n = pg_stored_name c
      \<and> C0 u n = Some g0 \<and> C u n = Some g \<and> eased E (note_issued facts a i) c g0 g)"
    using touchedD [OF assms(1), of u n] eased_note [OF _ _ assms(2)] by (metis (no_types))
qed

lemma noted_note:
  assumes "noted C0 t present i" "issuable C0 t present E facts a"
  shows "noted C0 t present (note_issued facts a i) \<and> noted_alter a (note_issued facts a i)"
proof (cases a)
  case (DropNotNull u c)
  with assms show ?thesis by (auto simp: noted_def note_issued_def noted_alter_def issuable_def)
next
  case (DropDefault u c)
  with assms(2) obtain g0 where g0: "c \<in> set present" "C0 t (pg_stored_name c) = Some g0" "default_expr g0 \<noteq> None"
    "live_default facts c = default_expr g0" by (auto simp: issuable_def)
  let ?i = "i\<lparr>is_defaults := dict_set c (default_expr g0) (is_defaults i)\<rparr>"
  have old: "\<forall>c d. map_of (is_defaults i) c = Some d \<longrightarrow>
      c \<in> set present \<and> d \<noteq> None \<and> (\<exists>g0. C0 t (pg_stored_name c) = Some g0 \<and> default_expr g0 = d)"
    using assms(1) unfolding noted_def by (elim conjE)
  have "\<forall>c' d. map_of (is_defaults ?i) c' = Some d \<longrightarrow>
      c' \<in> set present \<and> d \<noteq> None \<and> (\<exists>g0. C0 t (pg_stored_name c') = Some g0 \<and> default_expr g0 = d)"
  proof (intro allI impI)
    fix c' d assume m: "map_of (is_defaults ?i) c' = Some d"
    show "c' \<in> set present \<and> d \<noteq> None \<and> (\<exists>g0. C0 t (pg_stored_name c') = Some g0 \<and> default_expr g0 = d)"
    proof (cases "c' = c")
      case True
      with m map_of_dict_set [of c "default_expr g0" "is_defaults i"] have "d = default_expr g0" by (cases i) (simp del: map_of_eq_Some_iff)
      with True g0 show ?thesis by auto
    next
      case False
      with m have "map_of (is_defaults i) c' = Some d" by (cases i) (simp del: map_of_eq_Some_iff)
      with old show ?thesis by blast
    qed
  qed
  then have "noted C0 t present ?i" using assms(1) unfolding noted_def by simp
  then show ?thesis using DropDefault g0(4) by (simp add: note_issued_def noted_alter_def)
next
  case (SetDefault u c e)
  with assms(2) show ?thesis by (simp add: issuable_def)
qed

lemma touched_altered:
  assumes "touched C0 t present E i C" "inj_on pg_stored_name (set present)" "noted C0 t present i"
    "issuable C0 t present E facts a" "noted_alter a i"
  shows "touched C0 t present E i (altered printed a C)"
proof -
  have step: "touched C0 t present E i (set_column t c h C)"
    if c: "c \<in> set present" and h: "\<And>g0 g. C0 t (pg_stored_name c) = Some g0 \<Longrightarrow> eased E i c g0 g \<Longrightarrow> eased E i c g0 (h g)" for c h
    unfolding touched_def
  proof (intro allI)
    fix u n
    show "set_column t c h C u n = C0 u n \<or> u = t \<and> (\<exists>b \<in> set present. \<exists>g0 g. n = pg_stored_name b
        \<and> C0 u n = Some g0 \<and> set_column t c h C u n = Some g \<and> eased E i b g0 g)"
    proof (cases "u = t \<and> n = pg_stored_name c")
      case True
      show ?thesis
      proof (cases "C t (pg_stored_name c)")
        case None
        with True touchedD [OF assms(1), of u n] have "C0 u n = None" by fastforce
        with None True show ?thesis by (simp add: set_column_def)
      next
        case (Some g)
        from touched_column [OF assms(1,2) c Some] h Some True c show ?thesis
          by (auto simp: set_column_def intro!: bexI [of _ c])
      qed
    next
      case False
      then have same: "set_column t c h C u n = C u n" by (auto simp: set_column_def)
      show ?thesis unfolding same using assms(1) unfolding touched_def by blast
    qed
  qed
  show ?thesis
  proof (cases a)
    case (DropNotNull u c)
    with assms(4,5) have "u = t" "c \<in> set present" "c \<in> set (is_not_null i)" by (simp_all add: issuable_def noted_alter_def)
    then show ?thesis using step [of c "not_null_update (\<lambda>x. False)"] DropNotNull by (simp add: altered_def eased_def)
  next
    case (DropDefault u c)
    with assms(4,5) obtain g0 d where c: "u = t" "c \<in> set present" "C0 t (pg_stored_name c) = Some g0"
      "\<forall>ex. E = Some ex \<longrightarrow> ex c = default_expr g0" "map_of (is_defaults i) c = Some d"
      by (auto simp: issuable_def noted_alter_def)
    from notedD [OF assms(3) c(5)] c(3) have "d = default_expr g0" by auto
    with c have "touched C0 t present E i (set_column t c (default_expr_update (\<lambda>x. None)) C)"
      by (intro step) (auto simp: eased_def)
    with DropDefault c(1) show ?thesis by (simp add: altered_def)
  next
    case (SetDefault u c e)
    with assms(4) show ?thesis by (simp add: issuable_def)
  qed
qed

lemma statements_of:
  "overlay_statements t fs = Inr as \<Longrightarrow> a \<in> set as \<Longrightarrow>
    \<exists>c f. (c, Some f) \<in> set fs \<and> (a = DropNotNull t c \<and> not_null f \<or> a = DropDefault t c \<and> default_expr f \<noteq> None)"
proof (induction t fs arbitrary: as rule: overlay_statements.induct)
  case (3 t c f fs)
  then obtain out where "overlay_statements t fs = Inr out" "\<not> computed f"
    "as = (if not_null f then [DropNotNull t c] else []) @ (if default_expr f \<noteq> None then [DropDefault t c] else []) @ out"
    by (auto split: if_splits sum.splits)
  with 3 show ?case by (auto split: if_splits)
qed auto

lemma sorted_facts_mem: "(c, f) \<in> set (sorted_facts facts) \<longleftrightarrow> map_of facts c = Some f"
proof -
  have "map_of facts c \<noteq> None \<longleftrightarrow> c \<in> fst ` set facts" by (simp add: map_of_eq_None_iff)
  then show ?thesis by (auto simp: sorted_facts_def)
qed

lemma map_filter_empty: "List.map_filter g xs = [] \<Longrightarrow> x \<in> set xs \<Longrightarrow> g x = None"
  by (auto simp: map_filter_def filter_empty_conv)

lemma expected_default:
  assumes "refuse_unrecorded_defaults t facts ex i = None" "map_of facts c = Some (Some f)" "default_expr f = Some d"
  shows "ex c = Some d"
proof -
  have mem: "(c, Some f) \<in> set (sorted_facts facts)" using assms(2) by (simp add: sorted_facts_mem)
  from assms(1) have "List.map_filter (\<lambda>(c, f). case f of
      Some g \<Rightarrow> (case default_expr g of
          Some d \<Rightarrow> if ex c \<noteq> Some d
            then Some (c @ '' (live DEFAULT '' @ d @ '', recorded '' @ (case ex c of None \<Rightarrow> ''none'' | Some x \<Rightarrow> x) @ '')'')
            else None
        | None \<Rightarrow> None)
    | None \<Rightarrow> None) (sorted_facts facts) = []"
    unfolding refuse_unrecorded_defaults_def Let_def by (simp split: if_splits)
  from map_filter_empty [OF this mem] assms(3) show ?thesis by (simp split: if_splits)
qed

text \<open>The statements built from a catalog read may be issued.\<close>

context overlay_target
begin

lemma built_issuable:
  assumes "shown t present s exists facts" "touched C0 t present E i (cols s)"
    "build_overlay_statements t facts = Inr as" "a \<in> set as"
    "\<And>ex. E = Some ex \<Longrightarrow> refuse_unrecorded_defaults t facts ex i' = None"
  shows "issuable C0 t present E facts a"
proof -
  from statements_of [OF assms(3) [unfolded build_overlay_statements_def] assms(4)] sorted_facts_mem
  obtain c f where cf: "map_of facts c = Some (Some f)"
    "a = DropNotNull t c \<and> not_null f \<or> a = DropDefault t c \<and> default_expr f \<noteq> None" by blast
  from assms(1) cf(1) have c: "c \<in> set present" "cols s t (pg_stored_name c) = Some f" "inj_on pg_stored_name (set present)"
    by (auto simp: shown_def split: if_splits)
  from touched_column [OF assms(2) c(3,1,2)] obtain g0 where g0: "C0 t (pg_stored_name c) = Some g0" "eased E i c g0 f" by blast
  from cf(2) show ?thesis
  proof
    assume "a = DropNotNull t c \<and> not_null f"
    with c(1) g0 show ?thesis by (auto simp: issuable_def eased_def)
  next
    assume a: "a = DropDefault t c \<and> default_expr f \<noteq> None"
    then obtain d where d: "default_expr f = Some d" by blast
    with g0(2) have "default_expr g0 = Some d" by (auto simp: eased_def)
    moreover have "live_default facts c = Some d" using cf(1) d by (simp add: live_default_def)
    moreover have "ex c = Some d" if "E = Some ex" for ex
      using expected_default [OF assms(5) [OF that] cf(1) d] .
    ultimately show ?thesis using a c(1) g0(1) by (auto simp: issuable_def)
  qed
qed

lemma execute_keeps:
  assumes "execute_single_ddl ops a s = (r, s')"
  shows "cols s' = altered printed a (cols s) \<or> cols s' = cols s \<and> (\<exists>e. r = Inl e)"
proof -
  obtain x s1 where x: "ov_execute ops a s = (x, s1)" by force
  from execute_law [OF x] x assms show ?thesis
    by (cases x) (auto simp: execute_single_ddl_def split: if_splits)
qed

lemma statement_ok: "occ_config_ok ((ov_retry ops)\<lparr>retryable := p\<rparr>)"
  using retry_ok by (simp add: occ_config_ok_def)

lemma statement_wait: "cols (occ_wait ((ov_retry ops)\<lparr>retryable := p\<rparr>) a s) = cols s"
  using waits_law [of a s] by (simp add: occ_wait_def)

lemma shown_cong: "cols s0 = cols s \<Longrightarrow> shown t present s0 exists facts = shown t present s exists facts"
  by (simp add: shown_def)

lemma retried_read:
  assumes "statement_retry ops (read_overlay_column_facts ops t present) s = (r, s')"
  shows "cols s' = cols s \<and> (\<forall>exists facts. r = Inr (exists, facts) \<longrightarrow> shown t present s exists facts)"
proof (rule with_occ_retry_rule [OF statement_ok, where I = "\<lambda>s0. cols s0 = cols s"
      and Q = "\<lambda>r s'. \<forall>exists facts. r = Inr (exists, facts) \<longrightarrow> shown t present s exists facts",
      OF _ _ _ assms [unfolded statement_retry_def]])
  fix s0 r0 s0' assume s0: "cols s0 = cols s" and "read_overlay_column_facts ops t present s0 = (r0, s0')"
  from read_law [OF this(2)] s0 shown_cong [OF s0]
  show "cols s0' = cols s \<and> (\<forall>exists facts. r0 = Inr (exists, facts) \<longrightarrow> shown t present s exists facts)" by simp
qed (simp_all only: statement_wait)

lemma issue_keeps:
  assumes "\<forall>a \<in> set as. issuable C0 t present E facts a" "inj_on pg_stored_name (set present)"
    "noted C0 t present i" "touched C0 t present E i (cols s)" "issue_statements ops facts as (s, i) = (r, (s', i'))"
  shows "noted C0 t present i' \<and> touched C0 t present E i' (cols s')"
  using assms(1,3-)
proof (induction as arbitrary: s i)
  case (Cons a as)
  let ?i = "note_issued facts a i"
  have a: "issuable C0 t present E facts a" using Cons.prems(1) by simp
  from noted_note [OF Cons.prems(2) a] have n: "noted C0 t present ?i" "noted_alter a ?i" by simp_all
  from touched_note [OF Cons.prems(3) a] have t: "touched C0 t present E ?i (cols s)" .
  obtain x s1 where x: "statement_retry ops (execute_single_ddl ops a) s = (x, s1)" by force
  have "touched C0 t present E ?i (cols s1) \<and> True"
  proof (rule with_occ_retry_rule [OF statement_ok, where I = "\<lambda>s0. touched C0 t present E ?i (cols s0)"
        and Q = "\<lambda>r s'. True", OF _ _ _ x [unfolded statement_retry_def]])
    show "touched C0 t present E ?i (cols s)" by (rule t)
  next
    fix s0 r0 s0' assume "touched C0 t present E ?i (cols s0)" "execute_single_ddl ops a s0 = (r0, s0')"
    with execute_keeps touched_altered [OF _ assms(2) n(1) a n(2)] show "touched C0 t present E ?i (cols s0') \<and> True"
      by metis
  next
    fix k s0 assume "touched C0 t present E ?i (cols s0)"
    then show "touched C0 t present E ?i (cols (occ_wait ((ov_retry ops)\<lparr>retryable := is_occ_conflict\<rparr>) k s0))"
      by (simp only: statement_wait)
  qed
  then have t1: "touched C0 t present E ?i (cols s1)" by simp
  show ?case
  proof (cases x)
    case (Inl e)
    with x Cons.prems(4) have "s' = s1" "i' = ?i" by (simp_all add: Let_def)
    with n t1 show ?thesis by simp
  next
    case (Inr u)
    with x Cons.prems(4) have "issue_statements ops facts as (s1, ?i) = (r, (s', i'))" by (simp add: Let_def)
    from Cons.IH [OF _ n(1) t1 this] Cons.prems(1) show ?thesis by simp
  qed
qed simp

definition eased_all :: "string \<Rightarrow> string list \<Rightarrow> 's \<Rightarrow> bool" where
  "eased_all t present s = (inj_on pg_stored_name (set present) \<and> (\<forall>c \<in> set present. \<exists>g. cols s t (pg_stored_name c) = Some g \<and> \<not> not_null g \<and> default_expr g = None))"

lemma nothing_remains:
  assumes "shown t present s exists facts" "List.map_filter (still_there exists facts) present = []"
  shows "eased_all t present s"
  unfolding eased_all_def
proof (intro conjI ballI)
  show "inj_on pg_stored_name (set present)" using assms(1) by (simp add: shown_def)
next
  fix c assume c: "c \<in> set present"
  have none: "still_there exists facts c = None"
  proof (rule ccontr)
    assume "still_there exists facts c \<noteq> None"
    with map_filter_empty [OF assms(2) c] show False by simp
  qed
  from assms(1) c have "map_of facts c = Some (cols s t (pg_stored_name c))" by (simp add: shown_def)
  with none show "\<exists>g. cols s t (pg_stored_name c) = Some g \<and> \<not> not_null g \<and> default_expr g = None"
    by (auto simp: still_there_def split: option.splits if_splits)
qed

lemma body_keeps:
  assumes "noted C0 t present i" "touched C0 t present E i (cols s)" "overlay_body ops t present E (s, i) = (r, (s', i'))"
  shows "noted C0 t present i' \<and> touched C0 t present E i' (cols s') \<and> (\<forall>u. r = Inr u \<longrightarrow> eased_all t present s')"
proof -
  obtain x s1 where x: "statement_retry ops (read_overlay_column_facts ops t present) s = (x, s1)" by force
  note read1 = retried_read [OF x]
  show ?thesis
  proof (cases x)
    case (Inl e)
    with x assms read1 show ?thesis by (auto simp: overlay_body_def)
  next
    case (Inr ef)
    obtain ex facts where ef: "ef = (ex, facts)" by force
    with read1 Inr have shown1: "shown t present s ex facts" "cols s1 = cols s" by simp_all
    let ?refusal = "case E of None \<Rightarrow> None | Some ex \<Rightarrow> refuse_unrecorded_defaults t facts ex i"
    show ?thesis
    proof (cases "backstop t facts \<noteq> None \<or> ?refusal \<noteq> None \<or> (\<exists>e. build_overlay_statements t facts = Inl e)")
      case True
      then have "s' = s1" "i' = i" "\<exists>e. r = Inl e"
        using x Inr ef assms(3) by (auto simp: overlay_body_def split: option.splits sum.splits)
      with assms shown1 show ?thesis by auto
    next
      case False
      then obtain as where as: "build_overlay_statements t facts = Inr as" "backstop t facts = None" "?refusal = None"
        by (cases "build_overlay_statements t facts") auto
      have issuable: "\<forall>a \<in> set as. issuable C0 t present E facts a"
      proof
        fix a assume "a \<in> set as"
        show "issuable C0 t present E facts a"
          by (rule built_issuable [OF shown1(1) assms(2) as(1) \<open>a \<in> set as\<close>, where i' = i]) (use as(3) in simp)
      qed
      obtain y s2 i2 where y: "issue_statements ops facts as (s1, i) = (y, (s2, i2))" by (metis prod.collapse)
      from issue_keeps [OF issuable _ assms(1) _ y] shown1 assms(2)
      have kept: "noted C0 t present i2" "touched C0 t present E i2 (cols s2)" by (simp_all add: shown_def)
      show ?thesis
      proof (cases y)
        case (Inl e)
        with x Inr ef as y assms(3) kept show ?thesis by (auto simp: overlay_body_def)
      next
        case ok: (Inr u)
        obtain z s3 where z: "statement_retry ops (read_overlay_column_facts ops t present) s2 = (z, s3)" by force
        note read2 = retried_read [OF z]
        show ?thesis
        proof (cases z)
          case (Inl e)
          with x Inr ef as y ok z assms(3) kept read2 show ?thesis by (auto simp: overlay_body_def)
        next
          case ok2: (Inr ef')
          obtain ex' facts' where ef': "ef' = (ex', facts')" by force
          with read2 ok2 have shown2: "shown t present s2 ex' facts'" "cols s3 = cols s2" by simp_all
          from x Inr ef as y ok z ok2 ef' assms(3) have out: "s' = s3" "i' = i2"
            "\<forall>u. r = Inr u \<longrightarrow> List.map_filter (still_there ex' facts') present = []"
            by (auto simp: overlay_body_def Let_def split: if_splits)
          have "eased_all t present s'" if "r = Inr u" for u
            using nothing_remains [OF shown2(1)] out that shown2(2) by (auto simp: eased_all_def)
          with out kept shown2(2) show ?thesis by simp
        qed
      qed
    qed
  qed
qed

lemma unit_keeps:
  assumes "run_unit_reconnecting ops (overlay_body ops t present E) (s, nothing_issued) = (r, (s', i'))"
  shows "noted (cols s) t present i' \<and> touched (cols s) t present E i' (cols s') \<and> (\<forall>u. r = Inr u \<longrightarrow> eased_all t present s')"
proof -
  let ?I = "\<lambda>(s0, i). noted (cols s) t present i \<and> touched (cols s) t present E i (cols s0)"
  let ?Q = "\<lambda>r (s0, i). \<forall>u. r = Inr u \<longrightarrow> eased_all t present s0"
  let ?unit = "\<lambda>(s, i). case ov_connect ops s of
      (Inl e, s1) \<Rightarrow> (Inl e, (s1, i))
    | (Inr u, s1) \<Rightarrow> (case overlay_body ops t present E (s1, i) of (r, (s2, i2)) \<Rightarrow> (r, (ov_close ops s2, i2)))"
  have "?I (s', i') \<and> ?Q r (s', i')"
  proof (rule with_occ_retry_rule [where operation = ?unit and I = ?I and Q = ?Q, OF _ _ _ _ assms [unfolded run_unit_reconnecting_def]])
    show "occ_config_ok (unit_config (ov_retry ops) unit_retryable)"
      using retry_ok by (simp add: occ_config_ok_def unit_config_def)
    show "?I (s, nothing_issued)" by (simp add: noted_def nothing_issued_def touched_def)
  next
    fix p q p' assume I: "?I p" and op: "?unit p = (q, p')"
    obtain s0 i where p: "p = (s0, i)" by force
    obtain x s1 where x: "ov_connect ops s0 = (x, s1)" by force
    from I p have kept: "noted (cols s) t present i" "touched (cols s) t present E i (cols s1)"
      using connect_law [OF x] by simp_all
    show "?I p' \<and> ?Q q p'"
    proof (cases x)
      case (Inl e)
      with op p x kept show ?thesis by auto
    next
      case (Inr u)
      obtain y s2 i2 where y: "overlay_body ops t present E (s1, i) = (y, (s2, i2))" by (metis prod.collapse)
      with op p x Inr have "q = y" "p' = (ov_close ops s2, i2)" by auto
      with body_keeps [OF kept y] show ?thesis by (auto simp: close_law eased_all_def)
    qed
  next
    fix a p assume "?I p"
    moreover obtain s0 i where p: "p = (s0, i)" by force
    have "occ_wait (unit_config (ov_retry ops) unit_retryable) a (s0, i) = (occ_wait (ov_retry ops) a s0, i)"
      by (simp add: occ_wait_def unit_config_def split: prod.split)
    ultimately show "?I (occ_wait (unit_config (ov_retry ops) unit_retryable) a p)"
      unfolding p by (simp add: waits_law)
  qed
  then show ?thesis by simp
qed

end

section \<open>The unit as a whole\<close>

lemma present_columns_mem: "dict_ok facts \<Longrightarrow> c \<in> set (present_columns facts) \<longleftrightarrow> (\<exists>f. map_of facts c = Some (Some f))"
  by (force simp: present_columns_def)

lemma no_statements:
  "overlay_statements t fs = Inr [] \<Longrightarrow> (c, Some f) \<in> set fs \<Longrightarrow> \<not> not_null f \<and> default_expr f = None \<and> \<not> computed f"
  by (induction t fs rule: overlay_statements.induct) (auto split: if_splits sum.splits)

text \<open>A column with its constraint and its DEFAULT dropped.\<close>

definition nullable :: "null_facts \<Rightarrow> null_facts" where
  "nullable f = f\<lparr>not_null := False, default_expr := None\<rparr>"

lemma nullable_eq:
  "eased E i c g0 g \<Longrightarrow> \<not> not_null g \<Longrightarrow> default_expr g = None \<Longrightarrow> g = nullable g0"
  by (auto simp: eased_def nullable_def)

text \<open>What an outcome says of the facts the unit started from.\<close>

definition outcome_exact :: "(string, null_facts option) pydict \<Rightarrow> overlay_outcome \<Rightarrow> bool" where
  "outcome_exact facts out =
     (\<forall>c f. map_of facts c = Some (Some f) \<longrightarrow>
        (c \<in> set (oo_not_null out) \<longleftrightarrow> not_null f)
        \<and> map_of (oo_defaults out) c = (if default_expr f = None then None else Some (default_expr f))
        \<and> (c \<in> set (oo_already out) \<longleftrightarrow> \<not> not_null f \<and> default_expr f = None))"

context overlay_target
begin

lemma unit_exact:
  assumes "dict_ok facts" "\<And>c f. map_of facts c = Some (Some f) \<Longrightarrow> cols s t (pg_stored_name c) = Some f"
    and "noted (cols s) t (present_columns facts) i" "touched (cols s) t (present_columns facts) E i (cols s')"
    and "eased_all t (present_columns facts) s'" "inj_on pg_stored_name (set (present_columns facts))"
  shows "(\<forall>c f. map_of facts c = Some (Some f) \<longrightarrow> cols s' t (pg_stored_name c) = Some (nullable f))
    \<and> outcome_exact facts \<lparr>oo_not_null = sort (remdups (is_not_null i)), oo_defaults = is_defaults i,
        oo_already = filter (\<lambda>c. c \<notin> set (is_not_null i) \<and> c \<notin> fst ` set (is_defaults i)) (present_columns facts)\<rparr>"
proof -
  have main: "cols s' t (pg_stored_name c) = Some (nullable f) \<and> (c \<in> set (is_not_null i) \<longleftrightarrow> not_null f)
      \<and> map_of (is_defaults i) c = (if default_expr f = None then None else Some (default_expr f)) \<and> c \<in> set (present_columns facts)"
    if c: "map_of facts c = Some (Some f)" for c f
  proof -
    have p: "c \<in> set (present_columns facts)" using c assms(1) by (simp add: present_columns_mem)
    with assms(5) obtain g where g: "cols s' t (pg_stored_name c) = Some g" "\<not> not_null g" "default_expr g = None"
      unfolding eased_all_def by blast
    from touched_column [OF assms(4,6) p g(1)] assms(2) [OF c] have e: "eased E i c f g" by auto
    have nn: "c \<in> set (is_not_null i) \<longleftrightarrow> not_null f"
      using e g(2) assms(2) [OF c] assms(3) by (auto simp: eased_def noted_def)
    have d: "map_of (is_defaults i) c = (if default_expr f = None then None else Some (default_expr f))"
    proof (cases "map_of (is_defaults i) c")
      case None
      with e g(3) show ?thesis by (auto simp: eased_def)
    next
      case (Some d)
      from notedD [OF assms(3) Some] assms(2) [OF c] Some show ?thesis by auto
    qed
    from nullable_eq [OF e g(2,3)] g(1) nn d p show ?thesis by simp
  qed
  have keys: "c \<in> fst ` set (is_defaults i) \<longleftrightarrow> map_of (is_defaults i) c \<noteq> None" for c
    by (simp add: map_of_eq_None_iff)
  show ?thesis unfolding outcome_exact_def overlay_outcome.select_convs using main keys by auto
qed

lemma apply_law:
  assumes "dict_ok facts" "apply_exclusion_overlay ops t facts E s = (r, s')"
  shows "(\<exists>i. touched (cols s) t (present_columns facts) E i (cols s'))
    \<and> (\<forall>out. r = Inr out \<longrightarrow> (\<forall>c f. map_of facts c = Some (Some f) \<longrightarrow> cols s t (pg_stored_name c) = Some f) \<longrightarrow>
        (\<forall>c f. map_of facts c = Some (Some f) \<longrightarrow> cols s' t (pg_stored_name c) = Some (nullable f)) \<and> outcome_exact facts out)"
proof (cases "backstop t facts \<noteq> None \<or> (\<exists>e. build_overlay_statements t facts = Inl e)")
  case True
  with assms(2) have "s' = s" "\<exists>e. r = Inl e"
    by (auto simp: apply_exclusion_overlay_def Let_def split: option.splits sum.splits)
  then show ?thesis by (auto simp: touched_def)
next
  case False
  then obtain as where as: "build_overlay_statements t facts = Inr as" "backstop t facts = None"
    by (cases "build_overlay_statements t facts") auto
  show ?thesis
  proof (cases "as = []")
    case True
    with as assms(2) have out: "s' = s"
      "r = Inr \<lparr>oo_not_null = [], oo_defaults = [], oo_already = present_columns facts\<rparr>"
      by (simp_all add: apply_exclusion_overlay_def)
    have none: "\<not> not_null f \<and> default_expr f = None" if "map_of facts c = Some (Some f)" for c f
      using no_statements [OF as(1) [unfolded build_overlay_statements_def True]] that by (simp add: sorted_facts_mem)
    have same: "nullable f = f" if "\<not> not_null f \<and> default_expr f = None" for f
      using that by (simp add: nullable_def)
    have "outcome_exact facts \<lparr>oo_not_null = [], oo_defaults = [], oo_already = present_columns facts\<rparr>"
      using none assms(1) by (auto simp: outcome_exact_def present_columns_mem)
    with out none same show ?thesis by (auto simp: touched_def)
  next
    case False
    let ?P = "present_columns facts"
    obtain x s1 i where x: "run_unit_reconnecting ops (overlay_body ops t ?P E) (s, nothing_issued) = (x, (s1, i))"
      by (metis prod.collapse)
    note kept = unit_keeps [OF x]
    show ?thesis
    proof (cases x)
      case (Inl e)
      with x as False assms(2) kept show ?thesis by (auto simp: apply_exclusion_overlay_def Let_def)
    next
      case (Inr u)
      let ?out = "\<lparr>oo_not_null = sort (remdups (is_not_null i)), oo_defaults = is_defaults i,
        oo_already = filter (\<lambda>c. c \<notin> set (is_not_null i) \<and> c \<notin> fst ` set (is_defaults i)) ?P\<rparr>"
      from Inr x as False assms(2) have out: "r = Inr ?out" "s' = s1"
        by (simp_all add: apply_exclusion_overlay_def Let_def)
      from kept Inr have all: "eased_all t ?P s1" by simp
      then have "inj_on pg_stored_name (set ?P)" by (simp add: eased_all_def)
      from unit_exact [OF assms(1) _ _ _ all this, of s i E] kept out show ?thesis by auto
    qed
  qed
qed

end

text \<open>What the unit may have done to the target, whatever became of it.\<close>

definition only_eased :: "catalog \<Rightarrow> string \<Rightarrow> (string, null_facts option) pydict \<Rightarrow> (string \<Rightarrow> string option) option \<Rightarrow> catalog \<Rightarrow> bool" where
  "only_eased C t facts E C' =
     (\<forall>u n. C' u n = C u n \<or> (\<exists>c f g0 g. u = t \<and> map_of facts c = Some (Some f) \<and> n = pg_stored_name c
        \<and> C u n = Some g0 \<and> C' u n = Some g \<and> is_identity g = is_identity g0 \<and> is_generated g = is_generated g0
        \<and> (not_null g \<longrightarrow> not_null g0)
        \<and> (default_expr g = default_expr g0
           \<or> default_expr g = None \<and> (\<forall>ex. E = Some ex \<longrightarrow> ex c = default_expr g0))))"

lemma touched_only_eased:
  assumes "dict_ok facts" "touched C t (present_columns facts) E i C'"
  shows "only_eased C t facts E C'"
  unfolding only_eased_def
proof (intro allI)
  fix u n
  show "C' u n = C u n \<or> (\<exists>c f g0 g. u = t \<and> map_of facts c = Some (Some f) \<and> n = pg_stored_name c
        \<and> C u n = Some g0 \<and> C' u n = Some g \<and> is_identity g = is_identity g0 \<and> is_generated g = is_generated g0
        \<and> (not_null g \<longrightarrow> not_null g0)
        \<and> (default_expr g = default_expr g0
           \<or> default_expr g = None \<and> (\<forall>ex. E = Some ex \<longrightarrow> ex c = default_expr g0)))"
  proof (cases "C' u n = C u n")
    case False
    from touchedD [OF assms(2) False] obtain c g0 g where c: "u = t" "c \<in> set (present_columns facts)" "n = pg_stored_name c"
      "C u n = Some g0" "C' u n = Some g" "eased E i c g0 g" by blast
    from c(2) assms(1) obtain f where "map_of facts c = Some (Some f)" by (auto simp: present_columns_mem)
    moreover have "is_identity g = is_identity g0 \<and> is_generated g = is_generated g0 \<and> (not_null g \<longrightarrow> not_null g0)
        \<and> (default_expr g = default_expr g0 \<or> default_expr g = None \<and> (\<forall>ex. E = Some ex \<longrightarrow> ex c = default_expr g0))"
      using c(6) unfolding eased_def by metis
    ultimately show ?thesis using c(1,3-5) by blast
  qed simp
qed

section \<open>The cut-over restore\<close>

text \<open>Texts are put into messages as they are, without \<open>repr\<close>'s quotes.\<close>

record restore_outcome =
  ro_status :: restore_status
  ro_live :: "string option"

definition standard_strings :: "'s overlay_ops \<Rightarrow> ('s, string) action" where
  "standard_strings ops s =
     (case ov_strings ops s of
        (Inl e, s1) \<Rightarrow> (Inl e, s1)
      | (Inr row, s1) \<Rightarrow> (Inr (case row of Some x \<Rightarrow> ascii_lower (py_strip x) | None \<Rightarrow> ''''), s1))"

definition live_column :: "string \<Rightarrow> bool \<times> (string, null_facts option) pydict \<Rightarrow> null_facts option" where
  "live_column c = (\<lambda>(exists, facts). if exists then (case map_of facts c of Some f \<Rightarrow> f | None \<Rightarrow> None) else None)"

text \<open>Whether an expression may be set on this connection: a backslash needs standard strings.\<close>

definition restorable_here :: "'s overlay_ops \<Rightarrow> string \<Rightarrow> ('s, bool) action" where
  "restorable_here ops expr s =
     (if backslash \<notin> set expr then (Inr True, s)
      else case statement_retry ops (standard_strings ops) s of
             (Inl e, s1) \<Rightarrow> (Inl e, s1)
           | (Inr x, s1) \<Rightarrow> (Inr (x = ''on''), s1))"

definition restore_body :: "'s overlay_ops \<Rightarrow> string \<Rightarrow> string \<Rightarrow> string \<Rightarrow> ('s \<times> bool, restore_outcome) action" where
  "restore_body ops t c expr =
     (\<lambda>(s, was_set).
        case statement_retry ops (read_overlay_column_facts ops t [c]) s of
          (Inl e, s1) \<Rightarrow> (Inl e, (s1, was_set))
        | (Inr read, s1) \<Rightarrow>
            (case live_column c read of
               None \<Rightarrow> (Inr \<lparr>ro_status = Gone, ro_live = None\<rparr>, (s1, was_set))
             | Some live \<Rightarrow>
                 if computed live then (Inl (computed_refusal t c), (s1, was_set))
                 else (case default_expr live of
                     Some d \<Rightarrow>
                       (if d = expr then (Inr \<lparr>ro_status = (if was_set then Restored else RestoreDone), ro_live = Some expr\<rparr>, (s1, was_set))
                        else (Inr \<lparr>ro_status = OtherStatus ''diverged'', ro_live = Some d\<rparr>, (s1, was_set)))
                   | None \<Rightarrow>
                       (case restorable_here ops expr s1 of
                          (Inl e, s2) \<Rightarrow> (Inl e, (s2, was_set))
                        | (Inr False, s2) \<Rightarrow>
                            (Inl (overlay_error ''OverlayRefusedError'' (t @ ''.'' @ c @ '': the recorded DEFAULT holds a backslash and '' @
                               ''standard_conforming_strings is off on this connection, so it is not restored automatically; '' @
                               ''run SET DEFAULT by hand.'')), (s2, was_set))
                        | (Inr True, s2) \<Rightarrow>
                            (case statement_retry ops (execute_single_ddl ops (SetDefault t c expr)) s2 of
                               (Inl e, s3) \<Rightarrow> (Inl e, (s3, True))
                             | (Inr u, s3) \<Rightarrow>
                                 (case statement_retry ops (read_overlay_column_facts ops t [c]) s3 of
                                    (Inl e, s4) \<Rightarrow> (Inl e, (s4, True))
                                  | (Inr read', s4) \<Rightarrow>
                                      if (case live_column c read' of None \<Rightarrow> True | Some g \<Rightarrow> default_expr g \<noteq> Some expr)
                                      then (Inl (overlay_error ''OverlayVerifyError'' (t @ ''.'' @ c @
                                              '': the restored DEFAULT does not round-trip (set '' @ expr @ '', read back '' @
                                              (case live_column c read' of None \<Rightarrow> ''None'' | Some g \<Rightarrow>
                                                 (case default_expr g of None \<Rightarrow> ''None'' | Some x \<Rightarrow> x)) @ '').'')), (s4, True))
                                      else (Inr \<lparr>ro_status = Restored, ro_live = Some expr\<rparr>, (s4, True))))))))"

definition restore_column_default :: "'s overlay_ops \<Rightarrow> string \<Rightarrow> string \<Rightarrow> string \<Rightarrow> ('s, restore_outcome) action" where
  "restore_column_default ops t c expr s =
     (if \<not> is_single_sql_expression expr
      then (Inl (overlay_error ''OverlayRefusedError'' (t @ ''.'' @ c @ '': the recorded DEFAULT is not a single expression, so '' @
              ''it is not restored automatically; run SET DEFAULT by hand.'')), s)
      else case run_unit_reconnecting ops (restore_body ops t c expr) (s, False) of (r, (s1, was_set)) \<Rightarrow> (r, s1))"

text \<open>What a restore may have done: nothing, or set the missing DEFAULT of a column it does not compute.\<close>

definition restore_pending :: "(string \<Rightarrow> string) \<Rightarrow> string \<Rightarrow> string \<Rightarrow> string \<Rightarrow> catalog \<Rightarrow> bool \<times> catalog \<Rightarrow> bool" where
  "restore_pending printed t c expr C = (\<lambda>(was_set, C').
     (was_set \<longrightarrow> (\<exists>g. C t (pg_stored_name c) = Some g \<and> \<not> computed g \<and> default_expr g = None))
     \<and> (C' = C \<or> was_set \<and> C' = altered printed (SetDefault t c expr) C))"

definition restore_answer :: "string \<Rightarrow> string \<Rightarrow> string \<Rightarrow> catalog \<Rightarrow> restore_outcome \<Rightarrow> catalog \<Rightarrow> bool" where
  "restore_answer t c expr C out C' =
     (case ro_status out of
        Restored \<Rightarrow> (\<exists>g. C t (pg_stored_name c) = Some g \<and> default_expr g = None
          \<and> C' t (pg_stored_name c) = Some (g\<lparr>default_expr := Some expr\<rparr>)) \<and> ro_live out = Some expr
      | RestoreDone \<Rightarrow> C' = C \<and> (\<exists>g. C t (pg_stored_name c) = Some g \<and> default_expr g = Some expr)
      | Gone \<Rightarrow> C' = C \<and> C t (pg_stored_name c) = None
      | OtherStatus x \<Rightarrow> (\<exists>g d. C' t (pg_stored_name c) = Some g \<and> default_expr g = Some d \<and> d \<noteq> expr \<and> ro_live out = Some d))"

lemma set_column_twice: "set_column t c g (set_column t c h C) = set_column t c (g \<circ> h) C"
  by (simp add: set_column_def option.map_comp)

lemma altered_twice: "altered printed (SetDefault t c e) (altered printed (SetDefault t c e) C) = altered printed (SetDefault t c e) C"
  unfolding altered_def alter.case set_column_twice by (simp add: comp_def)

context overlay_target
begin

lemma live_column_shown: "shown t [c] s exists facts \<Longrightarrow> live_column c (exists, facts) = cols s t (pg_stored_name c)"
  by (auto simp: shown_def live_column_def)

lemma restorable_law: "restorable_here ops expr s = (r, s') \<Longrightarrow> cols s' = cols s"
proof (cases "backslash \<in> set expr")
  case True
  assume a: "restorable_here ops expr s = (r, s')"
  obtain x s1 where x: "statement_retry ops (standard_strings ops) s = (x, s1)" by force
  have "cols s1 = cols s \<and> True"
  proof (rule with_occ_retry_rule [OF statement_ok, where I = "\<lambda>s0. cols s0 = cols s" and Q = "\<lambda>r s'. True",
        OF _ _ _ x [unfolded statement_retry_def]])
    fix s0 r0 s0' assume "cols s0 = cols s" "standard_strings ops s0 = (r0, s0')"
    then show "cols s0' = cols s \<and> True"
      by (auto simp: standard_strings_def split: prod.splits sum.splits dest!: strings_law)
  qed (simp_all only: statement_wait)
  with True a x show ?thesis by (auto simp: restorable_here_def split: sum.splits)
qed (simp add: restorable_here_def)

lemma execute_set:
  assumes "cols s = C \<or> cols s = altered printed (SetDefault t c expr) C"
    "statement_retry ops (execute_single_ddl ops (SetDefault t c expr)) s = (r, s')"
  shows "cols s' = C \<or> cols s' = altered printed (SetDefault t c expr) C"
proof -
  let ?I = "\<lambda>s0. cols s0 = C \<or> cols s0 = altered printed (SetDefault t c expr) C"
  have "?I s' \<and> True"
  proof (rule with_occ_retry_rule [OF statement_ok, where I = ?I and Q = "\<lambda>r s'. True",
        OF assms(1) _ _ assms(2) [unfolded statement_retry_def]])
    fix s0 r0 s0' assume "?I s0" "execute_single_ddl ops (SetDefault t c expr) s0 = (r0, s0')"
    with execute_keeps [OF this(2)] show "?I s0' \<and> True" by (auto simp: altered_twice)
  next
    fix a s0 assume "?I s0"
    then show "?I (occ_wait ((ov_retry ops)\<lparr>retryable := is_occ_conflict\<rparr>) a s0)" by (simp only: statement_wait)
  qed
  then show ?thesis by simp
qed

lemma restore_body_keeps:
  assumes p: "restore_pending printed t c expr C (w, cols s)" and body: "restore_body ops t c expr (s, w) = (r, (s', w'))"
  shows "restore_pending printed t c expr C (w', cols s') \<and> (\<forall>out. r = Inr out \<longrightarrow> restore_answer t c expr C out (cols s'))"
proof -
  let ?n = "pg_stored_name c"
  obtain x s1 where x: "statement_retry ops (read_overlay_column_facts ops t [c]) s = (x, s1)" by force
  note read1 = retried_read [OF x]
  show ?thesis
  proof (cases x)
    case (Inl e)
    with x read1 body p show ?thesis by (auto simp: restore_body_def)
  next
    case (Inr ef)
    with read1 have s1: "cols s1 = cols s" and live: "live_column c ef = cols s t ?n"
      using live_column_shown by (cases ef; simp)+
    show ?thesis
    proof (cases "cols s t ?n")
      case None
      with x Inr live body have out: "r = Inr \<lparr>ro_status = Gone, ro_live = None\<rparr>" "s' = s1" "w' = w"
        by (simp_all add: restore_body_def)
      from None p have "cols s = C" by (auto simp: restore_pending_def altered_def set_column_def)
      with out s1 p None show ?thesis by (simp add: restore_answer_def)
    next
      case (Some g)
      show ?thesis
      proof (cases "computed g \<or> default_expr g \<noteq> None")
        case True
        show ?thesis
        proof (cases "computed g")
          case True
          with x Inr live Some body have "\<exists>e. r = Inl e" "s' = s1" "w' = w" by (auto simp: restore_body_def)
          with s1 p show ?thesis by auto
        next
          case False
          with True obtain d where d: "default_expr g = Some d" by auto
          have out: "s' = s1" "w' = w" "r = (if d = expr
              then Inr \<lparr>ro_status = (if w then Restored else RestoreDone), ro_live = Some expr\<rparr>
              else Inr \<lparr>ro_status = OtherStatus ''diverged'', ro_live = Some d\<rparr>)"
            using x Inr live Some False d body by (auto simp: restore_body_def split: if_splits)
          have "restore_answer t c expr C o' (cols s')" if "r = Inr o'" for o'
          proof (cases "d = expr \<and> w")
            case True
            with p obtain g0 where "C t ?n = Some g0" "default_expr g0 = None" by (auto simp: restore_pending_def)
            with p Some d True have "cols s t ?n = Some (g0\<lparr>default_expr := Some expr\<rparr>)"
              by (auto simp: restore_pending_def altered_def set_column_def)
            with True that out s1 \<open>C t ?n = Some g0\<close> \<open>default_expr g0 = None\<close> show ?thesis by (auto simp: restore_answer_def)
          next
            case False
            show ?thesis
            proof (cases "d = expr")
              case True
              with False p have "cols s = C" by (auto simp: restore_pending_def)
              with True False that out s1 Some d show ?thesis by (auto simp: restore_answer_def)
            next
              case False
              with that out s1 Some d show ?thesis by (auto simp: restore_answer_def)
            qed
          qed
          with out s1 p show ?thesis by simp
        qed
      next
        case none: False
        obtain y s2 where y: "restorable_here ops expr s1 = (y, s2)" by force
        from restorable_law [OF y] s1 have s2: "cols s2 = cols s" by simp
        show ?thesis
        proof (cases "y = Inr True")
          case False
          then have "\<exists>e. r = Inl e" "s' = s2" "w' = w"
            using x Inr live Some none y body by (auto simp: restore_body_def split: sum.splits bool.splits)
          with s2 p show ?thesis by auto
        next
          case True
          obtain z s3 where z: "statement_retry ops (execute_single_ddl ops (SetDefault t c expr)) s2 = (z, s3)" by force
          have pre: "cols s2 = C \<or> cols s2 = altered printed (SetDefault t c expr) C" using s2 p by (auto simp: restore_pending_def)
          note s3 = execute_set [OF pre z]
          have was: "\<exists>g. C t ?n = Some g \<and> \<not> computed g \<and> default_expr g = None"
          proof (cases "cols s = C")
            case True
            with Some none show ?thesis by auto
          next
            case False
            with p show ?thesis by (auto simp: restore_pending_def)
          qed
          have pend: "restore_pending printed t c expr C (True, cols s3)" using s3 was by (auto simp: restore_pending_def)
          show ?thesis
          proof (cases z)
            case (Inl e)
            then have "r = Inl e" "s' = s3" "w' = True"
              using x Inr live Some none y True z body by (auto simp: restore_body_def)
            with pend show ?thesis by simp
          next
            case ok: (Inr u)
            obtain v s4 where v: "statement_retry ops (read_overlay_column_facts ops t [c]) s3 = (v, s4)" by force
            note read2 = retried_read [OF v]
            show ?thesis
            proof (cases v)
              case (Inl e)
              then have "r = Inl e" "s' = s4" "w' = True"
                using x Inr live Some none y True z ok v body by (auto simp: restore_body_def)
              with pend read2 show ?thesis by simp
            next
              case ok2: (Inr ef')
              with read2 have s4: "cols s4 = cols s3" and live2: "live_column c ef' = cols s3 t ?n"
                using live_column_shown by (cases ef'; simp)+
              have out: "s' = s4" "w' = True"
                "\<forall>out. r = Inr out \<longrightarrow> out = \<lparr>ro_status = Restored, ro_live = Some expr\<rparr>
                  \<and> (\<exists>g. live_column c ef' = Some g \<and> default_expr g = Some expr)"
                using x Inr live Some none y True z ok v ok2 body by (auto simp: restore_body_def split: if_splits option.splits)
              have "restore_answer t c expr C o' (cols s')" if o': "r = Inr o'" for o'
              proof -
                from out(3) o' live2 obtain g' where g': "cols s3 t ?n = Some g'" "default_expr g' = Some expr"
                  "o' = \<lparr>ro_status = Restored, ro_live = Some expr\<rparr>" by auto
                from was obtain g0 where g0: "C t ?n = Some g0" "default_expr g0 = None" by blast
                with g' s3 have "g' = g0\<lparr>default_expr := Some expr\<rparr>" by (auto simp: altered_def set_column_def)
                with g' g0 out(1) s4 show ?thesis by (auto simp: restore_answer_def)
              qed
              with out pend s4 show ?thesis by simp
            qed
          qed
        qed
      qed
    qed
  qed
qed

end

context overlay_target
begin

text \<open>Proof rule for the unit: what every attempt keeps, and what an attempt that answers gives.\<close>

lemma unit_rule:
  assumes "I i (cols s)"
    and body: "\<And>s i r s' i'. I i (cols s) \<Longrightarrow> body (s, i) = (r, (s', i')) \<Longrightarrow>
      I i' (cols s') \<and> (\<forall>a. r = Inr a \<longrightarrow> Q a (cols s'))"
    and "run_unit_reconnecting ops body (s, i) = (r, (s', i'))"
  shows "I i' (cols s') \<and> (\<forall>a. r = Inr a \<longrightarrow> Q a (cols s'))"
proof -
  let ?I = "\<lambda>(s0, i). I i (cols s0)"
  let ?Q = "\<lambda>r (s0, i). \<forall>a. r = Inr a \<longrightarrow> Q a (cols s0)"
  let ?unit = "\<lambda>(s, i). case ov_connect ops s of
      (Inl e, s1) \<Rightarrow> (Inl e, (s1, i))
    | (Inr u, s1) \<Rightarrow> (case body (s1, i) of (r, (s2, i2)) \<Rightarrow> (r, (ov_close ops s2, i2)))"
  have "?I (s', i') \<and> ?Q r (s', i')"
  proof (rule with_occ_retry_rule [where operation = ?unit and I = ?I and Q = ?Q, OF _ _ _ _ assms(3) [unfolded run_unit_reconnecting_def]])
    show "occ_config_ok (unit_config (ov_retry ops) unit_retryable)"
      using retry_ok by (simp add: occ_config_ok_def unit_config_def)
    show "?I (s, i)" using assms(1) by simp
  next
    fix p q p' assume kept: "?I p" and op: "?unit p = (q, p')"
    obtain s0 i where p: "p = (s0, i)" by force
    obtain x s1 where x: "ov_connect ops s0 = (x, s1)" by force
    from kept p have kept: "I i (cols s1)" using connect_law [OF x] by simp
    show "?I p' \<and> ?Q q p'"
    proof (cases x)
      case (Inl e)
      with op p x kept show ?thesis by auto
    next
      case (Inr u)
      obtain y s2 i2 where y: "body (s1, i) = (y, (s2, i2))" by (metis prod.collapse)
      with op p x Inr have "q = y" "p' = (ov_close ops s2, i2)" by auto
      with body [OF kept y] show ?thesis by (auto simp: close_law)
    qed
  next
    fix a p assume "?I p"
    moreover obtain s0 i where p: "p = (s0, i)" by force
    have "occ_wait (unit_config (ov_retry ops) unit_retryable) a (s0, i) = (occ_wait (ov_retry ops) a s0, i)"
      by (simp add: occ_wait_def unit_config_def split: prod.split)
    ultimately show "?I (occ_wait (unit_config (ov_retry ops) unit_retryable) a p)"
      unfolding p by (simp add: waits_law)
  qed
  then show ?thesis by simp
qed

lemma restore_law:
  assumes "restore_column_default ops t c expr s = (r, s')"
  shows "(cols s' = cols s \<or> is_single_sql_expression expr
        \<and> (\<exists>g. cols s t (pg_stored_name c) = Some g \<and> \<not> computed g \<and> default_expr g = None)
        \<and> cols s' = altered printed (SetDefault t c expr) (cols s))
    \<and> (\<forall>out. r = Inr out \<longrightarrow> restore_answer t c expr (cols s) out (cols s'))"
proof (cases "is_single_sql_expression expr")
  case False
  with assms show ?thesis by (auto simp: restore_column_default_def)
next
  case True
  obtain w where w: "run_unit_reconnecting ops (restore_body ops t c expr) (s, False) = (r, (s', w))"
    using assms True by (auto simp: restore_column_default_def split: prod.splits)
  have "restore_pending printed t c expr (cols s) (w, cols s') \<and> (\<forall>out. r = Inr out \<longrightarrow> restore_answer t c expr (cols s) out (cols s'))"
  proof (rule unit_rule [where I = "\<lambda>i C'. restore_pending printed t c expr (cols s) (i, C')"
        and Q = "\<lambda>out C'. restore_answer t c expr (cols s) out C'", OF _ _ w])
    show "restore_pending printed t c expr (cols s) (False, cols s)" by (simp add: restore_pending_def)
  qed (rule restore_body_keeps)
  with True show ?thesis by (auto simp: restore_pending_def)
qed

end

section \<open>A target in memory\<close>

text \<open>A catalog, and how many of the next ALTERs take effect but lose their reply.\<close>

type_synonym memory_target = "catalog \<times> nat"

definition plain_facts :: "null_facts \<Rightarrow> null_facts" where
  "plain_facts f = (if is_generated f then f\<lparr>default_expr := None\<rparr> else f)"

definition memory_cols :: "memory_target \<Rightarrow> catalog" where
  "memory_cols s t n = map_option plain_facts (fst s t n)"

definition memory_row :: "catalog \<Rightarrow> string \<Rightarrow> string \<Rightarrow> catalog_row list" where
  "memory_row C t n = (case C t n of None \<Rightarrow> []
     | Some f \<Rightarrow> [\<lparr>attname = Some n, attnotnull = not_null f,
         attidentity = (if is_identity f then Some ''a'' else None),
         attgenerated = (if is_generated f then Some ''s'' else None), attdefault = default_expr f\<rparr>])"

definition column_of :: "alter \<Rightarrow> string \<times> string" where
  "column_of a = (case a of DropNotNull t c \<Rightarrow> (t, c) | DropDefault t c \<Rightarrow> (t, c) | SetDefault t c e \<Rightarrow> (t, c))"

definition memory_target :: "memory_target overlay_ops" where
  "memory_target = \<lparr>
     ov_connect = (\<lambda>s. (Inr (), s)), ov_close = (\<lambda>s. s),
     ov_catalog = (\<lambda>t names s. (Inr (concat (map (memory_row (fst s) t) (remdups names))), s)),
     ov_execute = (\<lambda>a (C, lost).
       if (case column_of a of (t, c) \<Rightarrow> case C t (pg_stored_name c) of None \<Rightarrow> True | Some f \<Rightarrow> is_generated f)
       then (Inl (raise_named ''ObjectNotInPrerequisiteState'' ''column cannot be altered''), (C, lost))
       else if 0 < lost
       then (Inl (raise_named ''OperationalError'' ''server closed the connection''), (altered (\<lambda>e. e) a C, lost - 1))
       else (Inr (), (altered (\<lambda>e. e) a C, lost))),
     ov_strings = (\<lambda>s. (Inr (Some ''on''), s)), ov_hint = (\<lambda>m. m),
     ov_retry = \<lparr>max_attempts = 5, base_delay = 0, max_delay = 0, sleep = (\<lambda>d s. s), jitter = (\<lambda>s. (0, s)),
       retryable = is_occ_conflict\<rparr>\<rparr>"

lemma row_facts_memory: "row_facts \<lparr>attname = n, attnotnull = not_null f,
    attidentity = (if is_identity f then Some ''a'' else None),
    attgenerated = (if is_generated f then Some ''s'' else None), attdefault = default_expr f\<rparr> = plain_facts f"
  by (cases f) (auto simp: row_facts_def plain_facts_def)

lemma memory_row_mem:
  "(\<exists>r \<in> set (memory_row C t m). attname r = Some n \<and> row_facts r = f) \<longleftrightarrow> n = m \<and> map_option plain_facts (C t m) = Some f"
  by (cases "C t m") (auto simp: memory_row_def row_facts_memory simp del: if_split)

lemma memory_rows:
  "rows_show (concat (map (memory_row (fst s) t) (remdups names))) names (memory_cols s t)"
proof -
  have dist: "distinct (map attname (concat (map (memory_row C t) ns)))
      \<and> set (map attname (concat (map (memory_row C t) ns))) \<subseteq> Some ` set ns" if "distinct ns" for C ns
    using that by (induction ns) (auto simp: memory_row_def split: option.splits)
  have all: "filter (\<lambda>r. attname r \<noteq> None) (memory_row C t n) = memory_row C t n" for C n
    by (auto simp: memory_row_def split: option.split)
  then have "filter (\<lambda>r. attname r \<noteq> None) (concat (map (memory_row C t) ns)) = concat (map (memory_row C t) ns)" for C ns
    by (induction ns) simp_all
  moreover have "(\<exists>r \<in> set (concat (map (memory_row (fst s) t) (remdups names))). attname r = Some n \<and> row_facts r = f)
      \<longleftrightarrow> memory_cols s t n = Some f" if "n \<in> set names" for n f
    using that memory_row_mem [of "fst s" t _ n f] by (simp add: memory_cols_def)
  ultimately show ?thesis
    using dist [of "remdups names" "fst s"] unfolding rows_show_def
    by (auto simp: memory_row_def split: option.splits)
qed

lemma memory_alters:
  assumes "\<And>t c. column_of a = (t, c) \<Longrightarrow> \<exists>f. C t (pg_stored_name c) = Some f \<and> \<not> is_generated f"
  shows "memory_cols (altered (\<lambda>e. e) a C, k) = altered (\<lambda>e. e) a (memory_cols (C, k'))"
  using assms by (cases a) (fastforce simp: fun_eq_iff altered_def set_column_def memory_cols_def plain_facts_def column_of_def)+

interpretation memory_overlay: overlay_target memory_target memory_cols "\<lambda>e. e"
proof
  fix a s r s'
  assume run: "ov_execute memory_target a s = (r, s')"
  obtain C k where s: "s = (C, k)" by force
  obtain t c where tc: "column_of a = (t, c)" by force
  show "memory_cols s' = altered (\<lambda>e. e) a (memory_cols s) \<or> memory_cols s' = memory_cols s \<and> (\<exists>e. r = Inl e)"
  proof (cases "\<exists>f. C t (pg_stored_name c) = Some f \<and> \<not> is_generated f")
    case True
    then have "memory_cols (altered (\<lambda>e. e) a C, k') = altered (\<lambda>e. e) a (memory_cols s)" for k'
      unfolding s by (intro memory_alters) (auto simp: tc)
    moreover have "fst s' = altered (\<lambda>e. e) a C" using True run tc by (auto simp: s memory_target_def split: if_splits)
    ultimately show ?thesis by (metis prod.collapse)
  next
    case False
    with run tc have "s' = s" "\<exists>e. r = Inl e" by (auto simp: s memory_target_def split: if_splits option.splits)
    then show ?thesis by simp
  qed
qed (auto simp: memory_target_def memory_rows occ_wait_def occ_config_ok_def)

section \<open>Properties\<close>

text \<open>
  C9: the overlay unit changes only the constraint and the DEFAULT of the columns it was asked for, and
  drops a DEFAULT only when it is the one the record expects, whatever fails and however often the unit
  is replayed (replies lost after the ALTER took effect included). When it returns and the facts it was
  given were the live ones, every present column is nullable with no DEFAULT, and its answer is exact:
  the constraints and DEFAULTs that were there before, a lost reply's included.
\<close>
theorem overlay_exact:
  assumes "overlay_target ops cols printed" "dict_ok facts" "apply_exclusion_overlay ops t facts E s = (r, s')"
  shows "only_eased (cols s) t facts E (cols s')
    \<and> (\<forall>out. r = Inr out \<longrightarrow> (\<forall>c f. map_of facts c = Some (Some f) \<longrightarrow> cols s t (pg_stored_name c) = Some f) \<longrightarrow>
        (\<forall>c f. map_of facts c = Some (Some f) \<longrightarrow> cols s' t (pg_stored_name c) = Some (nullable f)) \<and> outcome_exact facts out)"
  using overlay_target.apply_law [OF assms] touched_only_eased [OF assms(2)] by blast

text \<open>
  C10: apply, then restore at cut over: when the restore answers, a DEFAULT the unit reported as dropped
  is back on its column, byte for byte, and nothing else of the table's has changed but the constraint
  the overlay dropped, for any DEFAULT that \<open>pg_get_expr\<close> prints as it was set.
\<close>
theorem overlay_restore_roundtrip:
  assumes "overlay_target ops cols printed" "dict_ok facts"
    and "\<And>c f. map_of facts c = Some (Some f) \<Longrightarrow> cols s t (pg_stored_name c) = Some f"
    and "apply_exclusion_overlay ops t facts E s = (Inr out, s1)" "map_of (oo_defaults out) c = Some (Some d)"
    and "map_of facts c = Some (Some f)" "restore_column_default ops t c d s1 = (Inr res, s2)" "printed d = d"
  shows "res = \<lparr>ro_status = Restored, ro_live = Some d\<rparr> \<and> cols s2 t (pg_stored_name c) = Some (f\<lparr>not_null := False\<rparr>)
    \<and> (\<forall>u n. (u, n) \<noteq> (t, pg_stored_name c) \<longrightarrow> cols s2 u n = cols s1 u n)"
proof -
  let ?n = "pg_stored_name c"
  from overlay_target.apply_law [OF assms(1,2,4)] assms(3)
  have "cols s1 t ?n = Some (nullable f)" "outcome_exact facts out" using assms(6) by blast+
  with assms(5,6) have before: "cols s1 t ?n = Some (nullable f)" "default_expr f = Some d"
    by (auto simp: outcome_exact_def split: if_splits)
  from overlay_target.restore_law [OF assms(1,7)]
  have law: "cols s2 = cols s1 \<or> cols s2 = altered printed (SetDefault t c d) (cols s1)"
    "restore_answer t c d (cols s1) res (cols s2)" by auto
  have same: "(nullable f)\<lparr>default_expr := Some d\<rparr> = f\<lparr>not_null := False\<rparr>"
    using before(2) by (cases f) (simp add: nullable_def)
  have "\<not> (\<exists>x. ro_status res = OtherStatus x)"
    using law assms(8) before(1) by (auto simp: restore_answer_def altered_def set_column_def nullable_def)
  with law(2) before(1) have "ro_status res = Restored" by (cases "ro_status res") (auto simp: restore_answer_def nullable_def)
  with law(2) before(1) same have "res = \<lparr>ro_status = Restored, ro_live = Some d\<rparr>"
    "cols s2 t ?n = Some (f\<lparr>not_null := False\<rparr>)" by (auto simp: restore_answer_def)
  moreover have "\<forall>u n. (u, n) \<noteq> (t, ?n) \<longrightarrow> cols s2 u n = cols s1 u n"
    using law(1) by (auto simp: altered_def set_column_def)
  ultimately show ?thesis by blast
qed

text \<open>One column with a constraint and a DEFAULT, on a target that loses the first two replies.\<close>

definition demo_live :: null_facts where
  "demo_live = \<lparr>not_null = True, default_expr = Some ''0'', is_identity = False, is_generated = False\<rparr>"

definition demo_target :: memory_target where
  "demo_target = (\<lambda>t n. if t = ''t'' \<and> n = ''secret'' then Some demo_live else None, 2)"

definition demo_outcome :: overlay_outcome where
  "demo_outcome = \<lparr>oo_not_null = [''secret''], oo_defaults = [(''secret'', Some ''0'')], oo_already = []\<rparr>"

lemma demo_apply:
  "fst (apply_exclusion_overlay memory_target ''t'' [(''secret'', Some demo_live)] (Some (\<lambda>c. Some ''0'')) demo_target)
    = Inr demo_outcome"
  by code_simp

lemma demo_restore:
  "case snd (apply_exclusion_overlay memory_target ''t'' [(''secret'', Some demo_live)] (Some (\<lambda>c. Some ''0'')) demo_target) of
     s1 \<Rightarrow> fst (restore_column_default memory_target ''t'' ''secret'' ''0'' s1) = Inr \<lparr>ro_status = Restored, ro_live = Some ''0''\<rparr>"
  by code_simp

lemma demo_live_facts:
  "map_of [(''secret'', Some demo_live)] c = Some (Some f) \<Longrightarrow> memory_cols demo_target ''t'' (pg_stored_name c) = Some f"
  by (auto simp: demo_target_def memory_cols_def pg_stored_name_def code_def plain_facts_def demo_live_def split: if_splits)

lemma overlay_exact_witness:
  "\<exists>s'. apply_exclusion_overlay memory_target ''t'' [(''secret'', Some demo_live)] (Some (\<lambda>c. Some ''0'')) demo_target
      = (Inr demo_outcome, s')
    \<and> memory_cols s' ''t'' (pg_stored_name ''secret'') = Some (nullable demo_live)"
proof -
  obtain s' where s': "apply_exclusion_overlay memory_target ''t'' [(''secret'', Some demo_live)] (Some (\<lambda>c. Some ''0'')) demo_target
      = (Inr demo_outcome, s')" using demo_apply by (metis prod.collapse)
  from overlay_exact [OF memory_overlay.overlay_target_axioms _ s'] demo_live_facts s' show ?thesis by simp
qed

lemma overlay_restore_roundtrip_witness:
  "\<exists>s1 s2. apply_exclusion_overlay memory_target ''t'' [(''secret'', Some demo_live)] (Some (\<lambda>c. Some ''0'')) demo_target
      = (Inr demo_outcome, s1)
    \<and> restore_column_default memory_target ''t'' ''secret'' ''0'' s1 = (Inr \<lparr>ro_status = Restored, ro_live = Some ''0''\<rparr>, s2)
    \<and> memory_cols s2 ''t'' (pg_stored_name ''secret'') = Some (demo_live\<lparr>not_null := False\<rparr>)"
proof -
  obtain s1 where s1: "apply_exclusion_overlay memory_target ''t'' [(''secret'', Some demo_live)] (Some (\<lambda>c. Some ''0'')) demo_target
      = (Inr demo_outcome, s1)" using demo_apply by (metis prod.collapse)
  with demo_restore have "fst (restore_column_default memory_target ''t'' ''secret'' ''0'' s1) = Inr \<lparr>ro_status = Restored, ro_live = Some ''0''\<rparr>"
    by simp
  then obtain s2 where s2: "restore_column_default memory_target ''t'' ''secret'' ''0'' s1 = (Inr \<lparr>ro_status = Restored, ro_live = Some ''0''\<rparr>, s2)"
    by (metis prod.collapse)
  have "map_of (oo_defaults demo_outcome) ''secret'' = Some (Some ''0'')" by (simp add: demo_outcome_def)
  from overlay_restore_roundtrip [OF memory_overlay.overlay_target_axioms _ _ s1 this _ s2] demo_live_facts
  have "memory_cols s2 ''t'' (pg_stored_name ''secret'') = Some (demo_live\<lparr>not_null := False\<rparr>)" by simp
  with s1 s2 show ?thesis by (intro exI conjI)
qed

end
