(* ===== verification/OverlayWriter.thy ===== *)
theory OverlayWriter
  imports Overlay
begin

text \<open>
  The writer mode of the Full Load engine (\<open>_overlay_write_and_apply\<close> of
  \<^verbatim>\<open>ui/data_migration/_full_load_engine.py\<close>): read the live facts (\<open>target_overlay_facts\<close>), decide on an
  append, merge the record into the ledger, and only then run the unit. It composes the ledger's stores and
  the overlay's target: whatever fails, no DEFAULT is lost between the two.
\<close>

section \<open>The facts of several tables over one connection\<close>

record 's facts_ops =
  fo_target :: "'s overlay_ops"
  fo_probe :: "string \<Rightarrow> ('s, bool) action"
  fo_rollback :: "'s \<Rightarrow> 's"
  fo_retry :: "'s occ_config"

definition read_table :: "'s facts_ops \<Rightarrow> bool \<Rightarrow> string \<Rightarrow> string list \<Rightarrow> ('s, table_facts) action" where
  "read_table fo probe t columns s =
     (case read_overlay_column_facts (fo_target fo) t columns s of
        (Inl e, s1) \<Rightarrow> (Inl e, s1)
      | (Inr (exists, facts), s1) \<Rightarrow>
          let cs = (\<lambda>c. case map_of facts c of Some f \<Rightarrow> f | None \<Rightarrow> None)
          in if \<not> exists then (Inr \<lparr>tf_exists = False, tf_has_rows = Some False, tf_columns = cs\<rparr>, s1)
             else if \<not> probe then (Inr \<lparr>tf_exists = True, tf_has_rows = None, tf_columns = cs\<rparr>, s1)
             else (case fo_probe fo t s1 of
                     (Inl e, s2) \<Rightarrow> (Inl e, s2)
                   | (Inr some_row, s2) \<Rightarrow> (Inr \<lparr>tf_exists = True, tf_has_rows = Some some_row, tf_columns = cs\<rparr>, s2)))"

definition read_table_attempt :: "'s facts_ops \<Rightarrow> bool \<Rightarrow> string \<Rightarrow> string list \<Rightarrow> ('s, table_facts) action" where
  "read_table_attempt fo probe t columns s =
     (case read_table fo probe t columns s of
        (Inl e, s1) \<Rightarrow> (Inl e, if is_exception e then fo_rollback fo s1 else s1)
      | (Inr tf, s1) \<Rightarrow> (Inr tf, s1))"

text \<open>One table, with so many reconnects left: its facts, and whether a connection is still open.\<close>

fun table_facts_reconnecting :: "'s facts_ops \<Rightarrow> bool \<Rightarrow> string \<Rightarrow> string list \<Rightarrow> nat \<Rightarrow> 's \<Rightarrow>
    (pyexc + table_facts option) \<times> bool \<times> nat \<times> 's" where
  "table_facts_reconnecting fo probe t columns left s =
     (case with_occ_retry ((fo_retry fo)\<lparr>retryable := (\<lambda>e. is_occ_conflict e \<or> is_server_unavailable e)\<rparr>)
             (read_table_attempt fo probe t columns) s of
        (Inr tf, s1) \<Rightarrow> (Inr (Some tf), True, left, s1)
      | (Inl e, s1) \<Rightarrow>
          if \<not> is_exception e then (Inl e, True, left, s1)
          else if \<not> is_transient_connection_error e then (Inr None, True, left, s1)
          else (let s2 = ov_close (fo_target fo) s1
                in case left of
                     0 \<Rightarrow> (Inr None, False, 0, s2)
                   | Suc left' \<Rightarrow>
                       (case ov_connect (fo_target fo) s2 of
                          (Inl e2, s3) \<Rightarrow> (if is_exception e2 then Inr None else Inl e2, False, left', s3)
                        | (Inr u, s3) \<Rightarrow> table_facts_reconnecting fo probe t columns left' s3)))"

definition FACTS_RECONNECTS :: nat where
  "FACTS_RECONNECTS = 2"

fun tables_facts :: "'s facts_ops \<Rightarrow> bool \<Rightarrow> (string \<Rightarrow> string list) \<Rightarrow> string list \<Rightarrow> (string, table_facts option) pydict \<Rightarrow>
    bool \<Rightarrow> nat \<Rightarrow> ('s, (string, table_facts option) pydict) action" where
  "tables_facts fo probe asked [] result linked left s =
     (Inr result, if linked then ov_close (fo_target fo) s else s)"
| "tables_facts fo probe asked (t # ts) result linked left s =
     (if \<not> linked then tables_facts fo probe asked ts (dict_set t None result) False left s
      else case table_facts_reconnecting fo probe t (asked t) left s of
             (Inl e, linked', left', s1) \<Rightarrow> (Inl e, if linked' then ov_close (fo_target fo) s1 else s1)
           | (Inr tf, linked', left', s1) \<Rightarrow> tables_facts fo probe asked ts (dict_set t tf result) linked' left' s1)"

definition target_overlay_facts :: "'s facts_ops \<Rightarrow> bool \<Rightarrow> (string \<Rightarrow> string list) \<Rightarrow> string list \<Rightarrow>
    ('s, (string, table_facts option) pydict) action" where
  "target_overlay_facts fo probe asked ts s =
     (case ov_connect (fo_target fo) s of
        (Inl e, s1) \<Rightarrow> (if is_exception e then Inr (fold (\<lambda>t d. dict_set t None d) ts []) else Inl e, s1)
      | (Inr u, s1) \<Rightarrow> tables_facts fo probe asked ts [] True FACTS_RECONNECTS s1)"

section \<open>The engine's errors\<close>

definition overlay_run_error :: "string \<Rightarrow> string \<Rightarrow> pyexc option \<Rightarrow> pyexc" where
  "overlay_run_error cls msg cause = \<lparr>sqlstate = (case cause of None \<Rightarrow> None | Some e \<Rightarrow> sqlstate e),
     mro = [cls, ''OverlayRunError'', ''FullLoadIncompleteError'', ''RuntimeError'', ''Exception'', ''BaseException''],
     message = msg, diag_constraint = None\<rparr>"

definition is_overlay_run_error :: "pyexc \<Rightarrow> bool" where
  "is_overlay_run_error e = (''OverlayRunError'' \<in> set (mro e))"

definition is_overlay_refused :: "pyexc \<Rightarrow> bool" where
  "is_overlay_refused e = (''OverlayRefusedError'' \<in> set (mro e))"

text \<open>\<open>_first_line\<close> of the engine.\<close>

definition first_line_of :: "pyexc \<Rightarrow> string" where
  "first_line_of e =
     (let msg = py_strip (message e);
          line = (if msg = [] then [] else py_first_line msg)
      in rev (dropWhile (\<lambda>c. c \<in> set '': '') (rev (exc_name e @ '': '' @ line))))"

definition refusal_columns :: "append_refusal \<Rightarrow> string list" where
  "refusal_columns r = (case r of OverlayRefusal cs \<Rightarrow> cs | ReincludedRefusal cs \<Rightarrow> cs)"

definition refusal_text :: "append_refusal \<Rightarrow> string" where
  "refusal_text r =
     (case r of
        OverlayRefusal cs \<Rightarrow> ''needs Drop & reload: the rows already in this table were not all loaded with '' @
          join_with '', '' cs @ '' excluded, so appending would mix NULL with stored values''
      | ReincludedRefusal cs \<Rightarrow> ''needs Drop & reload: '' @ join_with '', '' cs @ '' hold NULL from an earlier exclusion set'')"

section \<open>The writer\<close>

text \<open>What the run says of the table.\<close>

record write_request =
  wr_table :: string
  wr_overlay :: "string list"
  wr_excluded :: "string list"
  wr_source :: "string list"
  wr_cdc :: bool
  wr_ddl :: "string option"
  wr_now :: string

definition run_overlay_unit :: "'s overlay_ops \<Rightarrow> string \<Rightarrow> (string, null_facts) pydict \<Rightarrow> (string \<Rightarrow> string option) \<Rightarrow>
    ('s, unit) action" where
  "run_overlay_unit ops t live expected s =
     (case apply_exclusion_overlay ops t (map (\<lambda>(c, f). (c, Some f)) live) (Some expected) s of
        (Inr out, s1) \<Rightarrow> (Inr (), s1)
      | (Inl e, s1) \<Rightarrow>
          if is_overlay_run_error e then (Inl e, s1)
          else if is_overlay_refused e
          then (Inl (overlay_run_error ''OverlayRecordMismatchError'' (message e @ ''; the table was not loaded'') (Some e)), s1)
          else if is_exception e
          then (Inl (overlay_run_error ''OverlayNotInPlaceError'' (''could not make the excluded columns of '' @ t @
                 '' nullable with no DEFAULT on Aurora DSQL ('' @ first_line_of e @ ''); nothing was loaded'') (Some e)), s1)
          else (Inl e, s1))"

definition recorded_expected :: "ledger_view \<Rightarrow> string \<Rightarrow> (string, null_facts) pydict \<Rightarrow> string \<Rightarrow> string option" where
  "recorded_expected v t live c =
     (if c \<notin> fst ` set live then None
      else case map_of (lv_tables v) t of
             None \<Rightarrow> None
           | Some r \<Rightarrow> (case ledger_column_of r c of None \<Rightarrow> None | Some e \<Rightarrow> original_default e))"

definition ledger_write_text :: "string \<Rightarrow> bool \<Rightarrow> bool \<Rightarrow> string" where
  "ledger_write_text t recreated altering =
     (if recreated \<and> altering
      then ''cannot record the DEFAULTs of '' @ t @ '' before dropping them; nothing was altered. The table was '' @
        ''recreated empty; Retry unfinished recreates and loads it''
      else if recreated
      then ''cannot update the exclusion record of '' @ t @ '' after recreating it; nothing was altered. The table was '' @
        ''recreated empty and not loaded; Retry unfinished recreates and loads it''
      else if altering
      then ''cannot record the DEFAULTs of '' @ t @ '' before dropping them; nothing was changed on it''
      else ''cannot update the record of dropped DEFAULTs for '' @ t @ ''; nothing was altered'')"

text \<open>The append's verdict: a refusal stands unless CDC streams into the table.\<close>

definition write_verdict :: "ledger_env \<Rightarrow> write_request \<Rightarrow> bool \<Rightarrow> ledger_table option \<Rightarrow> table_facts \<Rightarrow>
    pyexc + string list" where
  "write_verdict env q recreated rec tf =
     (if recreated then Inr []
      else let lo = live_overlay tf (wr_overlay q);
               verdict = append_verdict env rec tf (map fst (fst lo)) (snd lo) (wr_excluded q) (wr_source q)
           in case fst verdict of
                None \<Rightarrow> Inr (snd verdict)
              | Some refusal \<Rightarrow>
                  if \<not> wr_cdc q
                  then Inl (overlay_run_error ''OverlayNeedsReloadError''
                         (wr_table q @ '' '' @ refusal_text refusal @ ''; nothing was changed on it'') None)
                  else Inr (snd verdict))"

definition write_plan :: "ledger_env \<Rightarrow> write_request \<Rightarrow> bool \<Rightarrow> table_facts \<Rightarrow> string list \<Rightarrow> ledger_merge" where
  "write_plan env q recreated tf reincluded =
     plan_record_merge env (wr_table q) (fst (live_overlay tf (wr_overlay q)))
       (\<not> recreated \<and> tf_has_rows tf = Some True) recreated (wr_ddl q) (wr_now q) reincluded"

definition asked_columns :: "write_request \<Rightarrow> ledger_table option \<Rightarrow> string list" where
  "asked_columns q rec = sort (remdups (wr_overlay q @ (case rec of None \<Rightarrow> [] | Some r \<Rightarrow> lt_set_columns r)))"

text \<open>From the table's facts on: verdict, record, unit.\<close>

definition write_then_apply :: "ledger_env \<Rightarrow> 's facts_ops \<Rightarrow> (merges \<Rightarrow> ('l, updates) action) \<Rightarrow> write_request \<Rightarrow> bool \<Rightarrow>
    table_facts \<Rightarrow> (ledger_view \<times> 'l \<times> 's, unit) action" where
  "write_then_apply env fo merge q recreated tf =
     (\<lambda>(v, l, s).
        let t = wr_table q; live = fst (live_overlay tf (wr_overlay q))
        in case write_verdict env q recreated (map_of (lv_tables v) t) tf of
             Inl e \<Rightarrow> (Inl e, (v, l, s))
           | Inr reincluded \<Rightarrow>
               (case build_overlay_statements t (map (\<lambda>(c, f). (c, Some f)) live) of
                  Inl e \<Rightarrow> (Inl e, (v, l, s))
                | Inr statements \<Rightarrow>
                    (case view_merge merge [(t, write_plan env q recreated tf reincluded)] (v, l) of
                       (Inl e, (v1, l1)) \<Rightarrow>
                         (Inl (if is_ledger_error e
                               then overlay_run_error ''OverlayLedgerWriteError''
                                 (ledger_write_text t recreated (statements \<noteq> []) @ '' ('' @ first_line_of e @ '')'') (Some e)
                               else e), (v1, l1, s))
                     | (Inr u, (v1, l1)) \<Rightarrow>
                         if statements = [] then (Inr (), (v1, l1, s))
                         else (case run_overlay_unit (fo_target fo) t live (recorded_expected v1 t live) s of
                                 (r, s1) \<Rightarrow> (r, (v1, l1, s1))))))"

definition catalog_error :: "bool \<Rightarrow> string \<Rightarrow> pyexc" where
  "catalog_error recreated t = overlay_run_error ''OverlayCatalogError''
     (if recreated
      then ''cannot read the recreated table's DEFAULTs of '' @ t @ '' on Aurora DSQL; nothing was altered''
      else ''could not read the Aurora DSQL catalog of '' @ t @ ''; nothing was changed on it'') None"

definition overlay_write_and_apply :: "ledger_env \<Rightarrow> 's facts_ops \<Rightarrow> (merges \<Rightarrow> ('l, updates) action) \<Rightarrow> write_request \<Rightarrow>
    bool \<Rightarrow> (ledger_view \<times> 'l \<times> 's, unit) action" where
  "overlay_write_and_apply env fo merge q recreated =
     (\<lambda>(v, l, s).
        let t = wr_table q
        in case target_overlay_facts fo (\<not> recreated) (\<lambda>u. if u = t then asked_columns q (map_of (lv_tables v) t) else []) [t] s of
             (Inl e, s1) \<Rightarrow> (Inl e, (v, l, s1))
           | (Inr facts, s1) \<Rightarrow>
               (case map_of facts t of
                  Some (Some tf) \<Rightarrow>
                    if \<not> tf_exists tf then (Inr (), (v, l, s1))
                    else write_then_apply env fo merge q recreated tf (v, l, s1)
                | _ \<Rightarrow> (Inl (catalog_error recreated t), (v, l, s1))))"

section \<open>What a column is owed\<close>

definition owed_default :: "ledger_table option \<Rightarrow> string \<Rightarrow> string option" where
  "owed_default rec c =
     (case rec of None \<Rightarrow> None | Some r \<Rightarrow> (case ledger_column_of r c of None \<Rightarrow> None | Some e \<Rightarrow> original_default e))"

definition kept_default :: "ledger_table option \<Rightarrow> null_facts option \<Rightarrow> string \<Rightarrow> string option" where
  "kept_default rec live c =
     (case live of None \<Rightarrow> None | Some f \<Rightarrow> (case default_expr f of Some d \<Rightarrow> Some d | None \<Rightarrow> owed_default rec c))"

definition names_ok :: "ledger_table option \<Rightarrow> bool" where
  "names_ok rec = (case rec of None \<Rightarrow> True | Some r \<Rightarrow> distinct (map lc_column (lt_columns r)))"

lemma ledger_column_of_entries:
  assumes "names_ok (Some r)"
  shows "ledger_column_of r c = entries (Some r) c"
proof -
  have d: "distinct (map lc_column (lt_columns r))" using assms by (simp add: names_ok_def)
  have "entries (Some r) = map_of (map (\<lambda>c. (lc_column c, c)) (lt_columns r))"
    using map_of_fold_entries [OF d, of "[]"] by (simp add: entries_def entries_by_name_def)
  moreover have "find (\<lambda>e. lc_column e = c) es = map_of (map (\<lambda>c. (lc_column c, c)) es) c" for es
    by (induction es) auto
  ultimately show ?thesis by (simp add: ledger_column_of_def)
qed

lemma owed_entries: "names_ok rec \<Longrightarrow> owed_default rec c = (case entries rec c of None \<Rightarrow> None | Some e \<Rightarrow> original_default e)"
  by (cases rec) (simp_all add: owed_default_def ledger_column_of_entries)

lemma names_of_dict:
  assumes "named_dict d" "lt_columns r = map (\<lambda>c. the (map_of d c)) (sort (map fst d))"
  shows "names_ok (Some r)"
proof -
  have "lc_column (the (map_of d c)) = c" if "c \<in> set (sort (map fst d))" for c
  proof -
    from that have "map_of d c \<noteq> None" by (simp add: map_of_eq_None_iff)
    with named_dictD [OF assms(1)] show ?thesis by auto
  qed
  then have "map lc_column (lt_columns r) = sort (map fst d)"
    unfolding assms(2) map_map by - (rule map_idI, simp)
  with named_dict_ok [OF assms(1)] show ?thesis by (simp add: names_ok_def)
qed

lemma names_plan:
  assumes "dict_ok facts" "names_ok x"
  shows "names_ok (decided x (plan_ledger_record env x t facts has_rows recreated ddl now reincluded))"
proof (cases "facts = [] \<and> x \<noteq> None \<and> has_rows \<and> \<not> recreated")
  case True
  with assms(2) show ?thesis by (auto simp: plan_ledger_record_def names_ok_def)
next
  case False
  let ?cols = "plan_columns env x facts recreated ddl"
  show ?thesis
  proof (cases "?cols = [] \<and> sort (map fst facts) = []")
    case True
    with False assms(2) show ?thesis by (auto simp: plan_ledger_record_def names_ok_def)
  next
    case nonempty: False
    then obtain r where plan: "plan_ledger_record env x t facts has_rows recreated ddl now reincluded = LWrite r"
      "lt_columns r = map (\<lambda>c. the (map_of ?cols c)) (sort (map fst ?cols))"
      unfolding plan_ledger_record_def Let_def if_not_P [OF False] if_not_P [OF nonempty] by simp
    have "named_dict ?cols" using plan_columns_ok [OF assms(1)] by blast
    from names_of_dict [OF this plan(2)] plan(1) show ?thesis by simp
  qed
qed

lemma names_merge:
  assumes "dict_ok facts" "names_ok x"
  shows "names_ok (decided x (plan_record_merge env t facts has_rows recreated ddl now reincluded x))"
proof -
  obtain g where "decided x (plan_record_merge env t facts has_rows recreated ddl now reincluded x)
    = map_option (applied_at_update g) (decided x (plan_ledger_record env x t facts has_rows recreated ddl now reincluded))"
    using merge_decided by blast
  with names_plan [OF assms, of env t has_rows recreated ddl now reincluded]
  show ?thesis by (auto simp: names_ok_def split: option.splits)
qed

text \<open>A plan keeps what a column has or is owed.\<close>

lemma planned_owed:
  assumes "dict_ok facts" "names_ok x" "map_of facts c = None \<or> map_of facts c = Some f"
  shows "let y = decided x (plan_record_merge env t facts has_rows recreated ddl now reincluded x) in
    (default_expr f = None \<longrightarrow> \<not> recreated \<longrightarrow> owed_default y c = owed_default x c)
    \<and> (map_of facts c = Some f \<longrightarrow> default_expr f \<noteq> None \<longrightarrow> owed_default y c = default_expr f)"
proof -
  define y where "y = decided x (plan_record_merge env t facts has_rows recreated ddl now reincluded x)"
  have y: "owed_default y c = (case planned env x facts recreated ddl c of None \<Rightarrow> None | Some e \<Rightarrow> original_default e)"
    using owed_entries [OF names_merge [OF assms(1,2)]] entries_merge [OF assms(1)] unfolding y_def by metis
  have x: "owed_default x c = (case entries x c of None \<Rightarrow> None | Some e \<Rightarrow> original_default e)"
    by (rule owed_entries [OF assms(2)])
  have "default_expr f = None \<Longrightarrow> \<not> recreated \<Longrightarrow> owed_default y c = owed_default x c"
    unfolding x y planned_def Let_def using assms(3)
    by (cases "map_of facts c"; cases "entries x c") (auto simp: plan_entry_def)
  moreover have "owed_default y c = default_expr f" if f: "map_of facts c = Some f" "default_expr f \<noteq> None"
  proof -
    obtain d where d: "default_expr f = Some d" using f(2) by blast
    obtain a b g where "recorded_ddl_fields env ddl c = (a, b, g)" by (cases "recorded_ddl_fields env ddl c")
    with f(1) d show ?thesis unfolding y planned_def Let_def by (simp add: plan_entry_def)
  qed
  ultimately show ?thesis unfolding y_def [symmetric] Let_def by blast
qed

section \<open>The target's facts\<close>

text \<open>The probe and the rollback alter nothing.\<close>

locale facts_target = overlay_target "fo_target fo" cols printed
  for fo :: "'s facts_ops" and cols :: "'s \<Rightarrow> catalog" and printed :: "string \<Rightarrow> string" +
  assumes probe_law: "\<And>t s r s'. fo_probe fo t s = (r, s') \<Longrightarrow> cols s' = cols s"
    and rollback_law: "\<And>s. cols (fo_rollback fo s) = cols s"
    and facts_retry_ok: "occ_config_ok (fo_retry fo)"
    and facts_waits_law: "\<And>a s. cols (occ_wait (fo_retry fo) a s) = cols s"
begin

text \<open>Facts of a table as the catalog has them.\<close>

definition facts_of :: "string \<Rightarrow> string list \<Rightarrow> catalog \<Rightarrow> table_facts \<Rightarrow> bool" where
  "facts_of t columns C tf =
     ((\<forall>c. tf_columns tf c = (if c \<in> set columns then C t (pg_stored_name c) else None))
      \<and> (tf_exists tf \<or> (\<forall>c \<in> set columns. C t (pg_stored_name c) = None)))"

lemma read_table_law:
  assumes "read_table_attempt fo probe t columns s = (r, s')"
  shows "cols s' = cols s \<and> (\<forall>tf. r = Inr tf \<longrightarrow> facts_of t columns (cols s) tf)"
proof -
  obtain x s1 where x: "read_overlay_column_facts (fo_target fo) t columns s = (x, s1)" by force
  note law = read_law [OF x]
  obtain y s2 where y: "read_table fo probe t columns s = (y, s2)" by force
  have "cols s2 = cols s \<and> (\<forall>tf. y = Inr tf \<longrightarrow> facts_of t columns (cols s) tf)"
  proof (cases x)
    case (Inl e)
    with x y law show ?thesis by (auto simp: read_table_def)
  next
    case (Inr ef)
    obtain ex facts where ef: "ef = (ex, facts)" by force
    with law Inr have f: "(case map_of facts c of Some f \<Rightarrow> f | None \<Rightarrow> None)
      = (if c \<in> set columns then cols s t (pg_stored_name c) else None)"
      and gone: "ex \<or> (\<forall>c \<in> set columns. cols s t (pg_stored_name c) = None)" for c by (simp_all add: shown_def)
    obtain z s3 where z: "fo_probe fo t s1 = (z, s3)" by force
    with x y Inr ef law probe_law [OF z] f gone show ?thesis
      by (cases z) (auto simp: read_table_def facts_of_def Let_def split: if_splits)
  qed
  with y assms rollback_law show ?thesis
    by (cases y) (auto simp: read_table_attempt_def split: if_splits)
qed

lemma facts_retried:
  assumes "with_occ_retry ((fo_retry fo)\<lparr>retryable := p\<rparr>) (read_table_attempt fo probe t columns) s = (r, s')"
  shows "cols s' = cols s \<and> (\<forall>tf. r = Inr tf \<longrightarrow> facts_of t columns (cols s) tf)"
proof (rule with_occ_retry_rule [where I = "\<lambda>s0. cols s0 = cols s"
      and Q = "\<lambda>r s'. \<forall>tf. r = Inr tf \<longrightarrow> facts_of t columns (cols s) tf", OF _ _ _ _ assms])
  show "occ_config_ok ((fo_retry fo)\<lparr>retryable := p\<rparr>)" using facts_retry_ok by (simp add: occ_config_ok_def)
next
  fix s0 r0 s0' assume "cols s0 = cols s" "read_table_attempt fo probe t columns s0 = (r0, s0')"
  with read_table_law [OF this(2)]
  show "cols s0' = cols s \<and> (\<forall>tf. r0 = Inr tf \<longrightarrow> facts_of t columns (cols s) tf)" by simp
next
  fix a s0 assume "cols s0 = cols s"
  then show "cols (occ_wait ((fo_retry fo)\<lparr>retryable := p\<rparr>) a s0) = cols s"
    using facts_waits_law [of a s0] by (simp add: occ_wait_def)
qed simp

lemma facts_reconnecting_law:
  "table_facts_reconnecting fo probe t columns left s = (r, k, left', s') \<Longrightarrow>
    cols s' = cols s \<and> (\<forall>tf. r = Inr (Some tf) \<longrightarrow> facts_of t columns (cols s) tf)"
proof (induction left arbitrary: s)
  case 0
  obtain x s1 where x: "with_occ_retry ((fo_retry fo)\<lparr>retryable := (\<lambda>e. is_occ_conflict e \<or> is_server_unavailable e)\<rparr>)
      (read_table_attempt fo probe t columns) s = (x, s1)" by force
  from facts_retried [OF x] 0 x close_law [of s1] show ?case
    by (cases x) (auto simp: Let_def split: if_splits)
next
  case (Suc left)
  obtain x s1 where x: "with_occ_retry ((fo_retry fo)\<lparr>retryable := (\<lambda>e. is_occ_conflict e \<or> is_server_unavailable e)\<rparr>)
      (read_table_attempt fo probe t columns) s = (x, s1)" by force
  note law = facts_retried [OF x]
  show ?case
  proof (cases "\<exists>e. x = Inl e \<and> is_exception e \<and> is_transient_connection_error e")
    case False
    with law Suc.prems x show ?thesis by (cases x) (auto split: if_splits)
  next
    case True
    then obtain e where e: "x = Inl e" "is_exception e" "is_transient_connection_error e" by blast
    obtain y s3 where y: "ov_connect (fo_target fo) (ov_close (fo_target fo) s1) = (y, s3)" by force
    have s3: "cols s3 = cols s" using connect_law [OF y] close_law [of s1] law by simp
    show ?thesis
    proof (cases y)
      case (Inl e2)
      with Suc.prems x e y s3 show ?thesis by (auto simp: Let_def split: if_splits)
    next
      case (Inr u)
      with Suc.prems x e y have "table_facts_reconnecting fo probe t columns left s3 = (r, k, left', s')"
        by (simp add: Let_def del: table_facts_reconnecting.simps) (simp add: Let_def)
      from Suc.IH [OF this] s3 show ?thesis by simp
    qed
  qed
qed

lemma target_facts_law:
  assumes "target_overlay_facts fo probe asked [t] s = (r, s')"
  shows "cols s' = cols s \<and> (\<forall>facts tf. r = Inr facts \<longrightarrow> map_of facts t = Some (Some tf) \<longrightarrow> facts_of t (asked t) (cols s) tf)"
proof -
  obtain x s1 where x: "ov_connect (fo_target fo) s = (x, s1)" by force
  note s1 = connect_law [OF x]
  show ?thesis
  proof (cases x)
    case (Inl e)
    with x assms s1 show ?thesis by (auto simp: target_overlay_facts_def split: if_splits)
  next
    case (Inr u)
    obtain y k left' s2 where y: "table_facts_reconnecting fo probe t (asked t) FACTS_RECONNECTS s1 = (y, k, left', s2)"
      by (metis prod.collapse)
    note law = facts_reconnecting_law [OF y]
    from assms x Inr y have "r = (case y of Inl e \<Rightarrow> Inl e | Inr tf \<Rightarrow> Inr [(t, tf)])"
      "s' = s2 \<or> s' = ov_close (fo_target fo) s2"
      by (cases y; auto simp: target_overlay_facts_def simp del: table_facts_reconnecting.simps split: if_splits)+
    with law s1 close_law [of s2] show ?thesis by (auto split: sum.splits)
  qed
qed

end

section \<open>No DEFAULT is lost between the ledger and the target\<close>

text \<open>The writer from the facts on, for one column \<open>c\<close> that no other overlaid name is stored as.\<close>

lemma write_then_apply_law:
  assumes store: "ledger_store merge stored good" and target: "facts_target fo cols printed"
    and good: "good l" "names_ok (stored l (wr_table q))"
    and alone: "\<And>a. a \<in> set (wr_overlay q) \<Longrightarrow> pg_stored_name a = pg_stored_name c \<Longrightarrow> a = c"
    and facts: "\<And>a. a \<in> set (wr_overlay q) \<Longrightarrow> tf_columns tf a = cols s (wr_table q) (pg_stored_name a)"
    and run: "write_then_apply env fo merge q recreated tf (v, l, s) = (r, (v', l', s'))"
  defines "live \<equiv> fst (live_overlay tf (wr_overlay q))" and "t \<equiv> wr_table q" and "n \<equiv> pg_stored_name c"
  shows "(\<not> recreated \<longrightarrow> kept_default (stored l' t) (cols s' t n) c = kept_default (stored l t) (cols s t n) c)
    \<and> (\<forall>f d. cols s t n = Some f \<longrightarrow> default_expr f = Some d \<longrightarrow> kept_default (stored l' t) (cols s' t n) c = Some d)
    \<and> (r = Inr () \<longrightarrow> (\<forall>f. map_of live c = Some f \<longrightarrow> cols s' t n = Some (nullable f)))"
proof -
  have ok: "dict_ok live" unfolding live_def by (rule live_overlay_names(3))
  have at: "map_of live a = (case tf_columns tf a of None \<Rightarrow> None
      | Some f \<Rightarrow> if a \<in> set (wr_overlay q) \<and> \<not> computed f then Some f else None)" for a
    unfolding live_def by (rule live_overlay_at)
  have live: "a \<in> set (wr_overlay q) \<and> cols s t (pg_stored_name a) = Some f" if "map_of live a = Some f" for a f
    using that facts [of a] by (auto simp: at t_def split: option.splits if_splits)
  let ?some = "map (\<lambda>(c, f). (c, Some f)) live"
  have some_at: "map_of ?some a = map_option Some (map_of live a)" for a by (induction live) auto
  have some_ok: "dict_ok ?some" using ok by (simp add: comp_def case_prod_unfold)
  let ?verdict = "write_verdict env q recreated (map_of (lv_tables v) t) tf"
  let ?built = "build_overlay_statements t ?some"
  have trivial: ?thesis if "l' = l" "s' = s" "r \<noteq> Inr ()" using that by (auto simp: kept_default_def)
  show ?thesis
  proof (cases "(\<exists>e. ?verdict = Inl e) \<or> (\<exists>e. ?built = Inl e)")
    case True
    then have "l' = l" "s' = s" "r \<noteq> Inr ()"
      using run by (auto simp: write_then_apply_def Let_def live_def t_def split: sum.splits)
    then show ?thesis by (rule trivial)
  next
    case False
    then obtain reincluded statements where vb: "?verdict = Inr reincluded" "?built = Inr statements"
      by (cases ?verdict; cases ?built) auto
    let ?m = "write_plan env q recreated tf reincluded"
    have m: "?m = plan_record_merge env t live (\<not> recreated \<and> tf_has_rows tf = Some True) recreated (wr_ddl q) (wr_now q) reincluded"
      by (simp add: write_plan_def live_def t_def)
    obtain x v1 l1 where x: "view_merge merge [(t, ?m)] (v, l) = (x, (v1, l1))" by (metis prod.collapse)
    have "merges_ok [(t, ?m)]" unfolding m using plan_merge_stable [OF ok] by (simp add: merges_ok_def)
    from ledger_store.view_merge_law [OF store this good(1) x]
    have vl: "view_law stored [(t, ?m)] v l x v1 l1" by simp
    have mt: "merged [(t, ?m)] (stored l) t = decided (stored l t) (?m (stored l t))" by (simp add: merged_def)
    have owed: "(default_expr f = None \<longrightarrow> \<not> recreated \<longrightarrow> owed_default y c = owed_default (stored l t) c)
        \<and> (map_of live c = Some f \<longrightarrow> default_expr f \<noteq> None \<longrightarrow> owed_default y c = default_expr f)"
      if "y = decided (stored l t) (?m (stored l t))" "map_of live c = None \<or> map_of live c = Some f" for y f
      using planned_owed [OF ok good(2) [folded t_def] that(2)] that(1) unfolding m Let_def by blast
    have keeps: "(\<not> recreated \<longrightarrow> kept_default y (cols s t n) c = kept_default (stored l t) (cols s t n) c)
        \<and> (\<forall>f d. cols s t n = Some f \<longrightarrow> default_expr f = Some d \<longrightarrow> kept_default y (cols s t n) c = Some d)"
      if y: "y = stored l t \<or> y = decided (stored l t) (?m (stored l t))" for y
    proof (cases "cols s t n")
      case None
      then show ?thesis by (simp add: kept_default_def)
    next
      case (Some f)
      have "map_of live c = None \<or> map_of live c = Some f"
        using live [of c] Some unfolding n_def by (cases "map_of live c") auto
      with y owed [of y f] Some show ?thesis by (auto simp: kept_default_def split: option.splits)
    qed
    show ?thesis
    proof (cases x)
      case (Inl e)
      with run vb x have "l' = l1" "s' = s" "r \<noteq> Inr ()"
        by (auto simp: write_then_apply_def Let_def live_def t_def)
      moreover have "stored l1 t = stored l t \<or> stored l1 t = decided (stored l t) (?m (stored l t))"
        using vl Inl mt by (auto simp: view_law_def)
      moreover note keeps [of "stored l1 t"]
      ultimately show ?thesis by simp
    next
      case (Inr u)
      with vl mt have l1: "stored l1 t = decided (stored l t) (?m (stored l t))" "map_of (lv_tables v1) t = stored l1 t"
        by (auto simp: view_law_def)
      show ?thesis
      proof (cases "statements = []")
        case True
        with run vb x Inr have out: "l' = l1" "s' = s"
          by (auto simp: write_then_apply_def Let_def live_def t_def)
        have "cols s' t n = Some (nullable f)" if f: "map_of live c = Some f" for f
        proof -
          have "(c, Some f) \<in> set (sorted_facts ?some)" using f by (simp add: sorted_facts_mem some_at)
          from no_statements [OF vb(2) [unfolded build_overlay_statements_def True] this]
          have "nullable f = f" by (simp add: nullable_def)
          with live [OF f] out show ?thesis by (simp add: n_def)
        qed
        with keeps [of "stored l1 t"] l1 out show ?thesis by auto
      next
        case False
        let ?E = "recorded_expected v1 t live"
        obtain y s1 where y: "apply_exclusion_overlay (fo_target fo) t ?some (Some ?E) s = (y, s1)" by force
        obtain z s2 where run2: "run_overlay_unit (fo_target fo) t live ?E s = (z, s2)" by force
        have "s2 = s1 \<and> (z = Inr () \<longleftrightarrow> (\<exists>out. y = Inr out))"
        proof (cases y)
          case (Inl e)
          with run2 y show ?thesis by (auto simp: run_overlay_unit_def split: if_splits)
        next
          case (Inr out)
          with run2 y show ?thesis by (simp add: run_overlay_unit_def)
        qed
        with run2 have z: "run_overlay_unit (fo_target fo) t live ?E s = (z, s1)" "z = Inr () \<longleftrightarrow> (\<exists>out. y = Inr out)" by simp_all
        with run vb x Inr False have out: "l' = l1" "s' = s1" "r = z"
          by (auto simp: write_then_apply_def Let_def live_def t_def)
        have ot: "overlay_target (fo_target fo) cols printed" using target by (simp add: facts_target_def)
        from overlay_target.apply_law [OF ot some_ok y] touched_only_eased [OF some_ok]
        have eased: "only_eased (cols s) t ?some (Some ?E) (cols s1)"
          and exact: "\<forall>out. y = Inr out \<longrightarrow> (\<forall>c f. map_of ?some c = Some (Some f) \<longrightarrow> cols s t (pg_stored_name c) = Some f) \<longrightarrow>
            (\<forall>c f. map_of ?some c = Some (Some f) \<longrightarrow> cols s1 t (pg_stored_name c) = Some (nullable f))" by blast+
        have E: "?E c = owed_default (stored l1 t) c" if "map_of live c = Some f" for f
        proof -
          have "c \<in> fst ` set live" using that by (metis map_of_eq_None_iff option.distinct(1))
          then show ?thesis by (simp add: recorded_expected_def owed_default_def l1(2))
        qed
        have kept: "kept_default (stored l1 t) (cols s1 t n) c = kept_default (stored l1 t) (cols s t n) c"
        proof (cases "cols s1 t n = cols s t n")
          case False
          with eased [unfolded only_eased_def] obtain c0 f g0 g where c0: "map_of ?some c0 = Some (Some f)" "n = pg_stored_name c0"
            "cols s t n = Some g0" "cols s1 t n = Some g"
            "default_expr g = default_expr g0 \<or> default_expr g = None \<and> ?E c0 = default_expr g0" by blast
          from c0(1) have "map_of live c0 = Some f" by (simp add: some_at)
          with alone [of c0] live c0(2) have "c0 = c" by (simp add: n_def)
          with c0 E [of f] \<open>map_of live c0 = Some f\<close> show ?thesis
            by (cases "default_expr g0") (auto simp: kept_default_def)
        qed simp
        have success: "cols s' t n = Some (nullable f)" if "r = Inr ()" "map_of live c = Some f" for f
        proof -
          have facts_live: "\<forall>c f. map_of ?some c = Some (Some f) \<longrightarrow> cols s t (pg_stored_name c) = Some f"
            using live by (simp add: some_at)
          from that(1) out z(2) obtain o' where "y = Inr o'" by blast
          with exact facts_live that(2) out show ?thesis by (simp add: some_at n_def)
        qed
        have k: "kept_default (stored l' t) (cols s' t n) c = kept_default (stored l1 t) (cols s t n) c"
          using out kept by simp
        show ?thesis unfolding k using keeps [OF disjI2 [OF l1(1)]] success by blast
      qed
    qed
  qed
qed

text \<open>
  C8: no step of the writer loses a DEFAULT, whatever fails: the catalog read, the ledger (a write that
  fails may have landed), an ALTER (a lost reply may hide one that took effect), in whatever attempt. For
  every column that no other overlaid column shares its stored name with, the DEFAULT it has on the
  target, or is owed by the ledger, is the same afterwards; on a recreated table a DEFAULT the table came
  back with is. When the writer returns, every overlaid column it does not leave to Aurora DSQL is
  nullable with no DEFAULT.
\<close>
theorem writer_keeps_defaults:
  assumes store: "ledger_store merge stored good" and target: "facts_target fo cols printed"
    and good: "good l" "names_ok (stored l (wr_table q))"
    and alone: "\<And>a. a \<in> set (wr_overlay q) \<Longrightarrow> pg_stored_name a = pg_stored_name c \<Longrightarrow> a = c"
    and run: "overlay_write_and_apply env fo merge q recreated (v, l, s) = (r, (v', l', s'))"
  shows "(\<not> recreated \<longrightarrow> kept_default (stored l' (wr_table q)) (cols s' (wr_table q) (pg_stored_name c)) c
        = kept_default (stored l (wr_table q)) (cols s (wr_table q) (pg_stored_name c)) c)
    \<and> (\<forall>f d. cols s (wr_table q) (pg_stored_name c) = Some f \<longrightarrow> default_expr f = Some d \<longrightarrow>
        kept_default (stored l' (wr_table q)) (cols s' (wr_table q) (pg_stored_name c)) c = Some d)
    \<and> (r = Inr () \<longrightarrow> c \<in> set (wr_overlay q) \<longrightarrow> (\<forall>f. cols s (wr_table q) (pg_stored_name c) = Some f \<longrightarrow>
        \<not> computed f \<longrightarrow> cols s' (wr_table q) (pg_stored_name c) = Some (nullable f)))"
proof -
  define t where "t = wr_table q"
  define asked where "asked = (\<lambda>u. if u = t then asked_columns q (map_of (lv_tables v) t) else [])"
  obtain x s1 where x: "target_overlay_facts fo (\<not> recreated) asked [t] s = (x, s1)" by force
  note law = facts_target.target_facts_law [OF target x]
  have run': "(case (x, s1) of
       (Inl e, s1) \<Rightarrow> (Inl e, (v, l, s1))
     | (Inr facts, s1) \<Rightarrow>
         (case map_of facts t of
            Some (Some tf) \<Rightarrow> if \<not> tf_exists tf then (Inr (), (v, l, s1)) else write_then_apply env fo merge q recreated tf (v, l, s1)
          | _ \<Rightarrow> (Inl (catalog_error recreated t), (v, l, s1))))
      = (r, (v', l', s'))"
    using run x [unfolded asked_def] unfolding overlay_write_and_apply_def Let_def t_def [symmetric] by simp
  show ?thesis
  proof (cases "\<exists>facts tf. x = Inr facts \<and> map_of facts t = Some (Some tf) \<and> tf_exists tf")
    case False
    then have "l' = l \<and> s' = s1"
      using run' by (auto split: sum.splits option.splits if_splits)
    moreover have "c \<in> set (wr_overlay q) \<Longrightarrow> r = Inr () \<Longrightarrow> cols s t (pg_stored_name c) = None"
    proof -
      assume c: "c \<in> set (wr_overlay q)" and "r = Inr ()"
      with run' False obtain facts tf where f: "x = Inr facts" "map_of facts t = Some (Some tf)" "\<not> tf_exists tf"
        by (auto split: sum.splits option.splits if_splits)
      with law have "facts_target.facts_of t (asked t) (cols s) tf" by blast
      moreover have "c \<in> set (asked t)" using c by (simp add: asked_def asked_columns_def)
      ultimately show "cols s t (pg_stored_name c) = None" using f(3) by (simp add: facts_target.facts_of_def [OF target])
    qed
    ultimately show ?thesis using law by (auto simp: t_def kept_default_def)
  next
    case True
    then obtain facts tf where f: "x = Inr facts" "map_of facts t = Some (Some tf)" "tf_exists tf" by blast
    with law have s1: "cols s1 = cols s" and of: "facts_target.facts_of t (asked t) (cols s) tf" by blast+
    have tf: "tf_columns tf a = cols s1 t (pg_stored_name a)" if "a \<in> set (wr_overlay q)" for a
      using of that s1 by (simp add: facts_target.facts_of_def [OF target] asked_def asked_columns_def)
    have go: "write_then_apply env fo merge q recreated tf (v, l, s1) = (r, (v', l', s'))" using run' f by simp
    note main = write_then_apply_law [OF store target good alone tf [unfolded t_def] go]
    have "map_of (fst (live_overlay tf (wr_overlay q))) c = Some f"
      if "c \<in> set (wr_overlay q)" "cols s t (pg_stored_name c) = Some f" "\<not> computed f" for f
      using that tf [OF that(1)] s1 by (simp add: live_overlay_at)
    with main s1 show ?thesis unfolding t_def by simp
  qed
qed

section \<open>A worker's own re-creation\<close>

text \<open>
  \<open>_overlay_verify_recorded\<close>: a worker has no ledger; it compares what the re-created table came back
  with to what the parent recorded before the load, and overlays only on an exact match.
\<close>

definition recorded_mismatch :: "(string \<Rightarrow> string option) \<Rightarrow> (string, null_facts) pydict \<Rightarrow> pyexc option" where
  "recorded_mismatch recorded live =
     map_option (\<lambda>(c, f). overlay_run_error ''OverlayRecordMismatchError''
         (''the recreated DEFAULT of '' @ c @ '' is '' @ the (default_expr f) @ '', not the '' @
          (case recorded c of None \<Rightarrow> ''none'' | Some d \<Rightarrow> if d = [] then ''none'' else d) @
          '' recorded before the load; nothing was altered. Retry unfinished re-records it and reloads the table'') None)
       (find (\<lambda>(c, f). default_expr f \<noteq> None \<and> recorded c \<noteq> default_expr f) live)"

definition overlay_verify_recorded :: "'s facts_ops \<Rightarrow> string \<Rightarrow> string list \<Rightarrow> (string \<Rightarrow> string option) \<Rightarrow> ('s, unit) action" where
  "overlay_verify_recorded fo t overlay recorded s =
     (case target_overlay_facts fo False (\<lambda>u. if u = t then sort (remdups overlay) else []) [t] s of
        (Inl e, s1) \<Rightarrow> (Inl e, s1)
      | (Inr facts, s1) \<Rightarrow>
          (case map_of facts t of
             Some (Some tf) \<Rightarrow>
               let live = fst (live_overlay tf overlay)
               in (case recorded_mismatch recorded live of
                     Some e \<Rightarrow> (Inl e, s1)
                   | None \<Rightarrow>
                       (case build_overlay_statements t (map (\<lambda>(c, f). (c, Some f)) live) of
                          Inl e \<Rightarrow> (Inl e, s1)
                        | Inr statements \<Rightarrow>
                            if statements = [] then (Inr (), s1)
                            else run_overlay_unit (fo_target fo) t live (\<lambda>c. if c \<in> fst ` set live then recorded c else None) s1))
           | _ \<Rightarrow> (Inl (catalog_error True t), s1)))"

text \<open>Only a DEFAULT equal to the recorded one is dropped.\<close>

lemma verify_recorded_law:
  assumes "facts_target fo cols printed" "overlay_verify_recorded fo t overlay recorded s = (r, s')"
  shows "\<forall>u n. cols s' u n = cols s u n \<or> (\<exists>c g0 g. u = t \<and> c \<in> set overlay \<and> n = pg_stored_name c
      \<and> cols s u n = Some g0 \<and> cols s' u n = Some g
      \<and> (default_expr g = default_expr g0 \<or> default_expr g = None \<and> recorded c = default_expr g0))"
proof -
  have ot: "overlay_target (fo_target fo) cols printed" using assms(1) by (simp add: facts_target_def)
  let ?asked = "\<lambda>u. if u = t then sort (remdups overlay) else []"
  obtain x s1 where x: "target_overlay_facts fo False ?asked [t] s = (x, s1)" by force
  from facts_target.target_facts_law [OF assms(1) x] have s1: "cols s1 = cols s" by simp
  show ?thesis
  proof (cases "cols s' = cols s")
    case False
    then obtain facts tf where f: "x = Inr facts" "map_of facts t = Some (Some tf)"
      using assms(2) x s1 by (auto simp: overlay_verify_recorded_def split: sum.splits option.splits)
    define live where "live = fst (live_overlay tf overlay)"
    let ?some = "map (\<lambda>(c, f). (c, Some f)) live"
    let ?E = "\<lambda>c. if c \<in> fst ` set live then recorded c else None"
    from False assms(2) x s1 f have run: "run_overlay_unit (fo_target fo) t live ?E s1 = (r, s')"
      by (auto simp: overlay_verify_recorded_def Let_def live_def split: sum.splits option.splits if_splits)
    have some_at: "map_of ?some a = map_option Some (map_of live a)" for a by (induction live) auto
    have ok: "dict_ok live" unfolding live_def by (rule live_overlay_names(3))
    then have some_ok: "dict_ok ?some" by (simp add: comp_def case_prod_unfold)
    obtain y s2 where y: "apply_exclusion_overlay (fo_target fo) t ?some (Some ?E) s1 = (y, s2)" by force
    with run have "s' = s2" by (cases y) (auto simp: run_overlay_unit_def split: if_splits)
    from overlay_target.apply_law [OF ot some_ok y] touched_only_eased [OF some_ok]
    have eased: "only_eased (cols s1) t ?some (Some ?E) (cols s2)" by blast
    have E: "c \<in> set overlay \<and> ?E c = recorded c" if "map_of ?some c = Some (Some f)" for c f
    proof -
      from that have at: "map_of live c = Some f" unfolding some_at by simp
      then have "c \<in> fst ` set live" by (metis map_of_eq_None_iff option.distinct(1))
      moreover from at live_overlay_at [of tf overlay c] have "c \<in> set overlay"
        unfolding live_def by (cases "tf_columns tf c") (auto split: if_splits)
      ultimately show ?thesis by simp
    qed
    show ?thesis unfolding \<open>s' = s2\<close>
    proof (intro allI)
      fix u n
      from eased [unfolded only_eased_def s1] have "cols s2 u n = cols s u n \<or> (\<exists>c f g0 g. u = t \<and> map_of ?some c = Some (Some f)
          \<and> n = pg_stored_name c \<and> cols s u n = Some g0 \<and> cols s2 u n = Some g
          \<and> (default_expr g = default_expr g0 \<or> default_expr g = None \<and> ?E c = default_expr g0))" by blast
      then show "cols s2 u n = cols s u n \<or> (\<exists>c g0 g. u = t \<and> c \<in> set overlay \<and> n = pg_stored_name c
          \<and> cols s u n = Some g0 \<and> cols s2 u n = Some g
          \<and> (default_expr g = default_expr g0 \<or> default_expr g = None \<and> recorded c = default_expr g0))"
      proof (elim disjE exE conjE)
        fix c f g0 g
        assume c: "u = t" "map_of ?some c = Some (Some f)" "n = pg_stored_name c" "cols s u n = Some g0" "cols s2 u n = Some g"
          and d: "default_expr g = None" "?E c = default_expr g0"
        have "recorded c = default_expr g0" using E [OF c(2)] d(2) by (simp only:)
        with E [OF c(2)] c d(1) show ?thesis by blast
      qed (use E in blast)+
    qed
  qed simp
qed

section \<open>An instance\<close>

text \<open>The writer over the in-memory stores, on a target that loses replies.\<close>

definition demo_facts :: "memory_target facts_ops" where
  "demo_facts = \<lparr>fo_target = memory_target, fo_probe = (\<lambda>t s. (Inr False, s)), fo_rollback = (\<lambda>s. s),
     fo_retry = ov_retry memory_target\<rparr>"

interpretation demo_writer: facts_target demo_facts memory_cols "\<lambda>e. e"
proof (rule facts_target.intro)
  show "overlay_target (fo_target demo_facts) memory_cols (\<lambda>e. e)"
    using memory_overlay.overlay_target_axioms by (simp add: demo_facts_def)
  show "facts_target_axioms demo_facts memory_cols"
    by (rule facts_target_axioms.intro)
       (use memory_overlay.retry_ok memory_overlay.waits_law in \<open>simp_all add: demo_facts_def\<close>)
qed

definition demo_request :: write_request where
  "demo_request = \<lparr>wr_table = ''t'', wr_overlay = [''secret''], wr_excluded = [''secret''], wr_source = [''id'', ''secret''],
     wr_cdc = False, wr_ddl = Some ''ddl'', wr_now = ''t0''\<rparr>"

abbreviation demo_ledger :: "merges \<Rightarrow> (string \<Rightarrow> blob option, updates) action" where
  "demo_ledger \<equiv> blob_merge (memory_ledger ''k'')"

definition demo_write :: "(pyexc + unit) \<times> ledger_view \<times> (string \<Rightarrow> blob option) \<times> memory_target" where
  "demo_write = overlay_write_and_apply demo_env demo_facts demo_ledger demo_request False (demo_view, (\<lambda>k. None), demo_target)"

lemma demo_write_ok: "fst demo_write = Inr ()"
  by code_simp

lemma writer_keeps_defaults_witness:
  "case demo_write of (r, v', l', s') \<Rightarrow> r = Inr ()
    \<and> kept_default (doc_tables (l' ''k'') ''t'') (memory_cols s' ''t'' ''secret'') ''secret'' = Some ''0''
    \<and> memory_cols s' ''t'' ''secret'' = Some (nullable demo_live)"
proof -
  obtain v' l' s' where w: "demo_write = (Inr (), v', l', s')" using demo_write_ok by (metis prod.collapse)
  have name: "pg_stored_name ''secret'' = ''secret''" by (simp add: pg_stored_name_def code_def)
  have live: "memory_cols demo_target ''t'' ''secret'' = Some demo_live"
    by (simp add: memory_cols_def demo_target_def plain_facts_def demo_live_def)
  note run = w [unfolded demo_write_def]
  have t: "wr_table demo_request = ''t''" and c: "''secret'' \<in> set (wr_overlay demo_request)" by (simp_all add: demo_request_def)
  have good: "doc_good ((\<lambda>k. None) ''k'')" "names_ok (doc_tables ((\<lambda>k. None) ''k'') (wr_table demo_request))"
    by (simp_all add: doc_good_def names_ok_def doc_tables_def)
  have alone: "\<And>a. a \<in> set (wr_overlay demo_request) \<Longrightarrow> pg_stored_name a = pg_stored_name ''secret'' \<Longrightarrow> a = ''secret''"
    by (simp add: demo_request_def)
  have f: "default_expr demo_live = Some ''0''" "\<not> computed demo_live" by (simp_all add: demo_live_def computed_def)
  note main = writer_keeps_defaults [OF memory.ledger.ledger_store_axioms demo_writer.facts_target_axioms good alone run, unfolded t name]
  from conjunct1 [OF conjunct2 [OF main]] live f(1)
  have "kept_default (doc_tables (l' ''k'') ''t'') (memory_cols s' ''t'' ''secret'') ''secret'' = Some ''0''" by blast
  moreover from conjunct2 [OF conjunct2 [OF main]] c live f(2)
  have "memory_cols s' ''t'' ''secret'' = Some (nullable demo_live)" by blast
  ultimately show ?thesis unfolding w by simp
qed

end
