(* ===== verification/SessionStore.thy ===== *)
theory SessionStore
  imports PyString
begin

text \<open>
  The session snapshots of \<^verbatim>\<open>core/session_state_store.py\<close>: the in-memory, the SQLite and the S3 store, the
  last one with its background writer. The writer, the callers of \<open>save\<close>, \<open>delete\<close> and \<open>prune\<close> and their
  waits interleave in the step relation \<open>session_step\<close>; what the store promises of each session is
  carried beside it, and \<open>session_world\<close> says what S3 and the JSON codec guarantee.
\<close>

section \<open>Snapshots and their JSON\<close>

text \<open>
  The codec of the model: \<open>session_id\<close>, \<open>model_dump_json\<close>, \<open>model_validate_json\<close> (with the error types of a
  \<open>ValidationError\<close>, \<open>None\<close> for any other exception) and the same with \<open>extra="ignore"\<close>.
\<close>

record 'p codec =
  snap_id :: "'p \<Rightarrow> string"
  dump_json :: "'p \<Rightarrow> pyexc + string"
  validate_json :: "string \<Rightarrow> (pyexc \<times> string list option) + 'p"
  validate_ignoring :: "string \<Rightarrow> pyexc + 'p"

definition snapshot_from_payload :: "'p codec \<Rightarrow> string \<Rightarrow> pyexc + 'p" where
  "snapshot_from_payload cd payload =
     (case validate_json cd payload of
        Inr p \<Rightarrow> Inr p
      | Inl (e, None) \<Rightarrow> Inl e
      | Inl (e, Some types) \<Rightarrow>
          if \<exists>ty \<in> set types. ty \<noteq> ''extra_forbidden'' then Inl e else validate_ignoring cd payload)"

text \<open>A snapshot that does not parse is ignored, not raised (\<open>except Exception\<close>).\<close>

definition parsed_or_none :: "'p codec \<Rightarrow> string \<Rightarrow> pyexc + 'p option" where
  "parsed_or_none cd payload =
     (case snapshot_from_payload cd payload of
        Inr p \<Rightarrow> Inr (Some p)
      | Inl e \<Rightarrow> if is_exception e then Inr None else Inl e)"

section \<open>The in-memory store\<close>

type_synonym memory_sessions = "(string, string) pydict"

definition mem_session_save :: "'p codec \<Rightarrow> 'p \<Rightarrow> (memory_sessions, unit) action" where
  "mem_session_save cd p d =
     (let d1 = dict_pop (snap_id cd p) d
      in case dump_json cd p of Inl e \<Rightarrow> (Inl e, d1) | Inr payload \<Rightarrow> (Inr (), dict_set (snap_id cd p) payload d1))"

definition mem_session_load :: "'p codec \<Rightarrow> string \<Rightarrow> (memory_sessions, 'p option) action" where
  "mem_session_load cd sid d =
     (case map_of d sid of
        None \<Rightarrow> (Inr None, d)
      | Some payload \<Rightarrow>
          if payload = [] then (Inr None, d)
          else (case validate_json cd payload of Inr p \<Rightarrow> (Inr (Some p), d) | Inl (e, types) \<Rightarrow> (Inl e, d)))"

definition mem_session_delete :: "string \<Rightarrow> memory_sessions \<Rightarrow> memory_sessions" where
  "mem_session_delete sid d = dict_pop sid d"

definition mem_session_prune :: "int \<Rightarrow> memory_sessions \<Rightarrow> string list \<times> memory_sessions" where
  "mem_session_prune keep d =
     (let ids = map fst d; to_delete = (if keep \<le> 0 then ids else take (length ids - nat keep) ids)
      in (to_delete, fold dict_pop to_delete d))"

section \<open>The SQLite store\<close>

record session_row =
  sr_id :: string
  sr_payload :: string
  sr_updated :: int

type_synonym session_table = "session_row list"

fun upsert_session :: "session_row \<Rightarrow> session_table \<Rightarrow> session_table" where
  "upsert_session new [] = [new]"
| "upsert_session new (r # rs) =
     (if sr_id r = sr_id new then r\<lparr>sr_payload := sr_payload new, sr_updated := sr_updated new\<rparr> # rs
      else r # upsert_session new rs)"

definition sqlite_session_save :: "'p codec \<Rightarrow> int \<Rightarrow> 'p \<Rightarrow> (session_table, unit) action" where
  "sqlite_session_save cd now p rows =
     (case dump_json cd p of
        Inl e \<Rightarrow> (Inl e, rows)
      | Inr payload \<Rightarrow> (Inr (), upsert_session \<lparr>sr_id = snap_id cd p, sr_payload = payload, sr_updated = now\<rparr> rows))"

definition sqlite_session_load :: "'p codec \<Rightarrow> string \<Rightarrow> session_table \<Rightarrow> pyexc + 'p option" where
  "sqlite_session_load cd sid rows =
     (case filter (\<lambda>r. sr_id r = sid) rows of
        [] \<Rightarrow> Inr None
      | r # _ \<Rightarrow> parsed_or_none cd (sr_payload r))"

definition sqlite_session_delete :: "string \<Rightarrow> session_table \<Rightarrow> session_table" where
  "sqlite_session_delete sid rows = filter (\<lambda>r. sr_id r \<noteq> sid) rows"

definition sqlite_session_prune :: "int \<Rightarrow> session_table \<Rightarrow> string list \<times> session_table" where
  "sqlite_session_prune keep rows =
     (let to_delete = drop (nat (max keep 0)) (map sr_id (sort_key (\<lambda>r. - sr_updated r) rows))
      in (to_delete, fold sqlite_session_delete to_delete rows))"

section \<open>The S3 store\<close>

text \<open>The client of S3, on its state: \<open>LastModified\<close> is a count from \<open>datetime.min\<close>.\<close>

record 's bucket_ops =
  s3_client_of :: "('s, unit) action"
  head_bucket :: "('s, unit) action"
  create_bucket :: "string option \<Rightarrow> ('s, unit) action"
  put_object :: "string \<Rightarrow> string \<Rightarrow> ('s, unit) action"
  get_object :: "string \<Rightarrow> ('s, string) action"
  delete_object :: "string \<Rightarrow> ('s, unit) action"
  list_pages :: "string \<Rightarrow> ('s, (string \<times> nat option) list list) action"
  error_code :: "pyexc \<Rightarrow> string"

record session_config =
  sf_region :: "string option"
  sf_prefix :: string

definition session_prefix :: "string \<Rightarrow> string" where
  "session_prefix p = (if suffix ''/'' p then p else p @ ''/'')"

definition session_key :: "session_config \<Rightarrow> string \<Rightarrow> string" where
  "session_key cf sid = sf_prefix cf @ sid @ ''.json''"

definition session_id_from_key :: "session_config \<Rightarrow> string \<Rightarrow> string option" where
  "session_id_from_key cf key =
     (if prefix (sf_prefix cf) key \<and> suffix ''.json'' key
      then let rest = drop (length (sf_prefix cf)) key in Some (take (length rest - 5) rest) else None)"

record ('s, 'p) session_store =
  ss_bucket :: 's
  ss_ensured :: bool
  ss_pending :: "(string, 'p) pydict"
  ss_inflight :: "(string \<times> 'p) option"

definition on_bucket :: "('s, 'a) action \<Rightarrow> (('s, 'p) session_store, 'a) action" where
  "on_bucket act st = (case act (ss_bucket st) of (r, b) \<Rightarrow> (r, st\<lparr>ss_bucket := b\<rparr>))"

definition location :: "session_config \<Rightarrow> string option" where
  "location cf = (case sf_region cf of None \<Rightarrow> None | Some r \<Rightarrow> if r \<noteq> [] \<and> r \<noteq> ''us-east-1'' then Some r else None)"

definition ensure_bucket :: "'s bucket_ops \<Rightarrow> session_config \<Rightarrow> (('s, 'p) session_store, unit) action" where
  "ensure_bucket ops cf st =
     (if ss_ensured st then (Inr (), st)
      else case on_bucket (s3_client_of ops) st of
        (Inl e, st1) \<Rightarrow> (Inl e, st1)
      | (Inr u, st1) \<Rightarrow>
          (case on_bucket (head_bucket ops) st1 of
             (Inr u, st2) \<Rightarrow> (Inr (), st2\<lparr>ss_ensured := True\<rparr>)
           | (Inl e, st2) \<Rightarrow>
               if \<not> is_exception e then (Inl e, st2)
               else (case on_bucket (create_bucket ops (location cf)) st2 of
                       (Inr u, st3) \<Rightarrow> (Inr (), st3\<lparr>ss_ensured := True\<rparr>)
                     | (Inl e2, st3) \<Rightarrow>
                         if is_exception e2 \<and> sublist ''BucketAlreadyOwnedByYou'' (message e2)
                         then (Inr (), st3\<lparr>ss_ensured := True\<rparr>) else (Inl e2, st3))))"

text \<open>The guarded body of \<open>_upload\<close>, and \<open>_upload\<close>, which lets no \<open>Exception\<close> out.\<close>

definition upload_body :: "'p codec \<Rightarrow> 's bucket_ops \<Rightarrow> session_config \<Rightarrow> 'p \<Rightarrow> (('s, 'p) session_store, unit) action" where
  "upload_body cd ops cf p st =
     (case dump_json cd p of
        Inl e \<Rightarrow> (Inl e, st)
      | Inr payload \<Rightarrow>
          (case ensure_bucket ops cf st of
             (Inl e, st1) \<Rightarrow> (Inl e, st1)
           | (Inr u, st1) \<Rightarrow>
               (case on_bucket (s3_client_of ops) st1 of
                  (Inl e, st2) \<Rightarrow> (Inl e, st2)
                | (Inr u, st2) \<Rightarrow> on_bucket (put_object ops (session_key cf (snap_id cd p)) payload) st2)))"

definition upload :: "'p codec \<Rightarrow> 's bucket_ops \<Rightarrow> session_config \<Rightarrow> 'p \<Rightarrow> (('s, 'p) session_store, unit) action" where
  "upload cd ops cf p st =
     (case upload_body cd ops cf p st of
        (Inl e, st1) \<Rightarrow> (if is_exception e then Inr () else Inl e, st1)
      | (Inr u, st1) \<Rightarrow> (Inr (), st1))"

text \<open>\<open>_is_absent\<close>: the error says that the object or the bucket does not exist.\<close>

definition is_absent_error :: "'s bucket_ops \<Rightarrow> pyexc \<Rightarrow> bool" where
  "is_absent_error ops e =
     list_ex (\<lambda>marker. sublist marker (error_code ops e @ '' '' @ message e))
       [''NoSuchKey'', ''NoSuchBucket'', ''404'', ''Not Found'']"

text \<open>\<open>save\<close>: an upload, or a hand-over to the writer when the store is in the background.\<close>

definition session_save :: "'p codec \<Rightarrow> 's bucket_ops \<Rightarrow> session_config \<Rightarrow> bool \<Rightarrow> 'p \<Rightarrow> (('s, 'p) session_store, unit) action" where
  "session_save cd ops cf background p st =
     (if background then (Inr (), st\<lparr>ss_pending := dict_set (snap_id cd p) p (ss_pending st)\<rparr>)
      else upload cd ops cf p st)"

text \<open>The writer (\<open>_drain\<close>): take the first pending snapshot, upload it, clear the mark.\<close>

definition writer_take :: "('s, 'p) session_store \<Rightarrow> ('s, 'p) session_store option" where
  "writer_take st =
     (case ss_pending st of
        [] \<Rightarrow> None
      | (sid, p) # rest \<Rightarrow> Some (st\<lparr>ss_pending := rest, ss_inflight := Some (sid, p)\<rparr>))"

definition writer_finish :: "('s, 'p) session_store \<Rightarrow> ('s, 'p) session_store" where
  "writer_finish st = st\<lparr>ss_inflight := None\<rparr>"

text \<open>What \<open>flush\<close> waits for, and the sessions it names when it times out.\<close>

definition all_written :: "('s, 'p) session_store \<Rightarrow> bool" where
  "all_written st = (ss_pending st = [] \<and> ss_inflight st = None)"

definition unwritten_ids :: "('s, 'p) session_store \<Rightarrow> string set" where
  "unwritten_ids st = fst ` set (ss_pending st) \<union> (case ss_inflight st of None \<Rightarrow> {} | Some (sid, p) \<Rightarrow> {sid})"

definition unwritten :: "('s, 'p) session_store \<Rightarrow> string \<Rightarrow> 'p option" where
  "unwritten st sid =
     (case map_of (ss_pending st) sid of
        Some p \<Rightarrow> Some p
      | None \<Rightarrow> (case ss_inflight st of Some (sid', p) \<Rightarrow> if sid' = sid then Some p else None | None \<Rightarrow> None))"

definition detached_copy :: "'p codec \<Rightarrow> 'p \<Rightarrow> pyexc + 'p" where
  "detached_copy cd p =
     (case dump_json cd p of
        Inl e \<Rightarrow> Inl e
      | Inr payload \<Rightarrow> (case validate_json cd payload of Inl (e, types) \<Rightarrow> Inl e | Inr q \<Rightarrow> Inr q))"

definition load_object :: "'p codec \<Rightarrow> 's bucket_ops \<Rightarrow> session_config \<Rightarrow> string \<Rightarrow> (('s, 'p) session_store, 'p option) action" where
  "load_object cd ops cf sid st =
     (case on_bucket (s3_client_of ops) st of
        (Inl e, st1) \<Rightarrow> (if is_exception e then Inr None else Inl e, st1)
      | (Inr u, st1) \<Rightarrow>
          (case on_bucket (get_object ops (session_key cf sid)) st1 of
             (Inl e, st2) \<Rightarrow> (if is_exception e then Inr None else Inl e, st2)
           | (Inr payload, st2) \<Rightarrow> (parsed_or_none cd payload, st2)))"

definition session_load :: "'p codec \<Rightarrow> 's bucket_ops \<Rightarrow> session_config \<Rightarrow> bool \<Rightarrow> string \<Rightarrow>
    (('s, 'p) session_store, 'p option) action" where
  "session_load cd ops cf background sid st =
     (case (if background then unwritten st sid else None) of
        None \<Rightarrow> load_object cd ops cf sid st
      | Some p \<Rightarrow>
          (case detached_copy cd p of
             Inr q \<Rightarrow> (Inr (Some q), st)
           | Inl e \<Rightarrow> if is_exception e then load_object cd ops cf sid st else (Inl e, st)))"

text \<open>\<open>delete\<close>: drop a pending snapshot, wait for an upload of it under way, send the DELETE.\<close>

definition delete_begin :: "string \<Rightarrow> ('s, 'p) session_store \<Rightarrow> ('s, 'p) session_store" where
  "delete_begin sid st = st\<lparr>ss_pending := dict_pop sid (ss_pending st)\<rparr>"

definition delete_may_go :: "string \<Rightarrow> ('s, 'p) session_store \<Rightarrow> bool" where
  "delete_may_go sid st = (case ss_inflight st of None \<Rightarrow> True | Some (sid', p) \<Rightarrow> sid' \<noteq> sid)"

definition delete_body :: "'s bucket_ops \<Rightarrow> session_config \<Rightarrow> string \<Rightarrow> (('s, 'p) session_store, unit) action" where
  "delete_body ops cf sid st =
     (case on_bucket (s3_client_of ops) st of
        (Inl e, st1) \<Rightarrow> (Inl e, st1)
      | (Inr u, st1) \<Rightarrow> on_bucket (delete_object ops (session_key cf sid)) st1)"

definition delete_send :: "'s bucket_ops \<Rightarrow> session_config \<Rightarrow> string \<Rightarrow> (('s, 'p) session_store, unit) action" where
  "delete_send ops cf sid st =
     (case delete_body ops cf sid st of
        (Inl e, st1) \<Rightarrow> (if is_exception e then Inr () else Inl e, st1)
      | (Inr u, st1) \<Rightarrow> (Inr (), st1))"

text \<open>\<open>prune\<close> after its \<open>flush\<close>: newest first, equal times in the order listed; the deletes stop at the first error.\<close>

definition newest_first :: "(string \<times> nat option) list \<Rightarrow> (string \<times> nat option) list" where
  "newest_first objs = sort_key (\<lambda>(key, modified). - int (case modified of None \<Rightarrow> 0 | Some t \<Rightarrow> t)) objs"

fun prune_objects :: "'s bucket_ops \<Rightarrow> session_config \<Rightarrow> string list \<Rightarrow> string list \<Rightarrow>
    (('s, 'p) session_store, string list) action" where
  "prune_objects ops cf [] deleted st = (Inr deleted, st)"
| "prune_objects ops cf (key # keys) deleted st =
     (case on_bucket (delete_object ops key) st of
        (Inl e, st1) \<Rightarrow> (Inl e, st1)
      | (Inr u, st1) \<Rightarrow>
          prune_objects ops cf keys
            (deleted @ (case session_id_from_key cf key of None \<Rightarrow> [] | Some sid \<Rightarrow> [sid])) st1)"

definition prune_body :: "'s bucket_ops \<Rightarrow> session_config \<Rightarrow> int \<Rightarrow> (('s, 'p) session_store, string list) action" where
  "prune_body ops cf keep st =
     (case ensure_bucket ops cf st of
        (Inl e, st1) \<Rightarrow> (Inl e, st1)
      | (Inr u, st1) \<Rightarrow>
          (case on_bucket (s3_client_of ops) st1 of
             (Inl e, st2) \<Rightarrow> (Inl e, st2)
           | (Inr u, st2) \<Rightarrow>
               (case on_bucket (list_pages ops (sf_prefix cf)) st2 of
                  (Inl e, st3) \<Rightarrow> (Inl e, st3)
                | (Inr pages, st3) \<Rightarrow>
                    prune_objects ops cf (map fst (drop (nat (max keep 0)) (newest_first (concat pages)))) [] st3)))"

definition session_prune :: "'s bucket_ops \<Rightarrow> session_config \<Rightarrow> int \<Rightarrow> (('s, 'p) session_store, string list) action" where
  "session_prune ops cf keep st =
     (case prune_body ops cf keep st of
        (Inl e, st1) \<Rightarrow> (if is_exception e then Inr [] else Inl e, st1)
      | (Inr deleted, st1) \<Rightarrow> (Inr deleted, st1))"

section \<open>The interleavings\<close>

text \<open>
  Beside the store: whether the writer has sent the upload it has in hand, the deletes under way (waiting
  or about to send, and whether nothing has overlapped them), and the promise on every session.
\<close>

datatype 'p promise = Holds 'p | Absent | Unknown
datatype delete_phase = Waiting | Going

record ('s, 'p) session_system =
  sy_store :: "('s, 'p) session_store"
  sy_sent :: bool
  sy_deletes :: "(string \<times> delete_phase \<times> bool) list"
  sy_promise :: "string \<Rightarrow> 'p promise"

definition deleting :: "('s, 'p) session_system \<Rightarrow> string \<Rightarrow> bool" where
  "deleting y sid = (sid \<in> fst ` set (sy_deletes y))"

text \<open>A save that overlaps a delete of its session leaves which of them wins open.\<close>

definition promise_saved :: "'p codec \<Rightarrow> ('s, 'p) session_system \<Rightarrow> 'p \<Rightarrow> 'p promise" where
  "promise_saved cd y p =
     (if deleting y (snap_id cd p) \<or> (case dump_json cd p of Inl e \<Rightarrow> True | Inr payload \<Rightarrow> False) then Unknown else Holds p)"

text \<open>An object written or removed behind a promise voids it, unless a newer snapshot is still pending.\<close>

definition promise_disturbed :: "('s, 'p) session_system \<Rightarrow> string \<Rightarrow> 'p promise" where
  "promise_disturbed y sid =
     (case sy_promise y sid of
        Holds p \<Rightarrow> if sid \<in> fst ` set (ss_pending (sy_store y)) then Holds p else Unknown
      | Absent \<Rightarrow> Absent
      | Unknown \<Rightarrow> Unknown)"

inductive session_step :: "'p codec \<Rightarrow> 's bucket_ops \<Rightarrow> session_config \<Rightarrow> ('s, 'p) session_system \<Rightarrow> ('s, 'p) session_system \<Rightarrow> bool"
  for cd ops cf where
  saved: "session_save cd ops cf True p (sy_store y) = (Inr (), st) \<Longrightarrow>
    session_step cd ops cf y (y\<lparr>sy_store := st,
      sy_deletes := map (\<lambda>(sid, ph, alone). (sid, ph, alone \<and> sid \<noteq> snap_id cd p)) (sy_deletes y),
      sy_promise := (sy_promise y)(snap_id cd p := promise_saved cd y p)\<rparr>)"
| taken: "ss_inflight (sy_store y) = None \<Longrightarrow> writer_take (sy_store y) = Some st \<Longrightarrow>
    session_step cd ops cf y (y\<lparr>sy_store := st, sy_sent := False\<rparr>)"
| uploaded: "ss_inflight (sy_store y) = Some (sid, p) \<Longrightarrow> \<not> sy_sent y \<Longrightarrow>
    upload_body cd ops cf p (sy_store y) = (r, st) \<Longrightarrow>
    session_step cd ops cf y (y\<lparr>sy_store := st, sy_sent := True,
      sy_promise := (if is_ok r then sy_promise y else (sy_promise y)(sid := promise_disturbed y sid))\<rparr>)"
| finished: "ss_inflight (sy_store y) \<noteq> None \<Longrightarrow> sy_sent y \<Longrightarrow>
    session_step cd ops cf y (y\<lparr>sy_store := writer_finish (sy_store y)\<rparr>)"
| delete_begun: "session_step cd ops cf y (y\<lparr>sy_store := delete_begin sid (sy_store y),
      sy_deletes := (sid, Waiting, True) # sy_deletes y, sy_promise := (sy_promise y)(sid := Unknown)\<rparr>)"
| delete_woken: "sy_deletes y = xs @ (sid, Waiting, alone) # ys \<Longrightarrow> delete_may_go sid (sy_store y) \<Longrightarrow>
    session_step cd ops cf y (y\<lparr>sy_deletes := xs @ (sid, Going, alone) # ys\<rparr>)"
| delete_timed_out: "sy_deletes y = xs @ (sid, Waiting, alone) # ys \<Longrightarrow>
    session_step cd ops cf y (y\<lparr>sy_deletes := xs @ (sid, Going, False) # ys\<rparr>)"
| delete_sent: "sy_deletes y = xs @ (sid, Going, alone) # ys \<Longrightarrow> delete_body ops cf sid (sy_store y) = (r, st) \<Longrightarrow>
    session_step cd ops cf y (y\<lparr>sy_store := st, sy_deletes := xs @ ys,
      sy_promise := (sy_promise y)(sid := (if alone \<and> is_ok r then Absent else promise_disturbed y sid))\<rparr>)"
| pruned: "on_bucket (delete_object ops key) (sy_store y) = (r, st) \<Longrightarrow>
    session_step cd ops cf y (y\<lparr>sy_store := st,
      sy_promise := (\<lambda>sid. if session_key cf sid = key then promise_disturbed y sid else sy_promise y sid)\<rparr>)"
| ensured: "ensure_bucket ops cf (sy_store y) = (r, st) \<Longrightarrow> session_step cd ops cf y (y\<lparr>sy_store := st\<rparr>)"
| loaded: "session_load cd ops cf True sid (sy_store y) = (r, st) \<Longrightarrow> session_step cd ops cf y (y\<lparr>sy_store := st\<rparr>)"

text \<open>A process starts over whatever an earlier one left in the bucket.\<close>

definition session_boot :: "'s \<Rightarrow> ('s, 'p) session_system" where
  "session_boot b = \<lparr>sy_store = \<lparr>ss_bucket = b, ss_ensured = False, ss_pending = [], ss_inflight = None\<rparr>,
     sy_sent = True, sy_deletes = [], sy_promise = (\<lambda>_. Unknown)\<rparr>"

inductive session_reachable :: "'p codec \<Rightarrow> 's bucket_ops \<Rightarrow> session_config \<Rightarrow> ('s, 'p) session_system \<Rightarrow> bool"
  for cd ops cf where
  boot: "session_reachable cd ops cf (session_boot b)"
| move: "session_reachable cd ops cf y \<Longrightarrow> session_step cd ops cf y z \<Longrightarrow> session_reachable cd ops cf z"

text \<open>
  What a \<open>load\<close> answers, unless the client or the read failed for another reason than absence (the store
  then logs it and answers \<open>None\<close>).
\<close>

definition cannot_read :: "'s bucket_ops \<Rightarrow> session_config \<Rightarrow> string \<Rightarrow> ('s, 'p) session_store \<Rightarrow> bool" where
  "cannot_read ops cf sid st =
     (case on_bucket (s3_client_of ops) st of
        (Inl e, st1) \<Rightarrow> True
      | (Inr u, st1) \<Rightarrow>
          (case on_bucket (get_object ops (session_key cf sid)) st1 of
             (Inl e, st2) \<Rightarrow> \<not> (is_exception e \<and> is_absent_error ops e)
           | (Inr payload, st2) \<Rightarrow> False))"

definition reads_as :: "'p codec \<Rightarrow> 's bucket_ops \<Rightarrow> session_config \<Rightarrow> string \<Rightarrow> ('s, 'p) session_store \<Rightarrow> 'p option \<Rightarrow> bool" where
  "reads_as cd ops cf sid st q =
     (fst (session_load cd ops cf True sid st) = Inr q \<or> cannot_read ops cf sid st)"

section \<open>What the store promises\<close>

definition sends_no_more :: "('s, 'p) session_system \<Rightarrow> string \<Rightarrow> bool" where
  "sends_no_more y sid =
     (sid \<notin> fst ` set (ss_pending (sy_store y)) \<and> (delete_may_go sid (sy_store y) \<or> sy_sent y))"

definition promise_kept :: "'p codec \<Rightarrow> session_config \<Rightarrow> ('s \<Rightarrow> string \<Rightarrow> string option) \<Rightarrow> ('s, 'p) session_system \<Rightarrow> string \<Rightarrow> bool" where
  "promise_kept cd cf objects y sid =
     (case sy_promise y sid of
        Holds p \<Rightarrow> \<exists>payload. dump_json cd p = Inr payload \<and> unwritten (sy_store y) sid \<in> {None, Some p}
          \<and> (sends_no_more y sid \<longrightarrow> objects (ss_bucket (sy_store y)) (session_key cf sid) = Some payload)
      | Absent \<Rightarrow> unwritten (sy_store y) sid = None \<and> objects (ss_bucket (sy_store y)) (session_key cf sid) = None
      | Unknown \<Rightarrow> True)"

definition store_wf :: "'p codec \<Rightarrow> ('s, 'p) session_store \<Rightarrow> bool" where
  "store_wf cd st = (dict_ok (ss_pending st) \<and> (\<forall>(sid, p) \<in> set (ss_pending st). snap_id cd p = sid)
     \<and> (\<forall>sid p. ss_inflight st = Some (sid, p) \<longrightarrow> snap_id cd p = sid))"

definition deletes_wf :: "('s, 'p) session_system \<Rightarrow> bool" where
  "deletes_wf y = (\<forall>(sid, ph, alone) \<in> set (sy_deletes y).
     (\<forall>p. sy_promise y sid \<noteq> Holds p)
     \<and> (alone \<longrightarrow> sid \<notin> fst ` set (ss_pending (sy_store y)) \<and> (ph = Going \<longrightarrow> delete_may_go sid (sy_store y))))"

definition session_inv :: "'p codec \<Rightarrow> session_config \<Rightarrow> ('s \<Rightarrow> string \<Rightarrow> string option) \<Rightarrow> ('s, 'p) session_system \<Rightarrow> bool" where
  "session_inv cd cf objects y = (store_wf cd (sy_store y) \<and> deletes_wf y \<and> (\<forall>sid. promise_kept cd cf objects y sid))"

lemma promise_keptI:
  assumes "\<And>p. sy_promise y sid = Holds p \<Longrightarrow> \<exists>payload. dump_json cd p = Inr payload
      \<and> unwritten (sy_store y) sid \<in> {None, Some p}
      \<and> (sends_no_more y sid \<longrightarrow> objects (ss_bucket (sy_store y)) (session_key cf sid) = Some payload)"
    and "sy_promise y sid = Absent \<Longrightarrow> unwritten (sy_store y) sid = None
      \<and> objects (ss_bucket (sy_store y)) (session_key cf sid) = None"
  shows "promise_kept cd cf objects y sid"
  using assms by (cases "sy_promise y sid") (simp_all add: promise_kept_def)

lemma promise_keptD:
  assumes "promise_kept cd cf objects y sid"
  shows "sy_promise y sid = Holds p \<Longrightarrow> \<exists>payload. dump_json cd p = Inr payload
      \<and> unwritten (sy_store y) sid \<in> {None, Some p}
      \<and> (sends_no_more y sid \<longrightarrow> objects (ss_bucket (sy_store y)) (session_key cf sid) = Some payload)"
    and "sy_promise y sid = Absent \<Longrightarrow> unwritten (sy_store y) sid = None
      \<and> objects (ss_bucket (sy_store y)) (session_key cf sid) = None"
  using assms by (simp_all add: promise_kept_def)

lemma unwritten_None: "unwritten st sid = None \<longleftrightarrow> sid \<notin> fst ` set (ss_pending st) \<and> delete_may_go sid st"
proof (cases "map_of (ss_pending st) sid")
  case None
  then show ?thesis by (auto simp: unwritten_def delete_may_go_def map_of_eq_None_iff split: option.splits)
next
  case (Some p)
  then have "sid \<in> fst ` set (ss_pending st)" by (metis map_of_eq_None_iff option.distinct(1))
  with Some show ?thesis by (simp add: unwritten_def)
qed

lemma session_key_inj [simp]: "session_key cf sid = session_key cf sid' \<longleftrightarrow> sid = sid'"
  by (simp add: session_key_def)

lemma session_key_roundtrip [simp]: "session_id_from_key cf (session_key cf sid) = Some sid"
  by (simp add: session_id_from_key_def session_key_def suffix_def)

definition same_but_bucket :: "('s, 'p) session_store \<Rightarrow> ('s, 'p) session_store \<Rightarrow> bool" where
  "same_but_bucket st st' = (ss_pending st' = ss_pending st \<and> ss_inflight st' = ss_inflight st)"

lemma same_but_bucket_facts:
  assumes "same_but_bucket st st'"
  shows "unwritten st' sid = unwritten st sid" "delete_may_go sid st' = delete_may_go sid st" "store_wf cd st' = store_wf cd st"
  using assms by (simp_all add: same_but_bucket_def unwritten_def delete_may_go_def store_wf_def cong: option.case_cong)

locale session_world =
  fixes cd :: "'p codec"
    and ops :: "'s bucket_ops"
    and cf :: session_config
    and objects :: "'s \<Rightarrow> string \<Rightarrow> string option"
  assumes codec: "dump_json cd p = Inr payload \<Longrightarrow> validate_json cd payload = Inr p"
    and client_law: "s3_client_of ops b = (r, b') \<Longrightarrow> objects b' = objects b"
    and head_law: "head_bucket ops b = (r, b') \<Longrightarrow> objects b' = objects b"
    and create_law: "create_bucket ops where_to b = (r, b') \<Longrightarrow> objects b' = objects b"
    and list_law: "list_pages ops pre b = (pages, b') \<Longrightarrow> objects b' = objects b"
    and put_law: "put_object ops key body b = (r, b') \<Longrightarrow>
      objects b' = (objects b)(key \<mapsto> body) \<or> objects b' = objects b \<and> \<not> is_ok r"
    and get_law: "get_object ops key b = (g, b') \<Longrightarrow>
      objects b' = objects b \<and> (\<forall>payload. g = Inr payload \<longrightarrow> objects b key = Some payload)
        \<and> (\<forall>e. g = Inl e \<longrightarrow> is_absent_error ops e \<longrightarrow> objects b key = None)"
    and delete_law: "delete_object ops key b = (r, b') \<Longrightarrow>
      objects b' = (objects b)(key := None) \<or> objects b' = objects b \<and> \<not> is_ok r"
begin

abbreviation holds_in :: "('s, 'p) session_store \<Rightarrow> string \<Rightarrow> string option" where
  "holds_in st sid \<equiv> objects (ss_bucket st) (session_key cf sid)"

abbreviation quiet :: "('s, 'p) session_store \<Rightarrow> ('s, 'p) session_store \<Rightarrow> bool" where
  "quiet st st' \<equiv> same_but_bucket st st' \<and> objects (ss_bucket st') = objects (ss_bucket st)"

lemma quiet_calls:
  "on_bucket (s3_client_of ops) st = (r, st') \<Longrightarrow> quiet st st'"
  "on_bucket (head_bucket ops) st = (r, st') \<Longrightarrow> quiet st st'"
  "on_bucket (create_bucket ops where_to) st = (r, st') \<Longrightarrow> quiet st st'"
  "on_bucket (get_object ops key) st = (g, st') \<Longrightarrow> quiet st st'"
  using client_law head_law create_law get_law
  by (fastforce simp: on_bucket_def same_but_bucket_def split: prod.splits)+

lemma ensure_keeps:
  assumes "ensure_bucket ops cf st = (r, st')"
  shows "quiet st st'"
  using assms
  by (auto simp: ensure_bucket_def same_but_bucket_def dest!: quiet_calls split: if_splits prod.splits sum.splits)

lemma upload_keeps:
  assumes "upload_body cd ops cf p st = (r, st')"
  shows "same_but_bucket st st'
    \<and> (objects (ss_bucket st') = objects (ss_bucket st) \<and> \<not> is_ok r
       \<or> (\<exists>payload. dump_json cd p = Inr payload
            \<and> objects (ss_bucket st') = (objects (ss_bucket st))(session_key cf (snap_id cd p) \<mapsto> payload)))"
proof (cases "dump_json cd p")
  case (Inl e)
  with assms show ?thesis by (auto simp: upload_body_def same_but_bucket_def)
next
  case (Inr payload)
  obtain x st1 where x: "ensure_bucket ops cf st = (x, st1)" by force
  obtain y st2 where y: "on_bucket (s3_client_of ops) st1 = (y, st2)" by force
  have st1: "same_but_bucket st st1" "objects (ss_bucket st1) = objects (ss_bucket st)"
    using ensure_keeps [OF x] by simp_all
  have st2: "same_but_bucket st st2" "objects (ss_bucket st2) = objects (ss_bucket st)"
    using quiet_calls(1) [OF y] st1 by (simp_all add: same_but_bucket_def)
  show ?thesis
  proof (cases "is_ok x \<and> is_ok y")
    case True
    with Inr x y assms have "on_bucket (put_object ops (session_key cf (snap_id cd p)) payload) st2 = (r, st')"
      by (auto simp: upload_body_def is_ok_iff)
    then obtain b where b: "put_object ops (session_key cf (snap_id cd p)) payload (ss_bucket st2) = (r, b)"
      "st' = st2\<lparr>ss_bucket := b\<rparr>" by (auto simp: on_bucket_def split: prod.splits)
    from put_law [OF b(1)] b(2) st2 Inr show ?thesis by (auto simp: same_but_bucket_def)
  next
    case False
    with Inr x y assms st1 st2 show ?thesis by (auto simp: upload_body_def split: sum.splits)
  qed
qed

lemma delete_keeps:
  assumes "delete_body ops cf sid st = (r, st')"
  shows "same_but_bucket st st' \<and> (objects (ss_bucket st') = (objects (ss_bucket st))(session_key cf sid := None)
    \<or> objects (ss_bucket st') = objects (ss_bucket st) \<and> \<not> is_ok r)"
  using assms delete_law client_law
  by (fastforce simp: delete_body_def on_bucket_def same_but_bucket_def split: prod.splits sum.splits)

lemma load_keeps:
  assumes "session_load cd ops cf background sid st = (r, st')"
  shows "same_but_bucket st st' \<and> objects (ss_bucket st') = objects (ss_bucket st)"
proof -
  have "quiet st st2" if "load_object cd ops cf sid st = (q, st2)" for q st2
    using that by (auto simp: load_object_def same_but_bucket_def dest!: quiet_calls split: prod.splits sum.splits)
  with assms show ?thesis
    by (auto simp: session_load_def same_but_bucket_def split: option.splits sum.splits if_splits)
qed

text \<open>A promise survives a step that changes nothing of its session's, or is voided.\<close>

lemma kept_transfer:
  assumes "promise_kept cd cf objects y sid" "sy_promise z sid = sy_promise y sid"
    and "unwritten (sy_store z) sid = unwritten (sy_store y) sid" "holds_in (sy_store z) sid = holds_in (sy_store y) sid"
    and "sends_no_more z sid \<Longrightarrow> sends_no_more y sid"
  shows "promise_kept cd cf objects z sid"
proof (cases "sy_promise y sid")
  case (Holds p)
  with promise_keptD(1) [OF assms(1) Holds] assms(2-5) show ?thesis by (auto simp: promise_kept_def)
qed (use assms in \<open>simp_all add: promise_kept_def\<close>)

lemma kept_elsewhere:
  assumes "promise_kept cd cf objects y sid" "same_but_bucket (sy_store y) st" "holds_in st sid = holds_in (sy_store y) sid"
    and "sy_sent z = sy_sent y \<or> delete_may_go sid (sy_store y)"
    and "sy_store z = st" "sy_promise z sid = sy_promise y sid"
  shows "promise_kept cd cf objects z sid"
proof (rule kept_transfer [OF assms(1,6)])
  show "sends_no_more z sid \<Longrightarrow> sends_no_more y sid"
    using assms(2,4,5) same_but_bucket_facts [OF assms(2)] by (auto simp: sends_no_more_def same_but_bucket_def)
qed (simp_all add: assms same_but_bucket_facts [OF assms(2)])

lemma inv_quiet:
  assumes "session_inv cd cf objects y" "quiet (sy_store y) st"
  shows "session_inv cd cf objects (y\<lparr>sy_store := st\<rparr>)"
proof -
  have "promise_kept cd cf objects (y\<lparr>sy_store := st\<rparr>) sid" for sid
    by (rule kept_elsewhere [of y sid st]) (use assms in \<open>simp_all add: session_inv_def\<close>)
  moreover have "store_wf cd st" "deletes_wf (y\<lparr>sy_store := st\<rparr>)"
    using assms(1) same_but_bucket_facts [OF conjunct1 [OF assms(2)]] conjunct1 [OF assms(2)]
    by (simp_all add: session_inv_def deletes_wf_def same_but_bucket_def)
  ultimately show ?thesis by (simp add: session_inv_def)
qed

lemma disturbed_kept:
  assumes "promise_kept cd cf objects y sid" "same_but_bucket (sy_store y) st"
    and "holds_in st sid \<in> {None, holds_in (sy_store y) sid} \<or> unwritten (sy_store y) sid \<noteq> None"
    and "sy_store z = st" "sy_promise z sid = promise_disturbed y sid"
  shows "promise_kept cd cf objects z sid"
  using assms same_but_bucket_facts [OF assms(2)]
  by (auto simp: promise_kept_def promise_disturbed_def sends_no_more_def same_but_bucket_def split: promise.splits)

lemma disturbed_Holds: "promise_disturbed y sid = Holds p \<Longrightarrow> sy_promise y sid = Holds p"
  by (auto simp: promise_disturbed_def split: promise.splits if_splits)

lemma deletes_fewer:
  assumes "deletes_wf y" "set (sy_deletes z) \<subseteq> set (sy_deletes y)" "same_but_bucket (sy_store y) (sy_store z)"
    and "\<And>sid p. sy_promise z sid = Holds p \<Longrightarrow> sy_promise y sid = Holds p"
  shows "deletes_wf z"
  unfolding deletes_wf_def
proof
  fix d assume d: "d \<in> set (sy_deletes z)"
  obtain sid ph alone where e: "d = (sid, ph, alone)" by (cases d)
  from d e assms(2) have "(sid, ph, alone) \<in> set (sy_deletes y)" by blast
  with assms(1) have "(\<forall>p. sy_promise y sid \<noteq> Holds p)
      \<and> (alone \<longrightarrow> sid \<notin> fst ` set (ss_pending (sy_store y)) \<and> (ph = Going \<longrightarrow> delete_may_go sid (sy_store y)))"
    unfolding deletes_wf_def by blast
  with assms(3,4) same_but_bucket_facts(2) [OF assms(3)] e
  show "case d of (sid, ph, alone) \<Rightarrow> (\<forall>p. sy_promise z sid \<noteq> Holds p)
      \<and> (alone \<longrightarrow> sid \<notin> fst ` set (ss_pending (sy_store z)) \<and> (ph = Going \<longrightarrow> delete_may_go sid (sy_store z)))"
    by (auto simp: same_but_bucket_def)
qed

lemma inv_saved:
  assumes "session_inv cd cf objects y" "session_save cd ops cf True p (sy_store y) = (Inr (), st)"
  shows "session_inv cd cf objects (y\<lparr>sy_store := st,
      sy_deletes := map (\<lambda>(sid, ph, alone). (sid, ph, alone \<and> sid \<noteq> snap_id cd p)) (sy_deletes y),
      sy_promise := (sy_promise y)(snap_id cd p := promise_saved cd y p)\<rparr>)" (is "session_inv cd cf objects ?z")
proof -
  have st: "ss_pending st = dict_set (snap_id cd p) p (ss_pending (sy_store y))" "ss_inflight st = ss_inflight (sy_store y)"
    "ss_bucket st = ss_bucket (sy_store y)" using assms(2) by (auto simp: session_save_def)
  have wf: "store_wf cd st"
    using assms(1) st by (auto simp: session_inv_def store_wf_def set_dict_set)
  moreover have "deletes_wf ?z"
    using assms(1) st
    by (fastforce simp: session_inv_def deletes_wf_def delete_may_go_def promise_saved_def deleting_def image_iff split: prod.splits option.splits)
  moreover have "promise_kept cd cf objects ?z sid" for sid
  proof (cases "sid = snap_id cd p")
    case True
    have "unwritten st sid = Some p" using st True by (simp add: unwritten_def)
    with st True show ?thesis
      by (auto simp: promise_kept_def promise_saved_def sends_no_more_def split: promise.split sum.splits)
  next
    case False
    show ?thesis
    proof (rule kept_transfer [of y])
      show "unwritten (sy_store ?z) sid = unwritten (sy_store y) sid" using st False by (simp add: unwritten_def split: option.split)
    qed (use False st assms(1) in \<open>simp_all add: session_inv_def sends_no_more_def delete_may_go_def\<close>)
  qed
  ultimately show ?thesis by (simp add: session_inv_def)
qed

lemma inv_taken:
  assumes "session_inv cd cf objects y" "ss_inflight (sy_store y) = None" "writer_take (sy_store y) = Some st"
  shows "session_inv cd cf objects (y\<lparr>sy_store := st, sy_sent := False\<rparr>)" (is "session_inv cd cf objects ?z")
proof -
  from assms(3) obtain sid p rest where st: "ss_pending (sy_store y) = (sid, p) # rest"
    "st = sy_store y\<lparr>ss_pending := rest, ss_inflight := Some (sid, p)\<rparr>"
    by (auto simp: writer_take_def split: list.splits)
  from assms(1) st have new: "sid \<notin> fst ` set rest" by (auto simp: session_inv_def store_wf_def)
  have un: "unwritten st u = unwritten (sy_store y) u" for u
  proof (cases "u = sid")
    case True
    with new have "map_of rest u = None" by (simp add: map_of_eq_None_iff)
    with True st show ?thesis by (simp add: unwritten_def)
  next
    case False
    with st assms(2) show ?thesis by (simp add: unwritten_def split: option.split)
  qed
  have "store_wf cd st" using assms(1) st by (auto simp: session_inv_def store_wf_def)
  moreover have "deletes_wf ?z"
    using assms(1) st by (fastforce simp: session_inv_def deletes_wf_def delete_may_go_def)
  moreover have "promise_kept cd cf objects ?z u" for u
  proof (rule kept_transfer [of y])
    show "sends_no_more ?z u \<Longrightarrow> sends_no_more y u"
      using st assms(2) by (auto simp: sends_no_more_def delete_may_go_def)
  qed (use un st assms(1) in \<open>simp_all add: session_inv_def\<close>)
  ultimately show ?thesis by (simp add: session_inv_def)
qed

lemma inv_uploaded:
  assumes "session_inv cd cf objects y" "ss_inflight (sy_store y) = Some (sid, p)" "upload_body cd ops cf p (sy_store y) = (r, st)"
  shows "session_inv cd cf objects (y\<lparr>sy_store := st, sy_sent := True,
      sy_promise := (if is_ok r then sy_promise y else (sy_promise y)(sid := promise_disturbed y sid))\<rparr>)" (is "session_inv cd cf objects ?z")
proof -
  from assms(1,2) have id: "snap_id cd p = sid" by (simp add: session_inv_def store_wf_def)
  note up = upload_keeps [OF assms(3), unfolded id]
  then have same: "same_but_bucket (sy_store y) st" by simp
  note facts = same_but_bucket_facts [OF same]
  have "deletes_wf ?z"
    by (rule deletes_fewer [of y]) (use assms(1) same in \<open>auto simp: session_inv_def dest: disturbed_Holds split: if_splits\<close>)
  moreover have "promise_kept cd cf objects ?z u" for u
  proof (cases "u = sid")
    case False
    with up assms(2) have "holds_in st u = holds_in (sy_store y) u" "delete_may_go u (sy_store y)"
      by (auto simp: delete_may_go_def)
    note this
    then show ?thesis by - (rule kept_elsewhere [of y u st], use False assms(1) same in \<open>simp_all add: session_inv_def\<close>)
  next
    case True
    have un: "unwritten (sy_store y) sid \<noteq> None" using assms(2) by (simp add: unwritten_None delete_may_go_def)
    show ?thesis
    proof (cases "is_ok r")
      case False
      show ?thesis by (rule disturbed_kept [of y u st]) (use False True un same assms(1) in \<open>simp_all add: session_inv_def\<close>)
    next
      case ok: True
      have un2: "unwritten (sy_store y) sid = Some p" if "sid \<notin> fst ` set (ss_pending (sy_store y))"
        using that assms(2) by (auto simp: unwritten_def map_of_eq_None_iff [symmetric])
      have put: "holds_in st sid = Some payload" if "dump_json cd p = Inr payload" for payload
        using up ok that by auto
      have k: "promise_kept cd cf objects y sid" using assms(1) by (simp add: session_inv_def)
      show ?thesis
      proof (cases "sy_promise y sid")
        case (Holds q)
        with promise_keptD(1) [OF k Holds] obtain payload where q: "dump_json cd q = Inr payload"
          "unwritten (sy_store y) sid \<in> {None, Some q}" by blast
        have "holds_in st sid = Some payload" if "sid \<notin> fst ` set (ss_pending (sy_store y))"
          using q un2 [OF that] put by simp
        with q Holds True ok facts same show ?thesis
          by (simp add: promise_kept_def sends_no_more_def same_but_bucket_def)
      next
        case Absent
        with promise_keptD(2) [OF k] un show ?thesis by simp
      qed (use True ok in \<open>simp add: promise_kept_def\<close>)
    qed
  qed
  ultimately show ?thesis using facts assms(1) by (simp add: session_inv_def)
qed

lemma inv_delete_begun:
  assumes "session_inv cd cf objects y"
  shows "session_inv cd cf objects (y\<lparr>sy_store := delete_begin sid (sy_store y),
      sy_deletes := (sid, Waiting, True) # sy_deletes y, sy_promise := (sy_promise y)(sid := Unknown)\<rparr>)" (is "session_inv cd cf objects ?z")
proof -
  have st: "ss_pending (sy_store ?z) = dict_pop sid (ss_pending (sy_store y))" "ss_inflight (sy_store ?z) = ss_inflight (sy_store y)"
    "ss_bucket (sy_store ?z) = ss_bucket (sy_store y)" by (simp_all add: delete_begin_def)
  have "store_wf cd (sy_store ?z)" using assms st by (auto simp: session_inv_def store_wf_def set_dict_pop)
  moreover have "deletes_wf ?z"
    unfolding deletes_wf_def
  proof
    fix d assume d: "d \<in> set (sy_deletes ?z)"
    obtain u ph alone where e: "d = (u, ph, alone)" by (cases d)
    from d e assms have "(u, ph, alone) = (sid, Waiting, True) \<or> (\<forall>p. sy_promise y u \<noteq> Holds p)
        \<and> (alone \<longrightarrow> u \<notin> fst ` set (ss_pending (sy_store y)) \<and> (ph = Going \<longrightarrow> delete_may_go u (sy_store y)))"
      by (auto simp: session_inv_def deletes_wf_def)
    with st e show "case d of (u, ph, alone) \<Rightarrow> (\<forall>p. sy_promise ?z u \<noteq> Holds p)
        \<and> (alone \<longrightarrow> u \<notin> fst ` set (ss_pending (sy_store ?z)) \<and> (ph = Going \<longrightarrow> delete_may_go u (sy_store ?z)))"
      by (auto simp: set_dict_pop delete_may_go_def)
  qed
  moreover have "promise_kept cd cf objects ?z u" for u
  proof (cases "u = sid")
    case False
    show ?thesis
    proof (rule kept_transfer [of y])
      show "unwritten (sy_store ?z) u = unwritten (sy_store y) u" using st False by (simp add: unwritten_def split: option.split)
      have "u \<in> fst ` set (dict_pop sid (ss_pending (sy_store y))) \<longleftrightarrow> u \<in> fst ` set (ss_pending (sy_store y))"
        using False by (force simp: set_dict_pop)
      with st show "sends_no_more ?z u \<Longrightarrow> sends_no_more y u" by (simp add: sends_no_more_def delete_may_go_def)
    qed (use False st assms in \<open>simp_all add: session_inv_def\<close>)
  qed (simp add: promise_kept_def)
  ultimately show ?thesis by (simp add: session_inv_def)
qed

lemma inv_delete_phase:
  assumes "session_inv cd cf objects y" "sy_deletes y = xs @ (sid, Waiting, alone) # ys"
    and "\<not> alone' \<or> alone \<and> delete_may_go sid (sy_store y)"
  shows "session_inv cd cf objects (y\<lparr>sy_deletes := xs @ (sid, Going, alone') # ys\<rparr>)"
proof -
  have "promise_kept cd cf objects (y\<lparr>sy_deletes := xs @ (sid, Going, alone') # ys\<rparr>) u" for u
    by (rule kept_transfer [of y]) (use assms(1) in \<open>simp_all add: session_inv_def sends_no_more_def\<close>)
  moreover have "deletes_wf (y\<lparr>sy_deletes := xs @ (sid, Going, alone') # ys\<rparr>)"
    using assms by (auto simp: session_inv_def deletes_wf_def)
  ultimately show ?thesis using assms(1) by (simp add: session_inv_def)
qed

lemma inv_delete_sent:
  assumes "session_inv cd cf objects y" "sy_deletes y = xs @ (sid, Going, alone) # ys" "delete_body ops cf sid (sy_store y) = (r, st)"
  shows "session_inv cd cf objects (y\<lparr>sy_store := st, sy_deletes := xs @ ys,
      sy_promise := (sy_promise y)(sid := (if alone \<and> is_ok r then Absent else promise_disturbed y sid))\<rparr>)" (is "session_inv cd cf objects ?z")
proof -
  note del = delete_keeps [OF assms(3)]
  then have same: "same_but_bucket (sy_store y) st" by simp
  note facts = same_but_bucket_facts [OF same]
  from assms(1,2) have unheld: "sy_promise y sid \<noteq> Holds p" for p by (auto simp: session_inv_def deletes_wf_def)
  have "deletes_wf ?z"
    by (rule deletes_fewer [of y])
      (use assms(1,2) same in \<open>auto simp: session_inv_def dest: disturbed_Holds split: if_splits\<close>)
  moreover have "promise_kept cd cf objects ?z u" for u
  proof (cases "u = sid")
    case False
    with del have "holds_in st u = holds_in (sy_store y) u" by auto
    then show ?thesis
      by - (rule kept_elsewhere [of y u st], use False assms(1) same in \<open>simp_all add: session_inv_def\<close>)
  next
    case True
    show ?thesis
    proof (cases "alone \<and> is_ok r")
      case True
      with assms(1,2) have "unwritten (sy_store y) sid = None" by (auto simp: session_inv_def deletes_wf_def unwritten_None)
      with True del facts \<open>u = sid\<close> show ?thesis by (auto simp: promise_kept_def)
    next
      case False
      from del have "holds_in st u \<in> {None, holds_in (sy_store y) u}" by (auto simp: \<open>u = sid\<close>)
      with False \<open>u = sid\<close> show ?thesis
        by - (rule disturbed_kept [of y u st], use assms(1) same in \<open>auto simp: session_inv_def\<close>)
    qed
  qed
  ultimately show ?thesis using facts assms(1) by (simp add: session_inv_def)
qed

lemma inv_pruned:
  assumes "session_inv cd cf objects y" "on_bucket (delete_object ops key) (sy_store y) = (r, st)"
  shows "session_inv cd cf objects (y\<lparr>sy_store := st,
      sy_promise := (\<lambda>sid. if session_key cf sid = key then promise_disturbed y sid else sy_promise y sid)\<rparr>)" (is "session_inv cd cf objects ?z")
proof -
  have same: "same_but_bucket (sy_store y) st"
    and del: "objects (ss_bucket st) = (objects (ss_bucket (sy_store y)))(key := None) \<or> objects (ss_bucket st) = objects (ss_bucket (sy_store y))"
    using assms(2) delete_law by (fastforce simp: on_bucket_def same_but_bucket_def split: prod.splits)+
  note facts = same_but_bucket_facts [OF same]
  have "deletes_wf ?z"
    by (rule deletes_fewer [of y]) (use assms(1) same in \<open>auto simp: session_inv_def dest: disturbed_Holds split: if_splits\<close>)
  moreover have "promise_kept cd cf objects ?z u" for u
  proof (cases "session_key cf u = key")
    case False
    with del have "holds_in st u = holds_in (sy_store y) u" by auto
    then show ?thesis
      by - (rule kept_elsewhere [of y u st], use False assms(1) same in \<open>simp_all add: session_inv_def\<close>)
  next
    case True
    from del have "holds_in st u \<in> {None, holds_in (sy_store y) u}" by auto
    then show ?thesis
      by - (rule disturbed_kept [of y u st], use True assms(1) same in \<open>simp_all add: session_inv_def\<close>)
  qed
  ultimately show ?thesis using facts assms(1) by (simp add: session_inv_def)
qed

lemma inv_step:
  assumes "session_step cd ops cf y z" "session_inv cd cf objects y"
  shows "session_inv cd cf objects z"
  using assms(1)
proof cases
  case (saved p st)
  with inv_saved [OF assms(2)] show ?thesis by blast
next
  case (taken st)
  with inv_taken [OF assms(2)] show ?thesis by blast
next
  case (uploaded sid p r st)
  with inv_uploaded [OF assms(2)] show ?thesis by blast
next
  case finished
  obtain sid p where inf: "ss_inflight (sy_store y) = Some (sid, p)" using finished by force
  have "promise_kept cd cf objects z u" for u
  proof (cases "unwritten (sy_store y) u = unwritten (sy_store z) u")
    case True
    then show ?thesis
      by - (rule kept_transfer [of y],
        use finished assms(2) in \<open>simp_all add: session_inv_def sends_no_more_def writer_finish_def delete_may_go_def\<close>)
  next
    case False
    then have un: "u = sid" "sid \<notin> fst ` set (ss_pending (sy_store y))" "unwritten (sy_store y) sid = Some p"
      using inf finished by (auto simp: unwritten_def writer_finish_def map_of_eq_None_iff [symmetric] split: option.splits if_splits)
    have k: "promise_kept cd cf objects y u" using assms(2) by (simp add: session_inv_def)
    show ?thesis
    proof (cases "sy_promise y u")
      case (Holds q)
      with promise_keptD(1) [OF k Holds] un finished show ?thesis
        by (auto simp: promise_kept_def sends_no_more_def writer_finish_def unwritten_None delete_may_go_def)
    next
      case Absent
      with promise_keptD(2) [OF k] un show ?thesis by simp
    qed (use finished in \<open>simp add: promise_kept_def\<close>)
  qed
  moreover have "store_wf cd (sy_store z)" "deletes_wf z"
    using assms(2) finished by (auto simp: session_inv_def store_wf_def deletes_wf_def writer_finish_def delete_may_go_def)
  ultimately show ?thesis by (simp add: session_inv_def)
next
  case (delete_begun sid)
  with inv_delete_begun [OF assms(2)] show ?thesis by blast
next
  case (delete_woken xs sid alone ys)
  with inv_delete_phase [OF assms(2)] show ?thesis by blast
next
  case (delete_timed_out xs sid alone ys)
  with inv_delete_phase [OF assms(2)] show ?thesis by blast
next
  case (delete_sent xs sid alone ys r st)
  with inv_delete_sent [OF assms(2)] show ?thesis by blast
next
  case (pruned key r st)
  with inv_pruned [OF assms(2)] show ?thesis by blast
next
  case (ensured r st)
  with inv_quiet [OF assms(2) ensure_keeps] show ?thesis by blast
next
  case (loaded sid r st)
  with inv_quiet [OF assms(2) load_keeps] show ?thesis by blast
qed

lemma inv_reachable: "session_reachable cd ops cf y \<Longrightarrow> session_inv cd cf objects y"
proof (induction rule: session_reachable.induct)
  case (boot b)
  then show ?case by (simp add: session_boot_def session_inv_def store_wf_def deletes_wf_def promise_kept_def)
qed (rule inv_step)

lemma load_object_reads:
  assumes "dump_json cd p = Inr payload" "holds_in st sid = Some payload"
  shows "fst (load_object cd ops cf sid st) = Inr (Some p) \<or> cannot_read ops cf sid st"
proof -
  obtain c st1 where c: "on_bucket (s3_client_of ops) st = (c, st1)" by force
  obtain g st2 where g: "on_bucket (get_object ops (session_key cf sid)) st1 = (g, st2)" by force
  have obj: "holds_in st1 sid = Some payload" using quiet_calls(1) [OF c] assms(2) by simp
  obtain b where b: "get_object ops (session_key cf sid) (ss_bucket st1) = (g, b)"
    using g by (auto simp: on_bucket_def split: prod.splits)
  show ?thesis
  proof (cases "is_ok c \<and> is_ok g")
    case True
    then obtain u body where "c = Inr u" "g = Inr body" by (auto simp: is_ok_iff)
    moreover from this get_law [OF b] obj have "body = payload" by simp
    ultimately show ?thesis
      using c g codec [OF assms(1)] by (simp add: load_object_def parsed_or_none_def snapshot_from_payload_def)
  next
    case False
    with c g get_law [OF b] obj show ?thesis by (auto simp: cannot_read_def split: sum.splits)
  qed
qed

lemma load_object_absent:
  assumes "holds_in st sid = None"
  shows "fst (load_object cd ops cf sid st) = Inr None \<or> cannot_read ops cf sid st"
proof -
  obtain c st1 where c: "on_bucket (s3_client_of ops) st = (c, st1)" by force
  obtain g st2 where g: "on_bucket (get_object ops (session_key cf sid)) st1 = (g, st2)" by force
  obtain b where b: "get_object ops (session_key cf sid) (ss_bucket st1) = (g, b)"
    using g by (auto simp: on_bucket_def split: prod.splits)
  from get_law [OF b] quiet_calls(1) [OF c] assms have "\<not> is_ok g" by (auto simp: is_ok_iff)
  with c g show ?thesis by (auto simp: cannot_read_def load_object_def split: sum.splits)
qed

lemma load_held:
  assumes "promise_kept cd cf objects y sid" "sy_promise y sid = Holds p"
  shows "reads_as cd ops cf sid (sy_store y) (Some p)"
    and "all_written (sy_store y) \<Longrightarrow> holds_in (sy_store y) sid = Some payload \<Longrightarrow> dump_json cd p = Inr payload \<Longrightarrow>
      reads_as cd ops cf sid (sy_store (session_boot (ss_bucket (sy_store y)))) (Some p)"
proof -
  from promise_keptD(1) [OF assms] obtain body where body: "dump_json cd p = Inr body"
    "unwritten (sy_store y) sid \<in> {None, Some p}" "sends_no_more y sid \<longrightarrow> holds_in (sy_store y) sid = Some body" by blast
  show "reads_as cd ops cf sid (sy_store y) (Some p)"
  proof (cases "unwritten (sy_store y) sid")
    case None
    then have "sends_no_more y sid" by (simp add: unwritten_None sends_no_more_def)
    with body None load_object_reads [OF body(1)] show ?thesis by (simp add: reads_as_def session_load_def)
  next
    case (Some q)
    with body codec [OF body(1)] show ?thesis by (simp add: reads_as_def session_load_def detached_copy_def)
  qed
next
  assume "holds_in (sy_store y) sid = Some payload" "dump_json cd p = Inr payload"
  then show "reads_as cd ops cf sid (sy_store (session_boot (ss_bucket (sy_store y)))) (Some p)"
    using load_object_reads [of p payload "sy_store (session_boot (ss_bucket (sy_store y)))" sid]
    by (simp add: reads_as_def session_load_def session_boot_def unwritten_def)
qed

lemma promises:
  assumes "session_reachable cd ops cf y"
  shows "sy_promise y sid = Holds p \<Longrightarrow> reads_as cd ops cf sid (sy_store y) (Some p)
      \<and> (all_written (sy_store y) \<longrightarrow> reads_as cd ops cf sid (sy_store (session_boot (ss_bucket (sy_store y)))) (Some p))"
    and "sy_promise y sid = Absent \<Longrightarrow> unwritten (sy_store y) sid = None \<and> reads_as cd ops cf sid (sy_store y) None
      \<and> reads_as cd ops cf sid (sy_store (session_boot (ss_bucket (sy_store y)))) None"
proof -
  have k: "promise_kept cd cf objects y sid" using inv_reachable [OF assms] by (simp add: session_inv_def)
  show "reads_as cd ops cf sid (sy_store y) (Some p)
      \<and> (all_written (sy_store y) \<longrightarrow> reads_as cd ops cf sid (sy_store (session_boot (ss_bucket (sy_store y)))) (Some p))"
    if h: "sy_promise y sid = Holds p"
  proof -
    from promise_keptD(1) [OF k h] obtain body where body: "dump_json cd p = Inr body"
      "sends_no_more y sid \<longrightarrow> holds_in (sy_store y) sid = Some body" by blast
    have "sends_no_more y sid" if "all_written (sy_store y)"
      using that by (simp add: all_written_def sends_no_more_def delete_may_go_def)
    with load_held [OF k h] body show ?thesis by blast
  qed
  assume "sy_promise y sid = Absent"
  from promise_keptD(2) [OF k this] have "unwritten (sy_store y) sid = None" "holds_in (sy_store y) sid = None" by simp_all
  with load_object_absent [of "sy_store y" sid] load_object_absent [of "sy_store (session_boot (ss_bucket (sy_store y)))" sid]
  show "unwritten (sy_store y) sid = None \<and> reads_as cd ops cf sid (sy_store y) None
      \<and> reads_as cd ops cf sid (sy_store (session_boot (ss_bucket (sy_store y)))) None"
    by (simp add: reads_as_def session_load_def session_boot_def unwritten_def)
qed

end

section \<open>A bucket in memory\<close>

text \<open>The objects, and which of the next writes take effect but lose their reply.\<close>

type_synonym memory_bucket = "(string \<Rightarrow> string option) \<times> bool list"

definition bucket_write :: "((string \<Rightarrow> string option) \<Rightarrow> string \<Rightarrow> string option) \<Rightarrow> (memory_bucket, unit) action" where
  "bucket_write f b =
     (case snd b of
        True # lost \<Rightarrow> (Inl (raise_named ''EndpointConnectionError'' ''no reply''), (f (fst b), lost))
      | False # lost \<Rightarrow> (Inr (), (f (fst b), lost))
      | [] \<Rightarrow> (Inr (), (f (fst b), [])))"

definition memory_bucket :: "memory_bucket bucket_ops" where
  "memory_bucket = \<lparr>s3_client_of = (\<lambda>b. (Inr (), b)), head_bucket = (\<lambda>b. (Inr (), b)), create_bucket = (\<lambda>r b. (Inr (), b)),
     put_object = (\<lambda>key body. bucket_write (\<lambda>objs. objs(key \<mapsto> body))),
     get_object = (\<lambda>key b. case fst b key of
        None \<Rightarrow> (Inl (raise_named ''NoSuchKey'' ''NoSuchKey''), b) | Some body \<Rightarrow> (Inr body, b)),
     delete_object = (\<lambda>key. bucket_write (\<lambda>objs. objs(key := None))),
     list_pages = (\<lambda>pre b. (Inr [], b)), error_code = (\<lambda>e. [])\<rparr>"

text \<open>Snapshots that are their own JSON, the id before the first colon.\<close>

definition text_codec :: "string codec" where
  "text_codec = \<lparr>snap_id = takeWhile (\<lambda>c. c \<noteq> CHR '':''), dump_json = Inr, validate_json = Inr, validate_ignoring = Inr\<rparr>"

definition demo_sessions :: session_config where
  "demo_sessions = \<lparr>sf_region = None, sf_prefix = session_prefix ''sessions''\<rparr>"

lemma bucket_write_law: "bucket_write f b = (r, b') \<Longrightarrow> fst b' = f (fst b)"
  by (auto simp: bucket_write_def split: list.splits bool.splits)

interpretation memory_sessions: session_world text_codec memory_bucket demo_sessions fst
proof
  fix key b g b'
  assume "get_object memory_bucket key b = (g, b')"
  then show "fst b' = fst b \<and> (\<forall>payload. g = Inr payload \<longrightarrow> fst b key = Some payload)
      \<and> (\<forall>e. g = Inl e \<longrightarrow> is_absent_error memory_bucket e \<longrightarrow> fst b key = None)"
    by (auto simp: memory_bucket_def split: option.splits)
qed (auto simp: memory_bucket_def text_codec_def dest: bucket_write_law)

section \<open>Properties\<close>


text \<open>A session saved, uploaded and saved again.\<close>

definition demo_at :: "(memory_bucket, string) session_store \<Rightarrow> bool \<Rightarrow> string promise \<Rightarrow> (memory_bucket, string) session_system" where
  "demo_at st sent pr = \<lparr>sy_store = st, sy_sent = sent, sy_deletes = [], sy_promise = (\<lambda>_. Unknown)(''a'' := pr)\<rparr>"

abbreviation demo_step where
  "demo_step \<equiv> session_step text_codec memory_bucket demo_sessions"

definition demo_holding :: "(string \<Rightarrow> string option) \<Rightarrow> bool \<Rightarrow> (string, string) pydict \<Rightarrow> (string \<times> string) option \<Rightarrow>
    (memory_bucket, string) session_store" where
  "demo_holding objs ensured pending inflight =
     \<lparr>ss_bucket = (objs, []), ss_ensured = ensured, ss_pending = pending, ss_inflight = inflight\<rparr>"

abbreviation demo_written :: "string \<Rightarrow> string option" where
  "demo_written \<equiv> [session_key demo_sessions ''a'' \<mapsto> ''a:1'']"

lemmas demo_session_defs = demo_at_def demo_holding_def session_boot_def session_save_def text_codec_def promise_saved_def
  deleting_def writer_take_def writer_finish_def upload_body_def ensure_bucket_def on_bucket_def memory_bucket_def bucket_write_def

lemma demo_saved:
  "demo_step (session_boot (Map.empty, [])) (demo_at (demo_holding Map.empty False [(''a'', ''a:1'')] None) True (Holds ''a:1''))"
  using session_step.saved [of text_codec memory_bucket demo_sessions "''a:1''" "session_boot (Map.empty, [])"]
  by (simp add: demo_session_defs)

lemma demo_taken:
  "demo_step (demo_at (demo_holding Map.empty False [(''a'', ''a:1'')] None) True (Holds ''a:1''))
     (demo_at (demo_holding Map.empty False [] (Some (''a'', ''a:1''))) False (Holds ''a:1''))"
  using session_step.taken [of "demo_at (demo_holding Map.empty False [(''a'', ''a:1'')] None) True (Holds ''a:1'')"
      _ text_codec memory_bucket demo_sessions] by (simp add: demo_session_defs)

lemma demo_sent:
  "demo_step (demo_at (demo_holding Map.empty False [] (Some (''a'', ''a:1''))) False pr)
     (demo_at (demo_holding demo_written True [] (Some (''a'', ''a:1''))) True pr)"
  using session_step.uploaded [of "demo_at (demo_holding Map.empty False [] (Some (''a'', ''a:1''))) False pr"
      "''a''" "''a:1''" text_codec memory_bucket demo_sessions] by (simp add: demo_session_defs)

lemma demo_finished:
  "demo_step (demo_at (demo_holding demo_written True [] (Some (''a'', ''a:1''))) True pr)
     (demo_at (demo_holding demo_written True [] None) True pr)"
  using session_step.finished [of "demo_at (demo_holding demo_written True [] (Some (''a'', ''a:1''))) True pr"
      text_codec memory_bucket demo_sessions] by (simp add: demo_session_defs)

lemma demo_uploaded:
  "session_reachable text_codec memory_bucket demo_sessions (demo_at (demo_holding demo_written True [] None) True (Holds ''a:1''))"
  by (rule session_reachable.move [OF session_reachable.move [OF session_reachable.move [OF session_reachable.move
        [OF session_reachable.boot demo_saved] demo_taken] demo_sent] demo_finished])

text \<open>
  The wait of a delete is bounded: when it times out, the upload under way lands after the DELETE and the
  session is back, so that \<open>Unknown\<close> is all that can be promised there.
\<close>

lemma timed_out_delete_undone:
  "\<exists>y. session_reachable text_codec memory_bucket demo_sessions y \<and> sy_deletes y = [] \<and> all_written (sy_store y)
     \<and> sy_promise y ''a'' = Unknown \<and> fst (ss_bucket (sy_store y)) (session_key demo_sessions ''a'') = Some ''a:1''"
proof -
  let ?y = "demo_at (demo_holding Map.empty False [] (Some (''a'', ''a:1''))) False (Holds ''a:1'')"
  let ?u = "demo_at (demo_holding Map.empty False [] (Some (''a'', ''a:1''))) False Unknown"
  have "session_reachable text_codec memory_bucket demo_sessions ?y"
    by (rule session_reachable.move [OF session_reachable.move [OF session_reachable.boot demo_saved] demo_taken])
  moreover have "demo_step ?y (?u\<lparr>sy_deletes := [(''a'', Waiting, True)]\<rparr>)"
    using session_step.delete_begun [of text_codec memory_bucket demo_sessions ?y "''a''"]
    by (simp add: demo_session_defs delete_begin_def)
  moreover have "demo_step (?u\<lparr>sy_deletes := [(''a'', Waiting, True)]\<rparr>) (?u\<lparr>sy_deletes := [(''a'', Going, False)]\<rparr>)"
    using session_step.delete_timed_out [of "?u\<lparr>sy_deletes := [(''a'', Waiting, True)]\<rparr>" "[]" "''a''" True "[]"
        text_codec memory_bucket demo_sessions] by (simp add: demo_session_defs)
  moreover have "demo_step (?u\<lparr>sy_deletes := [(''a'', Going, False)]\<rparr>) ?u"
    using session_step.delete_sent [of "?u\<lparr>sy_deletes := [(''a'', Going, False)]\<rparr>" "[]" "''a''" False "[]" memory_bucket
        demo_sessions _ _ text_codec]
    by (simp add: demo_session_defs delete_body_def promise_disturbed_def fun_upd_def cong: if_cong)
  ultimately have "session_reachable text_codec memory_bucket demo_sessions ?u" by (blast intro: session_reachable.move)
  then have "session_reachable text_codec memory_bucket demo_sessions (demo_at (demo_holding demo_written True [] None) True Unknown)"
    by (rule session_reachable.move [OF session_reachable.move [OF _ demo_sent] demo_finished])
  then show ?thesis by (intro exI) (auto simp: demo_at_def demo_holding_def all_written_def)
qed


end
