(* ===== verification/TargetFix.thy ===== *)
theory TargetFix
  imports PyString "HOL-Library.List_Lexorder" "HOL-Library.Char_ord"
begin

text \<open>
  Fix target schema, the recovery from a source schema change during CDC (\<^verbatim>\<open>core/cdc_schema_evolve.py\<close>):
  the plan of ADD and RENAME COLUMN statements (\<open>plan_target_fix\<close> with the rename pairing and
  \<open>plan_add_columns\<close>), and its application one statement per connection. The comparison and the mapping of
  types (the converter's) and the quoting of identifiers (sqlglot's) are the arguments of \<open>fix_env\<close>.
\<close>

section \<open>Tables\<close>

record live_column =
  lc_name :: string
  lc_type :: string
  lc_nullable :: bool
  lc_generated :: bool
  lc_position :: int
  lc_charset :: string

record live_table =
  tb_columns :: "live_column list"
  tb_key :: "string list"

text \<open>The Step 1 inventory: the columns with their types, and the primary key.\<close>

record base_table =
  bt_columns :: "(string \<times> string) list"
  bt_key :: "string list"

text \<open>
  The converter's part: \<open>fe_same\<close> compares two catalog type texts, \<open>fe_map_mysql\<close> maps a MySQL type (with a
  warning) or raises a \<open>ValueError\<close>, \<open>fe_unsupported\<close> says why a PostgreSQL type is not supported and
  \<open>fe_clamp\<close> bounds a numeric one.
\<close>

record fix_env =
  fe_postgres :: bool
  fe_same :: "string \<Rightarrow> string \<Rightarrow> bool"
  fe_map_mysql :: "string \<Rightarrow> string + (string \<times> string option)"
  fe_unsupported :: "string \<Rightarrow> string option"
  fe_clamp :: "string \<Rightarrow> string \<times> string option"
  fe_quote :: "string \<Rightarrow> string"

definition TYPE_TEXT_LIMIT :: nat where
  "TYPE_TEXT_LIMIT = 60"

definition cut_type :: "string \<Rightarrow> string" where
  "cut_type t = (if length t \<le> TYPE_TEXT_LIMIT then t else take TYPE_TEXT_LIMIT t @ ''...'')"

definition same_recorded_type :: "fix_env \<Rightarrow> string \<Rightarrow> string \<Rightarrow> bool" where
  "same_recorded_type env recorded live =
     (fe_same env recorded live
      \<or> suffix ''...'' recorded \<and> length recorded = TYPE_TEXT_LIMIT + 3 \<and> cut_type live = recorded)"

text \<open>\<open>str.lower\<close> below U+0100.\<close>

definition py_lower :: "string \<Rightarrow> string" where
  "py_lower = map (\<lambda>c. let n = code c in if 65 \<le> n \<and> n \<le> 90 \<or> 192 \<le> n \<and> n \<le> 222 \<and> n \<noteq> 215 then char_of (n + 32) else c)"

text \<open>\<open>\s*enum\s*\(\<close>, ignoring case, at the start.\<close>

definition is_enum_type :: "string \<Rightarrow> bool" where
  "is_enum_type t =
     (let u = py_lower (dropWhile py_space t)
      in prefix ''enum'' u \<and> prefix ''('' (dropWhile py_space (drop 4 u)))"

definition ADDED_ENUM_WARNING :: string where
  "ADDED_ENUM_WARNING =
     ''Added as text without the CHECK that Schema Conversion gives an ENUM column: Aurora '' @
     ''DSQL's ADD COLUMN takes no constraint, so nothing limits this column to the ENUM's '' @
     ''values yet. To enforce them, run ALTER TABLE ... ADD CONSTRAINT ... CHECK (... IN (...)) '' @
     ''NOT VALID as its own statement once the column exists (NOT VALID is the only form '' @
     ''Aurora DSQL accepts; it still checks every new write). Ordering and comparison are now '' @
     ''TEXT: MySQL sorted an ENUM in declaration order, so any ORDER BY or range predicate on '' @
     ''this column changes.''"

text \<open>\<open>_resolve_target_type\<close>: the target type with its warning, or the reason to skip.\<close>

definition resolve_target_type :: "fix_env \<Rightarrow> string \<Rightarrow> string + (string \<times> string option)" where
  "resolve_target_type env t =
     (if fe_postgres env
      then (case fe_unsupported env t of Some reason \<Rightarrow> Inl reason | None \<Rightarrow> Inr (fe_clamp env t))
      else (case fe_map_mysql env t of
              Inl err \<Rightarrow> Inl (''no Aurora DSQL mapping for this type ('' @ err @ '')'')
            | Inr (ty, warning) \<Rightarrow> if is_enum_type t then Inr (ty, Some ADDED_ENUM_WARNING) else Inr (ty, warning)))"

section \<open>The plan\<close>

datatype evidence = Inventory | Recheck | LetterCase

datatype plan_step =
    AddColumn (step_column: string) string string (step_ddl: string) "string option"
  | RenameColumn (step_column: string) (step_old: string) string (step_ddl: string) evidence

datatype hold_reason = HeldRule | HeldRenamedExcluded | HeldExcludedGone | HeldNameTaken | HeldGenerated | HeldRulesUnknown

record held_column =
  hd_column :: string
  hd_reason :: hold_reason
  hd_old :: "string option"
  hd_rule :: "string option"
  hd_ddl :: "string option"
  hd_others :: "string list"

definition held_as :: "string \<Rightarrow> hold_reason \<Rightarrow> string option \<Rightarrow> held_column" where
  "held_as c reason old = \<lparr>hd_column = c, hd_reason = reason, hd_old = old, hd_rule = None, hd_ddl = None, hd_others = []\<rparr>"

record key_refusal =
  kr_renamed :: "(string \<times> string) list"
  kr_gone :: "string list"
  kr_missing :: "string list"
  kr_before :: "string list"
  kr_after :: "string list"
  kr_rekeyed :: "string list"

record fix_plan =
  fp_table :: string
  fp_steps :: "plan_step list"
  fp_skipped :: "(string \<times> string \<times> string) list"
  fp_held :: "held_column list"
  fp_refusal :: "key_refusal option"
  fp_orphans :: "string list"

definition empty_plan :: "string \<Rightarrow> fix_plan" where
  "empty_plan t = \<lparr>fp_table = t, fp_steps = [], fp_skipped = [], fp_held = [], fp_refusal = None, fp_orphans = []\<rparr>"

definition is_empty_plan :: "fix_plan \<Rightarrow> bool" where
  "is_empty_plan p = (fp_steps p = [])"

definition ddl_text :: "fix_plan \<Rightarrow> string" where
  "ddl_text p = join_with [CHR 0x0A] (map step_ddl (fp_steps p))"

definition offers_fix :: "fix_plan \<Rightarrow> bool" where
  "offers_fix p = (fp_refusal p = None
     \<and> (fp_steps p \<noteq> [] \<or> fp_skipped p \<noteq> [] \<or> (\<exists>h \<in> set (fp_held p). hd_reason h \<noteq> HeldGenerated)))"

definition quote_qualified :: "fix_env \<Rightarrow> string \<Rightarrow> string" where
  "quote_qualified env t =
     (if CHR ''.'' \<in> set t
      then fe_quote env (takeWhile (\<lambda>c. c \<noteq> CHR ''.'') t) @ ''.'' @ fe_quote env (tl (dropWhile (\<lambda>c. c \<noteq> CHR ''.'') t))
      else fe_quote env t)"

definition add_ddl :: "fix_env \<Rightarrow> string \<Rightarrow> string \<Rightarrow> string \<Rightarrow> string" where
  "add_ddl env t c ty = ''ALTER TABLE '' @ quote_qualified env t @ '' ADD COLUMN '' @ fe_quote env c @ '' '' @ ty"

definition rename_ddl :: "fix_env \<Rightarrow> string \<Rightarrow> string \<Rightarrow> string \<Rightarrow> string" where
  "rename_ddl env t old new =
     ''ALTER TABLE '' @ quote_qualified env t @ '' RENAME COLUMN '' @ fe_quote env old @ '' TO '' @ fe_quote env new"

text \<open>\<open>plan_add_columns\<close>: the steps and the skipped columns, in the source's order.\<close>

fun add_columns :: "fix_env \<Rightarrow> string \<Rightarrow> (string \<times> string) list \<Rightarrow> string set \<Rightarrow>
    plan_step list \<times> (string \<times> string \<times> string) list" where
  "add_columns env t [] have_cols = ([], [])"
| "add_columns env t ((c, ty) # cs) have_cols =
     (let (steps, skipped) = add_columns env t cs have_cols
      in if c \<in> have_cols then (steps, skipped)
         else case resolve_target_type env ty of
                Inl reason \<Rightarrow> (steps, (c, ty, if reason = [] then ''no Aurora DSQL mapping for this type'' else reason) # skipped)
              | Inr (target_type, warning) \<Rightarrow> (AddColumn c ty target_type (add_ddl env t c target_type) warning # steps, skipped))"

definition plan_add_columns :: "fix_env \<Rightarrow> string \<Rightarrow> (string \<times> string) list \<Rightarrow> string list \<Rightarrow> fix_plan" where
  "plan_add_columns env t source target =
     (let (steps, skipped) = add_columns env t source (set target)
      in (empty_plan t)\<lparr>fp_steps := steps, fp_skipped := skipped\<rparr>)"

section \<open>Pairing the renames\<close>

text \<open>New name to old name and evidence; the old names are those used. The lookup keeps the last column of a name.\<close>

type_synonym pairing = "(string, string \<times> evidence) pydict"

definition live_named :: "live_column list \<Rightarrow> string \<Rightarrow> live_column option" where
  "live_named cols = map_of (rev (map (\<lambda>c. (lc_name c, c)) cols))"

definition used_olds :: "pairing \<Rightarrow> string set" where
  "used_olds ps = (fst \<circ> snd) ` set ps"

definition pair_baseline :: "fix_env \<Rightarrow> live_column list \<Rightarrow> (string \<times> string) list \<Rightarrow> nat \<times> string \<times> string \<Rightarrow> pairing \<Rightarrow> pairing" where
  "pair_baseline env cols base = (\<lambda>(i, b, ty) ps.
     if live_named cols b \<noteq> None \<or> b \<in> used_olds ps \<or> length cols \<le> i then ps
     else let c = cols ! i
          in if lc_name c \<notin> fst ` set base \<and> lc_name c \<notin> fst ` set ps \<and> fe_same env ty (lc_type c)
             then dict_set (lc_name c) (b, Inventory) ps else ps)"

definition pair_seen :: "fix_env \<Rightarrow> live_column list \<Rightarrow> string \<times> string \<times> string \<Rightarrow> pairing \<Rightarrow> pairing" where
  "pair_seen env cols = (\<lambda>(old, new, before) ps.
     if old = [] \<or> new = [] \<or> new \<in> fst ` set ps \<or> old \<in> used_olds ps then ps
     else case live_named cols new of
            None \<Rightarrow> ps
          | Some c \<Rightarrow>
              if live_named cols old \<noteq> None \<or> \<not> same_recorded_type env before (lc_type c) then ps
              else dict_set new (old, Recheck) ps)"

definition pair_case :: "live_column list \<Rightarrow> string list \<Rightarrow> live_column \<Rightarrow> pairing \<Rightarrow> pairing" where
  "pair_case cols target c ps =
     (if lc_name c \<in> set target \<or> lc_name c \<in> fst ` set ps then ps
      else case filter (\<lambda>t. live_named cols t = None \<and> t \<notin> used_olds ps \<and> t \<noteq> lc_name c \<and> py_lower t = py_lower (lc_name c)) target of
             [t] \<Rightarrow> dict_set (lc_name c) (t, LetterCase) ps
           | _ \<Rightarrow> ps)"

definition pair_renames :: "fix_env \<Rightarrow> live_column list \<Rightarrow> string list \<Rightarrow> base_table option \<Rightarrow> (string \<times> string \<times> string) list \<Rightarrow> pairing" where
  "pair_renames env cols target baseline seen =
     (let ps1 = (case baseline of None \<Rightarrow> []
            | Some b \<Rightarrow> fold (pair_baseline env cols (bt_columns b)) (enumerate 0 (bt_columns b)) []);
          ps2 = fold (pair_seen env cols) seen ps1
      in fold (pair_case cols target) cols ps2)"

section \<open>Planning\<close>

text \<open>What the caller knows besides the live table and the target's columns.\<close>

record fix_request =
  rq_table :: string
  rq_live :: live_table
  rq_target :: "string list"
  rq_baseline :: "base_table option"
  rq_seen :: "(string \<times> string \<times> string) list"
  rq_record_key :: "string list"
  rq_rekey :: "string list"
  rq_excluded :: "string list"
  rq_rules :: "(string, string option) pydict option"

definition live_cols :: "fix_request \<Rightarrow> live_column list" where
  "live_cols q = sort_key lc_position (tb_columns (rq_live q))"

definition rank_in :: "live_column list \<Rightarrow> string \<Rightarrow> nat" where
  "rank_in cols n =
     (case map_of (rev (map (\<lambda>(i, c). (lc_name c, i)) (enumerate 0 cols))) n of
        Some i \<Rightarrow> i | None \<Rightarrow> length (remdups (map lc_name cols)))"

definition pairs_of :: "fix_env \<Rightarrow> fix_request \<Rightarrow> pairing" where
  "pairs_of env q = pair_renames env (live_cols q) (rq_target q) (rq_baseline q) (rq_seen q)"

definition ordered_pairs :: "fix_env \<Rightarrow> fix_request \<Rightarrow> pairing" where
  "ordered_pairs env q = sort_key (\<lambda>(new, old, ev). rank_in (live_cols q) new) (pairs_of env q)"

definition base_key :: "fix_request \<Rightarrow> string list" where
  "base_key q = (case rq_baseline q of None \<Rightarrow> [] | Some b \<Rightarrow> bt_key b)"

definition key_names :: "fix_request \<Rightarrow> string list" where
  "key_names q = base_key q @ tb_key (rq_live q) @ rq_record_key q @ rq_rekey q"

definition is_live :: "fix_request \<Rightarrow> string \<Rightarrow> bool" where
  "is_live q n = (n \<in> lc_name ` set (live_cols q))"

text \<open>A record-key column that changed on the source refuses the table.\<close>

definition refusal_of :: "fix_env \<Rightarrow> fix_request \<Rightarrow> key_refusal option" where
  "refusal_of env q =
     (let ordered = ordered_pairs env q; keys = set (key_names q); live_pk = tb_key (rq_live q);
          renamed = map (\<lambda>(new, old, ev). (old, new)) (filter (\<lambda>(new, old, ev). old \<in> keys \<or> new \<in> keys) ordered);
          olds = fst ` set renamed; news = snd ` set renamed;
          gone = sort (remdups (filter (\<lambda>k. \<not> is_live q k \<and> k \<notin> olds) (key_names q)));
          missing = map lc_name (filter (\<lambda>c. lc_name c \<in> set live_pk \<and> lc_name c \<notin> set (rq_target q) \<and> lc_name c \<notin> news) (live_cols q));
          changed = (rq_baseline q \<noteq> None \<and> set (base_key q) \<noteq> set live_pk)
      in if renamed \<noteq> [] \<or> gone \<noteq> [] \<or> missing \<noteq> [] \<or> changed
         then Some \<lparr>kr_renamed = renamed, kr_gone = gone, kr_missing = missing,
                kr_before = (if changed then base_key q else []),
                kr_after = (if changed then sort_key (rank_in (live_cols q)) (sort (remdups live_pk)) else []),
                kr_rekeyed = sort (remdups (filter (\<lambda>k. k \<in> set gone \<or> k \<in> olds) (rq_rekey q)))\<rparr>
         else None)"

definition by_position :: "fix_request \<Rightarrow> held_column list \<Rightarrow> held_column list" where
  "by_position q = sort_key (\<lambda>h. rank_in (live_cols q) (hd_column h))"

definition unknown_rules :: "fix_env \<Rightarrow> fix_request \<Rightarrow> held_column list" where
  "unknown_rules env q =
     map (\<lambda>(new, old, ev). held_as new HeldRulesUnknown (Some old))
       (filter (\<lambda>(new, old, ev). new \<notin> set (rq_target q)) (ordered_pairs env q)) @
     map (\<lambda>c. held_as (lc_name c) HeldRulesUnknown None)
       (filter (\<lambda>c. lc_name c \<notin> fst ` set (pairs_of env q) \<and> lc_name c \<notin> set (rq_target q)
          \<and> lc_name c \<notin> set (rq_excluded q)) (live_cols q))"

text \<open>What becomes of a rename, and of another column the target lacks.\<close>

datatype verdict = Leave | Hold held_column | Rename plan_step | Candidate string

definition rename_verdict :: "fix_env \<Rightarrow> fix_request \<Rightarrow> (string, string option) pydict \<Rightarrow> string \<times> string \<times> evidence \<Rightarrow> verdict" where
  "rename_verdict env q rules = (\<lambda>(new, old, ev).
     let target = set (rq_target q); excl = set (rq_excluded q)
     in if new \<in> target
        then (if old \<in> target \<and> old \<notin> excl \<and> new \<notin> excl then Hold (held_as new HeldNameTaken (Some old)) else Leave)
        else if old \<in> excl \<or> new \<in> excl then Hold (held_as new HeldRenamedExcluded (Some old))
        else case map_of rules new of
               Some rule \<Rightarrow> Hold ((held_as new HeldRule (Some old))\<lparr>hd_rule := rule\<rparr>)
             | None \<Rightarrow>
                 if old \<in> target
                 then Rename (RenameColumn new old
                        (case live_named (live_cols q) new of Some c \<Rightarrow> lc_type c | None \<Rightarrow> [])
                        (rename_ddl env (rq_table q) old new) ev)
                 else Candidate new)"

definition column_verdict :: "fix_env \<Rightarrow> fix_request \<Rightarrow> (string, string option) pydict \<Rightarrow> live_column \<Rightarrow> verdict" where
  "column_verdict env q rules c =
     (let n = lc_name c
      in if n \<in> fst ` set (pairs_of env q) \<or> n \<in> set (rq_target q) \<or> n \<in> set (rq_excluded q) then Leave
         else case map_of rules n of
                Some rule \<Rightarrow>
                  if \<not> (fe_postgres env \<and> lc_generated c) then Hold ((held_as n HeldRule None)\<lparr>hd_rule := rule\<rparr>) else Candidate n
              | None \<Rightarrow> Candidate n)"

definition verdicts :: "fix_env \<Rightarrow> fix_request \<Rightarrow> (string, string option) pydict \<Rightarrow> verdict list" where
  "verdicts env q rules =
     map (rename_verdict env q rules) (ordered_pairs env q) @ map (column_verdict env q rules) (live_cols q)"

definition held_in :: "verdict list \<Rightarrow> held_column list" where
  "held_in vs = List.map_filter (\<lambda>v. case v of Hold h \<Rightarrow> Some h | _ \<Rightarrow> None) vs"

definition renames_in :: "verdict list \<Rightarrow> plan_step list" where
  "renames_in vs = List.map_filter (\<lambda>v. case v of Rename st \<Rightarrow> Some st | _ \<Rightarrow> None) vs"

definition candidates_in :: "fix_request \<Rightarrow> verdict list \<Rightarrow> string list" where
  "candidates_in q vs = sort_key (rank_in (live_cols q)) (List.map_filter (\<lambda>v. case v of Candidate n \<Rightarrow> Some n | _ \<Rightarrow> None) vs)"

definition is_generated_column :: "fix_request \<Rightarrow> string \<Rightarrow> bool" where
  "is_generated_column q n = (case live_named (live_cols q) n of Some c \<Rightarrow> lc_generated c | None \<Rightarrow> False)"

definition type_of_column :: "fix_request \<Rightarrow> string \<Rightarrow> string" where
  "type_of_column q n = (case live_named (live_cols q) n of Some c \<Rightarrow> lc_type c | None \<Rightarrow> [])"

definition planned_adds :: "fix_env \<Rightarrow> fix_request \<Rightarrow> verdict list \<Rightarrow> fix_plan" where
  "planned_adds env q vs =
     plan_add_columns env (rq_table q)
       (map (\<lambda>n. (n, type_of_column q n)) (filter (\<lambda>n. \<not> is_generated_column q n) (candidates_in q vs))) (rq_target q)"

definition gone_excluded :: "fix_env \<Rightarrow> fix_request \<Rightarrow> string list" where
  "gone_excluded env q =
     sort (remdups (filter (\<lambda>e. \<not> is_live q e \<and> e \<notin> used_olds (pairs_of env q)) (rq_excluded q)))"

definition orphans_of :: "fix_env \<Rightarrow> fix_request \<Rightarrow> string list" where
  "orphans_of env q =
     filter (\<lambda>t. \<not> is_live q t \<and> t \<notin> used_olds (pairs_of env q) \<and> t \<notin> set (rq_excluded q) \<and> t \<notin> set (key_names q)) (rq_target q)"

definition plan_with_rules :: "fix_env \<Rightarrow> fix_request \<Rightarrow> (string, string option) pydict \<Rightarrow> fix_plan" where
  "plan_with_rules env q rules =
     (let vs = verdicts env q rules;
          generated = filter (is_generated_column q) (candidates_in q vs);
          sub = planned_adds env q vs;
          gone = gone_excluded env q;
          withheld = (gone \<noteq> [] \<and> fp_steps sub \<noteq> []);
          adds = (if withheld then [] else fp_steps sub);
          held = held_in vs @ map (\<lambda>n. held_as n HeldGenerated None) generated @
            (if withheld
             then map (\<lambda>st. (held_as (step_column st) HeldExcludedGone None)\<lparr>hd_ddl := Some (step_ddl st), hd_others := gone\<rparr>) (fp_steps sub)
             else [])
      in \<lparr>fp_table = rq_table q, fp_steps = sort_key (\<lambda>st. rank_in (live_cols q) (step_column st)) (renames_in vs @ adds),
          fp_skipped = fp_skipped sub, fp_held = by_position q held, fp_refusal = None,
          fp_orphans = (if adds = [] then [] else orphans_of env q)\<rparr>)"

definition plan_target_fix :: "fix_env \<Rightarrow> fix_request \<Rightarrow> fix_plan" where
  "plan_target_fix env q =
     (case refusal_of env q of
        Some refusal \<Rightarrow> (empty_plan (rq_table q))\<lparr>fp_refusal := Some refusal\<rparr>
      | None \<Rightarrow>
          (case rq_rules q of
             None \<Rightarrow> (empty_plan (rq_table q))\<lparr>fp_held := by_position q (unknown_rules env q)\<rparr>
           | Some rules \<Rightarrow> plan_with_rules env q rules))"

section \<open>Applying a plan\<close>

text \<open>A connection per statement: \<open>ft_execute\<close> sends the step's text.\<close>

record 's fix_target =
  ft_connect :: "('s, unit) action"
  ft_execute :: "plan_step \<Rightarrow> ('s, unit) action"
  ft_close :: "'s \<Rightarrow> 's"

record step_outcome =
  so_column :: string
  so_ddl :: string
  so_applied :: bool
  so_error :: "string option"

definition applied_step :: "plan_step \<Rightarrow> step_outcome" where
  "applied_step st = \<lparr>so_column = step_column st, so_ddl = step_ddl st, so_applied = True, so_error = None\<rparr>"

definition failed_step :: "plan_step \<Rightarrow> pyexc \<Rightarrow> step_outcome" where
  "failed_step st e = \<lparr>so_column = step_column st, so_ddl = step_ddl st, so_applied = False, so_error = Some (message e)\<rparr>"

fun apply_steps :: "'s fix_target \<Rightarrow> plan_step list \<Rightarrow> ('s, step_outcome list) action" where
  "apply_steps ops [] s = (Inr [], s)"
| "apply_steps ops (st # sts) s =
     (case ft_connect ops s of
        (Inl e, s1) \<Rightarrow> (if is_exception e then Inr [failed_step st e] else Inl e, s1)
      | (Inr u, s1) \<Rightarrow>
          (case ft_execute ops st s1 of
             (Inl e, s2) \<Rightarrow> (if is_exception e then Inr [failed_step st e] else Inl e, ft_close ops s2)
           | (Inr u, s2) \<Rightarrow>
               (case apply_steps ops sts (ft_close ops s2) of
                  (Inl e, s3) \<Rightarrow> (Inl e, s3)
                | (Inr outcomes, s3) \<Rightarrow> (Inr (applied_step st # outcomes), s3))))"

definition apply_add_columns :: "'s fix_target \<Rightarrow> fix_plan \<Rightarrow> ('s, step_outcome list) action" where
  "apply_add_columns ops p = apply_steps ops (fp_steps p)"

text \<open>The target's columns with their contents, in order; an added column is empty.\<close>

definition after_step :: "'v \<Rightarrow> plan_step \<Rightarrow> (string \<times> 'v) list \<Rightarrow> (string \<times> 'v) list" where
  "after_step blank st cs =
     (case st of
        AddColumn c ty target_type ddl w \<Rightarrow> cs @ [(c, blank)]
      | RenameColumn new old ty ddl ev \<Rightarrow> map (\<lambda>(n, v). (if n = old then new else n, v)) cs)"

locale fix_target_laws =
  fixes ops :: "'s fix_target"
    and tcols :: "'s \<Rightarrow> (string \<times> 'v) list"
    and blank :: 'v
  assumes connect_law: "ft_connect ops s = (r, s') \<Longrightarrow> tcols s' = tcols s"
    and close_law: "tcols (ft_close ops s) = tcols s"
    and execute_law: "ft_execute ops st s = (r, s') \<Longrightarrow>
      tcols s' = after_step blank st (tcols s) \<or> tcols s' = tcols s \<and> \<not> is_ok r"
begin

text \<open>What is reported applied is applied, in order; at most one more statement took effect.\<close>

lemma apply_prefix:
  assumes "apply_steps ops sts s = (r, s')"
  shows "\<exists>k \<le> length sts. tcols s' = fold (after_step blank) (take k sts) (tcols s)
    \<and> (\<forall>outs. r = Inr outs \<longrightarrow> (\<exists>a \<le> k. k \<le> Suc a \<and> take a outs = map applied_step (take a sts)
         \<and> (if a = length sts then outs = take a outs else \<exists>e. outs = take a outs @ [failed_step (sts ! a) e])))"
  using assms
proof (induction sts arbitrary: s r s')
  case Nil
  then show ?case by auto
next
  case (Cons st sts)
  obtain c s1 where c: "ft_connect ops s = (c, s1)" by force
  have s1: "tcols s1 = tcols s" by (rule connect_law [OF c])
  show ?case
  proof (cases c)
    case (Inl e)
    with Cons.prems c s1 show ?thesis by (intro exI [of _ 0]) (auto split: if_splits)
  next
    case (Inr u)
    obtain x s2 where x: "ft_execute ops st s1 = (x, s2)" by force
    show ?thesis
    proof (cases x)
      case (Inl e)
      with Cons.prems c Inr x have r: "r = (if is_exception e then Inr [failed_step st e] else Inl e)" "s' = ft_close ops s2" by auto
      define k :: nat where "k = (if tcols s2 = tcols s then 0 else 1)"
      have "tcols s' = fold (after_step blank) (take k (st # sts)) (tcols s)"
        using execute_law [OF x] s1 r(2) close_law by (auto simp: k_def)
      then show ?thesis using r(1) by (intro exI [of _ k]) (auto simp: k_def intro!: exI [of _ 0])
    next
      case ok: (Inr u2)
      obtain q s3 where q: "apply_steps ops sts (ft_close ops s2) = (q, s3)" by force
      from execute_law [OF x] ok s1 close_law have now: "tcols (ft_close ops s2) = after_step blank st (tcols s)" by simp
      from Cons.IH [OF q] obtain k where k: "k \<le> length sts"
        "tcols s3 = fold (after_step blank) (take k sts) (after_step blank st (tcols s))"
        "\<forall>outs. q = Inr outs \<longrightarrow> (\<exists>a \<le> k. k \<le> Suc a \<and> take a outs = map applied_step (take a sts)
          \<and> (if a = length sts then outs = take a outs else \<exists>e. outs = take a outs @ [failed_step (sts ! a) e]))"
        unfolding now by blast
      have r: "r = map_sum id (Cons (applied_step st)) q" "s' = s3"
        using Cons.prems c Inr x ok q by (cases q; auto)+
      show ?thesis
      proof (rule exI [of _ "Suc k"], intro conjI allI impI)
        fix outs assume "r = Inr outs"
        with r obtain os where os: "q = Inr os" "outs = applied_step st # os" by (cases q) auto
        with k(3) obtain a where "a \<le> k" "k \<le> Suc a" "take a os = map applied_step (take a sts)"
          "if a = length sts then os = take a os else \<exists>e. os = take a os @ [failed_step (sts ! a) e]" by blast
        then show "\<exists>a \<le> Suc k. Suc k \<le> Suc a \<and> take a outs = map applied_step (take a (st # sts))
            \<and> (if a = length (st # sts) then outs = take a outs else \<exists>e. outs = take a outs @ [failed_step ((st # sts) ! a) e])"
          using os by - (rule exI [of _ "Suc a"], auto split: if_splits)
      qed (use k r in simp_all)
    qed
  qed
qed

end

section \<open>What a sequence of steps does\<close>

text \<open>Renames take columns the source does not have; no step's column is on the target or named twice.\<close>

definition old_names :: "plan_step list \<Rightarrow> string list" where
  "old_names sts = List.map_filter (\<lambda>st. case st of RenameColumn new old ty ddl ev \<Rightarrow> Some old | _ \<Rightarrow> None) sts"

definition steps_ok :: "string set \<Rightarrow> plan_step list \<Rightarrow> bool" where
  "steps_ok names sts = (distinct (map step_column sts) \<and> distinct (old_names sts)
     \<and> (\<forall>st \<in> set sts. step_column st \<notin> names) \<and> set (old_names sts) \<inter> step_column ` set sts = {})"

definition name_after :: "plan_step list \<Rightarrow> string \<Rightarrow> string" where
  "name_after sts n = fold (\<lambda>st m. case st of RenameColumn new old ty ddl ev \<Rightarrow> if m = old then new else m | _ \<Rightarrow> m) sts n"

definition added_by :: "'v \<Rightarrow> plan_step list \<Rightarrow> (string \<times> 'v) list" where
  "added_by blank sts = List.map_filter (\<lambda>st. case st of AddColumn c ty tt ddl w \<Rightarrow> Some (c, blank) | _ \<Rightarrow> None) sts"

lemma mem_map_filter [simp]: "y \<in> set (List.map_filter f xs) \<longleftrightarrow> (\<exists>x \<in> set xs. f x = Some y)"
  by (force simp: List.map_filter_def)

lemma map_filter_snoc: "List.map_filter f (xs @ [x]) = List.map_filter f xs @ (case f x of None \<Rightarrow> [] | Some y \<Rightarrow> [y])"
  by (auto simp: List.map_filter_def split: option.split)

lemma step_snocs:
  "old_names (sts @ [AddColumn c ty tt ddl w]) = old_names sts"
  "old_names (sts @ [RenameColumn new old ty ddl ev]) = old_names sts @ [old]"
  "name_after (sts @ [AddColumn c ty tt ddl w]) n = name_after sts n"
  "name_after (sts @ [RenameColumn new old ty ddl ev]) n = (if name_after sts n = old then new else name_after sts n)"
  "added_by blank (sts @ [AddColumn c ty tt ddl w]) = added_by blank sts @ [(c, blank)]"
  "added_by blank (sts @ [RenameColumn new old ty ddl ev]) = added_by blank sts"
  by (simp_all add: old_names_def name_after_def added_by_def map_filter_snoc)

lemma step_nils [simp]: "old_names [] = []" "name_after [] n = n" "added_by blank [] = []"
  by (simp_all add: old_names_def name_after_def added_by_def List.map_filter_def)

lemma mem_old_names: "old \<in> set (old_names sts) \<longleftrightarrow> (\<exists>new ty ddl ev. RenameColumn new old ty ddl ev \<in> set sts)"
proof (induction sts rule: rev_induct)
  case (snoc st sts)
  then show ?case by (cases st) (auto simp: step_snocs)
qed simp

lemma steps_ok_snoc:
  assumes "steps_ok names (sts @ [st])"
  shows "steps_ok names sts" "step_column st \<notin> names" "step_column st \<notin> step_column ` set sts"
    "st = RenameColumn new old ty ddl ev \<Longrightarrow> old \<notin> step_column ` set sts \<and> old \<notin> set (old_names sts)"
  using assms by (cases st; auto simp: steps_ok_def step_snocs)+

lemma added_columns: "(n, v) \<in> set (added_by blank sts) \<longleftrightarrow> v = blank \<and> (\<exists>ty tt ddl w. AddColumn n ty tt ddl w \<in> set sts)"
proof (induction sts rule: rev_induct)
  case (snoc st sts)
  then show ?case by (cases st) (auto simp: step_snocs)
qed simp

lemma after_step_simps [simp]:
  "after_step blank (AddColumn c ty tt ddl w) cs = cs @ [(c, blank)]"
  "after_step blank (RenameColumn new old ty ddl ev) cs = map (\<lambda>(n, v). (if n = old then new else n, v)) cs"
  by (simp_all add: after_step_def)

text \<open>A column is renamed at most once, by the step that names it.\<close>

lemma name_after_cases:
  "steps_ok names sts \<Longrightarrow> name_after sts n = n \<and> n \<notin> set (old_names sts)
    \<or> (\<exists>new ty ddl ev. RenameColumn new n ty ddl ev \<in> set sts \<and> name_after sts n = new)"
proof (induction sts rule: rev_induct)
  case (snoc st sts)
  note ok = steps_ok_snoc [OF snoc.prems]
  from snoc.IH [OF ok(1)] show ?case
  proof (elim disjE exE conjE)
    assume same: "name_after sts n = n" "n \<notin> set (old_names sts)"
    then show ?thesis by (cases st) (auto simp: step_snocs)
  next
    fix new ty ddl ev
    assume r: "RenameColumn new n ty ddl ev \<in> set sts" "name_after sts n = new"
    then have "new \<in> step_column ` set sts" by force
    with ok(4) r show ?thesis by (cases st) (auto simp: step_snocs)
  qed
qed simp

lemma name_after_column:
  assumes "steps_ok names sts"
  shows "name_after sts n \<in> insert n (step_column ` set sts)"
  using name_after_cases [OF assms, of n]
proof (elim disjE exE conjE)
  fix new ty ddl ev
  assume r: "RenameColumn new n ty ddl ev \<in> set sts" "name_after sts n = new"
  from imageI [OF r(1), of step_column] r(2) show ?thesis by simp
qed simp

lemma name_after_renamed:
  assumes "steps_ok names sts" "RenameColumn new n ty ddl ev \<in> set sts"
  shows "name_after sts n = new"
proof -
  from assms(2) have "n \<in> set (old_names sts)" by (auto simp: mem_old_names)
  with name_after_cases [OF assms(1), of n] obtain new' ty' ddl' ev' where
    r: "RenameColumn new' n ty' ddl' ev' \<in> set sts" "name_after sts n = new'" by blast
  have "distinct (old_names sts)" using assms(1) by (simp add: steps_ok_def)
  moreover have "distinct (old_names sts) \<Longrightarrow> RenameColumn new n ty ddl ev \<in> set sts \<Longrightarrow>
      RenameColumn new' n ty' ddl' ev' \<in> set sts \<Longrightarrow> new = new'" for sts
  proof (induction sts rule: rev_induct)
    case (snoc st sts)
    have "n \<notin> set (old_names sts)" if "st = RenameColumn m n u d e" for m u d e
      using snoc.prems(1) that by (simp add: step_snocs)
    moreover have "distinct (old_names sts)" using snoc.prems(1) by (cases st) (simp_all add: step_snocs)
    ultimately show ?case using snoc.prems(2,3) snoc.IH by (cases st) (auto simp: mem_old_names)
  qed simp
  ultimately show ?thesis using assms(2) r by blast
qed

text \<open>Renames act on the columns that were there, adds come after them, blank.\<close>

lemma steps_effect:
  "steps_ok names sts \<Longrightarrow> fold (after_step blank) sts cs = map (\<lambda>(n, v). (name_after sts n, v)) cs @ added_by blank sts"
proof (induction sts rule: rev_induct)
  case Nil
  then show ?case by (simp add: case_prod_unfold)
next
  case (snoc st sts)
  note ok = steps_ok_snoc [OF snoc.prems]
  show ?case
  proof (cases st)
    case (AddColumn c ty tt ddl w)
    then show ?thesis by (simp add: snoc.IH [OF ok(1)] step_snocs)
  next
    case (RenameColumn new old ty ddl ev)
    with ok(4) have "\<forall>(n, v) \<in> set (added_by blank sts). n \<noteq> old" by (force simp: added_columns)
    then have "map (\<lambda>(n, v). (if n = old then new else n, v)) (added_by blank sts) = added_by blank sts"
      by (intro map_idI) auto
    with RenameColumn show ?thesis by (simp add: snoc.IH [OF ok(1)] step_snocs case_prod_unfold)
  qed
qed

lemma steps_ok_take: "steps_ok names sts \<Longrightarrow> steps_ok names (take k sts)"
proof (induction sts rule: rev_induct)
  case (snoc st sts)
  with steps_ok_snoc(1) [OF snoc.prems] show ?case by (cases "k \<le> length sts") simp_all
qed simp

text \<open>No name is on the target twice afterwards.\<close>

lemma steps_distinct:
  assumes "steps_ok (fst ` set cs) sts" "distinct (map fst cs)"
  shows "distinct (map fst (fold (after_step blank) sts cs))"
  using assms(1)
proof (induction sts rule: rev_induct)
  case (snoc st sts)
  note ok = steps_ok_snoc [OF snoc.prems]
  let ?cs = "fold (after_step blank) sts cs"
  have new: "step_column st \<notin> fst ` set ?cs"
  proof
    assume "step_column st \<in> fst ` set ?cs"
    then consider n v where "(n, v) \<in> set cs" "name_after sts n = step_column st"
      | ty tt ddl w where "AddColumn (step_column st) ty tt ddl w \<in> set sts"
      unfolding steps_effect [OF ok(1)] by (auto simp: added_columns)
    then have "step_column st \<in> fst ` set cs \<or> step_column st \<in> step_column ` set sts"
    proof cases
      case (1 n v)
      with name_after_column [OF ok(1), of n] show ?thesis by force
    next
      case (2 ty tt ddl w)
      from imageI [OF 2, of step_column] show ?thesis by simp
    qed
    with ok(2,3) show False by blast
  qed
  from snoc.IH [OF ok(1)] have dist: "distinct (map fst ?cs)" .
  show ?case
  proof (cases st)
    case (RenameColumn new old ty ddl ev)
    have "distinct (map (\<lambda>n. if n = old then new else n) (map fst ?cs))"
      using dist new RenameColumn by (auto simp: distinct_map inj_on_def)
    with RenameColumn show ?thesis by (simp add: case_prod_unfold comp_def)
  qed (use dist new in simp)
qed (simp add: assms(2))

section \<open>The pairing and the plan\<close>

text \<open>New names are live, old names are not, and no name is paired twice.\<close>

definition pairing_ok :: "live_column list \<Rightarrow> pairing \<Rightarrow> bool" where
  "pairing_ok cols ps = (dict_ok ps \<and> distinct (map (fst \<circ> snd) ps)
     \<and> (\<forall>(new, old, ev) \<in> set ps. new \<in> lc_name ` set cols \<and> old \<notin> lc_name ` set cols))"

lemma live_named_None: "live_named cols n = None \<longleftrightarrow> n \<notin> lc_name ` set cols"
  by (auto simp: live_named_def map_of_eq_None_iff image_image)

lemma live_named_Some: "live_named cols n = Some c \<Longrightarrow> c \<in> set cols \<and> lc_name c = n"
  by (auto simp: live_named_def dest: map_of_SomeD)

lemma live_named_distinct:
  assumes "distinct (map lc_name cols)" "c \<in> set cols"
  shows "live_named cols (lc_name c) = Some c"
  using assms by (auto simp: live_named_def rev_map [symmetric] map_of_eq_Some_iff_mem comp_def)

lemma pairing_ok_set:
  assumes "pairing_ok cols ps" "new \<notin> fst ` set ps" "old \<notin> used_olds ps" "new \<in> lc_name ` set cols" "old \<notin> lc_name ` set cols"
  shows "pairing_ok cols (dict_set new (old, ev) ps)"
  using assms by (auto simp: pairing_ok_def dict_set_absent used_olds_def)

lemma fold_keeps: "P s \<Longrightarrow> (\<And>x s. x \<in> set xs \<Longrightarrow> P s \<Longrightarrow> P (f x s)) \<Longrightarrow> P (fold f xs s)"
  by (induction xs arbitrary: s) auto

lemma pair_baseline_ok: "pairing_ok cols ps \<Longrightarrow> pairing_ok cols (pair_baseline env cols base x ps)"
  by (cases x) (auto simp: pair_baseline_def Let_def live_named_None intro!: pairing_ok_set)

lemma pair_seen_ok: "pairing_ok cols ps \<Longrightarrow> pairing_ok cols (pair_seen env cols x ps)"
proof (cases x)
  case (fields old new before)
  assume ps: "pairing_ok cols ps"
  show ?thesis
  proof (cases "live_named cols new")
    case (Some c)
    then have "new \<in> lc_name ` set cols" using live_named_Some by force
    with ps Some fields show ?thesis
      by (auto simp: pair_seen_def live_named_None intro!: pairing_ok_set)
  qed (use ps fields in \<open>simp add: pair_seen_def\<close>)
qed

lemma pair_case_ok:
  assumes "pairing_ok cols ps" "c \<in> set cols"
  shows "pairing_ok cols (pair_case cols target c ps)"
proof -
  let ?cand = "filter (\<lambda>t. live_named cols t = None \<and> t \<notin> used_olds ps \<and> t \<noteq> lc_name c \<and> py_lower t = py_lower (lc_name c)) target"
  have "pairing_ok cols (dict_set (lc_name c) (t, LetterCase) ps)" if "?cand = [t]" "lc_name c \<notin> fst ` set ps" for t
  proof -
    have "t \<in> set ?cand" using that(1) by simp
    then show ?thesis using assms that(2) by (intro pairing_ok_set) (auto simp: live_named_None)
  qed
  with assms(1) show ?thesis by (auto simp: pair_case_def split: list.split)
qed

lemma pair_renames_ok: "pairing_ok cols (pair_renames env cols target baseline seen)"
  unfolding pair_renames_def Let_def
proof (rule fold_keeps)
  have "pairing_ok cols []" by (simp add: pairing_ok_def)
  then have "pairing_ok cols (case baseline of None \<Rightarrow> []
      | Some b \<Rightarrow> fold (pair_baseline env cols (bt_columns b)) (enumerate 0 (bt_columns b)) [])"
    by (auto intro: fold_keeps pair_baseline_ok split: option.split)
  then show "pairing_ok cols (fold (pair_seen env cols) seen (case baseline of None \<Rightarrow> []
      | Some b \<Rightarrow> fold (pair_baseline env cols (bt_columns b)) (enumerate 0 (bt_columns b)) []))"
    by (auto intro: fold_keeps pair_seen_ok)
qed (rule pair_case_ok)

text \<open>The catalogs name a column once.\<close>

definition request_ok :: "fix_request \<Rightarrow> bool" where
  "request_ok q = (distinct (map lc_name (tb_columns (rq_live q))) \<and> distinct (rq_target q))"

lemma pairs_facts:
  "(new, old, ev) \<in> set (pairs_of env q) \<Longrightarrow> is_live q new \<and> \<not> is_live q old"
  "(new, old, ev) \<in> set (pairs_of env q) \<Longrightarrow> (new, old', ev') \<in> set (pairs_of env q) \<Longrightarrow> old' = old \<and> ev' = ev"
  "(new, old, ev) \<in> set (pairs_of env q) \<Longrightarrow> (new', old, ev') \<in> set (pairs_of env q) \<Longrightarrow> new' = new"
proof -
  have ok: "pairing_ok (live_cols q) (pairs_of env q)" by (simp add: pairs_of_def pair_renames_ok)
  then show "(new, old, ev) \<in> set (pairs_of env q) \<Longrightarrow> is_live q new \<and> \<not> is_live q old"
    by (auto simp: pairing_ok_def is_live_def)
  from ok show "(new, old, ev) \<in> set (pairs_of env q) \<Longrightarrow> (new, old', ev') \<in> set (pairs_of env q) \<Longrightarrow> old' = old \<and> ev' = ev"
    by (metis eq_key_imp_eq_value pairing_ok_def prod.inject)
  from ok show "(new, old, ev) \<in> set (pairs_of env q) \<Longrightarrow> (new', old, ev') \<in> set (pairs_of env q) \<Longrightarrow> new' = new"
    unfolding pairing_ok_def distinct_map inj_on_def by fastforce
qed

lemma live_cols_facts:
  "request_ok q \<Longrightarrow> distinct (map lc_name (live_cols q))"
  "set (live_cols q) = set (tb_columns (rq_live q))"
  by (auto simp: request_ok_def live_cols_def distinct_map)

definition mappable :: "fix_env \<Rightarrow> string \<Rightarrow> bool" where
  "mappable env ty = (case resolve_target_type env ty of Inl reason \<Rightarrow> False | Inr m \<Rightarrow> True)"

lemma add_columns_steps:
  "map step_column (fst (add_columns env t cs names)) = map fst (filter (\<lambda>(c, ty). c \<notin> names \<and> mappable env ty) cs) \<and>
   map fst (snd (add_columns env t cs names)) = map fst (filter (\<lambda>(c, ty). c \<notin> names \<and> \<not> mappable env ty) cs)"
proof (induction env t cs names rule: add_columns.induct)
  case (2 env t c ty cs names)
  obtain a b where ab: "add_columns env t cs names = (a, b)" by force
  show ?case
  proof (cases "resolve_target_type env ty")
    case (Inl reason)
    then have "\<not> mappable env ty" by (simp add: mappable_def)
    with 2 ab Inl show ?thesis by simp
  next
    case (Inr m)
    then have "mappable env ty" by (simp add: mappable_def)
    with 2 ab Inr show ?thesis by (cases m) simp
  qed
qed simp

lemma add_columns_kind: "st \<in> set (fst (add_columns env t cs names)) \<Longrightarrow> \<exists>c ty tt ddl w. st = AddColumn c ty tt ddl w"
  by (induction env t cs names rule: add_columns.induct) (auto split: sum.splits prod.splits if_splits)

lemma set_ordered_pairs [simp]: "set (ordered_pairs env q) = set (pairs_of env q)"
  by (simp add: ordered_pairs_def)

lemma verdict_picks:
  "(case v of Hold h \<Rightarrow> Some h | _ \<Rightarrow> None) = Some x \<longleftrightarrow> v = Hold x"
  "(case v of Rename st \<Rightarrow> Some st | _ \<Rightarrow> None) = Some y \<longleftrightarrow> v = Rename y"
  "(case v of Candidate n \<Rightarrow> Some n | _ \<Rightarrow> None) = Some z \<longleftrightarrow> v = Candidate z"
  by (auto split: verdict.split)

lemma in_verdicts:
  "v \<in> set (verdicts env q rules) \<longleftrightarrow>
     (\<exists>x \<in> set (pairs_of env q). rename_verdict env q rules x = v) \<or> (\<exists>c \<in> set (live_cols q). column_verdict env q rules c = v)"
  by (auto simp: verdicts_def)

lemma in_renames:
  "st \<in> set (renames_in (verdicts env q rules)) \<longleftrightarrow> (\<exists>x \<in> set (pairs_of env q). rename_verdict env q rules x = Rename st)"
proof -
  have "column_verdict env q rules c \<noteq> Rename st" for c
    by (simp add: column_verdict_def Let_def split: option.split)
  then show ?thesis by (simp add: renames_in_def verdict_picks in_verdicts)
qed

lemma in_held:
  "h \<in> set (held_in (verdicts env q rules)) \<longleftrightarrow>
     (\<exists>x \<in> set (pairs_of env q). rename_verdict env q rules x = Hold h) \<or> (\<exists>c \<in> set (live_cols q). column_verdict env q rules c = Hold h)"
  by (simp add: held_in_def verdict_picks in_verdicts)

lemma in_candidates:
  "n \<in> set (candidates_in q (verdicts env q rules)) \<longleftrightarrow>
     (\<exists>x \<in> set (pairs_of env q). rename_verdict env q rules x = Candidate n)
     \<or> (\<exists>c \<in> set (live_cols q). column_verdict env q rules c = Candidate n)"
  by (simp add: candidates_in_def verdict_picks in_verdicts)

lemma rename_verdict_Rename:
  "rename_verdict env q rules (new, old, ev) = Rename st \<Longrightarrow> (\<exists>ty ddl. st = RenameColumn new old ty ddl ev)
     \<and> new \<notin> set (rq_target q) \<and> old \<in> set (rq_target q) \<and> old \<notin> set (rq_excluded q) \<and> new \<notin> set (rq_excluded q)
     \<and> map_of rules new = None"
  by (auto simp: rename_verdict_def Let_def split: if_splits option.splits)

lemma rename_verdict_Candidate:
  "rename_verdict env q rules (new, old, ev) = Candidate n \<Longrightarrow>
     n = new \<and> new \<notin> set (rq_target q) \<and> new \<notin> set (rq_excluded q) \<and> map_of rules new = None"
  by (auto simp: rename_verdict_def Let_def split: if_splits option.splits)

lemma column_verdict_Candidate:
  "column_verdict env q rules c = Candidate n \<Longrightarrow>
     n = lc_name c \<and> n \<notin> fst ` set (pairs_of env q) \<and> n \<notin> set (rq_target q) \<and> n \<notin> set (rq_excluded q)
     \<and> (map_of rules n = None \<or> lc_generated c)"
  by (auto simp: column_verdict_def Let_def split: if_splits option.splits)

text \<open>A rename of the plan, and an add of it.\<close>

definition rename_allowed :: "fix_env \<Rightarrow> fix_request \<Rightarrow> (string, string option) pydict \<Rightarrow> string \<Rightarrow> string \<Rightarrow> bool" where
  "rename_allowed env q rules new old =
     ((\<exists>ev. (new, old, ev) \<in> set (pairs_of env q)) \<and> is_live q new \<and> \<not> is_live q old
      \<and> new \<notin> set (rq_target q) \<and> old \<in> set (rq_target q) \<and> {new, old} \<inter> set (rq_excluded q) = {} \<and> map_of rules new = None)"

definition add_allowed :: "fix_env \<Rightarrow> fix_request \<Rightarrow> (string, string option) pydict \<Rightarrow> string \<Rightarrow> bool" where
  "add_allowed env q rules n =
     (is_live q n \<and> n \<notin> set (rq_target q) \<and> n \<notin> set (rq_excluded q) \<and> map_of rules n = None
      \<and> \<not> is_generated_column q n \<and> (\<forall>e \<in> set (rq_excluded q). is_live q e \<or> e \<in> used_olds (pairs_of env q)))"

lemma candidate_facts:
  assumes "request_ok q" "n \<in> set (candidates_in q (verdicts env q rules))" "\<not> is_generated_column q n"
  shows "is_live q n" "n \<notin> set (rq_target q)" "n \<notin> set (rq_excluded q)" "map_of rules n = None"
proof -
  from assms(2) consider x where "x \<in> set (pairs_of env q)" "rename_verdict env q rules x = Candidate n"
    | c where "c \<in> set (live_cols q)" "column_verdict env q rules c = Candidate n" by (auto simp: in_candidates)
  then have "is_live q n \<and> n \<notin> set (rq_target q) \<and> n \<notin> set (rq_excluded q) \<and> map_of rules n = None"
  proof cases
    case (1 x)
    obtain new old ev where x: "x = (new, old, ev)" by (cases x)
    with rename_verdict_Candidate [OF 1(2) [unfolded x]] pairs_facts(1) [OF 1(1) [unfolded x]] show ?thesis by simp
  next
    case (2 c)
    note v = column_verdict_Candidate [OF 2(2)]
    with 2(1) live_named_distinct [OF live_cols_facts(1) [OF assms(1)] 2(1)] assms(3)
    show ?thesis by (auto simp: is_live_def is_generated_column_def)
  qed
  then show "is_live q n" "n \<notin> set (rq_target q)" "n \<notin> set (rq_excluded q)" "map_of rules n = None" by simp_all
qed

lemma sub_steps:
  assumes "st \<in> set (fp_steps (planned_adds env q vs))"
  shows "\<exists>c ty tt ddl w. st = AddColumn c ty tt ddl w"
    and "step_column st \<in> set (candidates_in q vs) \<and> \<not> is_generated_column q (step_column st)"
proof -
  from assms have st: "st \<in> set (fst (add_columns env (rq_table q)
      (map (\<lambda>n. (n, type_of_column q n)) (filter (\<lambda>n. \<not> is_generated_column q n) (candidates_in q vs))) (set (rq_target q))))"
    by (simp add: planned_adds_def plan_add_columns_def case_prod_unfold empty_plan_def Let_def)
  from add_columns_kind [OF st] show "\<exists>c ty tt ddl w. st = AddColumn c ty tt ddl w" .
  from st have "step_column st \<in> set (map step_column (fst (add_columns env (rq_table q)
      (map (\<lambda>n. (n, type_of_column q n)) (filter (\<lambda>n. \<not> is_generated_column q n) (candidates_in q vs))) (set (rq_target q)))))"
    by simp
  then show "step_column st \<in> set (candidates_in q vs) \<and> \<not> is_generated_column q (step_column st)"
    by (subst (asm) conjunct1 [OF add_columns_steps]) auto
qed

lemma set_plan_steps:
  "set (fp_steps (plan_with_rules env q rules)) = set (renames_in (verdicts env q rules)) \<union>
     (if gone_excluded env q \<noteq> [] \<and> fp_steps (planned_adds env q (verdicts env q rules)) \<noteq> [] then {}
      else set (fp_steps (planned_adds env q (verdicts env q rules))))"
  by (simp add: plan_with_rules_def Let_def)

lemma plan_steps_allowed:
  assumes "request_ok q" "st \<in> set (fp_steps (plan_with_rules env q rules))"
  shows "(\<exists>new old ty ddl ev. st = RenameColumn new old ty ddl ev \<and> rename_allowed env q rules new old)
    \<or> (\<exists>c ty tt ddl w. st = AddColumn c ty tt ddl w \<and> add_allowed env q rules c)"
proof (cases "st \<in> set (renames_in (verdicts env q rules))")
  case True
  then obtain new old ev where x: "(new, old, ev) \<in> set (pairs_of env q)" "rename_verdict env q rules (new, old, ev) = Rename st"
    by (auto simp: in_renames)
  from rename_verdict_Rename [OF x(2)] pairs_facts(1) [OF x(1)] x(1) show ?thesis
    by (auto simp: rename_allowed_def)
next
  case False
  with assms(2) have st: "st \<in> set (fp_steps (planned_adds env q (verdicts env q rules)))"
    and none: "gone_excluded env q = [] \<or> fp_steps (planned_adds env q (verdicts env q rules)) = []"
    by (auto simp: set_plan_steps split: if_splits)
  from sub_steps(1) [OF st] obtain c ty tt ddl w where c: "st = AddColumn c ty tt ddl w" by blast
  from sub_steps(2) [OF st] c have cand: "c \<in> set (candidates_in q (verdicts env q rules))" "\<not> is_generated_column q c" by simp_all
  from none st have "gone_excluded env q = []" by auto
  then have "set (gone_excluded env q) = {}" by simp
  then have "\<forall>e \<in> set (rq_excluded q). is_live q e \<or> e \<in> used_olds (pairs_of env q)"
    by (auto simp: gone_excluded_def)
  with candidate_facts [OF assms(1) cand] cand(2) c show ?thesis by (simp add: add_allowed_def)
qed

lemma map_filter_append_map:
  "List.map_filter f (map h xs @ map k ys) = List.map_filter (f \<circ> h) xs @ List.map_filter (f \<circ> k) ys"
  by (simp add: List.map_filter_def filter_map comp_def)

lemma distinct_picked:
  assumes "distinct (map key xs)" "\<And>x y. x \<in> set xs \<Longrightarrow> f x = Some y \<Longrightarrow> g y = key x"
  shows "distinct (map g (List.map_filter f xs))"
  using assms
proof (induction xs)
  case (Cons x xs)
  then have IH: "distinct (map g (List.map_filter f xs))" by simp
  show ?case
  proof (cases "f x")
    case None
    with IH show ?thesis by (simp add: List.map_filter_simps)
  next
    case (Some y)
    have "g y \<noteq> g z" if "z \<in> set (List.map_filter f xs)" for z
    proof -
      from that obtain x' where "x' \<in> set xs" "f x' = Some z" by auto
      with Cons.prems Some show ?thesis by (metis distinct.simps(2) image_eqI list.set_intros list.set_map list.simps(9))
    qed
    then have "g y \<notin> g ` set (List.map_filter f xs)" by blast
    with IH Some show ?thesis by (simp add: List.map_filter_simps del: mem_map_filter)
  qed
qed (simp add: List.map_filter_simps)

lemma ordered_pairs_distinct: "distinct (map fst (ordered_pairs env q))"
proof -
  have "dict_ok (pairs_of env q)" using pair_renames_ok by (simp add: pairs_of_def pairing_ok_def)
  then show ?thesis by (simp add: ordered_pairs_def distinct_map)
qed

lemma renames_distinct: "distinct (map step_column (renames_in (verdicts env q rules)))"
proof -
  let ?pick = "\<lambda>v. case v of Rename st \<Rightarrow> Some st | _ \<Rightarrow> None"
  have "List.map_filter (?pick \<circ> column_verdict env q rules) cs = []" for cs
    by (auto simp: List.map_filter_def filter_empty_conv column_verdict_def Let_def split: option.split)
  moreover have "distinct (map step_column (List.map_filter (?pick \<circ> rename_verdict env q rules) (ordered_pairs env q)))"
  proof (rule distinct_picked [OF ordered_pairs_distinct])
    fix x st
    assume "(?pick \<circ> rename_verdict env q rules) x = Some st"
    then have "rename_verdict env q rules x = Rename st" by (simp add: verdict_picks)
    with rename_verdict_Rename show "step_column st = fst x" by (cases x) fastforce
  qed
  ultimately show ?thesis by (simp add: renames_in_def verdicts_def map_filter_append_map)
qed

lemma candidates_distinct:
  assumes "request_ok q"
  shows "distinct (candidates_in q (verdicts env q rules))"
proof -
  let ?pick = "\<lambda>v. case v of Candidate n \<Rightarrow> Some n | _ \<Rightarrow> None"
  let ?as = "List.map_filter (?pick \<circ> rename_verdict env q rules) (ordered_pairs env q)"
  let ?bs = "List.map_filter (?pick \<circ> column_verdict env q rules) (live_cols q)"
  have "distinct (map id ?as)"
  proof (rule distinct_picked [OF ordered_pairs_distinct])
    fix x n
    assume "(?pick \<circ> rename_verdict env q rules) x = Some n"
    then have "rename_verdict env q rules x = Candidate n" by (simp add: verdict_picks)
    with rename_verdict_Candidate show "id n = fst x" by (cases x) fastforce
  qed
  moreover have "distinct (map id ?bs)"
  proof (rule distinct_picked [OF live_cols_facts(1) [OF assms]])
    fix c n
    assume "(?pick \<circ> column_verdict env q rules) c = Some n"
    then have "column_verdict env q rules c = Candidate n" by (simp add: verdict_picks)
    with column_verdict_Candidate show "id n = lc_name c" by fastforce
  qed
  moreover have "set ?as \<inter> set ?bs = {}"
  proof -
    have "n \<in> fst ` set (pairs_of env q)" if "n \<in> set ?as" for n
    proof -
      from that obtain x where x: "x \<in> set (pairs_of env q)" "rename_verdict env q rules x = Candidate n"
        by (auto simp: verdict_picks)
      obtain new old ev where "x = (new, old, ev)" by (cases x)
      with x rename_verdict_Candidate [of env q rules new old ev n] show ?thesis by force
    qed
    moreover have "n \<notin> fst ` set (pairs_of env q)" if "n \<in> set ?bs" for n
    proof -
      from that obtain c where "column_verdict env q rules c = Candidate n" by (auto simp: verdict_picks)
      from column_verdict_Candidate [OF this] show ?thesis by blast
    qed
    ultimately show ?thesis by blast
  qed
  ultimately show ?thesis by (simp add: candidates_in_def verdicts_def map_filter_append_map)
qed

lemma sub_steps_distinct:
  assumes "request_ok q"
  shows "distinct (map step_column (fp_steps (planned_adds env q (verdicts env q rules))))"
proof -
  let ?cs = "map (\<lambda>n. (n, type_of_column q n)) (filter (\<lambda>n. \<not> is_generated_column q n) (candidates_in q (verdicts env q rules)))"
  have "distinct (map fst ?cs)" using candidates_distinct [OF assms] by (simp add: comp_def)
  then have "distinct (map step_column (fst (add_columns env (rq_table q) ?cs (set (rq_target q)))))"
    unfolding conjunct1 [OF add_columns_steps] by (simp add: distinct_map_filter)
  then show ?thesis by (simp add: planned_adds_def plan_add_columns_def case_prod_unfold empty_plan_def Let_def)
qed

lemma plan_columns_distinct:
  assumes "request_ok q"
  shows "distinct (map step_column (fp_steps (plan_with_rules env q rules)))"
proof -
  let ?vs = "verdicts env q rules"
  have "step_column st \<noteq> step_column st'"
    if st: "st \<in> set (renames_in ?vs)" and st': "st' \<in> set (fp_steps (planned_adds env q ?vs))" for st st'
  proof
    assume eq: "step_column st = step_column st'"
    from st obtain new old ev where x: "(new, old, ev) \<in> set (pairs_of env q)" "rename_verdict env q rules (new, old, ev) = Rename st"
      by (auto simp: in_renames)
    with rename_verdict_Rename [OF x(2)] have new: "step_column st = new" by auto
    from sub_steps(2) [OF st'] eq new have "new \<in> set (candidates_in q ?vs)" by simp
    then consider y where "y \<in> set (pairs_of env q)" "rename_verdict env q rules y = Candidate new"
      | c where "column_verdict env q rules c = Candidate new" by (auto simp: in_candidates)
    then show False
    proof cases
      case (1 y)
      obtain n o' e where y: "y = (n, o', e)" by (cases y)
      from rename_verdict_Candidate [OF 1(2) [unfolded y]] have "n = new" by simp
      with pairs_facts(2) [OF x(1)] 1(1) y have "y = (new, old, ev)" by auto
      with 1(2) x(2) show False by simp
    next
      case (2 c)
      with column_verdict_Candidate [OF 2] x(1) show False by force
    qed
  qed
  then have "step_column ` set (renames_in ?vs) \<inter> step_column ` set (fp_steps (planned_adds env q ?vs)) = {}" by blast
  with renames_distinct sub_steps_distinct [OF assms] show ?thesis
    by (auto simp: plan_with_rules_def Let_def distinct_map inj_on_Un)
qed

lemma plan_steps_ok:
  assumes "request_ok q"
  shows "steps_ok (set (rq_target q)) (fp_steps (plan_with_rules env q rules))"
proof -
  let ?sts = "fp_steps (plan_with_rules env q rules)"
  note allowed = plan_steps_allowed [OF assms]
  have live: "is_live q (step_column st) \<and> step_column st \<notin> set (rq_target q)" if "st \<in> set ?sts" for st
    using allowed [OF that] by (auto simp: rename_allowed_def add_allowed_def)
  have olds: "rename_allowed env q rules new old" if "RenameColumn new old ty ddl ev \<in> set ?sts" for new old ty ddl ev
    using allowed [OF that] by auto
  have once: "new = new'" if "RenameColumn new old ty ddl ev \<in> set ?sts" "RenameColumn new' old ty' ddl' ev' \<in> set ?sts"
    for new new' old ty ddl ev ty' ddl' ev'
    using olds [OF that(1)] olds [OF that(2)] pairs_facts(3) by (metis rename_allowed_def)
  have "distinct (old_names xs)" if "distinct (map step_column xs)" "set xs \<subseteq> set ?sts" for xs
    using that
  proof (induction xs rule: rev_induct)
    case (snoc st xs)
    then have IH: "distinct (old_names xs)" by simp
    show ?case
    proof (cases st)
      case (RenameColumn new old ty ddl ev)
      have "old \<notin> set (old_names xs)"
      proof
        assume "old \<in> set (old_names xs)"
        then obtain new' ty' ddl' ev' where r: "RenameColumn new' old ty' ddl' ev' \<in> set xs" by (auto simp: mem_old_names)
        with snoc.prems(2) RenameColumn once have "new' = new" by (metis (no_types) in_set_conv_decomp subset_iff Un_iff set_append)
        with imageI [OF r, of step_column] snoc.prems(1) RenameColumn show False by simp
      qed
      with IH RenameColumn show ?thesis by (simp add: step_snocs)
    qed (use IH in \<open>simp add: step_snocs\<close>)
  qed simp
  moreover have "set (old_names ?sts) \<inter> step_column ` set ?sts = {}"
    using olds live by (force simp: mem_old_names rename_allowed_def)
  ultimately show ?thesis using plan_columns_distinct [OF assms] live by (simp add: steps_ok_def)
qed

lemma refusal_None_pairs:
  assumes "refusal_of env q = None" "(new, old, ev) \<in> set (pairs_of env q)"
  shows "new \<notin> set (key_names q)" "old \<notin> set (key_names q)"
proof -
  have "filter (\<lambda>(new, old, ev). old \<in> set (key_names q) \<or> new \<in> set (key_names q)) (ordered_pairs env q) = []"
    using assms(1) by (simp add: refusal_of_def Let_def split: if_splits)
  then have "\<forall>x \<in> set (pairs_of env q). \<not> (case x of (new, old, ev) \<Rightarrow> old \<in> set (key_names q) \<or> new \<in> set (key_names q))"
    by (simp add: filter_empty_conv)
  with assms(2) show "new \<notin> set (key_names q)" "old \<notin> set (key_names q)" by auto
qed

lemma plan_steps_cases:
  assumes "st \<in> set (fp_steps (plan_target_fix env q))"
  obtains rules where "rq_rules q = Some rules" "refusal_of env q = None" "plan_target_fix env q = plan_with_rules env q rules"
  using assms by (auto simp: plan_target_fix_def empty_plan_def split: option.splits)

lemma target_steps_ok: "request_ok q \<Longrightarrow> steps_ok (set (rq_target q)) (fp_steps (plan_target_fix env q))"
  using plan_steps_ok by (auto simp: plan_target_fix_def empty_plan_def steps_ok_def split: option.split)

section \<open>Nothing is forgotten\<close>

definition handled :: "fix_plan \<Rightarrow> string \<Rightarrow> bool" where
  "handled p n = (n \<in> step_column ` set (fp_steps p) \<or> n \<in> fst ` set (fp_skipped p) \<or> n \<in> hd_column ` set (fp_held p))"

lemma set_plan_held:
  "set (fp_held (plan_with_rules env q rules)) = set (held_in (verdicts env q rules))
    \<union> {held_as n HeldGenerated None |n. n \<in> set (candidates_in q (verdicts env q rules)) \<and> is_generated_column q n}
    \<union> (if gone_excluded env q \<noteq> [] \<and> fp_steps (planned_adds env q (verdicts env q rules)) \<noteq> []
       then (\<lambda>st. (held_as (step_column st) HeldExcludedGone None)\<lparr>hd_ddl := Some (step_ddl st), hd_others := gone_excluded env q\<rparr>)
         ` set (fp_steps (planned_adds env q (verdicts env q rules))) else {})"
  by (auto simp: plan_with_rules_def Let_def by_position_def)

lemma rename_verdict_name: "rename_verdict env q rules (new, old, ev) = Hold h \<Longrightarrow> hd_column h = new"
  by (auto simp: rename_verdict_def Let_def held_as_def split: if_splits option.splits)

lemma column_verdict_name: "column_verdict env q rules c = Hold h \<Longrightarrow> hd_column h = lc_name c"
  by (auto simp: column_verdict_def Let_def held_as_def split: if_splits option.splits)

lemma candidate_handled:
  assumes "n \<in> set (candidates_in q (verdicts env q rules))" "n \<notin> set (rq_target q)"
  shows "handled (plan_with_rules env q rules) n"
proof (cases "is_generated_column q n")
  case True
  with assms have "held_as n HeldGenerated None \<in> set (fp_held (plan_with_rules env q rules))" by (auto simp: set_plan_held)
  from imageI [OF this, of hd_column] show ?thesis by (simp add: handled_def held_as_def)
next
  case False
  let ?vs = "verdicts env q rules"
  let ?cs = "map (\<lambda>n. (n, type_of_column q n)) (filter (\<lambda>n. \<not> is_generated_column q n) (candidates_in q ?vs))"
  have sub: "fp_steps (planned_adds env q ?vs) = fst (add_columns env (rq_table q) ?cs (set (rq_target q)))"
    "fp_skipped (planned_adds env q ?vs) = snd (add_columns env (rq_table q) ?cs (set (rq_target q)))"
    by (simp_all add: planned_adds_def plan_add_columns_def case_prod_unfold empty_plan_def Let_def)
  have n: "(n, type_of_column q n) \<in> set ?cs" using assms(1) False by auto
  have skipped: "fp_skipped (plan_with_rules env q rules) = fp_skipped (planned_adds env q ?vs)"
    by (simp add: plan_with_rules_def Let_def)
  show ?thesis
  proof (cases "mappable env (type_of_column q n)")
    case True
    with n assms(2) have "n \<in> set (map fst (filter (\<lambda>(c, ty). c \<notin> set (rq_target q) \<and> mappable env ty) ?cs))" by force
    then have "n \<in> set (map step_column (fp_steps (planned_adds env q ?vs)))"
      by (simp only: sub(1) conjunct1 [OF add_columns_steps])
    then have "n \<in> step_column ` set (fp_steps (planned_adds env q ?vs))" by simp
    then obtain st where st: "st \<in> set (fp_steps (planned_adds env q ?vs))" "step_column st = n" by blast
    show ?thesis
    proof (cases "gone_excluded env q \<noteq> [] \<and> fp_steps (planned_adds env q ?vs) \<noteq> []")
      case True
      with st have "(held_as n HeldExcludedGone None)\<lparr>hd_ddl := Some (step_ddl st), hd_others := gone_excluded env q\<rparr>
          \<in> set (fp_held (plan_with_rules env q rules))" by (auto simp: set_plan_held)
      from imageI [OF this, of hd_column] show ?thesis by (simp add: handled_def held_as_def)
    next
      case False
      with st have "st \<in> set (fp_steps (plan_with_rules env q rules))" by (auto simp: set_plan_steps)
      with st(2) show ?thesis by (auto simp: handled_def)
    qed
  next
    case False
    with n assms(2) have "n \<in> set (map fst (filter (\<lambda>(c, ty). c \<notin> set (rq_target q) \<and> \<not> mappable env ty) ?cs))" by force
    then have "n \<in> set (map fst (fp_skipped (plan_with_rules env q rules)))"
      by (simp only: skipped sub(2) conjunct2 [OF add_columns_steps])
    then show ?thesis by (simp add: handled_def)
  qed
qed

lemma rename_handled:
  assumes "(new, old, ev) \<in> set (pairs_of env q)" "new \<notin> set (rq_target q)"
  shows "handled (plan_with_rules env q rules) new"
proof (cases "rename_verdict env q rules (new, old, ev)")
  case Leave
  with assms(2) show ?thesis by (auto simp: rename_verdict_def Let_def split: if_splits option.splits)
next
  case (Hold h)
  with assms(1) have "h \<in> set (fp_held (plan_with_rules env q rules))" by (auto simp: set_plan_held in_held)
  with rename_verdict_name [OF Hold] show ?thesis by (auto simp: handled_def)
next
  case (Rename st)
  with assms(1) have "st \<in> set (fp_steps (plan_with_rules env q rules))" by (auto simp: set_plan_steps in_renames)
  moreover from rename_verdict_Rename [OF Rename] have "step_column st = new" by auto
  ultimately show ?thesis by (auto simp: handled_def)
next
  case (Candidate n)
  with rename_verdict_Candidate [OF Candidate] assms show ?thesis
    by (intro candidate_handled) (auto simp: in_candidates)
qed

lemma column_handled:
  assumes "c \<in> set (live_cols q)" "lc_name c \<notin> set (rq_target q)" "lc_name c \<notin> set (rq_excluded q) \<or> lc_name c \<in> fst ` set (pairs_of env q)"
  shows "handled (plan_with_rules env q rules) (lc_name c)"
proof (cases "lc_name c \<in> fst ` set (pairs_of env q)")
  case True
  with rename_handled assms(2) show ?thesis by fastforce
next
  case False
  show ?thesis
  proof (cases "column_verdict env q rules c")
    case (Hold h)
    with assms(1) have "h \<in> set (fp_held (plan_with_rules env q rules))" by (auto simp: set_plan_held in_held)
    from imageI [OF this, of hd_column] column_verdict_name [OF Hold] show ?thesis by (simp add: handled_def)
  next
    case (Candidate n)
    with column_verdict_Candidate [OF Candidate] assms show ?thesis
      by (intro candidate_handled) (auto simp: in_candidates)
  qed (use False assms in \<open>auto simp: column_verdict_def Let_def split: if_splits option.splits\<close>)
qed

lemma plan_complete:
  assumes "refusal_of env q = None" "c \<in> set (live_cols q)" "lc_name c \<notin> set (rq_target q)"
  shows "handled (plan_target_fix env q) (lc_name c) \<or> lc_name c \<in> set (rq_excluded q)"
proof (cases "rq_rules q")
  case None
  then have held: "set (fp_held (plan_target_fix env q)) = set (unknown_rules env q)"
    using assms(1) by (simp add: plan_target_fix_def by_position_def)
  show ?thesis
  proof (cases "lc_name c \<in> fst ` set (pairs_of env q)")
    case True
    then obtain old ev where "(lc_name c, old, ev) \<in> set (pairs_of env q)" by force
    with assms(3) have "held_as (lc_name c) HeldRulesUnknown (Some old) \<in> set (unknown_rules env q)"
      by (force simp: unknown_rules_def)
    from imageI [OF this, of hd_column] held show ?thesis by (simp add: handled_def held_as_def)
  next
    case False
    show ?thesis
    proof (cases "lc_name c \<in> set (rq_excluded q)")
      case excluded: False
      with False assms(2,3) have "held_as (lc_name c) HeldRulesUnknown None \<in> set (unknown_rules env q)"
        by (force simp: unknown_rules_def)
      from imageI [OF this, of hd_column] held show ?thesis by (simp add: handled_def held_as_def)
    qed simp
  qed
next
  case (Some rules)
  with assms(1) column_handled [OF assms(2,3)] show ?thesis by (auto simp: plan_target_fix_def)
qed

section \<open>The target after a fix\<close>

text \<open>Where a column's contents are allowed to be afterwards.\<close>

definition renamed_to :: "fix_request \<Rightarrow> string \<Rightarrow> string \<Rightarrow> bool" where
  "renamed_to q n m =
     (is_live q m \<and> \<not> is_live q n \<and> m \<notin> set (rq_target q)
      \<and> {m, n} \<inter> (set (key_names q) \<union> set (rq_excluded q)) = {} \<and> (\<exists>rules. rq_rules q = Some rules \<and> map_of rules m = None))"

text \<open>A column the plan may add.\<close>

definition addable :: "fix_env \<Rightarrow> fix_request \<Rightarrow> string \<Rightarrow> bool" where
  "addable env q m =
     (is_live q m \<and> m \<notin> set (rq_target q) \<and> m \<notin> set (rq_excluded q) \<and> \<not> is_generated_column q m
      \<and> (\<exists>rules. rq_rules q = Some rules \<and> map_of rules m = None)
      \<and> (\<forall>e \<in> set (rq_excluded q). is_live q e \<or> e \<in> used_olds (pairs_of env q)))"

lemma target_step_facts:
  assumes "request_ok q" "st \<in> set (fp_steps (plan_target_fix env q))"
  shows "(\<exists>new old ty ddl ev. st = RenameColumn new old ty ddl ev \<and> renamed_to q old new \<and> old \<in> set (rq_target q))
    \<or> (\<exists>c ty tt ddl w. st = AddColumn c ty tt ddl w \<and> addable env q c)"
proof -
  from assms(2) obtain rules where r: "rq_rules q = Some rules" "refusal_of env q = None"
    "plan_target_fix env q = plan_with_rules env q rules" by (rule plan_steps_cases)
  from plan_steps_allowed [OF assms(1)] assms(2) r(3)
  have "(\<exists>new old ty ddl ev. st = RenameColumn new old ty ddl ev \<and> rename_allowed env q rules new old)
    \<or> (\<exists>c ty tt ddl w. st = AddColumn c ty tt ddl w \<and> add_allowed env q rules c)" by auto
  then show ?thesis
  proof (elim disjE exE conjE)
    fix new old ty ddl ev
    assume st: "st = RenameColumn new old ty ddl ev" and a: "rename_allowed env q rules new old"
    then obtain ev' where "(new, old, ev') \<in> set (pairs_of env q)" by (auto simp: rename_allowed_def)
    from refusal_None_pairs [OF r(2) this] a r(1) have "renamed_to q old new" "old \<in> set (rq_target q)"
      by (auto simp: rename_allowed_def renamed_to_def)
    with st show ?thesis by blast
  next
    fix c ty tt ddl w
    assume "st = AddColumn c ty tt ddl w" "add_allowed env q rules c"
    with r(1) show ?thesis by (auto simp: add_allowed_def addable_def)
  qed
qed

lemma prefix_effect:
  assumes "request_ok q" "map fst cs = rq_target q" "sts = take k (fp_steps (plan_target_fix env q))"
  shows "distinct (map fst (fold (after_step blank) sts cs))"
    and "(n, v) \<in> set cs \<Longrightarrow> \<exists>m. (m, v) \<in> set (fold (after_step blank) sts cs) \<and> (m = n \<or> renamed_to q n m)"
    and "(m, v) \<in> set (fold (after_step blank) sts cs) \<Longrightarrow>
      (m, v) \<in> set cs \<or> v = blank \<and> addable env q m \<or> (\<exists>n. (n, v) \<in> set cs \<and> renamed_to q n m)"
    and "st \<in> set sts \<Longrightarrow> step_column st \<in> fst ` set (fold (after_step blank) sts cs)"
proof -
  have names: "set (rq_target q) = fst ` set cs" using assms(2) by (metis list.set_map)
  have ok: "steps_ok (fst ` set cs) sts"
    using steps_ok_take [OF target_steps_ok [OF assms(1)]] assms(3) names by simp
  note facts = target_step_facts [OF assms(1)]
  have step: "st \<in> set (fp_steps (plan_target_fix env q))" if "st \<in> set sts" for st
    using that assms(3) by (auto dest: in_set_takeD)
  have "distinct (map fst cs)" using assms(1,2) by (simp add: request_ok_def)
  then show "distinct (map fst (fold (after_step blank) sts cs))" by (rule steps_distinct [OF ok])
  note effect = steps_effect [OF ok, of blank cs]
  have moved: "name_after sts n = n \<or> renamed_to q n (name_after sts n)" for n
    using name_after_cases [OF ok, of n] facts step by (metis plan_step.distinct(1) plan_step.inject(2))
  show "\<exists>m. (m, v) \<in> set (fold (after_step blank) sts cs) \<and> (m = n \<or> renamed_to q n m)" if nv: "(n, v) \<in> set cs"
  proof (intro exI conjI)
    show "(name_after sts n, v) \<in> set (fold (after_step blank) sts cs)" unfolding effect using nv by force
  qed (rule moved)
  show "(m, v) \<in> set cs \<or> v = blank \<and> addable env q m \<or> (\<exists>n. (n, v) \<in> set cs \<and> renamed_to q n m)"
    if mv: "(m, v) \<in> set (fold (after_step blank) sts cs)"
  proof -
    from mv consider n where "(n, v) \<in> set cs" "m = name_after sts n" | "(m, v) \<in> set (added_by blank sts)"
      unfolding effect by auto
    then show ?thesis
    proof cases
      case (1 n)
      with moved [of n] show ?thesis by auto
    next
      case 2
      then obtain ty tt ddl w where "AddColumn m ty tt ddl w \<in> set sts" "v = blank" by (auto simp: added_columns)
      with facts [OF step] show ?thesis by blast
    qed
  qed
  show "step_column st \<in> fst ` set (fold (after_step blank) sts cs)" if st: "st \<in> set sts"
  proof (cases st)
    case (AddColumn c ty tt ddl w)
    with st have "(c, blank) \<in> set (added_by blank sts)" by (auto simp: added_columns)
    with AddColumn show ?thesis unfolding effect by force
  next
    case (RenameColumn new old ty ddl ev)
    with facts [OF step [OF st]] names obtain v where "(old, v) \<in> set cs" by auto
    moreover have "name_after sts old = new" using name_after_renamed [OF ok] st RenameColumn by blast
    ultimately show ?thesis unfolding effect using RenameColumn by force
  qed
qed

text \<open>What the target holds after an application, and what the report says of it.\<close>

definition columns_kept :: "fix_env \<Rightarrow> fix_request \<Rightarrow> 'v \<Rightarrow> (string \<times> 'v) list \<Rightarrow> (string \<times> 'v) list \<Rightarrow> bool" where
  "columns_kept env q blank cs cs' =
     (distinct (map fst cs')
      \<and> (\<forall>(n, v) \<in> set cs. \<exists>m. (m, v) \<in> set cs' \<and> (m = n \<or> renamed_to q n m))
      \<and> (\<forall>(m, v) \<in> set cs'. (m, v) \<in> set cs \<or> v = blank \<and> addable env q m \<or> (\<exists>n. (n, v) \<in> set cs \<and> renamed_to q n m)))"

context fix_target_laws begin

lemma apply_effect:
  assumes "request_ok q" "map fst (tcols s) = rq_target q" "apply_add_columns ops (plan_target_fix env q) s = (r, s')"
  shows "columns_kept env q blank (tcols s) (tcols s')"
    and "r = Inr outs \<Longrightarrow> o1 \<in> set outs \<Longrightarrow> so_applied o1 \<Longrightarrow> so_column o1 \<in> fst ` set (tcols s')"
    and "r = Inr outs \<Longrightarrow> \<forall>o1 \<in> set outs. so_applied o1 \<Longrightarrow> st \<in> set (fp_steps (plan_target_fix env q)) \<Longrightarrow>
      step_column st \<in> fst ` set (tcols s')"
proof -
  let ?sts = "fp_steps (plan_target_fix env q)"
  from apply_prefix [OF assms(3) [unfolded apply_add_columns_def]] obtain k where k: "k \<le> length ?sts"
    "tcols s' = fold (after_step blank) (take k ?sts) (tcols s)"
    "\<And>outs. r = Inr outs \<Longrightarrow> \<exists>a \<le> k. k \<le> Suc a \<and> take a outs = map applied_step (take a ?sts)
       \<and> (if a = length ?sts then outs = take a outs else \<exists>e. outs = take a outs @ [failed_step (?sts ! a) e])" by blast
  note effect = prefix_effect [OF assms(1,2) refl, where k = k and blank = blank and env = env, folded k(2)]
  show "columns_kept env q blank (tcols s) (tcols s')"
    unfolding columns_kept_def using effect(1-3) by blast
  show "so_column o1 \<in> fst ` set (tcols s')" if "r = Inr outs" "o1 \<in> set outs" "so_applied o1"
  proof -
    from k(3) [OF that(1)] obtain a where a: "a \<le> k" "take a outs = map applied_step (take a ?sts)"
      "if a = length ?sts then outs = take a outs else \<exists>e. outs = take a outs @ [failed_step (?sts ! a) e]" by blast
    have "o1 \<in> set (take a outs)"
    proof (cases "a = length ?sts")
      case False
      with a(3) obtain e where "outs = take a outs @ [failed_step (?sts ! a) e]" by auto
      with that(2) have "o1 \<in> set (take a outs @ [failed_step (?sts ! a) e])" by simp
      with that(3) show ?thesis by (auto simp: failed_step_def)
    qed (use a(3) that(2) in auto)
    with a(2) obtain st where "st \<in> set (take a ?sts)" "o1 = applied_step st" by auto
    with a(1) effect(4) [of st] show ?thesis by (simp add: applied_step_def set_take_subset_set_take [THEN subsetD])
  qed
  show "step_column st \<in> fst ` set (tcols s')" if "r = Inr outs" "\<forall>o1 \<in> set outs. so_applied o1" "st \<in> set ?sts"
  proof -
    from k(3) [OF that(1)] obtain a where a: "a \<le> k"
      "if a = length ?sts then outs = take a outs else \<exists>e. outs = take a outs @ [failed_step (?sts ! a) e]" by blast
    have "a = length ?sts"
    proof (rule ccontr)
      assume "a \<noteq> length ?sts"
      with a(2) obtain e where "outs = take a outs @ [failed_step (?sts ! a) e]" by auto
      then have "failed_step (?sts ! a) e \<in> set outs" by (metis in_set_conv_decomp)
      with that(2) show False by (auto simp: failed_step_def)
    qed
    with a(1) k(1) have "take k ?sts = ?sts" by simp
    with effect(4) [of st] that(3) show ?thesis by simp
  qed
qed

lemma apply_complete:
  assumes "request_ok q" "map fst (tcols s) = rq_target q" "apply_add_columns ops (plan_target_fix env q) s = (Inr outs, s')"
    and "\<forall>o1 \<in> set outs. so_applied o1" "fp_refusal (plan_target_fix env q) = None" "c \<in> set (tb_columns (rq_live q))"
  shows "lc_name c \<in> fst ` set (tcols s') \<or> lc_name c \<in> set (rq_excluded q)
    \<or> lc_name c \<in> fst ` set (fp_skipped (plan_target_fix env q)) \<or> lc_name c \<in> hd_column ` set (fp_held (plan_target_fix env q))"
proof (cases "lc_name c \<in> set (rq_target q)")
  case True
  then obtain v where v: "(lc_name c, v) \<in> set (tcols s)" using assms(2) by (metis imageE list.set_map prod.collapse)
  with apply_effect(1) [OF assms(1-3)] obtain m where "(m, v) \<in> set (tcols s')" "m = lc_name c \<or> renamed_to q (lc_name c) m"
    unfolding columns_kept_def by blast
  moreover have "is_live q (lc_name c)" using assms(6) by (simp add: is_live_def live_cols_facts(2))
  ultimately have "(lc_name c, v) \<in> set (tcols s')" by (auto simp: renamed_to_def)
  then show ?thesis by force
next
  case False
  have "refusal_of env q = None" using assms(5) by (auto simp: plan_target_fix_def split: option.splits)
  from plan_complete [OF this _ False] assms(6)
  have "handled (plan_target_fix env q) (lc_name c) \<or> lc_name c \<in> set (rq_excluded q)" by (simp add: live_cols_facts(2))
  with apply_effect(3) [OF assms(1-3) refl assms(4)] show ?thesis by (auto simp: handled_def)
qed

end

section \<open>A target in memory\<close>

text \<open>The columns of a table, and how many statements succeed before the connection is lost.\<close>

definition fix_memory :: "((string \<times> string) list \<times> nat) fix_target" where
  "fix_memory = \<lparr>ft_connect = (\<lambda>s. (Inr (), s)),
     ft_execute = (\<lambda>st (cs, n). case n of 0 \<Rightarrow> (Inl (raise_named ''OperationalError'' ''server closed the connection''), (cs, 0))
       | Suc k \<Rightarrow> (Inr (), (after_step ''NULL'' st cs, k))),
     ft_close = (\<lambda>s. s)\<rparr>"

interpretation fix_memory: fix_target_laws fix_memory fst "''NULL''"
  by unfold_locales (auto simp: fix_memory_def split: nat.splits)

section \<open>Properties\<close>

text \<open>
  C14: Fix target schema never harms the target. Whatever the source became, whatever evidence the plan had
  and whichever statement failed, every column of the target keeps its contents, under its own name or
  under the live source column it was renamed to, which is never a key column, excluded or matched by a
  rule; a column that is new is either such a rename or an empty column of the source that is not
  generated, not excluded and not matched by a rule, and none is added while an excluded column may be
  hiding under a new name; no name is there twice; and what is reported as applied is there.
\<close>

theorem fix_keeps_columns:
  assumes "fix_target_laws ops tcols blank" "request_ok q" "map fst (tcols s) = rq_target q"
    and "apply_add_columns ops (plan_target_fix env q) s = (r, s')"
  shows "columns_kept env q blank (tcols s) (tcols s')
    \<and> (\<forall>outs. r = Inr outs \<longrightarrow> (\<forall>o1 \<in> set outs. so_applied o1 \<longrightarrow> so_column o1 \<in> fst ` set (tcols s')))"
  using fix_target_laws.apply_effect(1,2) [OF assms] by blast

text \<open>
  C15: Fix target schema forgets no column. When the table was not refused and every statement was applied,
  each column the source has is on the target, excluded, or named in the plan as skipped or held.
\<close>

theorem fix_forgets_nothing:
  assumes "fix_target_laws ops tcols blank" "request_ok q" "map fst (tcols s) = rq_target q"
    and "apply_add_columns ops (plan_target_fix env q) s = (Inr outs, s')"
    and "\<forall>o1 \<in> set outs. so_applied o1" "fp_refusal (plan_target_fix env q) = None" "c \<in> set (tb_columns (rq_live q))"
  shows "lc_name c \<in> fst ` set (tcols s') \<or> lc_name c \<in> set (rq_excluded q)
    \<or> lc_name c \<in> fst ` set (fp_skipped (plan_target_fix env q)) \<or> lc_name c \<in> hd_column ` set (fp_held (plan_target_fix env q))"
  by (rule fix_target_laws.apply_complete [OF assms])

text \<open>A column whose letter case changed, and a new one.\<close>

definition demo_fix_env :: fix_env where
  "demo_fix_env = \<lparr>fe_postgres = False, fe_same = (=), fe_map_mysql = (\<lambda>t. Inr (t, None)), fe_unsupported = (\<lambda>t. None),
     fe_clamp = (\<lambda>t. (t, None)), fe_quote = (\<lambda>n. n)\<rparr>"

definition demo_live_column :: "string \<Rightarrow> int \<Rightarrow> live_column" where
  "demo_live_column n i = \<lparr>lc_name = n, lc_type = ''text'', lc_nullable = True, lc_generated = False, lc_position = i, lc_charset = []\<rparr>"

definition demo_request :: fix_request where
  "demo_request = \<lparr>rq_table = ''t'',
     rq_live = \<lparr>tb_columns = [demo_live_column ''id'' 0, demo_live_column ''Name'' 1, demo_live_column ''mail'' 2], tb_key = [''id'']\<rparr>,
     rq_target = [''id'', ''name''], rq_baseline = None, rq_seen = [], rq_record_key = [''id''], rq_rekey = [],
     rq_excluded = [], rq_rules = Some []\<rparr>"

definition demo_columns :: "(string \<times> string) list \<times> nat" where
  "demo_columns = ([(''id'', ''1''), (''name'', ''Ann'')], 5)"

lemma demo_fix:
  "apply_add_columns fix_memory (plan_target_fix demo_fix_env demo_request) demo_columns =
     (Inr (map applied_step (fp_steps (plan_target_fix demo_fix_env demo_request))),
      ([(''id'', ''1''), (''Name'', ''Ann''), (''mail'', ''NULL'')], 3))"
  by code_simp

lemma demo_request_ok: "request_ok demo_request" "map fst (fst demo_columns) = rq_target demo_request"
  by (simp_all add: request_ok_def demo_request_def demo_live_column_def demo_columns_def)

theorem fix_keeps_columns_witness:
  "columns_kept demo_fix_env demo_request ''NULL'' (fst demo_columns) [(''id'', ''1''), (''Name'', ''Ann''), (''mail'', ''NULL'')]"
  using conjunct1 [OF fix_keeps_columns [OF fix_memory.fix_target_laws_axioms demo_request_ok demo_fix]] by simp

theorem fix_forgets_nothing_witness:
  "\<exists>outs s'. apply_add_columns fix_memory (plan_target_fix demo_fix_env demo_request) demo_columns = (Inr outs, s')
    \<and> ''mail'' \<in> fst ` set (fst s')"
proof -
  have plan: "fp_refusal (plan_target_fix demo_fix_env demo_request) = None"
    "fp_skipped (plan_target_fix demo_fix_env demo_request) = []" "fp_held (plan_target_fix demo_fix_env demo_request) = []"
    by code_simp+
  have "demo_live_column ''mail'' 2 \<in> set (tb_columns (rq_live demo_request))" by (simp add: demo_request_def)
  with plan fix_forgets_nothing [OF fix_memory.fix_target_laws_axioms demo_request_ok demo_fix, of "demo_live_column ''mail'' 2"]
  have "''mail'' \<in> fst ` set (fst ([(''id'', ''1''), (''Name'', ''Ann''), (''mail'', ''NULL'')], 3 :: nat))"
    by (auto simp: applied_step_def demo_request_def demo_live_column_def)
  with demo_fix show ?thesis by blast
qed

end
