(* ===== verification/Spec2Isabelle.thy ===== *)
theory Spec2Isabelle
  imports Poison ConnPool JobManager Report OverlayWriter SessionStore TargetFix "HOL-Library.Code_Target_Numeral"
begin

text \<open>
  \<^bold>\<open>A verification of the migration toolkit's load and validation.\<close>

  The toolkit moves a MySQL or PostgreSQL database to Aurora DSQL. Its core, under
  \<^verbatim>\<open>src/src/dsql_migrator/core\<close>, reads the source in keyset pages (\<^verbatim>\<open>exporter.py\<close>), cuts the rows into
  batches and writes them through a bounded pool with retries, a binary split that quarantines the rows
  that cannot be stored, and a resume high-water (\<^verbatim>\<open>batched_import.py\<close>, \<^verbatim>\<open>occ.py\<close>,
  \<^verbatim>\<open>target_connection.py\<close>), creates the indexes after the load, runs all of it as jobs that can be
  stopped, stalled, reaped and restarted (\<^verbatim>\<open>job_manager.py\<close>, \<^verbatim>\<open>job_store.py\<close>), and compares the two
  sides before cut over (\<^verbatim>\<open>validator.py\<close>, with parts of \<^verbatim>\<open>validation_sql.py\<close> and \<^verbatim>\<open>models.py\<close>).
  Columns excluded from the migration are made nullable on the target without their DEFAULTs, which a
  ledger records until cut over (\<^verbatim>\<open>overlay_ledger.py\<close>, \<^verbatim>\<open>schema_applier.py\<close>); a source schema that changes
  during CDC is repaired on the target by a reviewed plan (\<^verbatim>\<open>cdc_schema_evolve.py\<close>); and the session of the
  workbench survives the process (\<^verbatim>\<open>session_state_store.py\<close>).

  \<^bold>\<open>Conventions.\<close> A Python exception is a value of \<open>pyexc\<close> (its SQLSTATE, class names, message and
  constraint); a raise is \<open>Inl\<close>, a return \<open>Inr\<close>. An \<open>action\<close> is a state transformer that always answers
  (a call of a driver), a \<open>proc\<close> one that may also never return (\<open>None\<close>). A \<open>dict\<close> is an association list
  in insertion order, a row a dictionary of Python values. What lies outside \<^verbatim>\<open>src/\<close> (the database drivers,
  the two databases, clocks, random numbers, \<open>uuid\<close>) is a field of the operations' records
  (\<open>load_ops\<close>, \<open>store_ops\<close>, \<open>pg_conn\<close>, \<open>my_conn\<close>, \<open>validator\<close>, \<open>overlay_ops\<close>, \<open>bucket_ops\<close>, \<open>fix_env\<close>), and what the code relies on is the
  assumptions of a locale over them, interpreted on a database in memory.

  \<^bold>\<open>Theories.\<close>
  \<^item> \<open>Prelude\<close>, \<open>PyString\<close>, \<open>Loop\<close>: exceptions, dictionaries, Python's string functions, and
    \<open>while True\<close> as a partial function with its rules for total and partial correctness.
  \<^item> \<open>Occ\<close>: \<^verbatim>\<open>occ.py\<close> and the error classes of \<^verbatim>\<open>target_connection.py\<close>; the retry loop calls its
    operation at most \<open>max_attempts\<close> times and answers with its last outcome.
  \<^item> \<open>Batching\<close>, \<open>Works\<close>: batch sizes, row estimates, work numbering and the resume tracker; no row is
    lost or repeated, every statement keeps to the limits, the high-water is a prefix of done batches.
  \<^item> \<open>Pipeline\<close>: the bounded submission and its drains (\<open>run_data_batches\<close>); every batch is accounted for.
  \<^item> \<open>ConnPool\<close>: the connection pool as a step relation over interleaved leases; no slot is leaked, and a
    session that ended is not reused.
  \<^item> \<open>Loader\<close>, \<open>MemTarget\<close>: every write path of a batch over a target that may do anything that
    \<open>target_db\<close> allows, and the database in memory that interprets it.
  \<^item> \<open>LoadRun\<close> and this theory: \<open>import_rows\<close> as a whole; a load cut short and resumed ends with every row
    on the target or in quarantine.
  \<^item> \<open>IndexPass\<close>: the index statements, isolated from each other. \<open>Poison\<close>: value-free error texts.
  \<^item> \<open>JobStore\<close>, \<open>JobManager\<close>: the stores against one abstract list of jobs, and the manager as a step
    relation with its worker, its stop, its watchdog and its restart.
  \<^item> \<open>Keyset\<close>: shard ranges and the paged read of the source (\<open>exporter.py\<close>), exact over a snapshot.
  \<^item> \<open>Pages\<close>: the validator's bounded counts and checksums of a PostgreSQL or Aurora DSQL table and the NULL
    proof that rides on them. \<open>Reconcile\<close>: the two key generators and their merge, and the sample of
    diverging keys. \<open>MySource\<close>: the MySQL side, with its ENUM walk and its fallback to one statement.
  \<^item> \<open>Validate\<close>: \<open>_compare_table\<close> with the stale-inventory gate and the proof's fallback. \<open>Report\<close>: a table's
    failure isolated, orphan rows, the serial and the pooled run, drift and the report's verdict.
  \<^item> \<open>Ledger\<close>: the rules of the exclusion record, which columns a run overlays, when an append is refused, what
    the record says afterwards; no DEFAULT is lost and no row is left between NULL and a value.
    \<open>LedgerStore\<close>: the ledger on S3 (compare and swap with retries) and on SQLite (one transaction), and a
    run's view of it; a write is atomic whatever fails.
  \<^item> \<open>SqlExpr\<close>: the scan that decides whether a recorded DEFAULT is one SQL expression, and the grammar it
    accepts. \<open>Overlay\<close>: the catalog
    read, the unit that changes the columns and replays itself over lost connections, and the restore at cut
    over. \<open>OverlayWriter\<close>: the facts of several tables and the engine's writer, which records before it alters;
    between the target and the ledger no DEFAULT is ever lost.
  \<^item> \<open>SessionStore\<close>: the stores of session snapshots, and the S3 one with its background writer as a step
    relation; what a save or a delete promises is carried beside the state and shown to hold.
  \<^item> \<open>TargetFix\<close>: the plan of ADD and RENAME COLUMN statements for a source schema that changed, and its
    application; the target keeps its contents and no source column is forgotten.

  \<^bold>\<open>Termination.\<close> The binary split is by the number of rows, the retry loops by their attempts, the ENUM
  walk and the paged reads of an export by a fuel of one more than the snapshot's rows (each page but the last
  takes one). The validator's loops have no fuel: they are \<open>while_true\<close>, and that they end is proved, against any
  server where pages are held to a count, and over a snapshot elsewhere. The overlay's unit reconnects at most
  \<open>max_attempts\<close> times and the catalog read \<open>FACTS_RECONNECTS\<close> (2) times, as the code bounds them.

  \<^bold>\<open>Bounds of the model.\<close> A batch takes effect when it is drained, so that threads are the order of the
  drains; delays are reals; strings are Latin-1, byte sizes are those of UTF-8; a checksum is the integer its text
  denotes; the text of a statement is represented by what it is rendered from, and the order in which the database
  sorts keys by the order in which its pages return them.

  \<^bold>\<open>Not modelled.\<close> The user interface; schema, query and DDL conversion (sqlglot); the assessment and the
  catalogs; CDC streaming and AWS deployment, whose effects are in services; the S3 job store; value converters
  and CSV export; connection opening, snapshots and savepoints; log lines, progress callbacks and timings. Of the
  overlay: the key under which a ledger is stored (a hash of the endpoint), the primary-key read of its facts, the
  wording of its hints and the pre-pass over many tables. Of a session: the fields of its snapshot and their JSON.
  The manifest lists every part with its reason.
\<close>

section \<open>The load, end to end\<close>

text \<open>
  What a load's settings must be for its success to mean that every row is stored: the key is
  among the columns, and the mode is one in which a returned \<open>INSERT\<close> has stored its rows
  (\<open>reliable\<close>), or the key-less plain \<open>INSERT\<close>, whose row count the loader checks.
\<close>

definition load_spec_ok :: "(on_conflict_mode \<Rightarrow> bool) \<Rightarrow> work_spec \<Rightarrow> bool" where
  "load_spec_ok reliable spec =
     (ws_columns spec \<noteq> [] \<and> set (ws_keys spec) \<subseteq> set (ws_columns spec)
      \<and> \<not> (ws_mode spec = DO_UPDATE \<and> ws_keys spec = [])
      \<and> (case ws_mode spec of
            NONE \<Rightarrow> ws_keys spec = [] \<or> reliable NONE
          | SKIP_EXISTING \<Rightarrow> reliable NONE
          | mode \<Rightarrow> reliable mode))"

text \<open>A row is settled: on the target under its key, or in quarantine under its identity.\<close>

definition settled :: "('c, 't) load_ops \<Rightarrow> ('t \<Rightarrow> string \<Rightarrow> string list \<Rightarrow> pyval list \<Rightarrow> bool) \<Rightarrow> work_spec \<Rightarrow>
    ('c, 't) loader \<Rightarrow> pyrow \<Rightarrow> bool" where
  "settled ops holds spec s row =
     (let w = make_work spec None 0 []
      in holds (target s) (w_table w) (ident_names w) (key_of (ident_names w) row)
         \<or> quarantined_row_identity ops w row \<in> set (quarantine_seen s))"

lemma settled_covered:
  assumes "target_db ops holds reliable"
  shows "target_db.covered ops holds (make_work spec sh i b) rows s = (\<forall>row \<in> set rows. settled ops holds spec s row)"
  by (auto simp: settled_def target_db.covered_def [OF assms] target_db.stored_def [OF assms] ident_names_def
      quarantined_row_identity_def Let_def)

lemma spec_trusted:
  assumes "importer env holds reliable n" "load_spec_ok reliable spec"
  shows "importer.spec_trusted reliable spec"
proof -
  note t = importer.axioms(1) [OF assms(1)]
  from assms(2) show ?thesis
    by (auto simp: importer.spec_trusted_def [OF assms(1)] target_db.trusted_def [OF t] load_spec_ok_def
        split: on_conflict_mode.splits)
qed

text \<open>
  C1: a load that was cut short and resumed loads everything. Whatever ended the first call (a
  source read error, failed batches, a cancel, an exception), a second one over the whole source at the
  high-water the first handed back, once it ends without a failed batch, leaves every row of the source
  on the target or in quarantine, the rows it skipped included.
\<close>

theorem resumed_load_converges:
  assumes "importer env holds reliable n" "load_spec_ok reliable spec" "merge_ok (ie_merge env)" "0 < n"
    and "spec = import_spec opts table kc mode" "opt_parallelism opts = n"
    and "all_work spec part \<subseteq> all_work spec source"
    and "import_rows env opts table kc mode ddls1 (Some []) part s = (r1, s1, Some W1)"
    and "import_rows env opts table kc mode ddls2 (Some W1) source s1 = (Inr res, s2, W2)"
    and "ir_failures res = 0" "\<not> ir_cancelled res" "row \<in> set (source_rows source)"
  shows "settled (ie_load env) holds spec s2 row"
  using importer.resume_converges [OF assms(1,5) spec_trusted [OF assms(1,2)] assms(6,3,4,7-12)]
  by (simp add: settled_covered [OF importer.axioms(1) [OF assms(1)]])

text \<open>
  C2: the resume point never runs ahead of the data. Whatever a call ends with, every batch between the
  high-water it started from and the one it hands back exists in the source and has each of its rows on
  the target or in quarantine.
\<close>

theorem high_water_is_committed:
  assumes "importer env holds reliable n" "load_spec_ok reliable spec" "merge_ok (ie_merge env)" "0 < n"
    and "spec = import_spec opts table kc mode" "opt_parallelism opts = n"
    and "import_rows env opts table kc mode ddls (Some W) source s = (r, s', Some W')"
    and "high_water_of W sh < i" "i \<le> high_water_of W' sh"
  shows "\<exists>w \<in> all_work spec source. w_shard w = sh \<and> int (w_index w) = i
    \<and> (\<forall>row \<in> set (w_rows w). settled (ie_load env) holds spec s' row)"
proof -
  from importer.import_rows_sound(1) [OF assms(1,5) spec_trusted [OF assms(1,2)] assms(6,3,4,7)] assms(8,9)
  obtain w where w: "w \<in> all_work spec source" "w_shard w = sh" "int (w_index w) = i"
    "target_db.covered (ie_load env) holds w (w_rows w) s'" by blast
  with all_work_made [OF w(1)] settled_covered [OF importer.axioms(1) [OF assms(1)]] show ?thesis by metis
qed

text \<open>
  C3: a clean load is a complete one. A call that answers without a failed batch and was not cancelled
  had a source that did not raise, and every batch past its starting high-water has each of its rows on
  the target or in quarantine.
\<close>

theorem clean_load_is_complete:
  assumes "importer env holds reliable n" "load_spec_ok reliable spec" "merge_ok (ie_merge env)" "0 < n"
    and "spec = import_spec opts table kc mode" "opt_parallelism opts = n"
    and "import_rows env opts table kc mode ddls (Some W) source s = (Inr res, s', Some W')"
    and "ir_failures res = 0" "\<not> ir_cancelled res"
  shows "source_ended source \<and> (\<forall>w \<in> all_work spec source. beyond W w \<longrightarrow>
    (\<forall>row \<in> set (w_rows w). settled (ie_load env) holds spec s' row))"
proof -
  note sound = importer.import_rows_sound(2) [OF assms(1,5) spec_trusted [OF assms(1,2)] assms(6,3,4,7) refl assms(8,9)]
  have "\<forall>row \<in> set (w_rows w). settled (ie_load env) holds spec s' row"
    if w: "w \<in> all_work spec source" "beyond W w" for w
    using sound w all_work_made [OF w(1)] settled_covered [OF importer.axioms(1) [OF assms(1)]] by metis
  with sound show ?thesis by blast
qed

definition demo_opts :: import_options where
  "demo_opts = \<lparr>opt_batch_size = 1, opt_key_columns = [], opt_on_conflict = DO_NOTHING, opt_parallelism = 1\<rparr>"

definition demo_table :: table_def where
  "demo_table = \<lparr>td_name = ''t'', td_columns = [''id''], td_primary_key = [''id'']\<rparr>"

definition demo_spec :: work_spec where
  "demo_spec = import_spec demo_opts demo_table None None"

definition demo_row :: "nat \<Rightarrow> pyrow" where
  "demo_row n = [(''id'', PInt (int n))]"

definition demo_cut :: row_source where
  "demo_cut = Single ([demo_row 1], Some (raise_named ''SourceError'' ''gone''))"

definition demo_source :: row_source where
  "demo_source = Single ([demo_row 1, demo_row 2], None)"

abbreviation demo_first where
  "demo_first \<equiv> import_rows (mem_env 100 10) demo_opts demo_table None None [] (Some []) demo_cut (mem_start [])"

text \<open>The importer after the first call: one row stored, one connection pooled.\<close>

definition demo_mid :: "(unit, mem_db) loader" where
  "demo_mid = \<lparr>target = [(''t'', demo_row 1)], slots = [Conn ()], created = [],
     events = [Connected False, Statement 1, BatchTimed False], quarantine = [], quarantine_total = 0,
     quarantine_seen = [], pk_indexes = [], attempts = 1\<rparr>"

abbreviation demo_second where
  "demo_second \<equiv> import_rows (mem_env 100 10) demo_opts demo_table None None [] (Some [('''', 0)]) demo_source demo_mid"

lemma demo_ok: "load_spec_ok (\<lambda>_. True) demo_spec"
  by (simp add: load_spec_ok_def demo_spec_def import_spec_def import_keys_def demo_opts_def demo_table_def)

lemma demo_first_run: "demo_first = (Inl (raise_named ''SourceError'' ''gone''), demo_mid, Some [('''', 0)])"
  by code_simp

lemma demo_second_run: "\<exists>res s2 W2. demo_second = (Inr res, s2, W2) \<and> ir_failures res = 0 \<and> \<not> ir_cancelled res"
proof -
  have "(case fst demo_second of Inr res \<Rightarrow> ir_failures res = 0 \<and> \<not> ir_cancelled res | Inl _ \<Rightarrow> False) = True"
    by code_simp
  then show ?thesis by (cases demo_second) (auto split: sum.splits)
qed

theorem resumed_load_converges_witness:
  "\<exists>s2. settled (mem_ops 100 10) mem_holds demo_spec s2 (demo_row 1)"
proof -
  from demo_second_run obtain res s2 W2 where second: "demo_second = (Inr res, s2, W2)" "ir_failures res = 0" "\<not> ir_cancelled res"
    by blast
  have cut: "all_work demo_spec demo_cut \<subseteq> all_work demo_spec demo_source"
    using iter_work_cut [of demo_spec None "[demo_row 1]" "raise_named ''SourceError'' ''gone''" "[demo_row 2]"]
    by (simp add: demo_cut_def demo_source_def)
  have "settled (ie_load (mem_env 100 10)) mem_holds demo_spec s2 (demo_row 1)"
    by (rule resumed_load_converges [OF memrun.importer_axioms [of 100 10 1] demo_ok mem_merge _ demo_spec_def _ cut
          demo_first_run second(1) second(2,3)])
      (simp_all add: demo_opts_def demo_source_def)
  then show ?thesis by auto
qed

theorem high_water_is_committed_witness:
  "\<exists>w \<in> all_work demo_spec demo_cut. int (w_index w) = 0
     \<and> (\<forall>row \<in> set (w_rows w). settled (mem_ops 100 10) mem_holds demo_spec demo_mid row)"
  using high_water_is_committed [OF memrun.importer_axioms [of 100 10 1] demo_ok mem_merge _ demo_spec_def _
      demo_first_run, of None 0]
  by (auto simp: demo_opts_def high_water_of_def shard_key_def)

lemma demo_second_mark: "snd (snd demo_second) = Some [('''', 1)]"
  by code_simp

theorem clean_load_is_complete_witness:
  "\<exists>s2. \<forall>row \<in> set [demo_row 2]. settled (mem_ops 100 10) mem_holds demo_spec s2 row"
proof -
  from demo_second_run demo_second_mark obtain res s2 where
    second: "demo_second = (Inr res, s2, Some [('''', 1)])" "ir_failures res = 0" "\<not> ir_cancelled res" by auto
  have w: "make_work demo_spec None 1 [demo_row 2] \<in> all_work demo_spec demo_source"
    by (simp add: demo_source_def iter_work_all iter_batches_def spec_size_def effective_batch_size_def demo_spec_def
        import_spec_def import_keys_def demo_opts_def demo_table_def MAX_STATEMENT_PARAMETERS_def MAX_BATCH_BYTES_def
        estimate_row_bytes_def value_bytes_def demo_row_def int_str_def Let_def nat_str.simps)
  have "\<forall>w \<in> all_work demo_spec demo_source. beyond [('''', 0)] w \<longrightarrow>
      (\<forall>row \<in> set (w_rows w). settled (ie_load (mem_env 100 10)) mem_holds demo_spec s2 row)"
    by (rule conjunct2 [OF clean_load_is_complete [OF memrun.importer_axioms [of 100 10 1] demo_ok mem_merge _ demo_spec_def _
          second(1) second(2,3)]]) (simp_all add: demo_opts_def)
  with w show ?thesis by (auto simp: beyond_def high_water_of_def shard_key_def intro!: exI [of _ s2])
qed

end
